(* ===== verification/Prelude.thy ===== *)
theory Prelude
  imports Main "HOL-Library.Word" "HOL-Library.Multiset" "HOL-Library.Finite_Map"
begin

text \<open>
  What every component of the development shares.

  \<^item> Go values: a Go \<open>string\<close> and a Go \<open>[]byte\<close> are both sequences of bytes and a HOL
    \<^typ>\<open>char\<close> is a byte, so both are \<^typ>\<open>string\<close>; where the code distinguishes a
    nil slice from an empty one the model uses an option.  \<open>time.Time\<close> and
    \<open>time.Duration\<close> are integers (nanoseconds); every call of \<open>time.Now()\<close> is an
    argument of the definition that makes it.
  \<^item> Go outcomes: a call either returns or panics (\<open>go\<close>); an error that is returned is a
    value of a sum type inside the returned value.
  \<^item> Go maps: \<open>for k := range m\<close> visits the keys of \<open>m\<close> in an order the language leaves
    open, so a definition that ranges over a map takes the order as a list of keys;
    \<open>enumerates\<close> says that the list is such an order.
  \<^item> Generic lemmas on folds that write maps, and the locale of steps that commute, from
    which every ``the iteration order does not matter'' result is derived.
\<close>

named_theorems go_simps \<open>rewriting through returned values and panics\<close>
named_theorems order_free \<open>results that do not depend on the iteration order of a map\<close>

type_synonym bytes = string
type_synonym time = int
type_synonym duration = int
type_synonym u8 = "8 word"
type_synonym u32 = "32 word"
type_synonym u64 = "64 word"

section \<open>Outcomes of a Go call\<close>

datatype 'a go = Return 'a | Panic

definition go_bind :: "'a go \<Rightarrow> ('a \<Rightarrow> 'b go) \<Rightarrow> 'b go" where
  "go_bind x f = (case x of Return a \<Rightarrow> f a | Panic \<Rightarrow> Panic)"

lemma go_bind_simps [simp, go_simps]:
  "go_bind (Return a) f = f a"
  "go_bind Panic f = Panic"
  by (simp_all add: go_bind_def)

lemma go_bind_Return_iff [go_simps]:
  "go_bind x f = Return b \<longleftrightarrow> (\<exists>a. x = Return a \<and> f a = Return b)"
  by (cases x) auto

text \<open>Indexing a slice: out of range panics.\<close>

definition go_index :: "'a list \<Rightarrow> nat \<Rightarrow> 'a go" where
  "go_index xs i = (if i < length xs then Return (xs ! i) else Panic)"

lemma go_index_in [simp, go_simps]: "i < length xs \<Longrightarrow> go_index xs i = Return (xs ! i)"
  by (simp add: go_index_def)

lemma go_index_out [simp, go_simps]: "length xs \<le> i \<Longrightarrow> go_index xs i = Panic"
  by (simp add: go_index_def)

definition go_set :: "'a list \<Rightarrow> nat \<Rightarrow> 'a \<Rightarrow> 'a list go" where
  "go_set xs i v = (if i < length xs then Return (xs[i := v]) else Panic)"

lemma go_set_in [simp, go_simps]: "i < length xs \<Longrightarrow> go_set xs i v = Return (xs[i := v])"
  by (simp add: go_set_def)

lemma go_set_out [simp, go_simps]: "length xs \<le> i \<Longrightarrow> go_set xs i v = Panic"
  by (simp add: go_set_def)

section \<open>Iteration over maps\<close>

definition enumerates :: "'k list \<Rightarrow> ('k \<rightharpoonup> 'v) \<Rightarrow> bool" where
  "enumerates ks m \<longleftrightarrow> distinct ks \<and> set ks = dom m"

lemma enumerates_set: "enumerates ks m \<Longrightarrow> set ks = dom m"
  by (simp add: enumerates_def)

lemma enumerates_distinct: "enumerates ks m \<Longrightarrow> distinct ks"
  by (simp add: enumerates_def)

lemma enumerates_empty [simp]: "enumerates [] m \<longleftrightarrow> m = Map.empty"
  by (auto simp: enumerates_def)

text \<open>
  A loop over a map whose body, for different keys, commutes: the result is the same for
  every order of the keys.
\<close>

locale commuting_steps =
  fixes step :: "'k \<Rightarrow> 's \<Rightarrow> 's"
  assumes commute: "k \<noteq> k' \<Longrightarrow> step k (step k' s) = step k' (step k s)"
begin

lemma fold_remove1:
  "distinct ks \<Longrightarrow> k \<in> set ks \<Longrightarrow> fold step ks s = fold step (remove1 k ks) (step k s)"
proof (induction ks arbitrary: s)
  case Nil
  then show ?case by simp
next
  case (Cons a ks)
  show ?case
  proof (cases "a = k")
    case True
    then show ?thesis by simp
  next
    case False
    with Cons show ?thesis by (simp add: commute)
  qed
qed

lemma fold_order:
  "distinct ks \<Longrightarrow> distinct ks' \<Longrightarrow> set ks = set ks' \<Longrightarrow> fold step ks s = fold step ks' s"
proof (induction ks arbitrary: ks' s)
  case Nil
  then show ?case by simp
next
  case (Cons k ks)
  have k: "k \<in> set ks'" using Cons.prems(3) by auto
  have rest: "distinct (remove1 k ks')" "set ks = set (remove1 k ks')"
    using Cons.prems by (auto simp: set_remove1_eq)
  have "fold step (k # ks) s = fold step ks (step k s)" by simp
  also have "\<dots> = fold step (remove1 k ks') (step k s)"
    using Cons.IH [OF _ rest] Cons.prems(1) by simp
  also have "\<dots> = fold step ks' s"
    by (rule fold_remove1 [OF Cons.prems(2) k, symmetric])
  finally show ?case .
qed

lemma fold_enumerates:
  "enumerates ks m \<Longrightarrow> enumerates ks' m \<Longrightarrow> fold step ks s = fold step ks' s"
  by (rule fold_order) (simp_all add: enumerates_def)

end

text \<open>The commonest such body: write one entry per key.\<close>

definition put_all :: "('k \<Rightarrow> 'v) \<Rightarrow> 'k list \<Rightarrow> ('k \<rightharpoonup> 'v) \<Rightarrow> ('k \<rightharpoonup> 'v)" where
  "put_all f ks m = fold (\<lambda>k m. m(k \<mapsto> f k)) ks m"

interpretation put: commuting_steps "\<lambda>k m. m(k \<mapsto> f k)" for f :: "'k \<Rightarrow> 'v"
  by unfold_locales (simp add: fun_upd_twist)

lemma put_all_simps [simp]:
  "put_all f [] m = m"
  "put_all f (k # ks) m = put_all f ks (m(k \<mapsto> f k))"
  by (simp_all add: put_all_def)

lemma put_all_lookup: "put_all f ks m k = (if k \<in> set ks then Some (f k) else m k)"
  by (induction ks arbitrary: m) auto

lemma put_all_order [order_free]:
  "set ks = set ks' \<Longrightarrow> put_all f ks m = put_all f ks' m"
  by (rule ext) (simp add: put_all_lookup)

lemma dom_put_all: "dom (put_all f ks m) = dom m \<union> set ks"
  by (auto simp: put_all_lookup dom_def split: if_splits)

section \<open>Searching a list\<close>

text \<open>\<open>for k := range \<dots> { if \<dots> { r = \<dots>; break } }\<close>: the first hit, if any.\<close>

fun first_hit :: "('a \<Rightarrow> 'b option) \<Rightarrow> 'a list \<Rightarrow> 'b option" where
  "first_hit f [] = None"
| "first_hit f (x # xs) = (case f x of Some y \<Rightarrow> Some y | None \<Rightarrow> first_hit f xs)"

lemma first_hit_None_iff: "first_hit f xs = None \<longleftrightarrow> (\<forall>x \<in> set xs. f x = None)"
  by (induction xs) (auto split: option.splits)

lemma first_hit_Some: "first_hit f xs = Some y \<Longrightarrow> \<exists>x \<in> set xs. f x = Some y"
  by (induction xs) (auto split: option.splits)

lemma first_hit_ex_order [order_free]:
  "set xs = set ys \<Longrightarrow> first_hit f xs = None \<longleftrightarrow> first_hit f ys = None"
  by (simp add: first_hit_None_iff)

section \<open>Loops that stop at the first error\<close>

text \<open>
  \<open>for _, x := range xs { if err := f(x); err != nil { return err } }\<close>, with a state
  threaded through.
\<close>

fun fold_err :: "('a \<Rightarrow> 's \<Rightarrow> 'e + 's) \<Rightarrow> 'a list \<Rightarrow> 's \<Rightarrow> 'e + 's" where
  "fold_err f [] s = Inr s"
| "fold_err f (x # xs) s = (case f x s of Inl e \<Rightarrow> Inl e | Inr s' \<Rightarrow> fold_err f xs s')"

lemma fold_err_inv:
  assumes "fold_err f xs s = Inr s'" "P s"
    and "\<And>x s s'. x \<in> set xs \<Longrightarrow> P s \<Longrightarrow> f x s = Inr s' \<Longrightarrow> P s'"
  shows "P s'"
  using assms
proof (induction xs arbitrary: s)
  case Nil
  then show ?case by simp
next
  case (Cons x xs)
  from Cons.prems(1) obtain s1 where s1: "f x s = Inr s1" "fold_err f xs s1 = Inr s'"
    by (auto split: sum.splits)
  have "P s1" using Cons.prems(3) [of x s s1] Cons.prems(2) s1(1) by simp
  then show ?case using Cons.IH [OF s1(2)] Cons.prems(3) by (metis list.set_intros(2))
qed

lemma fold_err_append:
  "fold_err f (xs @ ys) s =
     (case fold_err f xs s of Inl e \<Rightarrow> Inl e | Inr s' \<Rightarrow> fold_err f ys s')"
  by (induction xs arbitrary: s) (auto split: sum.splits)

section \<open>Replicas of a log\<close>

text \<open>
  An operation that handles one entry of a log in local surroundings \<open>e\<close> (a clock, iteration
  orders, a queue others drain), and an observation of the state on which the surroundings
  have no influence.  Replicas that handle the same log then agree on the observation.
\<close>

locale replicated_log =
  fixes app :: "'e \<Rightarrow> 'r \<Rightarrow> 's \<Rightarrow> 's" and obs :: "'s \<Rightarrow> 'v"
    and ok :: "'r \<Rightarrow> 'e \<Rightarrow> bool" and astep :: "'r \<Rightarrow> 'v \<Rightarrow> 'v"
  assumes simulates: "ok r e \<Longrightarrow> obs (app e r s) = astep r (obs s)"
begin

lemma run:
  "list_all2 ok rs es \<Longrightarrow> obs (fold (\<lambda>(e, r). app e r) (zip es rs) s) = fold astep rs (obs s)"
  by (induction rs es arbitrary: s rule: list_all2_induct) (simp_all add: simulates)

lemma agreement:
  "list_all2 ok rs es \<Longrightarrow> list_all2 ok rs es' \<Longrightarrow> obs s = obs s' \<Longrightarrow>
     obs (fold (\<lambda>(e, r). app e r) (zip es rs) s) = obs (fold (\<lambda>(e, r). app e r) (zip es' rs) s')"
  by (simp add: run)

end

end
