(* ===== verification/Tx_DAG.thy ===== *)
theory Tx_DAG
  imports Prelude
begin

text \<open>
  The transaction dependency graph of the committer
  (\<^verbatim>\<open>core/committer/committer_impl.go\<close>): the \<open>TransactionDAG\<close> record, the
  operations that fill it, the level computation of \<open>CalculateLevels\<close> and the grouping by
  level.  The level computation ranges over a Go map in every pass of its loop; the model
  takes the order of each pass as an argument.  The lemmas characterise the computed levels
  by the relation \<open>has_level\<close>, which mentions no order and no loop.
\<close>

record TransactionDependency =
  td_TxID :: string
  td_DependentTxIDs :: "string list"
  td_HasDependency :: bool

type_synonym nodes = "(string, TransactionDependency) fmap"
type_synonym levels = "string \<rightharpoonup> int"

record TransactionDAG =
  dag_Nodes :: nodes
  dag_Dependencies :: "string \<rightharpoonup> string list"
  dag_Levels :: levels
  dag_ValidationResults :: "string \<rightharpoonup> bool"
  dag_TxIndices :: "string \<rightharpoonup> nat"

definition NewTransactionDAG :: TransactionDAG where
  "NewTransactionDAG =
     \<lparr>dag_Nodes = fmempty, dag_Dependencies = Map.empty, dag_Levels = Map.empty,
      dag_ValidationResults = Map.empty, dag_TxIndices = Map.empty\<rparr>"

definition AddTransaction ::
    "string \<Rightarrow> nat \<Rightarrow> bool \<Rightarrow> string \<Rightarrow> TransactionDAG \<Rightarrow> TransactionDAG" where
  "AddTransaction txID txIndex hasDependency dependentTxID dag =
     (let dag1 = dag\<lparr>dag_TxIndices := (dag_TxIndices dag)(txID \<mapsto> txIndex)\<rparr>;
          dag2 = (case fmlookup (dag_Nodes dag1) txID of
                    Some _ \<Rightarrow> dag1
                  | None \<Rightarrow> dag1\<lparr>dag_Nodes := fmupd txID
                      \<lparr>td_TxID = txID, td_DependentTxIDs = [], td_HasDependency = hasDependency\<rparr>
                      (dag_Nodes dag1)\<rparr>)
      in if hasDependency \<and> dependentTxID \<noteq> []
         then (let dag3 = (case fmlookup (dag_Nodes dag2) txID of
                             Some txDep \<Rightarrow> dag2\<lparr>dag_Nodes := fmupd txID
                               (txDep\<lparr>td_DependentTxIDs := td_DependentTxIDs txDep @ [dependentTxID]\<rparr>)
                               (dag_Nodes dag2)\<rparr>
                           | None \<Rightarrow> dag2);
                   existing = (case dag_Dependencies dag3 dependentTxID of
                                 Some ts \<Rightarrow> ts | None \<Rightarrow> [])
               in dag3\<lparr>dag_Dependencies :=
                         (dag_Dependencies dag3)(dependentTxID \<mapsto> existing @ [txID])\<rparr>)
         else dag2)"

section \<open>CalculateLevels\<close>

definition no_deps :: "TransactionDependency \<Rightarrow> bool" where
  "no_deps node \<longleftrightarrow> \<not> td_HasDependency node \<or> td_DependentTxIDs node = []"

text \<open>First pass: transactions with no dependencies get level 0.\<close>

definition level_init_step :: "nodes \<Rightarrow> string \<Rightarrow> levels \<Rightarrow> levels" where
  "level_init_step nodes txID lv =
     (case fmlookup nodes txID of
        Some node \<Rightarrow> if no_deps node then lv(txID \<mapsto> 0) else lv
      | None \<Rightarrow> lv)"

definition level_init :: "nodes \<Rightarrow> string list \<Rightarrow> levels" where
  "level_init nodes order = fold (level_init_step nodes) order Map.empty"

text \<open>
  The inner loop over a node's dependencies: \<^term>\<open>None\<close> when one of them has no level yet
  (\<open>allDepsHaveLevel = false\<close>), otherwise the largest level seen, starting from
  \<open>maxDepLevel = -1\<close>.
\<close>

fun dep_scan :: "levels \<Rightarrow> string list \<Rightarrow> int \<Rightarrow> int option" where
  "dep_scan lv [] maxDepLevel = Some maxDepLevel"
| "dep_scan lv (depTxID # ds) maxDepLevel =
     (case lv depTxID of
        Some level \<Rightarrow> dep_scan lv ds (if level > maxDepLevel then level else maxDepLevel)
      | None \<Rightarrow> None)"

definition level_visit :: "nodes \<Rightarrow> string \<Rightarrow> bool \<times> levels \<Rightarrow> bool \<times> levels" where
  "level_visit nodes txID cl =
     (let (changed, lv) = cl in
      case fmlookup nodes txID of
        None \<Rightarrow> (changed, lv)
      | Some node \<Rightarrow>
          if lv txID \<noteq> None then (changed, lv)
          else (case dep_scan lv (td_DependentTxIDs node) (- 1) of
                  Some maxDepLevel \<Rightarrow> (True, lv(txID \<mapsto> maxDepLevel + 1))
                | None \<Rightarrow> (changed, lv)))"

definition level_pass :: "nodes \<Rightarrow> string list \<Rightarrow> levels \<Rightarrow> bool \<times> levels" where
  "level_pass nodes order lv = fold (level_visit nodes) order (False, lv)"

definition unlevelled :: "nodes \<Rightarrow> levels \<Rightarrow> string fset" where
  "unlevelled nodes lv = ffilter (\<lambda>k. lv k = None) (fmdom nodes)"

lemma level_visit_mono:
  "level_visit nodes k (c, lv) = (c', lv') \<Longrightarrow> lv \<subseteq>\<^sub>m lv' \<and> (c \<longrightarrow> c')"
  by (auto simp: level_visit_def map_le_def split: option.splits if_splits)

lemma level_visits_mono:
  "fold (level_visit nodes) ks (c, lv) = (c', lv') \<Longrightarrow> lv \<subseteq>\<^sub>m lv' \<and> (c \<longrightarrow> c')"
proof (induction ks arbitrary: c lv)
  case Nil
  then show ?case by simp
next
  case (Cons k ks)
  obtain c1 lv1 where v: "level_visit nodes k (c, lv) = (c1, lv1)" by fastforce
  with Cons.prems have "fold (level_visit nodes) ks (c1, lv1) = (c', lv')" by simp
  from Cons.IH [OF this] level_visit_mono [OF v] show ?case
    by (auto intro: map_le_trans)
qed

lemma unlevelled_mono: "lv \<subseteq>\<^sub>m lv' \<Longrightarrow> unlevelled nodes lv' |\<subseteq>| unlevelled nodes lv"
  by (force simp: unlevelled_def map_le_def dom_def)

lemma level_visit_shrinks:
  "level_visit nodes k (False, lv) = (True, lv') \<Longrightarrow>
     k |\<in>| unlevelled nodes lv \<and> k |\<notin>| unlevelled nodes lv'"
  by (auto simp: level_visit_def unlevelled_def split: option.splits if_splits
        intro: fmdomI)

lemma level_visits_shrink:
  "fold (level_visit nodes) ks (False, lv) = (True, lv') \<Longrightarrow>
     unlevelled nodes lv' |\<subset>| unlevelled nodes lv"
proof (induction ks arbitrary: lv)
  case Nil
  then show ?case by simp
next
  case (Cons k ks)
  obtain c1 lv1 where v: "level_visit nodes k (False, lv) = (c1, lv1)" by fastforce
  with Cons.prems have rest: "fold (level_visit nodes) ks (c1, lv1) = (True, lv')" by simp
  have le: "lv \<subseteq>\<^sub>m lv1" using level_visit_mono [OF v] by simp
  show ?case
  proof (cases c1)
    case True
    have "k |\<in>| unlevelled nodes lv" "k |\<notin>| unlevelled nodes lv1"
      using level_visit_shrinks [of nodes k lv lv1] v True by simp_all
    moreover have "unlevelled nodes lv1 |\<subseteq>| unlevelled nodes lv"
      using le by (rule unlevelled_mono)
    moreover have "unlevelled nodes lv' |\<subseteq>| unlevelled nodes lv1"
      using level_visits_mono [OF rest] by (simp add: unlevelled_mono)
    ultimately show ?thesis by blast
  next
    case False
    with rest Cons.IH [of lv1] unlevelled_mono [OF le] show ?thesis by auto
  qed
qed

function level_loop :: "nodes \<Rightarrow> (nat \<Rightarrow> string list) \<Rightarrow> nat \<Rightarrow> levels \<Rightarrow> levels" where
  "level_loop nodes passes i lv =
     (case level_pass nodes (passes i) lv of
        (changed, lv') \<Rightarrow> if changed then level_loop nodes passes (Suc i) lv' else lv')"
  by pat_completeness auto
termination
proof (relation "measure (\<lambda>(nodes, passes, i, lv). fcard (unlevelled nodes lv))", goal_cases)
  case 1
  show ?case by simp
next
  case (2 nodes passes i lv changed lv')
  then have "fold (level_visit nodes) (passes i) (False, lv) = (True, lv')"
    by (simp add: level_pass_def)
  then have "unlevelled nodes lv' |\<subset>| unlevelled nodes lv"
    by (rule level_visits_shrink)
  then show ?case by (simp add: pfsubset_fcard_mono)
qed

declare level_loop.simps [simp del]

text \<open>Last pass: whatever has no level (circular dependencies) is set to level 0.\<close>

definition level_rest :: "string list \<Rightarrow> levels \<Rightarrow> levels" where
  "level_rest order lv = fold (\<lambda>txID lv. if lv txID = None then lv(txID \<mapsto> 0) else lv) order lv"

definition CalculateLevels ::
    "string list \<Rightarrow> (nat \<Rightarrow> string list) \<Rightarrow> string list \<Rightarrow> TransactionDAG \<Rightarrow> TransactionDAG" where
  "CalculateLevels initOrder passes restOrder dag =
     (let lv0 = level_init (dag_Nodes dag) initOrder;
          lv1 = level_loop (dag_Nodes dag) passes 0 lv0
      in dag\<lparr>dag_Levels := level_rest restOrder lv1\<rparr>)"

section \<open>The remaining operations\<close>

definition GetTransactionsByLevel :: "string list \<Rightarrow> TransactionDAG \<Rightarrow> int \<rightharpoonup> string list" where
  "GetTransactionsByLevel order dag =
     fold (\<lambda>txID levelMap.
             case dag_Levels dag txID of
               None \<Rightarrow> levelMap
             | Some level \<Rightarrow>
                 (let existing = (case levelMap level of Some ts \<Rightarrow> ts | None \<Rightarrow> [])
                  in levelMap(level \<mapsto> existing @ [txID])))
          order Map.empty"

definition SetValidationResult :: "string \<Rightarrow> bool \<Rightarrow> TransactionDAG \<Rightarrow> TransactionDAG" where
  "SetValidationResult txID isValid dag =
     dag\<lparr>dag_ValidationResults := (dag_ValidationResults dag)(txID \<mapsto> isValid)\<rparr>"

definition IsValid :: "string \<Rightarrow> TransactionDAG \<Rightarrow> bool" where
  "IsValid txID dag = (case dag_ValidationResults dag txID of Some result \<Rightarrow> result | None \<Rightarrow> False)"

definition GetIndexByTxID :: "string \<Rightarrow> TransactionDAG \<Rightarrow> nat option" where
  "GetIndexByTxID txID dag = dag_TxIndices dag txID"

section \<open>What a level is\<close>

text \<open>
  The specification of a level: 0 for a node without dependencies, one more than the
  largest level of its dependencies otherwise.  A node on a cycle, and a node that depends
  (directly or not) on a transaction that is not a node of the graph, has no level.
\<close>

inductive has_level :: "nodes \<Rightarrow> string \<Rightarrow> int \<Rightarrow> bool" for nodes where
  base: "fmlookup nodes k = Some node \<Longrightarrow> no_deps node \<Longrightarrow> has_level nodes k 0"
| step: "fmlookup nodes k = Some node \<Longrightarrow> \<not> no_deps node \<Longrightarrow>
    \<forall>d \<in> set (td_DependentTxIDs node). has_level nodes d (f d) \<Longrightarrow>
    l = Max (f ` set (td_DependentTxIDs node)) + 1 \<Longrightarrow> has_level nodes k l"

inductive_cases has_levelE: "has_level nodes k l"

lemma no_deps_iff: "\<not> no_deps node \<longleftrightarrow> td_HasDependency node \<and> td_DependentTxIDs node \<noteq> []"
  by (auto simp: no_deps_def)

lemma has_level_node: "has_level nodes k l \<Longrightarrow> \<exists>node. fmlookup nodes k = Some node"
  by (auto elim: has_levelE)

lemma has_level_nonneg: "has_level nodes k l \<Longrightarrow> 0 \<le> l"
proof (induction rule: has_level.induct)
  case (base k node)
  show ?case by simp
next
  case (step k node f l)
  then obtain d where d: "d \<in> set (td_DependentTxIDs node)"
    by (auto simp: no_deps_iff) (metis list.set_sel(1))
  have "f d \<le> Max (f ` set (td_DependentTxIDs node))" using d by simp
  moreover have "0 \<le> f d" using step.IH d by blast
  ultimately show ?case using step.hyps by linarith
qed

lemma has_level_unique: "has_level nodes k l \<Longrightarrow> has_level nodes k l' \<Longrightarrow> l = l'"
proof (induction arbitrary: l' rule: has_level.induct)
  case (base k node)
  then show ?case by (auto elim: has_levelE)
next
  case (step k node f l)
  from step.prems step.hyps obtain g where
    g: "\<forall>d \<in> set (td_DependentTxIDs node). has_level nodes d (g d)"
       "l' = Max (g ` set (td_DependentTxIDs node)) + 1"
    by (auto elim: has_levelE)
  have "f d = g d" if "d \<in> set (td_DependentTxIDs node)" for d
    using step.IH g(1) that by blast
  then have "f ` set (td_DependentTxIDs node) = g ` set (td_DependentTxIDs node)"
    by (rule image_cong [OF refl])
  then show ?case using step.hyps g by simp
qed

lemma dep_scan_eq:
  "dep_scan lv ds m =
     (if \<forall>d \<in> set ds. lv d \<noteq> None then Some (Max (insert m ((\<lambda>d. the (lv d)) ` set ds))) else None)"
proof (induction ds arbitrary: m)
  case Nil
  then show ?case by simp
next
  case (Cons d ds)
  show ?case
  proof (cases "lv d")
    case None
    then show ?thesis by simp
  next
    case (Some l)
    have "(if l > m then l else m) = max l m" by simp
    moreover have "Max (insert m (insert l A)) = Max (insert (max l m) A)" if "finite A" for A
      using that by (cases "A = {}") (simp_all add: max.commute max.left_commute)
    ultimately show ?thesis using Some Cons.IH by simp
  qed
qed

text \<open>Every level ever assigned is a level of the specification.\<close>

definition level_sound :: "nodes \<Rightarrow> levels \<Rightarrow> bool" where
  "level_sound nodes lv \<longleftrightarrow> (\<forall>k l. lv k = Some l \<longrightarrow> has_level nodes k l)"

lemma level_visit_sound:
  assumes "level_sound nodes lv" "\<And>node. fmlookup nodes k = Some node \<Longrightarrow> no_deps node \<Longrightarrow> lv k \<noteq> None"
    and "level_visit nodes k (c, lv) = (c', lv')"
  shows "level_sound nodes lv'"
proof (cases "fmlookup nodes k")
  case None
  with assms show ?thesis by (simp add: level_visit_def)
next
  case (Some node)
  let ?ds = "td_DependentTxIDs node" and ?f = "\<lambda>d. the (lv d)"
  show ?thesis
  proof (cases "lv k = None \<and> (\<forall>d \<in> set ?ds. lv d \<noteq> None)")
    case True
    have nd: "\<not> no_deps node" using assms(2) Some True by blast
    have dl: "\<forall>d \<in> set ?ds. has_level nodes d (?f d)"
      using assms(1) True by (auto simp: level_sound_def)
    have "?f ` set ?ds \<noteq> {}" using nd by (simp add: no_deps_iff)
    moreover have "\<forall>l \<in> ?f ` set ?ds. - 1 \<le> l"
      using dl has_level_nonneg by force
    ultimately have "Max (insert (- 1) (?f ` set ?ds)) = Max (?f ` set ?ds)"
      by (metis (no_types, lifting) List.finite_set Max_in Max_insert finite_imageI max_absorb2)
    then have "has_level nodes k (Max (insert (- 1) (?f ` set ?ds)) + 1)"
      using has_level.step [OF Some nd dl] by simp
    with assms(1,3) Some True show ?thesis
      by (auto simp: level_visit_def dep_scan_eq level_sound_def split: if_splits)
  next
    case False
    with assms(1,3) Some show ?thesis
      by (auto simp: level_visit_def dep_scan_eq split: if_splits option.splits)
  qed
qed

text \<open>
  The invariant of the loop: sound, and every node without dependencies has a level.
\<close>

definition level_inv :: "nodes \<Rightarrow> levels \<Rightarrow> bool" where
  "level_inv nodes lv \<longleftrightarrow> level_sound nodes lv \<and>
     (\<forall>k node. fmlookup nodes k = Some node \<and> no_deps node \<longrightarrow> lv k \<noteq> None)"

lemma level_init_lookup:
  "fold (level_init_step nodes) ks lv k =
     (if k \<in> set ks \<and> (\<exists>node. fmlookup nodes k = Some node \<and> no_deps node) then Some 0 else lv k)"
  by (induction ks arbitrary: lv) (auto simp: level_init_step_def split: option.splits if_splits)

lemma level_init_inv:
  "fmdom' nodes \<subseteq> set order \<Longrightarrow> level_inv nodes (level_init nodes order)"
  by (auto simp: level_inv_def level_sound_def level_init_def level_init_lookup
        intro: has_level.base split: if_splits dest: fmdom'I)

lemma level_visit_inv:
  assumes "level_inv nodes lv" "level_visit nodes k (c, lv) = (c', lv')"
  shows "level_inv nodes lv'"
proof -
  have "level_sound nodes lv'"
    using assms level_visit_sound [of nodes lv k c c' lv'] by (auto simp: level_inv_def)
  moreover have "lv \<subseteq>\<^sub>m lv'" using level_visit_mono assms(2) by blast
  ultimately show ?thesis using assms(1)
    unfolding level_inv_def map_le_def dom_def by (metis (mono_tags, lifting) mem_Collect_eq)
qed

lemma level_visits_inv:
  "level_inv nodes lv \<Longrightarrow> fold (level_visit nodes) ks (c, lv) = (c', lv') \<Longrightarrow> level_inv nodes lv'"
proof (induction ks arbitrary: c lv)
  case Nil
  then show ?case by simp
next
  case (Cons k ks)
  obtain c1 lv1 where v: "level_visit nodes k (c, lv) = (c1, lv1)" by fastforce
  with Cons.prems have "fold (level_visit nodes) ks (c1, lv1) = (c', lv')" by simp
  with Cons.IH level_visit_inv [OF Cons.prems(1) v] show ?case by blast
qed

text \<open>A node a pass cannot level: it has a level, or a dependency of it has none.\<close>

definition settled :: "nodes \<Rightarrow> levels \<Rightarrow> string \<Rightarrow> bool" where
  "settled nodes lv k \<longleftrightarrow>
     (\<forall>node. fmlookup nodes k = Some node \<longrightarrow>
        lv k \<noteq> None \<or> (\<exists>d \<in> set (td_DependentTxIDs node). lv d = None))"

lemma level_visits_unchanged:
  "fold (level_visit nodes) ks (c, lv) = (False, lv') \<Longrightarrow>
     lv' = lv \<and> (\<forall>k \<in> set ks. settled nodes lv k)"
proof (induction ks arbitrary: c lv)
  case Nil
  then show ?case by simp
next
  case (Cons k ks)
  obtain c1 lv1 where v: "level_visit nodes k (c, lv) = (c1, lv1)" by fastforce
  with Cons.prems have rest: "fold (level_visit nodes) ks (c1, lv1) = (False, lv')" by simp
  have "\<not> c1" using level_visits_mono [OF rest] by simp
  then have "lv1 = lv \<and> settled nodes lv k"
    using v by (auto simp: level_visit_def settled_def dep_scan_eq split: option.splits if_splits)
  with Cons.IH [OF rest] show ?case by auto
qed

lemma level_loop_result:
  assumes "level_inv nodes lv" "\<And>i. fmdom' nodes \<subseteq> set (passes i)"
  shows "level_inv nodes (level_loop nodes passes i lv) \<and>
    (\<forall>k. settled nodes (level_loop nodes passes i lv) k)"
  using assms
proof (induction nodes passes i lv rule: level_loop.induct)
  case (1 nodes passes i lv)
  obtain c lv' where p: "level_pass nodes (passes i) lv = (c, lv')" by fastforce
  then have vs: "fold (level_visit nodes) (passes i) (False, lv) = (c, lv')"
    by (simp add: level_pass_def)
  have inv: "level_inv nodes lv'" using "1.prems"(1) vs by (rule level_visits_inv)
  show ?case
  proof (cases c)
    case True
    with "1.IH" [OF p [symmetric]] inv "1.prems"(2) p show ?thesis
      by (simp add: level_loop.simps [of nodes passes i lv])
  next
    case False
    then have un: "lv' = lv \<and> (\<forall>k \<in> set (passes i). settled nodes lv k)"
      using vs level_visits_unchanged by simp
    have "settled nodes lv' k" for k
    proof (cases "k \<in> fmdom' nodes")
      case True
      then show ?thesis using un "1.prems"(2) by blast
    next
      case False
      then show ?thesis by (auto simp: settled_def dest: fmdom'I)
    qed
    then show ?thesis using False p inv by (simp add: level_loop.simps [of nodes passes i lv])
  qed
qed

lemma settled_complete:
  "has_level nodes k l \<Longrightarrow> level_inv nodes lv \<Longrightarrow> \<forall>k. settled nodes lv k \<Longrightarrow> lv k \<noteq> None"
proof (induction rule: has_level.induct)
  case (base k node)
  then show ?case by (auto simp: level_inv_def)
next
  case (step k node f l)
  then show ?case unfolding settled_def by blast
qed

lemma level_loop_levels:
  assumes "fmdom' nodes \<subseteq> set order" "\<And>i. fmdom' nodes \<subseteq> set (passes i)"
  shows "level_loop nodes passes 0 (level_init nodes order) k = Some l \<longleftrightarrow> has_level nodes k l"
proof -
  let ?lv = "level_loop nodes passes 0 (level_init nodes order)"
  have res: "level_inv nodes ?lv" "\<forall>k. settled nodes ?lv k"
    using level_loop_result [where passes = passes and i = 0,
        OF level_init_inv [OF assms(1)] assms(2)] by simp_all
  show ?thesis
  proof
    assume "?lv k = Some l"
    then show "has_level nodes k l" using res(1) by (simp add: level_inv_def level_sound_def)
  next
    assume l: "has_level nodes k l"
    then obtain l' where "?lv k = Some l'" using settled_complete [OF _ res] by blast
    moreover then have "has_level nodes k l'" using res(1) by (simp add: level_inv_def level_sound_def)
    ultimately show "?lv k = Some l" using l has_level_unique by blast
  qed
qed

lemma level_rest_lookup:
  "level_rest ks lv k = (if k \<in> set ks \<and> lv k = None then Some 0 else lv k)"
  unfolding level_rest_def by (induction ks arbitrary: lv) auto

text \<open>
  An order of iteration over the nodes: what the three loops of \<open>CalculateLevels\<close> are given.
\<close>

definition node_order :: "TransactionDAG \<Rightarrow> string list \<Rightarrow> bool" where
  "node_order dag ks \<longleftrightarrow> enumerates ks (fmlookup (dag_Nodes dag))"

lemma node_order_set: "node_order dag ks \<Longrightarrow> set ks = fmdom' (dag_Nodes dag)"
  by (auto simp: node_order_def enumerates_def fmdom'_alt_def fmdom.rep_eq dom_def
        fmlookup_dom'_iff fmlookup_dom_iff)

lemma CalculateLevels_lookup:
  assumes "node_order dag i" "\<And>n. node_order dag (p n)" "node_order dag r"
  shows "dag_Levels (CalculateLevels i p r dag) k =
    (if k \<in> fmdom' (dag_Nodes dag)
     then Some (if \<exists>l. has_level (dag_Nodes dag) k l then (THE l. has_level (dag_Nodes dag) k l) else 0)
     else None)"
proof -
  let ?N = "dag_Nodes dag"
  let ?lv = "level_loop ?N p 0 (level_init ?N i)"
  have lv: "?lv k = Some l \<longleftrightarrow> has_level ?N k l" for l
    by (rule level_loop_levels) (simp_all add: node_order_set [OF assms(1)] node_order_set [OF assms(2)])
  have eq: "dag_Levels (CalculateLevels i p r dag) k = level_rest r ?lv k"
    by (simp add: CalculateLevels_def Let_def)
  show ?thesis
  proof (cases "\<exists>l. has_level ?N k l")
    case True
    then obtain l where l: "has_level ?N k l" by blast
    then have "(THE l. has_level ?N k l) = l" using has_level_unique by blast
    moreover have "k \<in> fmdom' ?N" using has_level_node [OF l] by (auto intro: fmdom'I)
    moreover have "?lv k = Some l" using l lv by blast
    then have "level_rest r ?lv k = Some l" by (simp add: level_rest_lookup)
    ultimately show ?thesis using eq l by auto
  next
    case False
    then have "?lv k = None" using lv by (cases "?lv k") auto
    then show ?thesis using False eq assms(3) by (simp add: level_rest_lookup node_order_set)
  qed
qed

lemma CalculateLevels_frame [simp]:
  "dag_Nodes (CalculateLevels i p r dag) = dag_Nodes dag"
  "dag_Dependencies (CalculateLevels i p r dag) = dag_Dependencies dag"
  "dag_ValidationResults (CalculateLevels i p r dag) = dag_ValidationResults dag"
  "dag_TxIndices (CalculateLevels i p r dag) = dag_TxIndices dag"
  by (simp_all add: CalculateLevels_def Let_def)

section \<open>Well-formedness\<close>

definition node_deps :: "TransactionDAG \<Rightarrow> string \<Rightarrow> string list" where
  "node_deps dag k =
     (case fmlookup (dag_Nodes dag) k of Some node \<Rightarrow> td_DependentTxIDs node | None \<Rightarrow> [])"

definition reverse_deps :: "TransactionDAG \<Rightarrow> string \<Rightarrow> string list" where
  "reverse_deps dag d = (case dag_Dependencies dag d of Some ts \<Rightarrow> ts | None \<Rightarrow> [])"

definition dag_wf :: "TransactionDAG \<Rightarrow> bool" where
  "dag_wf dag \<longleftrightarrow>
     (\<forall>k. dag_TxIndices dag k = None \<longleftrightarrow> fmlookup (dag_Nodes dag) k = None) \<and>
     (\<forall>k node. fmlookup (dag_Nodes dag) k = Some node \<longrightarrow> td_TxID node = k) \<and>
     (\<forall>k d. d \<in> set (node_deps dag k) \<longleftrightarrow> k \<in> set (reverse_deps dag d)) \<and>
     (\<forall>k. [] \<notin> set (node_deps dag k))"

lemma node_deps_New [simp]: "node_deps NewTransactionDAG k = []"
  by (simp add: node_deps_def NewTransactionDAG_def)

lemma reverse_deps_New [simp]: "reverse_deps NewTransactionDAG k = []"
  by (simp add: reverse_deps_def NewTransactionDAG_def)

lemma AddTransaction_indices:
  "dag_TxIndices (AddTransaction t i h d dag) = (dag_TxIndices dag)(t \<mapsto> i)"
  by (simp add: AddTransaction_def Let_def split: option.splits)

lemma AddTransaction_node:
  "fmlookup (dag_Nodes (AddTransaction t i h d dag)) k =
     (if k = t
      then Some (let node = (case fmlookup (dag_Nodes dag) t of Some n \<Rightarrow> n
                    | None \<Rightarrow> \<lparr>td_TxID = t, td_DependentTxIDs = [], td_HasDependency = h\<rparr>)
                 in if h \<and> d \<noteq> []
                    then node\<lparr>td_DependentTxIDs := td_DependentTxIDs node @ [d]\<rparr> else node)
      else fmlookup (dag_Nodes dag) k)"
  by (auto simp: AddTransaction_def Let_def split: option.splits)

lemma AddTransaction_deps:
  "node_deps (AddTransaction t i h d dag) k =
     (if k = t \<and> h \<and> d \<noteq> [] then node_deps dag k @ [d] else node_deps dag k)"
  by (auto simp: node_deps_def AddTransaction_node Let_def split: option.splits)

lemma AddTransaction_reverse:
  "reverse_deps (AddTransaction t i h d dag) x =
     (if x = d \<and> h \<and> d \<noteq> [] then reverse_deps dag x @ [t] else reverse_deps dag x)"
  by (auto simp: reverse_deps_def AddTransaction_def Let_def split: option.splits)

lemma dag_wf_New: "dag_wf NewTransactionDAG"
  by (simp add: dag_wf_def) (simp add: NewTransactionDAG_def)

lemma dag_wf_Add: "dag_wf dag \<Longrightarrow> dag_wf (AddTransaction t i h d dag)"
  unfolding dag_wf_def
  by (auto simp: AddTransaction_indices AddTransaction_deps AddTransaction_reverse)
    (auto simp: AddTransaction_node Let_def split: option.splits if_splits)

lemma deps_frame [simp]:
  "node_deps (CalculateLevels i p r dag) = node_deps dag"
  "reverse_deps (CalculateLevels i p r dag) = reverse_deps dag"
  "node_deps (SetValidationResult t b dag) = node_deps dag"
  "reverse_deps (SetValidationResult t b dag) = reverse_deps dag"
  by (simp_all add: node_deps_def reverse_deps_def SetValidationResult_def fun_eq_iff)

lemma dag_wf_CalculateLevels: "dag_wf dag \<Longrightarrow> dag_wf (CalculateLevels i p r dag)"
  by (auto simp: dag_wf_def)

lemma dag_wf_SetValidationResult: "dag_wf dag \<Longrightarrow> dag_wf (SetValidationResult t b dag)"
  by (auto simp: dag_wf_def) (auto simp: SetValidationResult_def)

section \<open>The interface the committer relies on\<close>

text \<open>
  A graph whose nodes carry levels such that a node above level 0 lies strictly above each
  of its dependencies.  The committer processes level after level and needs nothing else
  from the graph.
\<close>

locale levelled_graph =
  fixes invar :: "'g \<Rightarrow> bool"
    and level :: "'g \<Rightarrow> string \<Rightarrow> int option"
    and deps :: "'g \<Rightarrow> string \<Rightarrow> string list"
  assumes level_nonneg: "invar g \<Longrightarrow> level g k = Some l \<Longrightarrow> 0 \<le> l"
    and level_lower: "invar g \<Longrightarrow> level g k = Some l \<Longrightarrow> 0 < l \<Longrightarrow> d \<in> set (deps g k) \<Longrightarrow>
      \<exists>m. level g d = Some m \<and> m < l"
begin

lemma no_self_dependency:
  "invar g \<Longrightarrow> level g k = Some l \<Longrightarrow> 0 < l \<Longrightarrow> k \<notin> set (deps g k)"
  using level_lower by fastforce

lemma same_level_independent:
  "invar g \<Longrightarrow> level g k = Some l \<Longrightarrow> level g k' = Some l \<Longrightarrow> 0 < l \<Longrightarrow> k' \<notin> set (deps g k)"
  using level_lower by fastforce

end

definition levelled :: "TransactionDAG \<Rightarrow> bool" where
  "levelled dag \<longleftrightarrow>
     (\<exists>i p r dag0. node_order dag0 i \<and> (\<forall>n. node_order dag0 (p n)) \<and> node_order dag0 r \<and>
        dag_Nodes dag = dag_Nodes dag0 \<and> dag_Levels dag = dag_Levels (CalculateLevels i p r dag0))"

lemma levelled_lookup:
  "levelled dag \<Longrightarrow> dag_Levels dag k =
    (if k \<in> fmdom' (dag_Nodes dag)
     then Some (if \<exists>l. has_level (dag_Nodes dag) k l then (THE l. has_level (dag_Nodes dag) k l) else 0)
     else None)"
  unfolding levelled_def by (elim exE conjE) (auto simp: CalculateLevels_lookup)

lemma levelled_dom: "levelled dag \<Longrightarrow> dom (dag_Levels dag) = fmdom' (dag_Nodes dag)"
  by (auto simp: levelled_lookup dom_def)

lemma levelled_has_level:
  assumes "levelled dag" "dag_Levels dag k = Some l"
  shows "has_level (dag_Nodes dag) k l \<or> (l = 0 \<and> (\<nexists>l. has_level (dag_Nodes dag) k l))"
proof (cases "\<exists>l. has_level (dag_Nodes dag) k l")
  case True
  then obtain l' where "has_level (dag_Nodes dag) k l'" by blast
  moreover then have "(THE l. has_level (dag_Nodes dag) k l) = l'" using has_level_unique by blast
  ultimately show ?thesis using assms by (auto simp: levelled_lookup split: if_splits)
next
  case False
  then show ?thesis using assms by (simp add: levelled_lookup split: if_splits)
qed

lemma levelled_level:
  "levelled dag \<Longrightarrow> has_level (dag_Nodes dag) k l \<Longrightarrow> dag_Levels dag k = Some l"
  using has_level_node [of "dag_Nodes dag" k l] levelled_has_level [of dag k]
  by (auto simp: levelled_lookup intro: fmdom'I dest: has_level_unique)

interpretation dag: levelled_graph levelled dag_Levels node_deps
proof (unfold_locales, goal_cases)
  case (1 g k l)
  then show ?case using levelled_has_level has_level_nonneg by fastforce
next
  case (2 g k l d)
  then have "has_level (dag_Nodes g) k l" using levelled_has_level by fastforce
  then obtain node f where nf: "fmlookup (dag_Nodes g) k = Some node"
    "\<forall>d \<in> set (td_DependentTxIDs node). has_level (dag_Nodes g) d (f d)"
    "l = Max (f ` set (td_DependentTxIDs node)) + 1"
    using 2(3) by (auto elim: has_levelE)
  have d: "d \<in> set (td_DependentTxIDs node)" using 2(4) nf(1) by (simp add: node_deps_def)
  then have "f d < l" using nf(3) by (simp add: Max_ge less_add_one order.strict_trans1 zle_add1_eq_le)
  moreover have "dag_Levels g d = Some (f d)" using levelled_level [OF 2(1)] nf(2) d by blast
  ultimately show ?case by blast
qed

lemma levelled_CalculateLevels:
  "node_order dag i \<Longrightarrow> (\<And>n. node_order dag (p n)) \<Longrightarrow> node_order dag r \<Longrightarrow>
     levelled (CalculateLevels i p r dag)"
  unfolding levelled_def by (rule exI [of _ i], rule exI [of _ p], rule exI [of _ r],
    rule exI [of _ dag]) simp

lemma levelled_predecessor:
  assumes lev: "levelled dag" and l: "dag_Levels dag k = Some l" "0 < l"
  shows "\<exists>d \<in> set (node_deps dag k). dag_Levels dag d = Some (l - 1)"
proof -
  have "has_level (dag_Nodes dag) k l" using levelled_has_level [OF lev l(1)] l(2) by auto
  then obtain node f where nf: "fmlookup (dag_Nodes dag) k = Some node" "\<not> no_deps node"
    "\<forall>d \<in> set (td_DependentTxIDs node). has_level (dag_Nodes dag) d (f d)"
    "l = Max (f ` set (td_DependentTxIDs node)) + 1"
    using l(2) by (auto elim: has_levelE)
  have "Max (f ` set (td_DependentTxIDs node)) \<in> f ` set (td_DependentTxIDs node)"
    using nf(2) by (intro Max_in) (auto simp: no_deps_iff)
  then obtain d where "d \<in> set (td_DependentTxIDs node)" "f d = l - 1" using nf(4) by auto
  moreover have "node_deps dag k = td_DependentTxIDs node"
    using nf(1) by (simp add: node_deps_def)
  ultimately show ?thesis using nf(3) levelled_level [OF lev] by metis
qed

section \<open>Grouping by level\<close>

lemma group_by_level:
  "fold (\<lambda>txID levelMap.
             case lv txID of
               None \<Rightarrow> levelMap
             | Some level \<Rightarrow>
                 (let existing = (case levelMap level of Some ts \<Rightarrow> ts | None \<Rightarrow> [])
                  in levelMap(level \<mapsto> existing @ [txID]))) ks m l =
   (let ts = filter (\<lambda>k. lv k = Some l) ks in
    if ts = [] then m l else Some ((case m l of Some xs \<Rightarrow> xs | None \<Rightarrow> []) @ ts))"
  by (induction ks arbitrary: m) (auto simp: Let_def split: option.splits)

lemma GetTransactionsByLevel_lookup:
  "GetTransactionsByLevel order dag l =
     (let ts = filter (\<lambda>k. dag_Levels dag k = Some l) order in if ts = [] then None else Some ts)"
  unfolding GetTransactionsByLevel_def by (simp add: group_by_level Let_def)

section \<open>Properties\<close>

text \<open>C6: the levels \<open>CalculateLevels\<close> computes do not depend on the order in which Go
  ranges over the node map, in the first pass, in any pass of the fixpoint loop or in the
  last pass: two runs with different orders end in the same graph.\<close>

theorem CalculateLevels_order_independent:
  assumes "node_order dag i" "\<And>n. node_order dag (p n)" "node_order dag r"
    and "node_order dag i'" "\<And>n. node_order dag (p' n)" "node_order dag r'"
  shows "CalculateLevels i p r dag = CalculateLevels i' p' r' dag"
proof -
  have "dag_Levels (CalculateLevels i p r dag) = dag_Levels (CalculateLevels i' p' r' dag)"
    by (rule ext) (simp only: CalculateLevels_lookup assms)
  then show ?thesis by (simp add: CalculateLevels_def Let_def)
qed

definition chain3 :: TransactionDAG where
  "chain3 = AddTransaction ''c'' 2 True ''b'' (AddTransaction ''b'' 1 True ''a''
     (AddTransaction ''a'' 0 False [] NewTransactionDAG))"

lemma chain3_order:
  "node_order chain3 [''a'', ''b'', ''c'']" "node_order chain3 [''c'', ''b'', ''a'']"
  by (auto simp: node_order_def enumerates_def dom_def chain3_def AddTransaction_node
        NewTransactionDAG_def)

theorem CalculateLevels_order_independent_witness:
  "CalculateLevels [''a'', ''b'', ''c''] (\<lambda>_. [''a'', ''b'', ''c'']) [''a'', ''b'', ''c''] chain3 =
   CalculateLevels [''c'', ''b'', ''a''] (\<lambda>_. [''c'', ''b'', ''a'']) [''c'', ''b'', ''a''] chain3"
  by (rule CalculateLevels_order_independent) (simp_all add: chain3_order)



text \<open>A transaction whose chain of dependencies does not end inside the block, because it
  is circular or reaches a transaction that is not in the graph, is put on level 0, among
  the transactions without dependencies.\<close>

theorem CalculateLevels_unresolved:
  assumes "node_order dag i" "\<And>n. node_order dag (p n)" "node_order dag r"
    and "fmlookup (dag_Nodes dag) k = Some node" "td_HasDependency node"
    and "d \<in> set (td_DependentTxIDs node)" "\<nexists>l. has_level (dag_Nodes dag) d l"
  shows "dag_Levels (CalculateLevels i p r dag) k = Some 0"
proof -
  have "\<not> no_deps node" using assms(5,6) by (auto simp: no_deps_def)
  then have "\<nexists>l. has_level (dag_Nodes dag) k l"
    using assms(4,6,7) by (fastforce elim: has_levelE)
  moreover have "k \<in> fmdom' (dag_Nodes dag)" using assms(4) by (rule fmdom'I)
  ultimately show ?thesis by (auto simp: CalculateLevels_lookup assms(1-3))
qed

definition dangling :: TransactionDAG where
  "dangling = AddTransaction ''b'' 1 True ''old'' (AddTransaction ''a'' 0 False [] NewTransactionDAG)"

theorem CalculateLevels_unresolved_witness:
  "dag_Levels (CalculateLevels [''a'', ''b''] (\<lambda>_. [''b'', ''a'']) [''a'', ''b''] dangling) ''b'' = Some 0"
proof (rule CalculateLevels_unresolved [where d = "''old''" and
      node = "\<lparr>td_TxID = ''b'', td_DependentTxIDs = [''old''], td_HasDependency = True\<rparr>"])
  show "node_order dangling [''a'', ''b'']" "node_order dangling [''a'', ''b'']"
    "\<And>n. node_order dangling [''b'', ''a'']"
    by (auto simp: node_order_def enumerates_def dom_def dangling_def AddTransaction_node
        NewTransactionDAG_def)
  show "fmlookup (dag_Nodes dangling) ''b'' =
      Some \<lparr>td_TxID = ''b'', td_DependentTxIDs = [''old''], td_HasDependency = True\<rparr>"
    by (simp add: dangling_def AddTransaction_node NewTransactionDAG_def)
  show "\<nexists>l. has_level (dag_Nodes dangling) ''old'' l"
    by (auto dest!: has_level_node simp: dangling_def AddTransaction_node NewTransactionDAG_def)
qed simp_all

text \<open>C33: \<open>AddTransaction\<close> keeps the graph well formed: node keys and recorded indices agree,
  a node stored under an ID carries that ID, \<open>Dependencies\<close> is exactly the converse of the
  nodes' dependency lists and the empty ID is never a dependency; the new graph records the
  given index and appends the dependency exactly when the flag is set and the ID nonempty.\<close>

theorem AddTransaction_wf:
  assumes "dag_wf dag"
  shows "dag_wf (AddTransaction t i h d dag) \<and>
    dag_TxIndices (AddTransaction t i h d dag) t = Some i \<and>
    node_deps (AddTransaction t i h d dag) t =
      node_deps dag t @ (if h \<and> d \<noteq> [] then [d] else [])"
  using dag_wf_Add [OF assms] by (simp add: AddTransaction_indices AddTransaction_deps)

theorem AddTransaction_wf_witness:
  "dag_wf chain3 \<and> node_deps (AddTransaction ''d'' 3 True ''c'' chain3) ''d'' = [''c'']"
proof -
  have "dag_wf chain3" by (simp add: chain3_def dag_wf_Add dag_wf_New)
  then show ?thesis
    using AddTransaction_wf [of chain3 "''d''" 3 True "''c''"]
    by (simp add: AddTransaction_deps chain3_def)
qed

text \<open>\<open>GetTransactionsByLevel\<close> partitions the transactions: a list it returns for a level
  is nonempty, has no duplicates and holds exactly the transactions of that level, and a
  level without transactions has no list.\<close>

theorem GetTransactionsByLevel_partition:
  assumes "enumerates order (dag_Levels dag)"
  shows "(case GetTransactionsByLevel order dag l of
            Some ts \<Rightarrow> ts \<noteq> [] \<and> distinct ts \<and> set ts = {k. dag_Levels dag k = Some l}
          | None \<Rightarrow> {k. dag_Levels dag k = Some l} = {})"
  using assms
  by (auto simp: GetTransactionsByLevel_lookup Let_def enumerates_def filter_empty_conv dom_def)

theorem GetTransactionsByLevel_partition_witness:
  "GetTransactionsByLevel [''x'', ''y''] (NewTransactionDAG\<lparr>dag_Levels := [''x'' \<mapsto> 0, ''y'' \<mapsto> 0]\<rparr>) 0
     = Some [''x'', ''y''] \<and>
   (case GetTransactionsByLevel [''x'', ''y'']
      (NewTransactionDAG\<lparr>dag_Levels := [''x'' \<mapsto> 0, ''y'' \<mapsto> 0]\<rparr>) 0 of
            Some ts \<Rightarrow> ts \<noteq> [] \<and> distinct ts \<and> set ts =
              {k. dag_Levels (NewTransactionDAG\<lparr>dag_Levels := [''x'' \<mapsto> 0, ''y'' \<mapsto> 0]\<rparr>) k = Some 0}
          | None \<Rightarrow> {k. dag_Levels (NewTransactionDAG\<lparr>dag_Levels := [''x'' \<mapsto> 0, ''y'' \<mapsto> 0]\<rparr>) k = Some 0} = {})"
proof -
  have "enumerates [''x'', ''y''] (dag_Levels (NewTransactionDAG\<lparr>dag_Levels := [''x'' \<mapsto> (0::int), ''y'' \<mapsto> 0]\<rparr>))"
    by (auto simp: enumerates_def)
  from GetTransactionsByLevel_partition [OF this, of 0] show ?thesis
    by (simp add: GetTransactionsByLevel_lookup)
qed

end
