(* ===== verification/Go_Strings.thy ===== *)
theory Go_Strings
  imports Prelude
begin

text \<open>
  The functions of Go's \<^verbatim>\<open>strings\<close>, \<^verbatim>\<open>strconv\<close> and \<^verbatim>\<open>fmt\<close> packages the program
  uses: \<open>strings.Contains\<close>, \<open>strings.Split\<close> with a nonempty separator,
  \<open>strconv.ParseBool\<close>, \<open>strconv.ParseInt\<close> in base 10 and 64 bits, and the verbs
  \<^verbatim>\<open>%d\<close> and \<^verbatim>\<open>%v\<close> of \<open>fmt.Sprintf\<close> on integers and Booleans.  The lemmas say what
  splitting does to a string built from parts, which is what a round trip through a
  formatted message needs.
\<close>

section \<open>Searching and splitting\<close>

fun strip_prefix :: "string \<Rightarrow> string \<Rightarrow> string option" where
  "strip_prefix [] s = Some s"
| "strip_prefix (p # ps) [] = None"
| "strip_prefix (p # ps) (c # s) = (if p = c then strip_prefix ps s else None)"

lemma strip_prefix_Some_iff: "strip_prefix p s = Some r \<longleftrightarrow> s = p @ r"
  by (induction p s rule: strip_prefix.induct) auto

lemma strip_prefix_append [simp]: "strip_prefix p (p @ r) = Some r"
  by (simp add: strip_prefix_Some_iff)

fun str_contains :: "string \<Rightarrow> string \<Rightarrow> bool" where
  "str_contains [] sub \<longleftrightarrow> sub = []"
| "str_contains (c # s) sub \<longleftrightarrow> strip_prefix sub (c # s) \<noteq> None \<or> str_contains s sub"

lemma str_contains_iff: "str_contains s sub \<longleftrightarrow> (\<exists>u v. s = u @ sub @ v)"
proof (induction s)
  case Nil
  then show ?case by auto
next
  case (Cons c s)
  have "(\<exists>u v. c # s = u @ sub @ v) \<longleftrightarrow> (\<exists>v. c # s = sub @ v) \<or> (\<exists>u v. s = u @ sub @ v)"
    by (metis (no_types, lifting) Cons_eq_append_conv append_Cons append_Nil)
  then show ?case using Cons by (auto simp: strip_prefix_Some_iff)
qed

text \<open>
  \<open>strings.Split(s, c # cs)\<close>: \<open>cur\<close> is the part read so far, reversed.
\<close>

function split_from :: "char \<Rightarrow> string \<Rightarrow> string \<Rightarrow> string \<Rightarrow> string list" where
  "split_from c cs cur [] = [rev cur]"
| "split_from c cs cur (x # s) =
     (case strip_prefix (c # cs) (x # s) of
        Some rest \<Rightarrow> rev cur # split_from c cs [] rest
      | None \<Rightarrow> split_from c cs (x # cur) s)"
  by pat_completeness auto
termination
  by (relation "measure (\<lambda>(c, cs, cur, s). length s)")
    (auto simp: strip_prefix_Some_iff simp del: strip_prefix.simps)

definition str_split :: "string \<Rightarrow> char \<Rightarrow> string \<Rightarrow> string list" where
  "str_split s c cs = split_from c cs [] s"

lemma split_from_plain:
  "\<not> str_contains s (c # cs) \<Longrightarrow> split_from c cs cur s = [rev cur @ s]"
  by (induction s arbitrary: cur) auto

text \<open>A one-character separator.\<close>

lemma strip_prefix_single: "strip_prefix [c] (x # s) = (if c = x then Some s else None)"
  by simp

lemma split_single_cons:
  "split_from c [] cur (x # s) = (if x = c then rev cur # split_from c [] [] s else split_from c [] (x # cur) s)"
  by auto

lemma split_single_append:
  "c \<notin> set a \<Longrightarrow> split_from c [] cur (a @ c # s) = (rev cur @ a) # split_from c [] [] s"
  by (induction a arbitrary: cur) (auto simp: split_single_cons simp del: split_from.simps(2))

lemma split_single_plain: "c \<notin> set a \<Longrightarrow> split_from c [] cur a = [rev cur @ a]"
  by (induction a arbitrary: cur) (auto simp: split_single_cons simp del: split_from.simps(2))

lemma str_split_append [simp]:
  "c \<notin> set a \<Longrightarrow> str_split (a @ c # s) c [] = a # str_split s c []"
  by (simp add: str_split_def split_single_append)

lemma str_split_plain [simp]: "c \<notin> set a \<Longrightarrow> str_split a c [] = [a]"
  by (simp add: str_split_def split_single_plain)

lemma split_from_prefix:
  assumes "\<not> str_contains (a @ cs') (c # cs)" "cs' = butlast (c # cs)"
  shows "split_from c cs cur (a @ (c # cs) @ s) = (rev cur @ a) # split_from c cs [] s"
  using assms(1)
proof (induction a arbitrary: cur)
  case Nil
  then show ?case by (simp del: strip_prefix.simps add: strip_prefix_append [of "c # cs", simplified])
next
  case (Cons x a)
  have "strip_prefix (c # cs) (x # a @ (c # cs) @ s) = None"
  proof (rule ccontr)
    assume "strip_prefix (c # cs) (x # a @ (c # cs) @ s) \<noteq> None"
    then obtain r where "(x # a) @ (c # cs) @ s = (c # cs) @ r"
      by (auto simp: strip_prefix_Some_iff simp del: strip_prefix.simps)
    then have "take (length (c # cs)) ((x # a) @ (c # cs) @ s) = c # cs" by simp
    moreover have "take (length (c # cs)) ((x # a) @ (c # cs) @ s) =
        take (length (c # cs)) ((x # a) @ butlast (c # cs))"
      by (simp add: butlast_conv_take take_append take_Cons')
    ultimately have "\<exists>v. (x # a) @ cs' = (c # cs) @ v"
      using assms(2) by (metis append_take_drop_id)
    then have "str_contains ((x # a) @ cs') (c # cs)"
      unfolding str_contains_iff by (metis append_Nil)
    with Cons.prems show False by simp
  qed
  moreover have "\<not> str_contains (a @ cs') (c # cs)" using Cons.prems by simp
  ultimately show ?case using Cons.IH by simp
qed

section \<open>Decimal numerals\<close>

definition digit_char :: "nat \<Rightarrow> char" where
  "digit_char d = char_of (48 + d)"

fun show_nat :: "nat \<Rightarrow> string" where
  "show_nat n = (if n < 10 then [digit_char n] else show_nat (n div 10) @ [digit_char (n mod 10)])"

declare show_nat.simps [simp del]

definition show_int :: "int \<Rightarrow> string" where
  "show_int i = (if i < 0 then CHR ''-'' # show_nat (nat (- i)) else show_nat (nat i))"

definition show_bool :: "bool \<Rightarrow> string" where
  "show_bool b = (if b then ''true'' else ''false'')"

definition is_digit :: "char \<Rightarrow> bool" where
  "is_digit c \<longleftrightarrow> 48 \<le> (of_char c :: nat) \<and> (of_char c :: nat) \<le> 57"

definition digit_val :: "char \<Rightarrow> nat" where
  "digit_val c = of_char c - 48"

lemma of_char_digit [simp]: "d < 10 \<Longrightarrow> of_char (digit_char d) = 48 + d"
  by (simp add: digit_char_def)

lemma digit_char_props [simp]:
  "d < 10 \<Longrightarrow> is_digit (digit_char d)" "d < 10 \<Longrightarrow> digit_val (digit_char d) = d"
  by (simp_all add: is_digit_def digit_val_def)

lemma show_nat_digits: "\<forall>c \<in> set (show_nat n). is_digit c"
  by (induction n rule: show_nat.induct) (subst show_nat.simps, auto)

lemma show_nat_nonempty: "show_nat n \<noteq> []"
  by (subst show_nat.simps) simp

fun digits_val :: "nat \<Rightarrow> string \<Rightarrow> nat option" where
  "digits_val acc [] = Some acc"
| "digits_val acc (c # cs) = (if is_digit c then digits_val (10 * acc + digit_val c) cs else None)"

lemma digits_val_append:
  "digits_val acc (xs @ ys) = (case digits_val acc xs of None \<Rightarrow> None | Some v \<Rightarrow> digits_val v ys)"
  by (induction xs arbitrary: acc) auto

lemma digits_val_show: "digits_val 0 (show_nat n) = Some n"
proof (induction n rule: show_nat.induct)
  case (1 n)
  show ?case
  proof (cases "n < 10")
    case True
    then show ?thesis by (subst show_nat.simps) simp
  next
    case False
    with 1 show ?thesis by (subst show_nat.simps) (simp add: digits_val_append)
  qed
qed

section \<open>Parsing\<close>

text \<open>\<open>strconv.ParseBool\<close>: a spelling it does not know is an error.\<close>

definition ParseBool :: "string \<Rightarrow> bool option" where
  "ParseBool s =
     (if s \<in> {''1'', ''t'', ''T'', ''true'', ''TRUE'', ''True''} then Some True
      else if s \<in> {''0'', ''f'', ''F'', ''false'', ''FALSE'', ''False''} then Some False
      else None)"

lemma ParseBool_show [simp]: "ParseBool (show_bool b) = Some b"
  by (simp add: ParseBool_def show_bool_def)

text \<open>
  The value \<open>strconv.ParseInt(s, 10, 64)\<close> returns when its error is ignored: 0 for a
  syntax error, the nearest 64-bit value when the number is out of range.
\<close>

definition ParseInt_value :: "string \<Rightarrow> int" where
  "ParseInt_value s =
     (let (neg, ds) = (case s of c # cs \<Rightarrow>
                          if c = CHR ''-'' then (True, cs)
                          else if c = CHR ''+'' then (False, cs) else (False, s)
                        | [] \<Rightarrow> (False, []))
      in if ds = [] then 0
         else case digits_val 0 ds of
                None \<Rightarrow> 0
              | Some n \<Rightarrow> if neg then max (- (2 ^ 63)) (- int n) else min (2 ^ 63 - 1) (int n))"

lemma digit_not_sign: "is_digit c \<Longrightarrow> c \<noteq> CHR ''-'' \<and> c \<noteq> CHR ''+''"
  by (auto simp: is_digit_def)

lemma ParseInt_show:
  assumes "- (2 ^ 63) \<le> i" "i < 2 ^ 63"
  shows "ParseInt_value (show_int i) = i"
proof (cases "i < 0")
  case True
  with assms show ?thesis
    by (simp add: ParseInt_value_def show_int_def show_nat_nonempty digits_val_show)
next
  case False
  obtain c cs where c: "show_nat (nat i) = c # cs" using show_nat_nonempty by (cases "show_nat (nat i)") auto
  then have "is_digit c" using show_nat_digits [of "nat i"] by simp
  with c False assms show ?thesis
    using digits_val_show [of "nat i"] digit_not_sign [of c]
    by (simp add: ParseInt_value_def show_int_def)
qed

lemma show_int_chars: "c \<in> set (show_int i) \<Longrightarrow> is_digit c \<or> c = CHR ''-''"
  using show_nat_digits by (auto simp: show_int_def split: if_splits)

lemma show_int_free [simp]: "CHR '','' \<notin> set (show_int i)" "CHR ''='' \<notin> set (show_int i)"
  by (auto dest!: show_int_chars simp: is_digit_def)

lemma show_bool_free [simp]: "CHR '','' \<notin> set (show_bool b)" "CHR ''='' \<notin> set (show_bool b)"
  by (simp_all add: show_bool_def)

end
