(* ===== verification/Dep_Info.thy ===== *)
theory Dep_Info
  imports Go_Strings
begin

text \<open>
  Dependency information travels from the endorser to the committer inside the message of
  the chaincode response.  Two places of the program print it: the endorsement path
  (\<^verbatim>\<open>core/endorser/endorser.go\<close>, \<open>endorsement_message\<close>) and the processing loop of the
  leader endorser (\<^verbatim>\<open>core/endorser/transaction_processor.go\<close>, \<open>leader_message\<close>); one place
  reads it back (\<^verbatim>\<open>core/committer/committer_impl.go\<close>, \<open>ParseDependencyInfo\<close>).  The lemmas
  are the round trips between them and the behaviour on messages without the marker.
\<close>

abbreviation dep_marker :: string where
  "dep_marker \<equiv> ''DependencyInfo:''"

definition parse_item :: "string \<Rightarrow> (string \<rightharpoonup> string) \<Rightarrow> (string \<rightharpoonup> string)" where
  "parse_item item infoMap =
     (let kv = str_split item CHR ''='' []
      in if length kv = 2 then infoMap(kv ! 0 \<mapsto> kv ! 1) else infoMap)"

definition ParseDependencyInfo :: "string \<Rightarrow> string + bool \<times> string \<times> int" where
  "ParseDependencyInfo responseMsg =
     (if \<not> str_contains responseMsg dep_marker then Inr (False, [], 0)
      else let parts = str_split responseMsg CHR ''D'' ''ependencyInfo:''
           in if length parts < 2 then Inl ''invalid dependency info format''
              else let info = parts ! 1;
                       infoMap = fold parse_item (str_split info CHR '','' []) Map.empty;
                       hasDependency = (case infoMap ''HasDependency'' of
                                          Some val \<Rightarrow> (case ParseBool val of Some b \<Rightarrow> b | None \<Rightarrow> False)
                                        | None \<Rightarrow> False);
                       dependentTxID = (case infoMap ''DependentTxID'' of Some val \<Rightarrow> val | None \<Rightarrow> []);
                       expiryTime = (case infoMap ''ExpiryTime'' of
                                       Some val \<Rightarrow> ParseInt_value val | None \<Rightarrow> 0)
                   in Inr (hasDependency, dependentTxID, expiryTime))"

definition endorsement_message :: "string \<Rightarrow> bool \<Rightarrow> string \<Rightarrow> int \<Rightarrow> int \<Rightarrow> string" where
  "endorsement_message message hasDependency dependentTxID commitIndex proofTerm =
     message @ ''; '' @ dep_marker @ ''HasDependency='' @ show_bool hasDependency @
     '',DependentTxID='' @ dependentTxID @ '',ShardCommitIndex='' @ show_int commitIndex @
     '',ProofTerm='' @ show_int proofTerm"

definition leader_message :: "bool \<Rightarrow> string \<Rightarrow> int \<Rightarrow> string" where
  "leader_message hasDependency dependentTxID expiry =
     dep_marker @ ''HasDependency='' @ show_bool hasDependency @
     '',DependentTxID='' @ dependentTxID @ '',ExpiryTime='' @ show_int expiry"

section \<open>Splitting a printed message\<close>

lemma strip_prefix_cross:
  "c \<notin> set sub \<Longrightarrow> strip_prefix sub (a @ c # b) = None \<longleftrightarrow> strip_prefix sub a = None"
  by (induction sub a rule: strip_prefix.induct) auto

lemma contains_split:
  "c \<notin> set sub \<Longrightarrow> str_contains (a @ c # b) sub \<longleftrightarrow> str_contains a sub \<or> str_contains b sub"
proof (induction a)
  case Nil
  then show ?case using strip_prefix_cross [of c sub "[]" b] by (cases sub) auto
next
  case (Cons x a)
  then show ?case using strip_prefix_cross [of c sub "x # a" b] by auto
qed

lemma contains_chars: "x \<in> set sub \<Longrightarrow> x \<notin> set s \<Longrightarrow> \<not> str_contains s sub"
  by (auto simp: str_contains_iff)

lemma marker_free: "CHR '':'' \<notin> set s \<Longrightarrow> \<not> str_contains s dep_marker"
  by (rule contains_chars [of "CHR '':''"]) auto

lemma show_int_no_colon [simp]: "CHR '':'' \<notin> set (show_int i)"
  by (auto dest!: show_int_chars simp: is_digit_def)

lemma show_bool_no_colon [simp]: "CHR '':'' \<notin> set (show_bool b)"
  by (simp add: show_bool_def)

text \<open>Cutting at the marker: the text before it must not hold the marker itself.\<close>

lemma split_marker:
  assumes "\<not> str_contains (a @ ''DependencyInfo'') dep_marker" "CHR '':'' \<notin> set s"
  shows "str_split (a @ dep_marker @ s) CHR ''D'' ''ependencyInfo:'' = [a, s]"
proof -
  have "split_from CHR ''D'' ''ependencyInfo:'' [] (a @ dep_marker @ s) =
      (rev [] @ a) # split_from CHR ''D'' ''ependencyInfo:'' [] s"
    by (rule split_from_prefix [OF assms(1)]) simp
  moreover have "split_from CHR ''D'' ''ependencyInfo:'' [] s = [rev [] @ s]"
    by (rule split_from_plain) (rule marker_free [OF assms(2)])
  ultimately show ?thesis unfolding str_split_def by (simp only: rev.simps append_Nil)
qed

lemma contains_marker: "str_contains (a @ dep_marker @ s) dep_marker"
  unfolding str_contains_iff by blast

lemma parse_item_field:
  "CHR ''='' \<notin> set k \<Longrightarrow> CHR ''='' \<notin> set v \<Longrightarrow> parse_item (k @ CHR ''='' # v) m = m(k \<mapsto> v)"
  by (simp add: parse_item_def)

lemma split3:
  assumes "CHR '','' \<notin> set a" "CHR '','' \<notin> set b" "CHR '','' \<notin> set c"
  shows "str_split (a @ CHR '','' # b @ CHR '','' # c) CHR '','' [] = [a, b, c]"
  using assms by simp

lemma split4:
  assumes "CHR '','' \<notin> set a" "CHR '','' \<notin> set b" "CHR '','' \<notin> set c" "CHR '','' \<notin> set d"
  shows "str_split (a @ CHR '','' # b @ CHR '','' # c @ CHR '','' # d) CHR '','' [] = [a, b, c, d]"
  using assms by simp

lemma parse_marked:
  assumes "\<not> str_contains (a @ ''DependencyInfo'') dep_marker" "CHR '':'' \<notin> set s"
    and "fold parse_item (str_split s CHR '','' []) Map.empty = infoMap"
  shows "ParseDependencyInfo (a @ dep_marker @ s) =
    Inr (case infoMap ''HasDependency'' of
           Some val \<Rightarrow> (case ParseBool val of Some b \<Rightarrow> b | None \<Rightarrow> False) | None \<Rightarrow> False,
         case infoMap ''DependentTxID'' of Some val \<Rightarrow> val | None \<Rightarrow> [],
         case infoMap ''ExpiryTime'' of Some val \<Rightarrow> ParseInt_value val | None \<Rightarrow> 0)"
  unfolding ParseDependencyInfo_def Let_def split_marker [OF assms(1,2)]
  using contains_marker [of a s] assms(3) by (simp only: if_True if_False not_True_eq_False) simp

lemma parse_fields3:
  assumes "CHR ''='' \<notin> set v1" "CHR ''='' \<notin> set v2" "CHR ''='' \<notin> set v3"
    and "CHR ''='' \<notin> set k1" "CHR ''='' \<notin> set k2" "CHR ''='' \<notin> set k3"
  shows "fold parse_item [k1 @ CHR ''='' # v1, k2 @ CHR ''='' # v2, k3 @ CHR ''='' # v3] m =
    m(k1 \<mapsto> v1, k2 \<mapsto> v2, k3 \<mapsto> v3)"
  using assms by (simp add: parse_item_field)

lemma parse_fields4:
  assumes "CHR ''='' \<notin> set v1" "CHR ''='' \<notin> set v2" "CHR ''='' \<notin> set v3" "CHR ''='' \<notin> set v4"
    and "CHR ''='' \<notin> set k1" "CHR ''='' \<notin> set k2" "CHR ''='' \<notin> set k3" "CHR ''='' \<notin> set k4"
  shows "fold parse_item [k1 @ CHR ''='' # v1, k2 @ CHR ''='' # v2, k3 @ CHR ''='' # v3,
      k4 @ CHR ''='' # v4] m = m(k1 \<mapsto> v1, k2 \<mapsto> v2, k3 \<mapsto> v3, k4 \<mapsto> v4)"
  using assms by (simp add: parse_item_field)

text \<open>What a transaction ID must avoid to survive the message: hexadecimal IDs do.\<close>

definition plain_id :: "string \<Rightarrow> bool" where
  "plain_id t \<longleftrightarrow> CHR '','' \<notin> set t \<and> CHR ''='' \<notin> set t \<and> CHR '':'' \<notin> set t"

lemma leader_fields:
  assumes "plain_id dep"
  shows "fold parse_item (str_split (''HasDependency='' @ show_bool h @ '',DependentTxID='' @ dep @
      '',ExpiryTime='' @ show_int e) CHR '','' []) Map.empty =
    [''HasDependency'' \<mapsto> show_bool h, ''DependentTxID'' \<mapsto> dep, ''ExpiryTime'' \<mapsto> show_int e]"
proof -
  let ?a = "''HasDependency'' @ CHR ''='' # show_bool h" and ?b = "''DependentTxID'' @ CHR ''='' # dep"
    and ?c = "''ExpiryTime'' @ CHR ''='' # show_int e"
  have "''HasDependency='' @ show_bool h @ '',DependentTxID='' @ dep @ '',ExpiryTime='' @ show_int e =
      ?a @ CHR '','' # ?b @ CHR '','' # ?c" by simp
  moreover have "str_split (?a @ CHR '','' # ?b @ CHR '','' # ?c) CHR '','' [] = [?a, ?b, ?c]"
    by (rule split3) (use assms in \<open>simp_all add: plain_id_def\<close>)
  moreover have "fold parse_item [?a, ?b, ?c] Map.empty =
      [''HasDependency'' \<mapsto> show_bool h, ''DependentTxID'' \<mapsto> dep, ''ExpiryTime'' \<mapsto> show_int e]"
    by (rule parse_fields3) (use assms in \<open>simp_all add: plain_id_def\<close>)
  ultimately show ?thesis by (simp only:)
qed

lemma endorsement_fields:
  assumes "plain_id dep"
  shows "fold parse_item (str_split (''HasDependency='' @ show_bool h @ '',DependentTxID='' @ dep @
      '',ShardCommitIndex='' @ show_int i @ '',ProofTerm='' @ show_int t) CHR '','' []) Map.empty =
    [''HasDependency'' \<mapsto> show_bool h, ''DependentTxID'' \<mapsto> dep,
     ''ShardCommitIndex'' \<mapsto> show_int i, ''ProofTerm'' \<mapsto> show_int t]"
proof -
  let ?a = "''HasDependency'' @ CHR ''='' # show_bool h" and ?b = "''DependentTxID'' @ CHR ''='' # dep"
    and ?c = "''ShardCommitIndex'' @ CHR ''='' # show_int i" and ?d = "''ProofTerm'' @ CHR ''='' # show_int t"
  have "''HasDependency='' @ show_bool h @ '',DependentTxID='' @ dep @
      '',ShardCommitIndex='' @ show_int i @ '',ProofTerm='' @ show_int t =
      ?a @ CHR '','' # ?b @ CHR '','' # ?c @ CHR '','' # ?d" by simp
  moreover have "str_split (?a @ CHR '','' # ?b @ CHR '','' # ?c @ CHR '','' # ?d) CHR '','' [] =
      [?a, ?b, ?c, ?d]"
    by (rule split4) (use assms in \<open>simp_all add: plain_id_def\<close>)
  moreover have "fold parse_item [?a, ?b, ?c, ?d] Map.empty =
      [''HasDependency'' \<mapsto> show_bool h, ''DependentTxID'' \<mapsto> dep,
       ''ShardCommitIndex'' \<mapsto> show_int i, ''ProofTerm'' \<mapsto> show_int t]"
    by (rule parse_fields4) (use assms in \<open>simp_all add: plain_id_def\<close>)
  ultimately show ?thesis by (simp only:)
qed

lemma parse_endorsement_message:
  assumes "plain_id dep" "\<not> str_contains msg dep_marker"
  shows "ParseDependencyInfo (endorsement_message msg h dep i t) = Inr (h, dep, 0)"
proof -
  have "\<not> str_contains (msg @ CHR '';'' # '' DependencyInfo'') dep_marker"
    using assms(2) marker_free [of "'' DependencyInfo''"]
    by (subst contains_split) simp_all
  then have no: "\<not> str_contains ((msg @ ''; '') @ ''DependencyInfo'') dep_marker" by simp
  have colon: "CHR '':'' \<notin> set (''HasDependency='' @ show_bool h @ '',DependentTxID='' @ dep @
      '',ShardCommitIndex='' @ show_int i @ '',ProofTerm='' @ show_int t)"
    using assms(1) by (simp add: plain_id_def)
  show ?thesis
    using parse_marked [OF no colon endorsement_fields [OF assms(1)]]
    by (simp add: endorsement_message_def)
qed

section \<open>Properties\<close>

text \<open>Round trip of the leader endorser's message. What \<open>processTransaction\<close> prints,
  \<open>ParseDependencyInfo\<close> reads back: flag, transaction ID and expiry time, for every plain
  transaction ID and every 64-bit expiry time.\<close>

theorem leader_message_roundtrip:
  assumes "plain_id dep" "- (2 ^ 63) \<le> e" "e < 2 ^ 63"
  shows "ParseDependencyInfo (leader_message h dep e) = Inr (h, dep, e)"
proof -
  have no: "\<not> str_contains ([] @ ''DependencyInfo'') dep_marker"
    by (rule marker_free) simp
  have colon: "CHR '':'' \<notin> set (''HasDependency='' @ show_bool h @ '',DependentTxID='' @ dep @
      '',ExpiryTime='' @ show_int e)"
    using assms(1) by (simp add: plain_id_def)
  show ?thesis
    using parse_marked [OF no colon leader_fields [OF assms(1)]] ParseInt_show [OF assms(2,3)]
    by (simp add: leader_message_def)
qed

theorem leader_message_roundtrip_witness:
  "ParseDependencyInfo (leader_message True ''a1f3'' 1700000000) = Inr (True, ''a1f3'', 1700000000)"
  by (rule leader_message_roundtrip) (simp_all add: plain_id_def)

text \<open>C27: round trip of the endorsement message. From what the endorsement path prints after
  any chaincode message that does not itself hold the marker, \<open>ParseDependencyInfo\<close> reads back
  the flag and the transaction ID; the expiry time is 0, since the endorsement path prints
  none.\<close>

theorem endorsement_message_roundtrip:
  assumes "plain_id dep" "\<not> str_contains msg dep_marker"
  shows "ParseDependencyInfo (endorsement_message msg h dep i t) = Inr (h, dep, 0)"
  using assms by (rule parse_endorsement_message)

theorem endorsement_message_roundtrip_witness:
  "ParseDependencyInfo (endorsement_message ''OK'' True ''a1f3'' 7 2) = Inr (True, ''a1f3'', 0)"
  by (rule endorsement_message_roundtrip)
    (simp add: plain_id_def, rule marker_free, simp)

lemma split_from_nonempty: "split_from c cs cur s \<noteq> []"
  by (induction c cs cur s rule: split_from.induct) (auto split: option.splits)

lemma split_from_contains:
  "str_contains s (c # cs) \<Longrightarrow> 2 \<le> length (split_from c cs cur s)"
proof (induction c cs cur s rule: split_from.induct)
  case (1 c cs cur)
  then show ?case by simp
next
  case (2 c cs cur x s)
  show ?case
  proof (cases "strip_prefix (c # cs) (x # s)")
    case None
    with 2 show ?thesis by simp
  next
    case (Some rest)
    then show ?thesis using split_from_nonempty [of c cs "[]" rest]
      by (cases "split_from c cs [] rest") auto
  qed
qed

text \<open>A message without the marker parses as "no dependency", and \<open>ParseDependencyInfo\<close>
  never returns an error: its error branch is dead code.\<close>

theorem ParseDependencyInfo_no_error:
  "(\<exists>r. ParseDependencyInfo s = Inr r) \<and>
   (\<not> str_contains s dep_marker \<longrightarrow> ParseDependencyInfo s = Inr (False, [], 0))"
proof (cases "str_contains s dep_marker")
  case True
  then have "\<not> length (str_split s CHR ''D'' ''ependencyInfo:'') < 2"
    using split_from_contains [of s "CHR ''D''" "''ependencyInfo:''" "[]"]
    by (simp only: str_split_def not_less)
  with True show ?thesis by (simp only: ParseDependencyInfo_def Let_def if_False) simp
next
  case False
  then have "ParseDependencyInfo s = Inr (False, [], 0)"
    by (simp only: ParseDependencyInfo_def not_False_eq_True if_True)
  then show ?thesis by blast
qed

theorem ParseDependencyInfo_no_error_witness:
  "\<not> str_contains ''transfer ok'' dep_marker \<and> ParseDependencyInfo ''transfer ok'' = Inr (False, [], 0)"
proof -
  have "\<not> str_contains ''transfer ok'' dep_marker" by (rule marker_free) simp
  with ParseDependencyInfo_no_error [of "''transfer ok''"] show ?thesis by blast
qed

end
