(* ===== verification/Messages.thy ===== *)
theory Messages
  imports Prelude
begin

text \<open>
  The protobuf messages the components exchange, as records with the fields the program
  uses, and their decoding.  The message types and \<open>proto.Unmarshal\<close> / \<open>proto.Marshal\<close> are
  third-party code: the decoders are the fields of a record \<open>codec\<close>, which the definitions
  take as an argument; a decoder returns \<^term>\<open>None\<close> where \<open>proto.Unmarshal\<close> returns an
  error.  The wrappers around them in \<^verbatim>\<open>protoutil\<close> are definitions.
\<close>

section \<open>Read-write sets (kvrwset, rwset)\<close>

record ProtoVersion =
  pv_BlockNum :: u64
  pv_TxNum :: u64

record KVRead =
  kr_Key :: string
  kr_Version :: "ProtoVersion option"

record KVWrite =
  kw_Key :: string
  kw_IsDelete :: bool
  kw_Value :: bytes

record KVMetadataEntry =
  me_Name :: string
  me_Value :: bytes

record KVMetadataWrite =
  mw_Key :: string
  mw_Entries :: "KVMetadataEntry list option"

record QueryReadsMerkleSummary =
  ms_MaxDegree :: u32
  ms_MaxLevel :: u32
  ms_MaxLevelHashes :: "bytes list"

datatype reads_info = NoReadsInfo | RawReads "KVRead list" | MerkleHashes QueryReadsMerkleSummary

record RangeQueryInfo =
  rq_StartKey :: string
  rq_EndKey :: string
  rq_ItrExhausted :: bool
  rq_ReadsInfo :: reads_info

record KVRWSet =
  rw_Reads :: "KVRead list"
  rw_RangeQueriesInfo :: "RangeQueryInfo list"
  rw_Writes :: "KVWrite list"
  rw_MetadataWrites :: "KVMetadataWrite list"

record KVReadHash =
  krh_KeyHash :: bytes
  krh_Version :: "ProtoVersion option"

record KVWriteHash =
  kwh_KeyHash :: bytes
  kwh_IsDelete :: bool
  kwh_ValueHash :: bytes
  kwh_IsPurge :: bool

record KVMetadataWriteHash =
  mwh_KeyHash :: bytes
  mwh_Entries :: "KVMetadataEntry list option"

record HashedRWSet =
  hrw_HashedReads :: "KVReadHash list"
  hrw_HashedWrites :: "KVWriteHash list"
  hrw_MetadataWrites :: "KVMetadataWriteHash list"

record CollectionHashedReadWriteSet =
  ch_CollectionName :: string
  ch_HashedRwset :: bytes
  ch_PvtRwsetHash :: "bytes option"

record NsReadWriteSet =
  ns_Namespace :: string
  ns_Rwset :: bytes
  ns_CollectionHashedRwset :: "CollectionHashedReadWriteSet list"

record CollectionPvtReadWriteSet =
  cp_CollectionName :: string
  cp_Rwset :: bytes

record NsPvtReadWriteSet =
  np_Namespace :: string
  np_CollectionPvtRwset :: "CollectionPvtReadWriteSet list"

section \<open>Envelopes and transactions (common, peer)\<close>

record Header =
  hd_ChannelHeader :: bytes
  hd_SignatureHeader :: bytes

record Payload =
  pl_Header :: "Header option"
  pl_Data :: bytes

record Envelope =
  env_Payload :: bytes
  env_Signature :: bytes

record ChannelHeader =
  chdr_Type :: int
  chdr_ChannelId :: string
  chdr_TxId :: string
  chdr_Epoch :: u64
  chdr_Extension :: bytes

record SignatureHeader =
  shdr_Creator :: bytes
  shdr_Nonce :: bytes

record TransactionAction =
  ta_Payload :: bytes

record Transaction =
  tx_Actions :: "TransactionAction list"

record Response =
  resp_Status :: int
  resp_Message :: string
  resp_Payload :: bytes

record ChaincodeAction =
  ca_Results :: "bytes option"
  ca_Events :: bytes
  ca_Response :: "Response option"

record codec =
  un_Envelope :: "bytes \<Rightarrow> Envelope option"
  un_Payload :: "bytes \<Rightarrow> Payload option"
  un_ChannelHeader :: "bytes \<Rightarrow> ChannelHeader option"
  un_Transaction :: "bytes \<Rightarrow> Transaction option"
  un_ChaincodeAction :: "bytes \<Rightarrow> ChaincodeAction option"
  un_TxReadWriteSet :: "bytes \<Rightarrow> NsReadWriteSet list option"
  un_KVRWSet :: "bytes \<Rightarrow> KVRWSet option"
  un_HashedRWSet :: "bytes \<Rightarrow> HashedRWSet option"

section \<open>protoutil\<close>

datatype unmarshal_error = ErrUnmarshal string

definition wrap_unmarshal :: "string \<Rightarrow> 'a option \<Rightarrow> unmarshal_error + 'a" where
  "wrap_unmarshal what r = (case r of Some m \<Rightarrow> Inr m | None \<Rightarrow> Inl (ErrUnmarshal what))"

definition GetEnvelopeFromBlock :: "codec \<Rightarrow> bytes \<Rightarrow> unmarshal_error + Envelope" where
  "GetEnvelopeFromBlock cd data = wrap_unmarshal ''Envelope'' (un_Envelope cd data)"

definition UnmarshalPayload :: "codec \<Rightarrow> bytes \<Rightarrow> unmarshal_error + Payload" where
  "UnmarshalPayload cd encoded = wrap_unmarshal ''Payload'' (un_Payload cd encoded)"

definition UnmarshalChannelHeader :: "codec \<Rightarrow> bytes \<Rightarrow> unmarshal_error + ChannelHeader" where
  "UnmarshalChannelHeader cd bs = wrap_unmarshal ''ChannelHeader'' (un_ChannelHeader cd bs)"

definition UnmarshalTransaction :: "codec \<Rightarrow> bytes \<Rightarrow> unmarshal_error + Transaction" where
  "UnmarshalTransaction cd txBytes = wrap_unmarshal ''Transaction'' (un_Transaction cd txBytes)"

definition HeaderType_ENDORSER_TRANSACTION :: int where
  "HeaderType_ENDORSER_TRANSACTION = 3"

lemmas unmarshal_defs =
  GetEnvelopeFromBlock_def UnmarshalPayload_def UnmarshalChannelHeader_def UnmarshalTransaction_def
  wrap_unmarshal_def

end
