(* ===== verification/Rw_Conflict.thy ===== *)
theory Rw_Conflict
  imports Messages
begin

text \<open>
  The read-write conflict test of the committer (\<open>checkRWSetConflicts\<close> and its helpers in
  \<^verbatim>\<open>core/committer/committer_impl.go\<close>).  The test ranges over a Go map of namespaces and
  returns from inside the loop, so the model takes the order of the namespaces.
\<close>

definition hasConflictInKVRWSet :: "KVRead list \<Rightarrow> KVWrite list \<Rightarrow> bool" where
  "hasConflictInKVRWSet rs ws =
     (let writeKeys = fold (\<lambda>w m. insert (kw_Key w) m) ws {}
      in list_ex (\<lambda>r. kr_Key r \<in> writeKeys) rs)"

definition hasConflictInHashedRWSet :: "KVReadHash list \<Rightarrow> KVWriteHash list \<Rightarrow> bool" where
  "hasConflictInHashedRWSet rs ws =
     (let writeKeyHashes = fold (\<lambda>w m. insert (kwh_KeyHash w) m) ws {}
      in list_ex (\<lambda>r. krh_KeyHash r \<in> writeKeyHashes) rs)"

definition hasWriteWriteConflict :: "KVWrite list \<Rightarrow> KVWrite list \<Rightarrow> bool" where
  "hasWriteWriteConflict ws1 ws2 =
     (let writeKeys = fold (\<lambda>w m. insert (kw_Key w) m) ws1 {}
      in list_ex (\<lambda>w. kw_Key w \<in> writeKeys) ws2)"

definition hasHashedWriteWriteConflict :: "KVWriteHash list \<Rightarrow> KVWriteHash list \<Rightarrow> bool" where
  "hasHashedWriteWriteConflict ws1 ws2 =
     (let writeKeyHashes = fold (\<lambda>w m. insert (kwh_KeyHash w) m) ws1 {}
      in list_ex (\<lambda>w. kwh_KeyHash w \<in> writeKeyHashes) ws2)"

text \<open>\<open>extractRWSet\<close>: the first read-write set of a namespace wins; a decoding error ends it.\<close>

definition add_ns :: "NsReadWriteSet \<Rightarrow> (string \<rightharpoonup> NsReadWriteSet) \<Rightarrow> (string \<rightharpoonup> NsReadWriteSet)" where
  "add_ns nsRWSet rwSets =
     (case rwSets (ns_Namespace nsRWSet) of
        None \<Rightarrow> rwSets(ns_Namespace nsRWSet \<mapsto> nsRWSet)
      | Some _ \<Rightarrow> rwSets)"

definition extract_action ::
    "codec \<Rightarrow> TransactionAction \<Rightarrow> (string \<rightharpoonup> NsReadWriteSet) \<Rightarrow>
     unmarshal_error + (string \<rightharpoonup> NsReadWriteSet)" where
  "extract_action cd action rwSets =
     (case un_ChaincodeAction cd (ta_Payload action) of
        None \<Rightarrow> Inl (ErrUnmarshal ''ChaincodeAction'')
      | Some chaincodeAction \<Rightarrow>
          (case ca_Results chaincodeAction of
             None \<Rightarrow> Inr rwSets
           | Some results \<Rightarrow>
               (case un_TxReadWriteSet cd results of
                  None \<Rightarrow> Inl (ErrUnmarshal ''TxReadWriteSet'')
                | Some nsRwset \<Rightarrow> Inr (fold add_ns nsRwset rwSets))))"

definition extractRWSet ::
    "codec \<Rightarrow> Transaction \<Rightarrow> unmarshal_error + (string \<rightharpoonup> NsReadWriteSet)" where
  "extractRWSet cd tx = fold_err (extract_action cd) (tx_Actions tx) Map.empty"

text \<open>The two nested loops over hashed collections; an undecodable collection is skipped.\<close>

definition coll_conflict ::
    "codec \<Rightarrow> CollectionHashedReadWriteSet \<Rightarrow> CollectionHashedReadWriteSet \<Rightarrow> bool" where
  "coll_conflict cd coll1 coll2 =
     (case un_HashedRWSet cd (ch_HashedRwset coll1) of
        None \<Rightarrow> False
      | Some hashedRW1 \<Rightarrow>
          if ch_CollectionName coll1 \<noteq> ch_CollectionName coll2 then False
          else (case un_HashedRWSet cd (ch_HashedRwset coll2) of
                  None \<Rightarrow> False
                | Some hashedRW2 \<Rightarrow>
                    hasConflictInHashedRWSet (hrw_HashedReads hashedRW1) (hrw_HashedWrites hashedRW2) \<or>
                    hasConflictInHashedRWSet (hrw_HashedReads hashedRW2) (hrw_HashedWrites hashedRW1) \<or>
                    hasHashedWriteWriteConflict (hrw_HashedWrites hashedRW1) (hrw_HashedWrites hashedRW2)))"

text \<open>
  One iteration over a namespace both transactions touch: \<open>Some b\<close> is a \<open>return b\<close> from
  inside the loop, \<^term>\<open>None\<close> continues with the next namespace.
\<close>

definition ns_conflict :: "codec \<Rightarrow> NsReadWriteSet \<Rightarrow> NsReadWriteSet \<Rightarrow> bool option" where
  "ns_conflict cd ns1Data ns2Data =
     (case un_KVRWSet cd (ns_Rwset ns1Data) of
        None \<Rightarrow> Some False
      | Some kvrw1 \<Rightarrow>
          (case un_KVRWSet cd (ns_Rwset ns2Data) of
             None \<Rightarrow> Some False
           | Some kvrw2 \<Rightarrow>
               if hasConflictInKVRWSet (rw_Reads kvrw1) (rw_Writes kvrw2) \<or>
                  hasConflictInKVRWSet (rw_Reads kvrw2) (rw_Writes kvrw1) \<or>
                  hasWriteWriteConflict (rw_Writes kvrw1) (rw_Writes kvrw2)
               then Some True
               else if list_ex (\<lambda>coll1. list_ex (coll_conflict cd coll1) (ns_CollectionHashedRwset ns2Data))
                         (ns_CollectionHashedRwset ns1Data)
               then Some True
               else None))"

definition checkRWSetConflicts :: "codec \<Rightarrow> string list \<Rightarrow> Transaction \<Rightarrow> Transaction \<Rightarrow> bool" where
  "checkRWSetConflicts cd order tx1 tx2 =
     (case extractRWSet cd tx1 of
        Inl _ \<Rightarrow> False
      | Inr ns1Map \<Rightarrow>
          (case extractRWSet cd tx2 of
             Inl _ \<Rightarrow> False
           | Inr ns2Map \<Rightarrow>
               (case first_hit
                       (\<lambda>ns1. case (ns1Map ns1, ns2Map ns1) of
                                (Some ns1Data, Some ns2Data) \<Rightarrow> ns_conflict cd ns1Data ns2Data
                              | _ \<Rightarrow> None) order of
                  Some b \<Rightarrow> b
                | None \<Rightarrow> False)))"

section \<open>The helpers decide overlap\<close>

lemma fold_insert_keys: "fold (\<lambda>w m. insert (f w) m) ws s = f ` set ws \<union> s"
  by (induction ws arbitrary: s) auto

lemma conflict_iffs:
  "hasConflictInKVRWSet rs ws \<longleftrightarrow> kr_Key ` set rs \<inter> kw_Key ` set ws \<noteq> {}"
  "hasConflictInHashedRWSet hrs hws \<longleftrightarrow> krh_KeyHash ` set hrs \<inter> kwh_KeyHash ` set hws \<noteq> {}"
  "hasWriteWriteConflict ws ws' \<longleftrightarrow> kw_Key ` set ws \<inter> kw_Key ` set ws' \<noteq> {}"
  "hasHashedWriteWriteConflict hws hws' \<longleftrightarrow> kwh_KeyHash ` set hws \<inter> kwh_KeyHash ` set hws' \<noteq> {}"
  by (auto simp: hasConflictInKVRWSet_def hasConflictInHashedRWSet_def hasWriteWriteConflict_def
      hasHashedWriteWriteConflict_def fold_insert_keys list_ex_iff) (metis image_eqI)+

text \<open>The namespaces of a transaction, and that all of them decode.\<close>

definition ns_decodable :: "codec \<Rightarrow> (string \<rightharpoonup> NsReadWriteSet) \<Rightarrow> bool" where
  "ns_decodable cd m \<longleftrightarrow> (\<forall>n \<in> ran m. un_KVRWSet cd (ns_Rwset n) \<noteq> None)"

definition decodable :: "codec \<Rightarrow> Transaction \<Rightarrow> bool" where
  "decodable cd tx \<longleftrightarrow> (case extractRWSet cd tx of Inl _ \<Rightarrow> False | Inr m \<Rightarrow> ns_decodable cd m)"

definition namespaces :: "codec \<Rightarrow> Transaction \<Rightarrow> string set" where
  "namespaces cd tx = (case extractRWSet cd tx of Inl _ \<Rightarrow> {} | Inr m \<Rightarrow> dom m)"

text \<open>
  What a transaction reads and writes, as sets of locations: a public key of a namespace, or
  the hash of a key in a collection of it.
\<close>

datatype location = Public string | Hashed string bytes

definition ns_reads :: "codec \<Rightarrow> NsReadWriteSet \<Rightarrow> location set" where
  "ns_reads cd n =
     {Public (kr_Key r) |kv r. un_KVRWSet cd (ns_Rwset n) = Some kv \<and> r \<in> set (rw_Reads kv)} \<union>
     {Hashed (ch_CollectionName c) (krh_KeyHash r) |c h r. c \<in> set (ns_CollectionHashedRwset n) \<and>
        un_HashedRWSet cd (ch_HashedRwset c) = Some h \<and> r \<in> set (hrw_HashedReads h)}"

definition ns_writes :: "codec \<Rightarrow> NsReadWriteSet \<Rightarrow> location set" where
  "ns_writes cd n =
     {Public (kw_Key w) |kv w. un_KVRWSet cd (ns_Rwset n) = Some kv \<and> w \<in> set (rw_Writes kv)} \<union>
     {Hashed (ch_CollectionName c) (kwh_KeyHash w) |c h w. c \<in> set (ns_CollectionHashedRwset n) \<and>
        un_HashedRWSet cd (ch_HashedRwset c) = Some h \<and> w \<in> set (hrw_HashedWrites h)}"

definition tx_reads :: "codec \<Rightarrow> Transaction \<Rightarrow> (string \<times> location) set" where
  "tx_reads cd tx = {(ns, x) |m ns n x. extractRWSet cd tx = Inr m \<and> m ns = Some n \<and> x \<in> ns_reads cd n}"

definition tx_writes :: "codec \<Rightarrow> Transaction \<Rightarrow> (string \<times> location) set" where
  "tx_writes cd tx = {(ns, x) |m ns n x. extractRWSet cd tx = Inr m \<and> m ns = Some n \<and> x \<in> ns_writes cd n}"

definition conflicting :: "codec \<Rightarrow> Transaction \<Rightarrow> Transaction \<Rightarrow> bool" where
  "conflicting cd tx1 tx2 \<longleftrightarrow>
     tx_reads cd tx1 \<inter> tx_writes cd tx2 \<noteq> {} \<or> tx_writes cd tx1 \<inter> tx_reads cd tx2 \<noteq> {} \<or>
     tx_writes cd tx1 \<inter> tx_writes cd tx2 \<noteq> {}"

lemma conflicting_sym: "conflicting cd tx1 tx2 \<longleftrightarrow> conflicting cd tx2 tx1"
  unfolding conflicting_def by blast

text \<open>One namespace: the helpers find a conflict exactly when the locations overlap.\<close>

definition ns_overlap :: "codec \<Rightarrow> NsReadWriteSet \<Rightarrow> NsReadWriteSet \<Rightarrow> bool" where
  "ns_overlap cd n1 n2 \<longleftrightarrow>
     ns_reads cd n1 \<inter> ns_writes cd n2 \<noteq> {} \<or> ns_writes cd n1 \<inter> ns_reads cd n2 \<noteq> {} \<or>
     ns_writes cd n1 \<inter> ns_writes cd n2 \<noteq> {}"

definition hashed_locations :: "('h \<Rightarrow> bytes set) \<Rightarrow> (bytes \<Rightarrow> 'h option) \<Rightarrow> CollectionHashedReadWriteSet list \<Rightarrow> location set" where
  "hashed_locations f un cs =
     {Hashed (ch_CollectionName c) k |c h k. c \<in> set cs \<and> un (ch_HashedRwset c) = Some h \<and> k \<in> f h}"

definition overlap :: "'a set \<Rightarrow> 'a set \<Rightarrow> 'a set \<Rightarrow> 'a set \<Rightarrow> bool" where
  "overlap R1 W1 R2 W2 \<longleftrightarrow> R1 \<inter> W2 \<noteq> {} \<or> W1 \<inter> R2 \<noteq> {} \<or> W1 \<inter> W2 \<noteq> {}"

lemma coll_conflict_iff:
  "coll_conflict cd c1 c2 \<longleftrightarrow>
     (\<exists>h1 h2. un_HashedRWSet cd (ch_HashedRwset c1) = Some h1 \<and> un_HashedRWSet cd (ch_HashedRwset c2) = Some h2 \<and>
        ch_CollectionName c1 = ch_CollectionName c2 \<and>
        overlap (krh_KeyHash ` set (hrw_HashedReads h1)) (kwh_KeyHash ` set (hrw_HashedWrites h1))
          (krh_KeyHash ` set (hrw_HashedReads h2)) (kwh_KeyHash ` set (hrw_HashedWrites h2)))"
  by (auto simp: coll_conflict_def conflict_iffs overlap_def split: option.splits)

lemma ns_sets_eq:
  assumes "un_KVRWSet cd (ns_Rwset n) = Some kv"
  shows "ns_reads cd n = Public ` kr_Key ` set (rw_Reads kv) \<union>
      hashed_locations (\<lambda>h. krh_KeyHash ` set (hrw_HashedReads h)) (un_HashedRWSet cd) (ns_CollectionHashedRwset n)"
    and "ns_writes cd n = Public ` kw_Key ` set (rw_Writes kv) \<union>
      hashed_locations (\<lambda>h. kwh_KeyHash ` set (hrw_HashedWrites h)) (un_HashedRWSet cd) (ns_CollectionHashedRwset n)"
  unfolding ns_reads_def ns_writes_def hashed_locations_def using assms by auto

lemma hashed_locations_meet:
  "hashed_locations f un cs \<inter> hashed_locations g un ds \<noteq> {} \<longleftrightarrow>
     (\<exists>c \<in> set cs. \<exists>d \<in> set ds. \<exists>h1 h2. un (ch_HashedRwset c) = Some h1 \<and>
        un (ch_HashedRwset d) = Some h2 \<and> ch_CollectionName c = ch_CollectionName d \<and> f h1 \<inter> g h2 \<noteq> {})"
proof
  assume "hashed_locations f un cs \<inter> hashed_locations g un ds \<noteq> {}"
  then obtain x where "x \<in> hashed_locations f un cs" "x \<in> hashed_locations g un ds" by blast
  then show "\<exists>c \<in> set cs. \<exists>d \<in> set ds. \<exists>h1 h2. un (ch_HashedRwset c) = Some h1 \<and>
      un (ch_HashedRwset d) = Some h2 \<and> ch_CollectionName c = ch_CollectionName d \<and> f h1 \<inter> g h2 \<noteq> {}"
    by (fastforce simp: hashed_locations_def)
qed (fastforce simp: hashed_locations_def)

lemma public_hashed_meet:
  "(Public ` A \<union> hashed_locations f un cs) \<inter> (Public ` B \<union> hashed_locations g un ds) \<noteq> {} \<longleftrightarrow>
     A \<inter> B \<noteq> {} \<or> hashed_locations f un cs \<inter> hashed_locations g un ds \<noteq> {}"
proof -
  have "Public x \<notin> hashed_locations h un es" for x es and h :: "'a \<Rightarrow> bytes set"
    by (simp add: hashed_locations_def)
  then show ?thesis by blast
qed

lemma ns_conflict_overlap:
  assumes "un_KVRWSet cd (ns_Rwset n1) = Some k1" "un_KVRWSet cd (ns_Rwset n2) = Some k2"
  shows "ns_conflict cd n1 n2 = Some True \<longleftrightarrow> ns_overlap cd n1 n2"
proof -
  have loops: "list_ex (\<lambda>c1. list_ex (coll_conflict cd c1) ds) cs \<longleftrightarrow>
      hashed_locations (\<lambda>h. krh_KeyHash ` set (hrw_HashedReads h)) (un_HashedRWSet cd) cs \<inter>
        hashed_locations (\<lambda>h. kwh_KeyHash ` set (hrw_HashedWrites h)) (un_HashedRWSet cd) ds \<noteq> {} \<or>
      hashed_locations (\<lambda>h. kwh_KeyHash ` set (hrw_HashedWrites h)) (un_HashedRWSet cd) cs \<inter>
        hashed_locations (\<lambda>h. krh_KeyHash ` set (hrw_HashedReads h)) (un_HashedRWSet cd) ds \<noteq> {} \<or>
      hashed_locations (\<lambda>h. kwh_KeyHash ` set (hrw_HashedWrites h)) (un_HashedRWSet cd) cs \<inter>
        hashed_locations (\<lambda>h. kwh_KeyHash ` set (hrw_HashedWrites h)) (un_HashedRWSet cd) ds \<noteq> {}" for cs ds
    by (simp only: list_ex_iff Bex_def hashed_locations_meet coll_conflict_iff overlap_def conj_disj_distribL
        ex_disj_distrib)
  let ?C = "list_ex (\<lambda>c1. list_ex (coll_conflict cd c1) (ns_CollectionHashedRwset n2)) (ns_CollectionHashedRwset n1)"
  have "ns_conflict cd n1 n2 = Some True \<longleftrightarrow>
      kr_Key ` set (rw_Reads k1) \<inter> kw_Key ` set (rw_Writes k2) \<noteq> {} \<or>
      kw_Key ` set (rw_Writes k1) \<inter> kr_Key ` set (rw_Reads k2) \<noteq> {} \<or>
      kw_Key ` set (rw_Writes k1) \<inter> kw_Key ` set (rw_Writes k2) \<noteq> {} \<or> ?C"
    using assms by (simp add: ns_conflict_def conflict_iffs Int_commute) argo
  then show ?thesis
    unfolding ns_overlap_def ns_sets_eq [OF assms(1)] ns_sets_eq [OF assms(2)] public_hashed_meet loops
    by (simp only: disj_ac)
qed

lemma located_meet:
  "{(ns, x) |ns n x. m1 ns = Some n \<and> x \<in> f n} \<inter> {(ns, x) |ns n x. m2 ns = Some n \<and> x \<in> g n} \<noteq> {} \<longleftrightarrow>
     (\<exists>ns n1 n2. m1 ns = Some n1 \<and> m2 ns = Some n2 \<and> f n1 \<inter> g n2 \<noteq> {})"
  by fastforce

lemma conflicting_iff:
  assumes "extractRWSet cd tx1 = Inr m1" "extractRWSet cd tx2 = Inr m2"
  shows "conflicting cd tx1 tx2 \<longleftrightarrow> (\<exists>ns n1 n2. m1 ns = Some n1 \<and> m2 ns = Some n2 \<and> ns_overlap cd n1 n2)"
proof -
  have "tx_reads cd tx = {(ns, x) |ns n x. m ns = Some n \<and> x \<in> ns_reads cd n}"
    "tx_writes cd tx = {(ns, x) |ns n x. m ns = Some n \<and> x \<in> ns_writes cd n}"
    if "extractRWSet cd tx = Inr m" for tx m
    using that by (auto simp: tx_reads_def tx_writes_def)
  from this [OF assms(1)] this [OF assms(2)] show ?thesis
    by (simp only: conflicting_def located_meet ns_overlap_def conj_disj_distribL ex_disj_distrib)
qed

lemma first_hit_True:
  "(\<And>x. x \<in> set xs \<Longrightarrow> f x \<noteq> Some False) \<Longrightarrow>
     (case first_hit f xs of Some b \<Rightarrow> b | None \<Rightarrow> False) \<longleftrightarrow> (\<exists>x \<in> set xs. f x = Some True)"
proof (induction xs)
  case Nil
  then show ?case by simp
next
  case (Cons x xs)
  have "f x = None \<or> f x = Some True" using Cons.prems [of x] by (cases "f x") auto
  with Cons show ?case by auto
qed

lemma ns_conflict_not_False:
  "un_KVRWSet cd (ns_Rwset n1) \<noteq> None \<Longrightarrow> un_KVRWSet cd (ns_Rwset n2) \<noteq> None \<Longrightarrow>
     ns_conflict cd n1 n2 \<noteq> Some False"
  by (auto simp: ns_conflict_def split: if_splits)

lemma checkRWSetConflicts_decodable:
  assumes "decodable cd tx1" "decodable cd tx2" "set order = namespaces cd tx1"
  shows "checkRWSetConflicts cd order tx1 tx2 \<longleftrightarrow> conflicting cd tx1 tx2"
proof -
  obtain m1 m2 where m: "extractRWSet cd tx1 = Inr m1" "extractRWSet cd tx2 = Inr m2"
    "ns_decodable cd m1" "ns_decodable cd m2" "set order = dom m1"
    using assms by (auto simp: decodable_def namespaces_def split: sum.splits)
  let ?f = "\<lambda>ns1. case (m1 ns1, m2 ns1) of (Some n1, Some n2) \<Rightarrow> ns_conflict cd n1 n2 | _ \<Rightarrow> None"
  have nf: "?f ns \<noteq> Some False" for ns
    using m(3,4) ns_conflict_not_False [of cd "the (m1 ns)" "the (m2 ns)"]
    by (auto simp: ns_decodable_def ran_def split: option.splits) blast
  have "checkRWSetConflicts cd order tx1 tx2 \<longleftrightarrow> (\<exists>ns \<in> set order. ?f ns = Some True)"
    using first_hit_True [of order ?f, OF nf] m by (simp add: checkRWSetConflicts_def)
  also have "\<dots> \<longleftrightarrow> (\<exists>ns n1 n2. m1 ns = Some n1 \<and> m2 ns = Some n2 \<and> ns_conflict cd n1 n2 = Some True)"
    using m(5) by (auto simp: dom_def split: option.splits) (metis not_None_eq)
  also have "\<dots> \<longleftrightarrow> (\<exists>ns n1 n2. m1 ns = Some n1 \<and> m2 ns = Some n2 \<and> ns_overlap cd n1 n2)"
    using m(3,4) ns_conflict_overlap unfolding ns_decodable_def ran_def by blast
  also have "\<dots> \<longleftrightarrow> conflicting cd tx1 tx2" using conflicting_iff [OF m(1,2)] by blast
  finally show ?thesis .
qed

section \<open>Properties\<close>

text \<open>C7: when every read-write set of the two transactions decodes, the conflict test is the
  abstract one: there is a namespace both touch in which one writes, publicly or as a hash in
  the same collection, a key the other reads or writes. The answer is then the same for
  every iteration order over the namespaces, and the same with the transactions swapped.\<close>

theorem checkRWSetConflicts_correct:
  assumes "decodable cd tx1" "decodable cd tx2"
    and "set order = namespaces cd tx1" "set order' = namespaces cd tx2"
  shows "(checkRWSetConflicts cd order tx1 tx2 \<longleftrightarrow> conflicting cd tx1 tx2) \<and>
    (checkRWSetConflicts cd order' tx2 tx1 \<longleftrightarrow> checkRWSetConflicts cd order tx1 tx2)"
  using assms checkRWSetConflicts_decodable conflicting_sym by blast

text \<open>A codec for the examples: bytes are names of prepared messages.\<close>

definition no_codec :: codec where
  "no_codec = \<lparr>un_Envelope = (\<lambda>_. None), un_Payload = (\<lambda>_. None), un_ChannelHeader = (\<lambda>_. None),
     un_Transaction = (\<lambda>_. None), un_ChaincodeAction = (\<lambda>_. None), un_TxReadWriteSet = (\<lambda>_. None),
     un_KVRWSet = (\<lambda>_. None), un_HashedRWSet = (\<lambda>_. None)\<rparr>"

definition write_rwset :: "string \<Rightarrow> KVRWSet" where
  "write_rwset k = \<lparr>rw_Reads = [], rw_RangeQueriesInfo = [],
     rw_Writes = [\<lparr>kw_Key = k, kw_IsDelete = False, kw_Value = ''v''\<rparr>], rw_MetadataWrites = []\<rparr>"

definition ns_of :: "string \<Rightarrow> bytes \<Rightarrow> NsReadWriteSet" where
  "ns_of ns bs = \<lparr>ns_Namespace = ns, ns_Rwset = bs, ns_CollectionHashedRwset = []\<rparr>"

definition sample_codec :: codec where
  "sample_codec = no_codec\<lparr>
     un_ChaincodeAction := (\<lambda>b. Some \<lparr>ca_Results = Some b, ca_Events = [], ca_Response = None\<rparr>),
     un_TxReadWriteSet := (\<lambda>b. if b = ''A'' then Some [ns_of ''cc'' ''wk'']
        else if b = ''B'' then Some [ns_of ''cc'' ''wk'', ns_of ''dd'' ''bad'']
        else Some [ns_of ''cc'' ''wk'', ns_of ''dd'' ''wk'']),
     un_KVRWSet := (\<lambda>b. if b = ''wk'' then Some (write_rwset ''k'') else None)\<rparr>"

definition tx_of :: "bytes \<Rightarrow> Transaction" where
  "tx_of b = \<lparr>tx_Actions = [\<lparr>ta_Payload = b\<rparr>]\<rparr>"

lemma sample_extract:
  "extractRWSet sample_codec (tx_of ''A'') = Inr [''cc'' \<mapsto> ns_of ''cc'' ''wk'']"
  "extractRWSet sample_codec (tx_of ''B'') = Inr [''cc'' \<mapsto> ns_of ''cc'' ''wk'', ''dd'' \<mapsto> ns_of ''dd'' ''bad'']"
  "extractRWSet sample_codec (tx_of ''C'') = Inr [''cc'' \<mapsto> ns_of ''cc'' ''wk'', ''dd'' \<mapsto> ns_of ''dd'' ''wk'']"
  by (simp_all add: extractRWSet_def extract_action_def tx_of_def sample_codec_def add_ns_def ns_of_def)

lemma sample_decode [simp]:
  "un_KVRWSet sample_codec ''wk'' = Some (write_rwset ''k'')"
  "un_KVRWSet sample_codec ''bad'' = None"
  by (simp_all add: sample_codec_def)

theorem checkRWSetConflicts_correct_witness:
  "decodable sample_codec (tx_of ''A'') \<and> decodable sample_codec (tx_of ''C'') \<and>
   checkRWSetConflicts sample_codec [''cc''] (tx_of ''A'') (tx_of ''C'') \<and>
   checkRWSetConflicts sample_codec [''dd'', ''cc''] (tx_of ''C'') (tx_of ''A'')"
proof -
  have d: "decodable sample_codec (tx_of ''A'')" "decodable sample_codec (tx_of ''C'')"
    by (auto simp: decodable_def ns_decodable_def sample_extract ns_of_def ran_def)
  have o: "set [''cc''] = namespaces sample_codec (tx_of ''A'')"
    "set [''dd'', ''cc''] = namespaces sample_codec (tx_of ''C'')"
    by (auto simp: namespaces_def sample_extract)
  have "checkRWSetConflicts sample_codec [''cc''] (tx_of ''A'') (tx_of ''C'')"
    by (simp add: checkRWSetConflicts_def sample_extract ns_conflict_def conflict_iffs
        ns_of_def write_rwset_def)
  with d checkRWSetConflicts_correct [OF d o] show ?thesis by blast
qed


end
