(* ===== verification/Committer.thy ===== *)
theory Committer
  imports Tx_DAG Dep_Info Rw_Conflict "HOL-Library.List_Lexorder" "HOL-Library.Char_ord"
begin

text \<open>
  The ledger committer with dependency-aware processing
  (\<^verbatim>\<open>core/committer/committer_impl.go\<close>): building the graph of a block, processing it level
  by level with one goroutine per transaction, writing the validation flags and handing the
  block to the ledger.  The peer ledger is not part of this component: its \<open>CommitLegacy\<close> is
  an argument that maps a block and a ledger to an optional error and a new ledger.

  A level is modelled twice: as the step relation \<open>level_step\<close>, in which the loop and the
  goroutines it starts interleave in every possible way, and as the function
  \<open>process_level\<close>, which runs one transaction after the other.
\<close>

record Block =
  blk_Number :: u64
  blk_Data :: "bytes list"
  blk_Metadata :: "bytes list option"

record 'p BlockAndPvtData =
  bp_Block :: Block
  bp_PvtData :: 'p

section \<open>BuildDAGFromBlock\<close>

text \<open>The loop over the actions of a transaction; it stops at the first dependency.\<close>

fun scan_actions :: "codec \<Rightarrow> TransactionAction list \<Rightarrow> bool \<times> string \<Rightarrow> bool \<times> string" where
  "scan_actions cd [] r = r"
| "scan_actions cd (action # as) (hasDependency, dependentTxID) =
     (case un_ChaincodeAction cd (ta_Payload action) of
        None \<Rightarrow> scan_actions cd as (hasDependency, dependentTxID)
      | Some chaincodeAction \<Rightarrow>
          (case ca_Response chaincodeAction of
             None \<Rightarrow> scan_actions cd as (hasDependency, dependentTxID)
           | Some response \<Rightarrow>
               if resp_Message response \<noteq> []
               then (case ParseDependencyInfo (resp_Message response) of
                       Inl _ \<Rightarrow> scan_actions cd as (False, [])
                     | Inr (h, d, _) \<Rightarrow> if h then (h, d) else scan_actions cd as (h, d))
               else scan_actions cd as (hasDependency, dependentTxID)))"

text \<open>
  One transaction of the block. An entry that does not decode is skipped; a payload without
  a header is a nil dereference.
\<close>

definition add_block_tx :: "codec \<Rightarrow> nat \<Rightarrow> bytes \<Rightarrow> TransactionDAG \<Rightarrow> TransactionDAG go" where
  "add_block_tx cd i txEnvelopeBytes dag =
     (case GetEnvelopeFromBlock cd txEnvelopeBytes of
        Inl _ \<Rightarrow> Return dag
      | Inr env \<Rightarrow>
          (case UnmarshalPayload cd (env_Payload env) of
             Inl _ \<Rightarrow> Return dag
           | Inr payload \<Rightarrow>
               (case pl_Header payload of
                  None \<Rightarrow> Panic
                | Some header \<Rightarrow>
                    (case UnmarshalChannelHeader cd (hd_ChannelHeader header) of
                       Inl _ \<Rightarrow> Return dag
                     | Inr chdr \<Rightarrow>
                         (case UnmarshalTransaction cd (pl_Data payload) of
                            Inl _ \<Rightarrow> Return dag
                          | Inr tx \<Rightarrow>
                              (let (hasDependency, dependentTxID) =
                                     scan_actions cd (tx_Actions tx) (False, [])
                               in Return (AddTransaction (chdr_TxId chdr) i hasDependency
                                            dependentTxID dag)))))))"

fun add_block_txs :: "codec \<Rightarrow> nat \<Rightarrow> bytes list \<Rightarrow> TransactionDAG \<Rightarrow> TransactionDAG go" where
  "add_block_txs cd i [] dag = Return dag"
| "add_block_txs cd i (b # bs) dag =
     go_bind (add_block_tx cd i b dag) (\<lambda>dag'. add_block_txs cd (Suc i) bs dag')"

text \<open>
  The iteration orders of one run over a block: those of the three loops of
  \<open>CalculateLevels\<close>, of the grouping by level, of the search for the largest level, of the
  final update of the flags, and of the namespaces in each conflict test (by transaction and
  dependency).
\<close>

record orders =
  or_init :: "TransactionDAG \<Rightarrow> string list"
  or_passes :: "TransactionDAG \<Rightarrow> nat \<Rightarrow> string list"
  or_rest :: "TransactionDAG \<Rightarrow> string list"
  or_levels :: "TransactionDAG \<Rightarrow> string list"
  or_level_keys :: "TransactionDAG \<Rightarrow> int list"
  or_flags :: "TransactionDAG \<Rightarrow> string list"
  or_ns :: "string \<Rightarrow> string \<Rightarrow> string list"

definition BuildDAGFromBlock :: "codec \<Rightarrow> orders \<Rightarrow> Block \<Rightarrow> TransactionDAG go" where
  "BuildDAGFromBlock cd ords block =
     go_bind (add_block_txs cd 0 (blk_Data block) NewTransactionDAG)
       (\<lambda>dag. Return (CalculateLevels (or_init ords dag) (or_passes ords dag) (or_rest ords dag) dag))"

section \<open>One transaction\<close>

definition TxValidationCode_VALID :: char where
  "TxValidationCode_VALID = CHR 0x00"

definition TxValidationCode_MVCC_READ_CONFLICT :: char where
  "TxValidationCode_MVCC_READ_CONFLICT = CHR 0x0B"

definition BlockMetadataIndex_TRANSACTIONS_FILTER :: nat where
  "BlockMetadataIndex_TRANSACTIONS_FILTER = 2"

text \<open>Every action decodes and its response has status 200.\<close>

fun actions_valid :: "codec \<Rightarrow> TransactionAction list \<Rightarrow> bool" where
  "actions_valid cd [] = True"
| "actions_valid cd (action # as) =
     (case un_ChaincodeAction cd (ta_Payload action) of
        None \<Rightarrow> False
      | Some chaincodeAction \<Rightarrow>
          (case ca_Response chaincodeAction of
             None \<Rightarrow> False
           | Some response \<Rightarrow> resp_Status response = 200 \<and> actions_valid cd as))"

text \<open>The loop that tests a transaction against its dependencies; \<open>True\<close> is a conflict.\<close>

fun dep_conflict ::
    "codec \<Rightarrow> orders \<Rightarrow> bytes list \<Rightarrow> TransactionDAG \<Rightarrow> string \<Rightarrow> Transaction \<Rightarrow> string list \<Rightarrow> bool go" where
  "dep_conflict cd ords data dag txId tx [] = Return False"
| "dep_conflict cd ords data dag txId tx (depTxID # ds) =
     (case GetIndexByTxID depTxID dag of
        None \<Rightarrow> dep_conflict cd ords data dag txId tx ds
      | Some depTxIndex \<Rightarrow>
          go_bind (go_index data depTxIndex)
            (\<lambda>depTxEnvelopeBytes.
               case GetEnvelopeFromBlock cd depTxEnvelopeBytes of
                 Inl _ \<Rightarrow> dep_conflict cd ords data dag txId tx ds
               | Inr depEnv \<Rightarrow>
                   (case UnmarshalPayload cd (env_Payload depEnv) of
                      Inl _ \<Rightarrow> dep_conflict cd ords data dag txId tx ds
                    | Inr depPayload \<Rightarrow>
                        (case UnmarshalTransaction cd (pl_Data depPayload) of
                           Inl _ \<Rightarrow> dep_conflict cd ords data dag txId tx ds
                         | Inr depTx \<Rightarrow>
                             if checkRWSetConflicts cd (or_ns ords txId depTxID) tx depTx
                             then Return True
                             else dep_conflict cd ords data dag txId tx ds))))"

text \<open>
  The body of the goroutine: \<^term>\<open>None\<close> where it returns without setting a result, otherwise
  the result it sets.
\<close>

definition process_tx ::
    "codec \<Rightarrow> orders \<Rightarrow> bytes list \<Rightarrow> TransactionDAG \<Rightarrow> int \<Rightarrow> string \<Rightarrow> bool option go" where
  "process_tx cd ords data dag level txId =
     (case GetIndexByTxID txId dag of
        None \<Rightarrow> Return None
      | Some txIndex \<Rightarrow>
          go_bind (go_index data txIndex)
            (\<lambda>txEnvelopeBytes.
               case GetEnvelopeFromBlock cd txEnvelopeBytes of
                 Inl _ \<Rightarrow> Return (Some False)
               | Inr env \<Rightarrow>
                   (case UnmarshalPayload cd (env_Payload env) of
                      Inl _ \<Rightarrow> Return (Some False)
                    | Inr payload \<Rightarrow>
                        (case UnmarshalTransaction cd (pl_Data payload) of
                           Inl _ \<Rightarrow> Return (Some False)
                         | Inr tx \<Rightarrow>
                             (let isValid = actions_valid cd (tx_Actions tx)
                              in if level > 0 \<and> isValid
                                 then (case fmlookup (dag_Nodes dag) txId of
                                         None \<Rightarrow> Panic
                                       | Some node \<Rightarrow>
                                           go_bind (dep_conflict cd ords data dag txId tx
                                                      (td_DependentTxIDs node))
                                             (\<lambda>conflict. Return (Some (\<not> conflict))))
                                 else Return (Some isValid))))))"

section \<open>One level, sequentially\<close>

text \<open>The test the loop makes before it starts a goroutine: is a dependency invalid?\<close>

definition loop_skips :: "int \<Rightarrow> TransactionDAG \<Rightarrow> string \<Rightarrow> bool go" where
  "loop_skips level dag txID =
     (if level > 0
      then (case fmlookup (dag_Nodes dag) txID of
              None \<Rightarrow> Panic
            | Some node \<Rightarrow> Return (\<not> list_all (\<lambda>depTxID. IsValid depTxID dag) (td_DependentTxIDs node)))
      else Return False)"

definition apply_result :: "string \<Rightarrow> bool option \<Rightarrow> TransactionDAG \<Rightarrow> TransactionDAG" where
  "apply_result txID r dag = (case r of None \<Rightarrow> dag | Some b \<Rightarrow> SetValidationResult txID b dag)"

fun process_level ::
    "codec \<Rightarrow> orders \<Rightarrow> bytes list \<Rightarrow> int \<Rightarrow> string list \<Rightarrow> TransactionDAG \<Rightarrow> TransactionDAG go" where
  "process_level cd ords data level [] dag = Return dag"
| "process_level cd ords data level (txID # txs) dag =
     go_bind (loop_skips level dag txID)
       (\<lambda>skip. if skip
               then process_level cd ords data level txs (SetValidationResult txID False dag)
               else go_bind (process_tx cd ords data dag level txID)
                      (\<lambda>r. process_level cd ords data level txs (apply_result txID r dag)))"

section \<open>One level, with goroutines\<close>

text \<open>
  The state of a level while it runs: what is left of the loop, the goroutines that have been
  started and have not finished, the shared graph, and whether the process has crashed.  The
  semaphore bounds the number of running goroutines when \<open>ConcurrencyLimit\<close> is positive.  A
  goroutine reads only the nodes and indices of the graph, which nobody writes while a level
  runs, and ends by setting its result under the graph's lock: it is one step.
\<close>

record level_state =
  ls_todo :: "string list"
  ls_running :: "string list"
  ls_dag :: TransactionDAG
  ls_crashed :: bool

definition level_start :: "string list \<Rightarrow> TransactionDAG \<Rightarrow> level_state" where
  "level_start txs dag = \<lparr>ls_todo = txs, ls_running = [], ls_dag = dag, ls_crashed = False\<rparr>"

definition has_slot :: "int \<Rightarrow> level_state \<Rightarrow> bool" where
  "has_slot limit s \<longleftrightarrow> limit \<le> 0 \<or> int (length (ls_running s)) < limit"

inductive level_step ::
    "codec \<Rightarrow> orders \<Rightarrow> bytes list \<Rightarrow> int \<Rightarrow> int \<Rightarrow> level_state \<Rightarrow> level_state \<Rightarrow> bool"
  for cd ords data level limit where
  skip: "\<not> ls_crashed s \<Longrightarrow> ls_todo s = t # ts \<Longrightarrow> loop_skips level (ls_dag s) t = Return True \<Longrightarrow>
    level_step cd ords data level limit s
      (s\<lparr>ls_todo := ts, ls_dag := SetValidationResult t False (ls_dag s)\<rparr>)"
| spawn: "\<not> ls_crashed s \<Longrightarrow> ls_todo s = t # ts \<Longrightarrow> loop_skips level (ls_dag s) t = Return False \<Longrightarrow>
    has_slot limit s \<Longrightarrow>
    level_step cd ords data level limit s (s\<lparr>ls_todo := ts, ls_running := ls_running s @ [t]\<rparr>)"
| finish: "\<not> ls_crashed s \<Longrightarrow> t \<in> set (ls_running s) \<Longrightarrow>
    process_tx cd ords data (ls_dag s) level t = Return r \<Longrightarrow>
    level_step cd ords data level limit s
      (s\<lparr>ls_running := remove1 t (ls_running s), ls_dag := apply_result t r (ls_dag s)\<rparr>)"
| crash_loop: "\<not> ls_crashed s \<Longrightarrow> ls_todo s = t # ts \<Longrightarrow> loop_skips level (ls_dag s) t = Panic \<Longrightarrow>
    level_step cd ords data level limit s (s\<lparr>ls_crashed := True\<rparr>)"
| crash_go: "\<not> ls_crashed s \<Longrightarrow> t \<in> set (ls_running s) \<Longrightarrow>
    process_tx cd ords data (ls_dag s) level t = Panic \<Longrightarrow>
    level_step cd ords data level limit s (s\<lparr>ls_crashed := True\<rparr>)"

definition level_done :: "level_state \<Rightarrow> bool" where
  "level_done s \<longleftrightarrow> \<not> ls_crashed s \<and> ls_todo s = [] \<and> ls_running s = []"

section \<open>The block\<close>

fun run_levels ::
    "codec \<Rightarrow> orders \<Rightarrow> bytes list \<Rightarrow> (int \<rightharpoonup> string list) \<Rightarrow> int list \<Rightarrow> TransactionDAG \<Rightarrow> TransactionDAG go" where
  "run_levels cd ords data txsByLevel [] dag = Return dag"
| "run_levels cd ords data txsByLevel (level # levels) dag =
     (case txsByLevel level of
        None \<Rightarrow> run_levels cd ords data txsByLevel levels dag
      | Some txs \<Rightarrow>
          go_bind (process_level cd ords data level txs dag)
            (\<lambda>dag'. run_levels cd ords data txsByLevel levels dag'))"

definition max_level :: "int list \<Rightarrow> int" where
  "max_level keys = fold (\<lambda>level maxLevel. if level > maxLevel then level else maxLevel) keys (- 1)"

fun mark_invalid :: "TransactionDAG \<Rightarrow> string list \<Rightarrow> bytes \<Rightarrow> bytes go" where
  "mark_invalid dag [] txFilter = Return txFilter"
| "mark_invalid dag (txID # txs) txFilter =
     (case GetIndexByTxID txID dag of
        None \<Rightarrow> mark_invalid dag txs txFilter
      | Some txIndex \<Rightarrow>
          if \<not> IsValid txID dag
          then go_bind (go_set txFilter txIndex TxValidationCode_MVCC_READ_CONFLICT)
                 (\<lambda>f. mark_invalid dag txs f)
          else mark_invalid dag txs txFilter)"

definition write_filter :: "orders \<Rightarrow> TransactionDAG \<Rightarrow> Block \<Rightarrow> Block go" where
  "write_filter ords dag block =
     (case blk_Metadata block of
        None \<Rightarrow> Panic
      | Some metadata \<Rightarrow>
          (let metadata1 = (if length metadata \<le> BlockMetadataIndex_TRANSACTIONS_FILTER
                            then metadata @ [[]] else metadata);
               txFilter = replicate (length (blk_Data block)) TxValidationCode_VALID
           in go_bind (mark_invalid dag (or_flags ords dag) txFilter)
                (\<lambda>txFilter'. go_bind (go_set metadata1 BlockMetadataIndex_TRANSACTIONS_FILTER txFilter')
                  (\<lambda>metadata2. Return (block\<lparr>blk_Metadata := Some metadata2\<rparr>)))))"

type_synonym ('p, 'o, 'led) ledger_commit =
  "'p BlockAndPvtData \<Rightarrow> 'o \<Rightarrow> 'led \<Rightarrow> string option \<times> 'led"

definition processBlockWithDAG ::
    "('p, 'o, 'led) ledger_commit \<Rightarrow> codec \<Rightarrow> orders \<Rightarrow> 'p BlockAndPvtData \<Rightarrow> 'o \<Rightarrow> TransactionDAG \<Rightarrow>
     'led \<Rightarrow> (string option \<times> 'led \<times> 'p BlockAndPvtData) go" where
  "processBlockWithDAG commit cd ords blockAndPvtData commitOpts dag led =
     (let block = bp_Block blockAndPvtData;
          txsByLevel = GetTransactionsByLevel (or_levels ords dag) dag;
          maxLevel = max_level (or_level_keys ords dag)
      in go_bind (run_levels cd ords (blk_Data block) txsByLevel [0..maxLevel] dag)
           (\<lambda>dag'. go_bind (write_filter ords dag' block)
              (\<lambda>block'. let bp' = blockAndPvtData\<lparr>bp_Block := block'\<rparr>;
                             (err, led') = commit bp' commitOpts led
                        in Return (err, led', bp'))))"

definition legacyCommit ::
    "('p, 'o, 'led) ledger_commit \<Rightarrow> 'p BlockAndPvtData \<Rightarrow> 'o \<Rightarrow> 'led \<Rightarrow> string option \<times> 'led" where
  "legacyCommit commit blockAndPvtData commitOpts led = commit blockAndPvtData commitOpts led"

text \<open>
  \<open>CommitLegacy\<close>. \<open>BuildDAGFromBlock\<close> never returns an error, so the first fallback of the
  code cannot be taken; an error of \<open>processBlockWithDAG\<close> can only be that of the ledger.
\<close>

definition CommitLegacy ::
    "('p, 'o, 'led) ledger_commit \<Rightarrow> codec \<Rightarrow> orders \<Rightarrow> 'p BlockAndPvtData \<Rightarrow> 'o \<Rightarrow> 'led \<Rightarrow>
     (string option \<times> 'led \<times> 'p BlockAndPvtData) go" where
  "CommitLegacy commit cd ords blockAndPvtData commitOpts led =
     go_bind (BuildDAGFromBlock cd ords (bp_Block blockAndPvtData))
       (\<lambda>dag. go_bind (processBlockWithDAG commit cd ords blockAndPvtData commitOpts dag led)
          (\<lambda>(err, led', bp').
             case err of
               None \<Rightarrow> Return (None, led', bp')
             | Some _ \<Rightarrow> (let (err2, led2) = legacyCommit commit bp' commitOpts led'
                          in Return (err2, led2, bp'))))"

text \<open>\<open>GetBlocks\<close>: numbers the ledger does not have are skipped.\<close>

fun GetBlocks :: "(u64 \<Rightarrow> string + Block) \<Rightarrow> u64 list \<Rightarrow> Block list" where
  "GetBlocks getBlockByNumber [] = []"
| "GetBlocks getBlockByNumber (seqNum # seqs) =
     (case getBlockByNumber seqNum of
        Inl _ \<Rightarrow> GetBlocks getBlockByNumber seqs
      | Inr blck \<Rightarrow> blck # GetBlocks getBlockByNumber seqs)"

section \<open>What a transaction's verdict depends on\<close>

text \<open>Setting results changes neither the nodes nor the indices.\<close>

definition with_results :: "TransactionDAG \<Rightarrow> (string \<rightharpoonup> bool) \<Rightarrow> TransactionDAG" where
  "with_results dag V = dag\<lparr>dag_ValidationResults := V\<rparr>"

lemma with_results_frame [simp]:
  "dag_Nodes (with_results dag V) = dag_Nodes dag"
  "dag_TxIndices (with_results dag V) = dag_TxIndices dag"
  "dag_Levels (with_results dag V) = dag_Levels dag"
  "dag_ValidationResults (with_results dag V) = V"
  "with_results (with_results dag V) W = with_results dag W"
  "with_results dag (dag_ValidationResults dag) = dag"
  by (simp_all add: with_results_def)

lemma SetValidationResult_with [simp]:
  "SetValidationResult t b (with_results dag V) = with_results dag (V(t \<mapsto> b))"
  by (simp add: SetValidationResult_def with_results_def)

lemma GetIndexByTxID_with [simp]: "GetIndexByTxID t (with_results dag V) = GetIndexByTxID t dag"
  by (simp add: GetIndexByTxID_def)

lemma node_deps_with [simp]: "node_deps (with_results dag V) = node_deps dag"
  by (simp add: node_deps_def fun_eq_iff)

lemma levelled_with [simp]: "levelled (with_results dag V) \<longleftrightarrow> levelled dag"
  by (simp add: levelled_def)

lemma dep_conflict_with [simp]:
  "dep_conflict cd ords data (with_results dag V) t tx ds = dep_conflict cd ords data dag t tx ds"
  by (induction ds) (simp_all cong: option.case_cong sum.case_cong if_cong)

lemma process_tx_with [simp]:
  "process_tx cd ords data (with_results dag V) level t = process_tx cd ords data dag level t"
  by (simp add: process_tx_def cong: option.case_cong sum.case_cong if_cong)

lemma IsValid_with: "IsValid t (with_results dag V) \<longleftrightarrow> V t = Some True"
  by (auto simp: IsValid_def split: option.splits)

lemma loop_skips_eq:
  "loop_skips level dag t =
     (if 0 < level
      then (if fmlookup (dag_Nodes dag) t = None then Panic
            else Return (\<exists>d \<in> set (node_deps dag t). \<not> IsValid d dag))
      else Return False)"
  by (auto simp: loop_skips_def node_deps_def list_all_iff split: option.splits)

text \<open>
  The verdict on a transaction, from the results there are when its level starts, and the
  results after the transactions of a set \<open>D\<close> have been dealt with.
\<close>

definition verdict ::
    "codec \<Rightarrow> orders \<Rightarrow> bytes list \<Rightarrow> int \<Rightarrow> TransactionDAG \<Rightarrow> string \<Rightarrow> bool option go" where
  "verdict cd ords data level dag t =
     go_bind (loop_skips level dag t)
       (\<lambda>skip. if skip then Return (Some False) else process_tx cd ords data dag level t)"

definition level_results ::
    "(string \<Rightarrow> bool option go) \<Rightarrow> (string \<rightharpoonup> bool) \<Rightarrow> string set \<Rightarrow> (string \<rightharpoonup> bool)" where
  "level_results vd V D =
     (\<lambda>k. if k \<in> D then (case vd k of Return (Some b) \<Rightarrow> Some b | _ \<Rightarrow> V k) else V k)"

lemma level_results_empty [simp]: "level_results vd V {} = V"
  by (simp add: level_results_def)

lemma level_results_insert:
  "t \<notin> D \<Longrightarrow> vd t = Return r \<Longrightarrow>
     (case r of None \<Rightarrow> level_results vd V D | Some b \<Rightarrow> (level_results vd V D)(t \<mapsto> b)) =
     level_results vd V (insert t D)"
  by (auto simp: level_results_def fun_eq_iff split: option.splits)

text \<open>The transactions of a level do not depend on each other.\<close>

definition level_independent :: "int \<Rightarrow> TransactionDAG \<Rightarrow> string list \<Rightarrow> bool" where
  "level_independent level dag txs \<longleftrightarrow>
     (0 < level \<longrightarrow> (\<forall>t \<in> set txs. set (node_deps dag t) \<inter> set txs = {}))"

lemma level_independent_levelled:
  "levelled dag \<Longrightarrow> (\<And>t. t \<in> set txs \<Longrightarrow> dag_Levels dag t = Some level) \<Longrightarrow>
     level_independent level dag txs"
  unfolding level_independent_def using dag.same_level_independent by blast

lemma loop_skips_results:
  assumes "level_independent level dag txs" "t \<in> set txs" "D \<subseteq> set txs"
  shows "loop_skips level (with_results dag (level_results vd (dag_ValidationResults dag) D)) t =
    loop_skips level dag t"
proof -
  have "IsValid d (with_results dag (level_results vd (dag_ValidationResults dag) D)) \<longleftrightarrow> IsValid d dag"
    if "0 < level" "d \<in> set (node_deps dag t)" for d
  proof -
    have "d \<notin> D" using that assms by (auto simp: level_independent_def)
    then show ?thesis by (auto simp: IsValid_with level_results_def IsValid_def split: option.splits)
  qed
  then show ?thesis by (simp add: loop_skips_eq cong: conj_cong)
qed

section \<open>The sequential run of a level\<close>

lemma process_level_results:
  assumes "level_independent level dag txs" "distinct (pre @ rest)" "txs = pre @ rest"
    and "\<And>t. t \<in> set rest \<Longrightarrow> verdict cd ords data level dag t \<noteq> Panic"
  defines "res D \<equiv> with_results dag
    (level_results (verdict cd ords data level dag) (dag_ValidationResults dag) D)"
  shows "process_level cd ords data level rest (res (set pre)) = Return (res (set txs))"
  using assms(2,3,4)
proof (induction rest arbitrary: pre)
  case Nil
  then show ?case by simp
next
  case (Cons t rest)
  let ?vd = "verdict cd ords data level dag"
  have sk: "loop_skips level (res (set pre)) t = loop_skips level dag t"
    unfolding res_def using assms(1) by (rule loop_skips_results) (use Cons.prems(2) in auto)
  obtain r where r: "?vd t = Return r" using Cons.prems(3) [of t] by (cases "?vd t") auto
  have t: "t \<notin> set pre" using Cons.prems(1) by simp
  have upd: "apply_result t r (res (set pre)) = res (set (pre @ [t]))"
    using level_results_insert [of t "set pre" ?vd r "dag_ValidationResults dag"] t r
    unfolding apply_result_def res_def by (auto simp: split: option.splits)
  have IH: "process_level cd ords data level rest (res (set (pre @ [t]))) = Return (res (set txs))"
    by (rule Cons.IH) (use Cons.prems in auto)
  show ?case
  proof (cases "loop_skips level dag t")
    case (Return skip)
    show ?thesis
    proof (cases skip)
      case True
      then have "r = Some False" using r Return by (simp add: verdict_def)
      then show ?thesis using IH upd sk Return True by (simp add: apply_result_def)
    next
      case False
      then have "process_tx cd ords data dag level t = Return r" using r Return by (simp add: verdict_def)
      then have "process_tx cd ords data (res (set pre)) level t = Return r" by (simp add: res_def)
      then show ?thesis using IH upd sk Return False by simp
    qed
  next
    case Panic
    then show ?thesis using r by (simp add: verdict_def)
  qed
qed

lemma process_level_eq:
  assumes "level_independent level dag txs" "distinct txs"
    and "\<And>t. t \<in> set txs \<Longrightarrow> verdict cd ords data level dag t \<noteq> Panic"
  shows "process_level cd ords data level txs dag =
    Return (with_results dag
      (level_results (verdict cd ords data level dag) (dag_ValidationResults dag) (set txs)))"
  using process_level_results [of level dag txs "[]" txs cd ords data] assms by simp

section \<open>Every interleaving of a level gives the sequential result\<close>

definition handled :: "string list \<Rightarrow> level_state \<Rightarrow> string set" where
  "handled txs s = set txs - set (ls_todo s) - set (ls_running s)"

definition level_run_inv ::
    "(string \<Rightarrow> bool option go) \<Rightarrow> int \<Rightarrow> TransactionDAG \<Rightarrow> string list \<Rightarrow> level_state \<Rightarrow> bool" where
  "level_run_inv vd level dag txs s \<longleftrightarrow>
     distinct (ls_todo s @ ls_running s) \<and> set (ls_todo s) \<union> set (ls_running s) \<subseteq> set txs \<and>
     (\<forall>t \<in> handled txs s. vd t \<noteq> Panic) \<and>
     (\<forall>t \<in> set (ls_running s). loop_skips level dag t = Return False) \<and>
     ls_dag s = with_results dag (level_results vd (dag_ValidationResults dag) (handled txs s))"

lemma level_run_inv_start:
  "distinct txs \<Longrightarrow> level_run_inv vd level dag txs (level_start txs dag)"
  by (simp add: level_run_inv_def level_start_def handled_def)

lemma apply_result_results:
  assumes "t \<notin> D" "vd t = Return r"
  shows "apply_result t r (with_results dag (level_results vd V D)) =
    with_results dag (level_results vd V (insert t D))"
  using level_results_insert [of t D vd r V] assms
  by (auto simp: apply_result_def split: option.splits)

lemma level_step_inv:
  assumes step: "level_step cd ords data level limit s s'" and ok: "\<not> ls_crashed s'"
    and ind: "level_independent level dag txs"
    and inv: "level_run_inv (verdict cd ords data level dag) level dag txs s"
  shows "level_run_inv (verdict cd ords data level dag) level dag txs s'"
proof -
  let ?vd = "verdict cd ords data level dag"
  have skips: "loop_skips level (ls_dag s) t = loop_skips level dag t" if "t \<in> set txs" for t
    using loop_skips_results [OF ind that, of "handled txs s" ?vd] inv
    by (auto simp: level_run_inv_def handled_def)
  from step show ?thesis
  proof cases
    case (skip t ts)
    then have "t \<in> set txs" "t \<notin> handled txs s" "t \<notin> set ts" "t \<notin> set (ls_running s)"
      using inv by (auto simp: level_run_inv_def handled_def)
    moreover then have "?vd t = Return (Some False)" using skip skips by (simp add: verdict_def)
    moreover have "handled txs s' = insert t (handled txs s)"
      using skip calculation by (auto simp: handled_def)
    ultimately show ?thesis using inv skip apply_result_results [of t "handled txs s" ?vd "Some False"]
      by (auto simp: level_run_inv_def apply_result_def)
  next
    case (spawn t ts)
    then have "t \<in> set txs" using inv by (auto simp: level_run_inv_def)
    moreover have "handled txs s' = handled txs s" using spawn by (auto simp: handled_def)
    ultimately show ?thesis using inv spawn skips by (auto simp: level_run_inv_def)
  next
    case (finish t r)
    then have t: "t \<in> set txs" "t \<notin> handled txs s" "loop_skips level dag t = Return False"
      using inv by (auto simp: level_run_inv_def handled_def)
    have "process_tx cd ords data dag level t = Return r"
      using finish inv by (simp add: level_run_inv_def)
    then have vd: "?vd t = Return r" using t by (simp add: verdict_def)
    have h: "handled txs s' = insert t (handled txs s)"
      using finish inv t by (auto simp: handled_def level_run_inv_def set_remove1_eq)
    show ?thesis
      using inv finish vd h t apply_result_results [of t "handled txs s" ?vd r dag "dag_ValidationResults dag"]
      by (auto simp: level_run_inv_def set_remove1_eq)
  next
    case (crash_loop t ts)
    then show ?thesis using ok by simp
  next
    case (crash_go t)
    then show ?thesis using ok by simp
  qed
qed

lemma level_step_not_crashed: "level_step cd ords data level limit s s' \<Longrightarrow> \<not> ls_crashed s"
  by (auto elim: level_step.cases)

lemma level_run_inv:
  assumes "(level_step cd ords data level limit)\<^sup>*\<^sup>* (level_start txs dag) s"
    and "\<not> ls_crashed s" "level_independent level dag txs" "distinct txs"
  shows "level_run_inv (verdict cd ords data level dag) level dag txs s"
  using assms
proof (induction rule: rtranclp_induct)
  case base
  then show ?case by (simp add: level_run_inv_start)
next
  case (step s s')
  then show ?case using level_step_inv level_step_not_crashed by blast
qed

lemma level_run_result:
  assumes "(level_step cd ords data level limit)\<^sup>*\<^sup>* (level_start txs dag) s" "level_done s"
    and "level_independent level dag txs" "distinct txs"
  shows "process_level cd ords data level txs dag = Return (ls_dag s)"
proof -
  have inv: "level_run_inv (verdict cd ords data level dag) level dag txs s"
    using assms level_run_inv by (simp add: level_done_def)
  have "handled txs s = set txs" using assms(2) by (simp add: level_done_def handled_def)
  with inv process_level_eq [OF assms(3,4)] show ?thesis by (simp add: level_run_inv_def)
qed

text \<open>Progress and termination of a level.\<close>

definition level_work :: "level_state \<Rightarrow> nat" where
  "level_work s = (if ls_crashed s then 0 else 1 + 2 * length (ls_todo s) + length (ls_running s))"

lemma level_step_decreases:
  "level_step cd ords data level limit s s' \<Longrightarrow> level_work s' < level_work s"
proof (induction rule: level_step.induct)
  case (finish s t r)
  then have "0 < length (ls_running s)" by (cases "ls_running s") auto
  then show ?case using finish by (simp add: level_work_def length_remove1)
qed (auto simp: level_work_def)

lemma level_progress:
  assumes "\<not> ls_crashed s" "\<not> level_done s"
  shows "\<exists>s'. level_step cd ords data level limit s s'"
proof (cases "ls_running s")
  case Nil
  then obtain t ts where todo: "ls_todo s = t # ts"
    using assms by (cases "ls_todo s") (auto simp: level_done_def)
  have slot: "has_slot limit s" using Nil by (auto simp: has_slot_def)
  show ?thesis
  proof (cases "loop_skips level (ls_dag s) t")
    case (Return b)
    then show ?thesis using todo slot assms(1)
      by (metis (full_types) level_step.skip level_step.spawn)
  next
    case Panic
    then show ?thesis using todo assms(1) level_step.crash_loop by blast
  qed
next
  case (Cons t ts)
  then show ?thesis using assms(1) level_step.finish level_step.crash_go
    by (cases "process_tx cd ords data (ls_dag s) level t") (metis list.set_intros(1))+
qed

section \<open>The graph of a block\<close>

text \<open>What an entry of the block decodes to, when every layer decodes.\<close>

definition decode_entry :: "codec \<Rightarrow> bytes \<Rightarrow> (string \<times> Transaction) option" where
  "decode_entry cd b =
     (case un_Envelope cd b of
        None \<Rightarrow> None
      | Some env \<Rightarrow>
          (case un_Payload cd (env_Payload env) of
             None \<Rightarrow> None
           | Some payload \<Rightarrow>
               (case pl_Header payload of
                  None \<Rightarrow> None
                | Some header \<Rightarrow>
                    (case un_ChannelHeader cd (hd_ChannelHeader header) of
                       None \<Rightarrow> None
                     | Some chdr \<Rightarrow> map_option (Pair (chdr_TxId chdr)) (un_Transaction cd (pl_Data payload))))))"

text \<open>The entries whose payload has no header: they decode so far, and the committer dereferences nil.\<close>

definition headerless :: "codec \<Rightarrow> bytes \<Rightarrow> bool" where
  "headerless cd b \<longleftrightarrow>
     (\<exists>env payload. un_Envelope cd b = Some env \<and> un_Payload cd (env_Payload env) = Some payload \<and>
        pl_Header payload = None)"

lemma add_block_tx_eq:
  "add_block_tx cd i b dag =
     (if headerless cd b then Panic
      else case decode_entry cd b of
             None \<Rightarrow> Return dag
           | Some (txID, tx) \<Rightarrow>
               (let (h, d) = scan_actions cd (tx_Actions tx) (False, [])
                in Return (AddTransaction txID i h d dag)))"
  by (auto simp: add_block_tx_def headerless_def decode_entry_def unmarshal_defs split: option.splits)

definition index_inv :: "codec \<Rightarrow> bytes list \<Rightarrow> TransactionDAG \<Rightarrow> bool" where
  "index_inv cd data dag \<longleftrightarrow>
     (\<forall>k i. dag_TxIndices dag k = Some i \<longrightarrow>
        i < length data \<and> (\<exists>tx. decode_entry cd (data ! i) = Some (k, tx)))"

definition block_dag_inv :: "codec \<Rightarrow> bytes list \<Rightarrow> TransactionDAG \<Rightarrow> bool" where
  "block_dag_inv cd data dag \<longleftrightarrow>
     dag_wf dag \<and> index_inv cd data dag \<and> dag_ValidationResults dag = Map.empty"

lemma AddTransaction_results [simp]:
  "dag_ValidationResults (AddTransaction t i h d dag) = dag_ValidationResults dag"
  by (simp add: AddTransaction_def Let_def split: option.splits)

lemma add_block_tx_inv:
  assumes "block_dag_inv cd data dag" "i < length data" "data ! i = b"
    and "add_block_tx cd i b dag = Return dag'"
  shows "block_dag_inv cd data dag'"
proof (cases "decode_entry cd b")
  case None
  with assms show ?thesis by (simp add: add_block_tx_eq split: if_splits)
next
  case (Some e)
  obtain t tx where e: "e = (t, tx)" by fastforce
  obtain h d where hd: "scan_actions cd (tx_Actions tx) (False, []) = (h, d)" by fastforce
  have dag': "dag' = AddTransaction t i h d dag"
    using assms(4) Some e hd by (simp add: add_block_tx_eq split: if_splits)
  have "index_inv cd data dag'"
    using assms(1-3) Some e dag' by (auto simp: block_dag_inv_def index_inv_def AddTransaction_indices)
  then show ?thesis using assms(1) dag' dag_wf_Add by (simp add: block_dag_inv_def)
qed

lemma add_block_txs_inv:
  "block_dag_inv cd data dag \<Longrightarrow> i \<le> length data \<Longrightarrow> drop i data = bs \<Longrightarrow>
     add_block_txs cd i bs dag = Return dag' \<Longrightarrow> block_dag_inv cd data dag'"
proof (induction bs arbitrary: i dag)
  case Nil
  then show ?case by simp
next
  case (Cons b bs)
  from Cons.prems(3) have i: "i < length data" "data ! i = b" "drop (Suc i) data = bs"
    by (metis drop_all list.distinct(1) not_le, metis hd_drop_conv_nth list.sel(1) drop_all list.distinct(1) not_le,
        metis list.sel(3) tl_drop drop_Suc)
  from Cons.prems(4) obtain dag1 where d1: "add_block_tx cd i b dag = Return dag1"
    "add_block_txs cd (Suc i) bs dag1 = Return dag'"
    by (auto simp: go_bind_Return_iff)
  show ?case
    using Cons.IH [OF add_block_tx_inv [OF Cons.prems(1) i(1,2) d1(1)] _ i(3) d1(2)] i(1) by simp
qed

lemma block_dag_inv_New: "block_dag_inv cd data NewTransactionDAG"
  by (simp add: block_dag_inv_def dag_wf_New) (simp add: index_inv_def NewTransactionDAG_def)

lemma add_block_txs_headerless:
  "add_block_txs cd i bs dag = Panic \<longleftrightarrow> (\<exists>b \<in> set bs. headerless cd b)"
proof (induction bs arbitrary: i dag)
  case Nil
  then show ?case by simp
next
  case (Cons b bs)
  show ?case
  proof (cases "headerless cd b")
    case True
    then show ?thesis by (simp add: add_block_tx_eq)
  next
    case False
    then have "\<exists>dag'. add_block_tx cd i b dag = Return dag'"
      by (auto simp: add_block_tx_eq split: option.splits prod.splits)
    with False Cons.IH show ?thesis by auto
  qed
qed

text \<open>The orders of a run are orders of the maps they range over.\<close>

definition orders_ok :: "orders \<Rightarrow> bool" where
  "orders_ok ords \<longleftrightarrow>
     (\<forall>dag. node_order dag (or_init ords dag) \<and> (\<forall>n. node_order dag (or_passes ords dag n)) \<and>
        node_order dag (or_rest ords dag) \<and> node_order dag (or_flags ords dag) \<and>
        (levelled dag \<longrightarrow> enumerates (or_levels ords dag) (dag_Levels dag) \<and>
           set (or_level_keys ords dag) = ran (dag_Levels dag)))"

lemma BuildDAG_inv:
  assumes "orders_ok ords" "BuildDAGFromBlock cd ords block = Return dag"
  shows "block_dag_inv cd (blk_Data block) dag \<and> levelled dag"
proof -
  from assms(2) obtain dag0 where d: "add_block_txs cd 0 (blk_Data block) NewTransactionDAG = Return dag0"
    "dag = CalculateLevels (or_init ords dag0) (or_passes ords dag0) (or_rest ords dag0) dag0"
    by (auto simp: BuildDAGFromBlock_def go_bind_Return_iff)
  have "block_dag_inv cd (blk_Data block) dag0"
    using add_block_txs_inv [OF block_dag_inv_New, of 0] d(1) by simp
  then have "block_dag_inv cd (blk_Data block) dag"
    using d(2) by (simp add: block_dag_inv_def index_inv_def dag_wf_CalculateLevels)
  moreover have "levelled dag"
    unfolding d(2) using assms(1) by (intro levelled_CalculateLevels) (simp_all add: orders_ok_def)
  ultimately show ?thesis by simp
qed

section \<open>No transaction of the graph makes the committer panic\<close>

lemma dep_conflict_no_panic:
  "index_inv cd data dag \<Longrightarrow> \<exists>b. dep_conflict cd ords data dag t tx ds = Return b"
proof (induction ds)
  case Nil
  then show ?case by auto
next
  case (Cons d ds)
  then show ?case
    by (cases "GetIndexByTxID d dag")
      (auto simp: GetIndexByTxID_def index_inv_def split: sum.splits)
qed

lemma dag_wf_index:
  "dag_wf dag \<Longrightarrow> fmlookup (dag_Nodes dag) k \<noteq> None \<longleftrightarrow> dag_TxIndices dag k \<noteq> None"
  by (auto simp: dag_wf_def)

lemma process_tx_node:
  assumes "index_inv cd data dag" "dag_wf dag" "k \<in> fmdom' (dag_Nodes dag)"
  shows "\<exists>b. process_tx cd ords data dag level k = Return (Some b)"
proof -
  obtain node where n: "fmlookup (dag_Nodes dag) k = Some node" using fmdom'_notI [of "dag_Nodes dag" k] assms(3) by auto
  then obtain i where i: "dag_TxIndices dag k = Some i" using dag_wf_index [OF assms(2)] by auto
  then have "i < length data" using assms(1) by (auto simp: index_inv_def)
  then show ?thesis using i n dep_conflict_no_panic [OF assms(1), of ords k _ "td_DependentTxIDs node"]
    by (auto simp: process_tx_def GetIndexByTxID_def Let_def go_bind_Return_iff split: sum.splits)
qed

text \<open>The Boolean the goroutine of a node sets.\<close>

definition tx_ok :: "codec \<Rightarrow> orders \<Rightarrow> bytes list \<Rightarrow> TransactionDAG \<Rightarrow> string \<Rightarrow> bool" where
  "tx_ok cd ords data dag k \<longleftrightarrow>
     process_tx cd ords data dag (the (dag_Levels dag k)) k = Return (Some True)"

lemma tx_ok_with [simp]: "tx_ok cd ords data (with_results dag V) = tx_ok cd ords data dag"
  by (simp add: tx_ok_def fun_eq_iff)

section \<open>The results of all levels\<close>

text \<open>
  \<open>judged dag V k\<close>: the result of \<open>k\<close>, given the results \<open>V\<close> of the levels below it.
\<close>

definition judged ::
    "codec \<Rightarrow> orders \<Rightarrow> bytes list \<Rightarrow> TransactionDAG \<Rightarrow> (string \<rightharpoonup> bool) \<Rightarrow> string \<Rightarrow> bool" where
  "judged cd ords data dag V k \<longleftrightarrow>
     (0 < the (dag_Levels dag k) \<longrightarrow> (\<forall>d \<in> set (node_deps dag k). V d = Some True)) \<and>
     tx_ok cd ords data dag k"

definition results_below ::
    "codec \<Rightarrow> orders \<Rightarrow> bytes list \<Rightarrow> TransactionDAG \<Rightarrow> int \<Rightarrow> (string \<rightharpoonup> bool) \<Rightarrow> bool" where
  "results_below cd ords data dag n V \<longleftrightarrow>
     (\<forall>k. V k = (case dag_Levels dag k of
                   Some l \<Rightarrow> if l < n then Some (judged cd ords data dag V k) else None
                 | None \<Rightarrow> None))"

lemma verdict_node:
  assumes "index_inv cd data dag" "dag_wf dag" "levelled dag" "dag_Levels dag k = Some l"
  shows "verdict cd ords data l (with_results dag V) k = Return (Some (judged cd ords data dag V k))"
proof -
  have k: "k \<in> fmdom' (dag_Nodes dag)" using levelled_dom [OF assms(3)] assms(4) by auto
  then have n: "fmlookup (dag_Nodes dag) k \<noteq> None" using fmdom'_notI [of "dag_Nodes dag" k] by blast
  obtain b where b: "process_tx cd ords data dag l k = Return (Some b)"
    using process_tx_node [OF assms(1,2) k] by blast
  then have "tx_ok cd ords data dag k = b" using assms(4) by (auto simp: tx_ok_def)
  with b n assms(4) show ?thesis
    by (auto simp: verdict_def loop_skips_eq judged_def IsValid_with)
qed

lemma process_level_below:
  assumes "block_dag_inv cd data dag" "levelled dag" "results_below cd ords data dag l V"
    and "set txs = {k. dag_Levels dag k = Some l}" "distinct txs"
  shows "\<exists>V'. process_level cd ords data l txs (with_results dag V) = Return (with_results dag V') \<and>
    results_below cd ords data dag (l + 1) V'"
proof -
  let ?vd = "verdict cd ords data l (with_results dag V)"
  let ?V' = "level_results ?vd V (set txs)"
  have inv: "index_inv cd data dag" "dag_wf dag" using assms(1) by (auto simp: block_dag_inv_def)
  have vd: "?vd k = Return (Some (judged cd ords data dag V k))" if "dag_Levels dag k = Some l" for k
    using verdict_node [OF inv assms(2) that] .
  have ind: "level_independent l (with_results dag V) txs"
    by (rule level_independent_levelled) (use assms(2,4) in auto)
  have run: "process_level cd ords data l txs (with_results dag V) = Return (with_results dag ?V')"
    using process_level_eq [OF ind assms(5)] vd assms(4) by simp
  have V': "?V' k = (if dag_Levels dag k = Some l then Some (judged cd ords data dag V k) else V k)" for k
    using vd assms(4) by (auto simp: level_results_def)
  have same: "judged cd ords data dag ?V' k = judged cd ords data dag V k"
    if m: "dag_Levels dag k = Some m" "m \<le> l" for k m
  proof -
    have "?V' d = V d" if "0 < m" "d \<in> set (node_deps dag k)" for d
      using dag.level_lower [OF assms(2) m(1) that] m(2) by (auto simp: V')
    then show ?thesis using m(1) by (simp add: judged_def)
  qed
  have "results_below cd ords data dag (l + 1) ?V'"
    unfolding results_below_def
  proof
    fix k
    show "?V' k = (case dag_Levels dag k of
        Some m \<Rightarrow> if m < l + 1 then Some (judged cd ords data dag ?V' k) else None | None \<Rightarrow> None)"
      using assms(3) same [of k] V' [of k]
      by (cases "dag_Levels dag k") (auto simp: results_below_def)
  qed
  with run show ?thesis by blast
qed

lemma results_below_skip:
  "results_below cd ords data dag l V \<Longrightarrow> {k. dag_Levels dag k = Some l} = {} \<Longrightarrow>
     results_below cd ords data dag (l + 1) V"
  unfolding results_below_def
  by (rule allI, drule spec) (auto split: option.splits)

lemma run_levels_below:
  assumes "block_dag_inv cd data dag" "levelled dag" "enumerates order (dag_Levels dag)"
  shows "results_below cd ords data dag n V \<Longrightarrow>
    \<exists>V'. run_levels cd ords data (GetTransactionsByLevel order dag) [n..m] (with_results dag V) =
           Return (with_results dag V') \<and> results_below cd ords data dag (max n (m + 1)) V'"
proof (induction "nat (m + 1 - n)" arbitrary: n V)
  case 0
  then show ?case by (auto simp: max_def)
next
  case (Suc x)
  then have nm: "n \<le> m" by simp
  have IH: "\<exists>V'. run_levels cd ords data (GetTransactionsByLevel order dag) [n + 1..m] (with_results dag W) =
      Return (with_results dag V') \<and> results_below cd ords data dag (max (n + 1) (m + 1)) V'"
    if "results_below cd ords data dag (n + 1) W" for W
    using Suc.hyps(1) [of "n + 1" W] Suc.hyps(2) that by simp
  have mx: "max n (m + 1) = max (n + 1) (m + 1)" using nm by simp
  show ?case
  proof (cases "GetTransactionsByLevel order dag n")
    case None
    then have "{k. dag_Levels dag k = Some n} = {}"
      using assms(3) by (auto simp: GetTransactionsByLevel_lookup Let_def enumerates_def filter_empty_conv
          dom_def split: if_splits)
    with results_below_skip [OF Suc.prems] IH nm mx None show ?thesis by (simp add: upto_rec1)
  next
    case (Some txs)
    then have "set txs = {k. dag_Levels dag k = Some n}" "distinct txs"
      using assms(3) by (auto simp: GetTransactionsByLevel_lookup Let_def enumerates_def dom_def
          split: if_splits)
    from process_level_below [OF assms(1,2) Suc.prems this] obtain W where
      "process_level cd ords data n txs (with_results dag V) = Return (with_results dag W)"
      "results_below cd ords data dag (n + 1) W" by blast
    with IH nm mx Some show ?thesis by (simp add: upto_rec1)
  qed
qed

lemma max_level_ge: "l \<in> set keys \<Longrightarrow> l \<le> max_level keys" and max_level_lb: "- 1 \<le> max_level keys"
proof -
  have "max_level keys = fold max keys (- 1)"
    unfolding max_level_def by (intro fold_cong) (auto simp: max_def fun_eq_iff)
  then have eq: "max_level keys = Max (set ((- 1) # keys))" by (simp only: Max.set_eq_fold)
  show "- 1 \<le> max_level keys" unfolding eq by simp
  show "l \<in> set keys \<Longrightarrow> l \<le> max_level keys" unfolding eq by simp
qed

lemma run_all_levels:
  assumes "orders_ok ords" "block_dag_inv cd data dag" "levelled dag"
  shows "\<exists>V. run_levels cd ords data (GetTransactionsByLevel (or_levels ords dag) dag)
            [0..max_level (or_level_keys ords dag)] dag = Return (with_results dag V) \<and>
          (\<forall>k. V k = (if k \<in> fmdom' (dag_Nodes dag) then Some (judged cd ords data dag V k) else None))"
proof -
  have en: "enumerates (or_levels ords dag) (dag_Levels dag)"
    "set (or_level_keys ords dag) = ran (dag_Levels dag)"
    using assms(1,3) by (auto simp: orders_ok_def)
  let ?m = "max_level (or_level_keys ords dag)"
  have "results_below cd ords data dag 0 Map.empty"
    using dag.level_nonneg [OF assms(3)] by (fastforce simp: results_below_def split: option.splits)
  moreover have "with_results dag Map.empty = dag" using assms(2) with_results_frame(6) [of dag]
    by (simp add: block_dag_inv_def)
  ultimately obtain V where V: "run_levels cd ords data (GetTransactionsByLevel (or_levels ords dag) dag)
      [0..?m] dag = Return (with_results dag V)" "results_below cd ords data dag (max 0 (?m + 1)) V"
    using run_levels_below [OF assms(2,3) en(1), of ords 0 Map.empty ?m] by auto
  have "l < max 0 (?m + 1)" if "dag_Levels dag k = Some l" for k l
  proof -
    have "l \<in> set (or_level_keys ords dag)" using that en(2) by (auto simp: ran_def)
    then show ?thesis using max_level_ge by fastforce
  qed
  then have "V k = (if k \<in> fmdom' (dag_Nodes dag) then Some (judged cd ords data dag V k) else None)" for k
    using V(2) levelled_dom [OF assms(3)]
    by (cases "dag_Levels dag k") (auto simp: results_below_def domIff)
  with V(1) show ?thesis by blast
qed

text \<open>
  What the results mean: \<open>valid_tx dag k\<close> holds when the transaction itself passes and, above
  level 0, so do all its dependencies.
\<close>

inductive valid_tx :: "codec \<Rightarrow> orders \<Rightarrow> bytes list \<Rightarrow> TransactionDAG \<Rightarrow> string \<Rightarrow> bool"
  for cd ords data dag where
  valid_tx: "dag_Levels dag k = Some l \<Longrightarrow> tx_ok cd ords data dag k \<Longrightarrow>
    (0 < l \<Longrightarrow> \<forall>d \<in> set (node_deps dag k). valid_tx cd ords data dag d) \<Longrightarrow>
    valid_tx cd ords data dag k"

inductive_simps valid_tx_iff: "valid_tx cd ords data dag k"

lemma results_valid_tx:
  assumes lev: "levelled dag"
    and V: "\<And>k. V k = (if k \<in> fmdom' (dag_Nodes dag) then Some (judged cd ords data dag V k) else None)"
  shows "V k = Some True \<longleftrightarrow> valid_tx cd ords data dag k"
proof (cases "dag_Levels dag k")
  case None
  then have "k \<notin> fmdom' (dag_Nodes dag)" using levelled_dom [OF lev] by auto
  then show ?thesis using V [of k] None by (simp add: valid_tx_iff [of _ _ _ _ k])
next
  case (Some l)
  then show ?thesis
  proof (induction "nat l" arbitrary: k l rule: less_induct)
    case less
    have k: "k \<in> fmdom' (dag_Nodes dag)" using levelled_dom [OF lev] less.prems by auto
    have IH: "V d = Some True \<longleftrightarrow> valid_tx cd ords data dag d"
      if d: "0 < l" "d \<in> set (node_deps dag k)" for d
    proof -
      obtain m where m: "dag_Levels dag d = Some m" "m < l"
        using dag.level_lower [OF lev less.prems d] by blast
      then have "nat m < nat l" using d(1) by simp
      then show ?thesis using less.hyps m(1) by blast
    qed
    show ?case using V [of k] k IH less.prems
      by (auto simp: judged_def valid_tx_iff [of _ _ _ _ k])
  qed
qed

lemma run_valid:
  assumes "orders_ok ords" "block_dag_inv cd data dag" "levelled dag"
  shows "\<exists>V. run_levels cd ords data (GetTransactionsByLevel (or_levels ords dag) dag)
            [0..max_level (or_level_keys ords dag)] dag = Return (with_results dag V) \<and>
          (\<forall>k. V k = Some True \<longleftrightarrow> valid_tx cd ords data dag k)"
  using run_all_levels [OF assms] results_valid_tx [OF assms(3)] by blast

section \<open>The flags\<close>

text \<open>The flag of entry \<open>i\<close>: a conflict exactly when \<open>i\<close> is the entry of an invalid node.\<close>

definition flags_of :: "nat \<Rightarrow> TransactionDAG \<Rightarrow> (string \<Rightarrow> bool) \<Rightarrow> bytes" where
  "flags_of n dag ok =
     map (\<lambda>i. if \<exists>k. dag_TxIndices dag k = Some i \<and> \<not> ok k
              then TxValidationCode_MVCC_READ_CONFLICT else TxValidationCode_VALID) [0..<n]"

lemma mark_invalid_nth:
  assumes "\<And>k i. dag_TxIndices dag k = Some i \<Longrightarrow> i < length f"
  shows "\<exists>f'. mark_invalid dag ks f = Return f' \<and> length f' = length f \<and>
    (\<forall>i < length f. f' ! i =
       (if \<exists>k \<in> set ks. dag_TxIndices dag k = Some i \<and> \<not> IsValid k dag
        then TxValidationCode_MVCC_READ_CONFLICT else f ! i))"
  using assms
proof (induction ks arbitrary: f)
  case Nil
  then show ?case by simp
next
  case (Cons k ks)
  show ?case
  proof (cases "dag_TxIndices dag k")
    case None
    then show ?thesis using Cons.IH [OF Cons.prems] by (simp add: GetIndexByTxID_def)
  next
    case (Some j)
    have j: "j < length f" using Cons.prems Some by simp
    show ?thesis
    proof (cases "IsValid k dag")
      case True
      then show ?thesis using Some Cons.IH [OF Cons.prems] by (simp add: GetIndexByTxID_def)
    next
      case False
      let ?f = "f[j := TxValidationCode_MVCC_READ_CONFLICT]"
      have "mark_invalid dag (k # ks) f = mark_invalid dag ks ?f"
        using Some False j by (simp add: GetIndexByTxID_def go_set_def)
      moreover have "\<exists>f'. mark_invalid dag ks ?f = Return f' \<and> length f' = length ?f \<and>
          (\<forall>i < length ?f. f' ! i =
             (if \<exists>k \<in> set ks. dag_TxIndices dag k = Some i \<and> \<not> IsValid k dag
              then TxValidationCode_MVCC_READ_CONFLICT else ?f ! i))"
        by (rule Cons.IH) (use Cons.prems in simp)
      ultimately show ?thesis using Some False by (auto simp: nth_list_update)
    qed
  qed
qed

lemma mark_invalid_flags:
  assumes "dag_wf dag" "index_inv cd data dag" "node_order dag order"
  shows "mark_invalid (with_results dag V) order (replicate (length data) TxValidationCode_VALID) =
    Return (flags_of (length data) dag (\<lambda>k. V k = Some True))"
proof -
  let ?d = "with_results dag V" and ?f = "replicate (length data) TxValidationCode_VALID"
  obtain f' where f': "mark_invalid ?d order ?f = Return f'" "length f' = length data"
    "\<forall>i < length data. f' ! i =
       (if \<exists>k \<in> set order. dag_TxIndices dag k = Some i \<and> \<not> IsValid k ?d
        then TxValidationCode_MVCC_READ_CONFLICT else ?f ! i)"
    using mark_invalid_nth [of ?d ?f order] assms(2) by (auto simp: index_inv_def)
  have "k \<in> set order" if "dag_TxIndices dag k = Some i" for k i
    using dag_wf_index [OF assms(1), of k] that node_order_set [OF assms(3)]
    by (auto dest: fmdom'I)
  then have "f' = flags_of (length data) dag (\<lambda>k. V k = Some True)"
    using f'(2,3) by (intro nth_equalityI) (auto simp: flags_of_def IsValid_with)
  with f'(1) show ?thesis by simp
qed

lemma node_order_with [simp]: "node_order (with_results dag V) ks = node_order dag ks"
  by (simp add: node_order_def)

definition set_flags :: "bytes \<Rightarrow> Block \<Rightarrow> Block" where
  "set_flags f block =
     block\<lparr>blk_Metadata := map_option (\<lambda>md. (if length md \<le> 2 then md @ [[]] else md) [2 := f]) (blk_Metadata block)\<rparr>"

lemma write_filter_eq:
  assumes "orders_ok ords" "dag_wf dag" "index_inv cd (blk_Data block) dag"
  shows "write_filter ords (with_results dag V) block =
    (case blk_Metadata block of
       None \<Rightarrow> Panic
     | Some md \<Rightarrow> if length md < 2 then Panic
        else Return (set_flags (flags_of (length (blk_Data block)) dag (\<lambda>k. V k = Some True)) block))"
proof -
  have "node_order dag (or_flags ords (with_results dag V))"
    using assms(1) by (metis orders_ok_def node_order_with)
  from mark_invalid_flags [OF assms(2,3) this, of V] show ?thesis
    by (simp add: write_filter_def BlockMetadataIndex_TRANSACTIONS_FILTER_def go_set_def set_flags_def Let_def
        split: option.splits)
qed

lemma BuildDAG_Panic:
  "BuildDAGFromBlock cd ords block = Panic \<longleftrightarrow> (\<exists>b \<in> set (blk_Data block). headerless cd b)"
  using add_block_txs_headerless [of cd 0 "blk_Data block" NewTransactionDAG]
  by (cases "add_block_txs cd 0 (blk_Data block) NewTransactionDAG") (auto simp: BuildDAGFromBlock_def)

text \<open>The processing of a block in one equation.\<close>

definition commit_twice ::
    "('p, 'o, 'led) ledger_commit \<Rightarrow> 'p BlockAndPvtData \<Rightarrow> 'o \<Rightarrow> 'led \<Rightarrow> string option \<times> 'led \<times> 'p BlockAndPvtData" where
  "commit_twice commit bp opts led =
     (case commit bp opts led of
        (None, led1) \<Rightarrow> (None, led1, bp)
      | (Some _, led1) \<Rightarrow> (case commit bp opts led1 of (err, led2) \<Rightarrow> (err, led2, bp)))"

lemma CommitLegacy_eq:
  assumes "orders_ok ords" "BuildDAGFromBlock cd ords (bp_Block bp) = Return dag"
  shows "CommitLegacy commit cd ords bp opts led =
    (case blk_Metadata (bp_Block bp) of
       None \<Rightarrow> Panic
     | Some md \<Rightarrow> if length md < 2 then Panic
        else Return (commit_twice commit
          (bp\<lparr>bp_Block := set_flags (flags_of (length (blk_Data (bp_Block bp))) dag
             (valid_tx cd ords (blk_Data (bp_Block bp)) dag)) (bp_Block bp)\<rparr>) opts led))"
proof -
  note inv = BuildDAG_inv [OF assms]
  then have wf: "dag_wf dag" "index_inv cd (blk_Data (bp_Block bp)) dag" by (auto simp: block_dag_inv_def)
  from run_valid [OF assms(1)] inv obtain V where
    V: "run_levels cd ords (blk_Data (bp_Block bp)) (GetTransactionsByLevel (or_levels ords dag) dag)
       [0..max_level (or_level_keys ords dag)] dag = Return (with_results dag V)"
    "\<And>k. V k = Some True \<longleftrightarrow> valid_tx cd ords (blk_Data (bp_Block bp)) dag k" by blast
  show ?thesis
    using assms(2) V(1) write_filter_eq [OF assms(1) wf, of V] V(2)
    by (auto simp: CommitLegacy_def processBlockWithDAG_def Let_def commit_twice_def legacyCommit_def
        split: option.splits prod.splits)
qed

section \<open>Orders by key\<close>

text \<open>One admissible choice of the iteration orders: every map in the order of its keys.\<close>

definition sorted_orders :: orders where
  "sorted_orders = \<lparr>or_init = (\<lambda>dag. sorted_list_of_fset (fmdom (dag_Nodes dag))),
     or_passes = (\<lambda>dag _. sorted_list_of_fset (fmdom (dag_Nodes dag))),
     or_rest = (\<lambda>dag. sorted_list_of_fset (fmdom (dag_Nodes dag))),
     or_levels = (\<lambda>dag. sorted_list_of_set (dom (dag_Levels dag))),
     or_level_keys = (\<lambda>dag. sorted_list_of_set (ran (dag_Levels dag))),
     or_flags = (\<lambda>dag. sorted_list_of_fset (fmdom (dag_Nodes dag))),
     or_ns = (\<lambda>_ _. [])\<rparr>"

lemma sorted_node_order: "node_order dag (sorted_list_of_fset (fmdom (dag_Nodes dag)))"
  by (auto simp: node_order_def enumerates_def sorted_list_of_fset.rep_eq fmdom.rep_eq dom_fmlookup)

lemma sorted_orders_ok: "orders_ok sorted_orders"
proof -
  have "finite (dom (dag_Levels dag))" if "levelled dag" for dag
    using levelled_dom [OF that] by simp
  then show ?thesis
    by (auto simp: orders_ok_def sorted_orders_def sorted_node_order enumerates_def finite_ran)
qed

section \<open>A level does not crash and ends\<close>

lemma level_run_safe:
  assumes "(level_step cd ords data level limit)\<^sup>*\<^sup>* (level_start txs dag) s"
    and ind: "level_independent level dag txs" and "distinct txs"
    and vd: "\<And>t. t \<in> set txs \<Longrightarrow> verdict cd ords data level dag t \<noteq> Panic"
  shows "\<not> ls_crashed s"
  using assms(1)
proof (induction rule: rtranclp_induct)
  case base
  then show ?case by (simp add: level_start_def)
next
  case (step s s')
  have inv: "level_run_inv (verdict cd ords data level dag) level dag txs s"
    using level_run_inv [OF step.hyps(1) step.IH ind assms(3)] .
  have skips: "loop_skips level (ls_dag s) t = loop_skips level dag t" if "t \<in> set txs" for t
    using loop_skips_results [OF ind that, of "handled txs s"] inv
    by (auto simp: level_run_inv_def handled_def)
  from step.hyps(2) show ?case
  proof cases
    case (crash_loop t ts)
    then have t: "t \<in> set txs" using inv by (auto simp: level_run_inv_def)
    then have "verdict cd ords data level dag t = Panic"
      using crash_loop skips by (simp add: verdict_def)
    then show ?thesis using vd t by blast
  next
    case (crash_go t)
    then have t: "t \<in> set txs" "loop_skips level dag t = Return False"
      using inv by (auto simp: level_run_inv_def)
    moreover have "process_tx cd ords data dag level t = Panic"
      using crash_go inv by (simp add: level_run_inv_def)
    ultimately have "verdict cd ords data level dag t = Panic" by (simp add: verdict_def)
    then show ?thesis using vd t by blast
  qed (use step.IH in simp_all)
qed

lemma level_run_completes:
  "\<not> ls_crashed s \<Longrightarrow> \<exists>s'. (level_step cd ords data level limit)\<^sup>*\<^sup>* s s' \<and> (ls_crashed s' \<or> level_done s')"
proof (induction "level_work s" arbitrary: s rule: less_induct)
  case less
  show ?case
  proof (cases "level_done s")
    case True
    then show ?thesis by blast
  next
    case False
    then obtain s' where st: "level_step cd ords data level limit s s'"
      using level_progress less.prems by blast
    show ?thesis
    proof (cases "ls_crashed s'")
      case True
      then show ?thesis using st by blast
    next
      case nc: False
      then show ?thesis
        using less.hyps [OF level_step_decreases [OF st]] st by (meson converse_rtranclp_into_rtranclp)
    qed
  qed
qed

section \<open>What a valid dependent transaction shares with its dependencies\<close>

lemma dep_conflict_False:
  assumes "dep_conflict cd ords data dag k tx ds = Return False" "d \<in> set ds"
    and "dag_TxIndices dag d = Some j" "j < length data" "decode_entry cd (data ! j) = Some (d, dtx)"
  shows "\<not> checkRWSetConflicts cd (or_ns ords k d) tx dtx"
  using assms(1,2)
proof (induction ds)
  case Nil
  then show ?case by simp
next
  case (Cons e ds)
  show ?case
  proof (cases "e = d")
    case True
    then show ?thesis using Cons.prems(1) assms(3-5)
      by (auto simp: GetIndexByTxID_def go_index_def decode_entry_def unmarshal_defs split: option.splits if_splits)
  next
    case False
    then have d: "d \<in> set ds" using Cons.prems(2) by simp
    have "dep_conflict cd ords data dag k tx ds = Return False"
    proof (cases "GetIndexByTxID e dag")
      case (Some x)
      then show ?thesis using Cons.prems(1)
        by (cases "go_index data x") (auto split: if_split_asm sum.split_asm)
    qed (use Cons.prems(1) in simp)
    with Cons.IH d show ?thesis by blast
  qed
qed

lemma tx_ok_no_conflict:
  assumes "tx_ok cd ords data dag k" "dag_Levels dag k = Some l" "0 < l"
    and "dag_TxIndices dag k = Some i" "i < length data" "decode_entry cd (data ! i) = Some (k, tx)"
    and "d \<in> set (node_deps dag k)"
    and "dag_TxIndices dag d = Some j" "j < length data" "decode_entry cd (data ! j) = Some (d, dtx)"
  shows "\<not> checkRWSetConflicts cd (or_ns ords k d) tx dtx"
proof -
  have "dep_conflict cd ords data dag k tx (node_deps dag k) = Return False"
    using assms(1-6)
    by (auto simp: tx_ok_def process_tx_def GetIndexByTxID_def go_index_def decode_entry_def unmarshal_defs
        Let_def node_deps_def go_bind_Return_iff split: option.splits if_splits sum.splits)
  then show ?thesis using dep_conflict_False assms(7-10) by blast
qed

section \<open>Properties\<close>



text \<open>C3: what the ledger gets. For a block whose payloads all have a header and whose metadata
  has at least two entries, the committer hands the ledger the block with the transaction
  filter replaced by one flag per entry: a conflict exactly at the recorded position of a
  transaction that is not valid in the sense of \<^const>\<open>valid_tx\<close>, and VALID everywhere else, also at
  entries that do not decode and whatever the filter held before. If the ledger returns an
  error, the same block is handed to it a second time.\<close>

theorem CommitLegacy_flags:
  assumes "orders_ok ords" "\<forall>b \<in> set (blk_Data (bp_Block bp)). \<not> headerless cd b"
    and "blk_Metadata (bp_Block bp) = Some md" "2 \<le> length md"
  shows "\<exists>dag. BuildDAGFromBlock cd ords (bp_Block bp) = Return dag \<and>
    CommitLegacy commit cd ords bp opts led =
      Return (commit_twice commit
        (bp\<lparr>bp_Block := set_flags
          (flags_of (length (blk_Data (bp_Block bp))) dag (valid_tx cd ords (blk_Data (bp_Block bp)) dag))
          (bp_Block bp)\<rparr>) opts led)"
proof -
  obtain dag where dag: "BuildDAGFromBlock cd ords (bp_Block bp) = Return dag"
    using assms(2) BuildDAG_Panic [of cd ords "bp_Block bp"]
    by (cases "BuildDAGFromBlock cd ords (bp_Block bp)") auto
  then show ?thesis using CommitLegacy_eq [OF assms(1) dag] assms(3,4) by (intro exI [of _ dag]) simp
qed



section \<open>A block of two transactions\<close>

text \<open>
  A codec in which the bytes of an entry name a transaction that writes one key of a namespace
  of its own, and the graph of two such transactions, the second depending on the first.
\<close>

definition block_codec :: codec where
  "block_codec = no_codec\<lparr>
     un_Envelope := (\<lambda>b. if b = ''junk'' then None else Some \<lparr>env_Payload = b, env_Signature = []\<rparr>),
     un_Payload := (\<lambda>b. Some \<lparr>pl_Header = (if b = ''bare'' then None
        else Some \<lparr>hd_ChannelHeader = b, hd_SignatureHeader = []\<rparr>), pl_Data = b\<rparr>),
     un_ChannelHeader := (\<lambda>b. Some \<lparr>chdr_Type = 3, chdr_ChannelId = ''ch'', chdr_TxId = b, chdr_Epoch = 0,
        chdr_Extension = []\<rparr>),
     un_Transaction := (\<lambda>b. Some (tx_of b)),
     un_ChaincodeAction := (\<lambda>b. Some \<lparr>ca_Results = Some b, ca_Events = [],
        ca_Response = Some \<lparr>resp_Status = 200, resp_Message = [], resp_Payload = []\<rparr>\<rparr>),
     un_TxReadWriteSet := (\<lambda>b. Some [ns_of b ''wk'']),
     un_KVRWSet := (\<lambda>b. if b = ''wk'' then Some (write_rwset ''k'') else None)\<rparr>"

definition ns_orders :: orders where
  "ns_orders = sorted_orders\<lparr>or_ns := (\<lambda>k d. [k])\<rparr>"

definition two_data :: "bytes list" where
  "two_data = [''t1'', ''t2'']"

definition two_graph :: TransactionDAG where
  "two_graph = AddTransaction ''t2'' 1 True ''t1'' (AddTransaction ''t1'' 0 False [] NewTransactionDAG)"

definition two_levels :: TransactionDAG where
  "two_levels = CalculateLevels [''t1'', ''t2''] (\<lambda>_. [''t1'', ''t2'']) [''t1'', ''t2''] two_graph"

lemma two_order: "node_order two_graph [''t1'', ''t2'']"
  by (auto simp: node_order_def enumerates_def dom_def two_graph_def AddTransaction_node NewTransactionDAG_def)

lemma two_levels_levelled: "levelled two_levels"
  unfolding two_levels_def by (rule levelled_CalculateLevels) (simp_all add: two_order)

lemma two_levels_simps [simp]:
  "dag_Levels two_levels ''t1'' = Some 0" "dag_Levels two_levels ''t2'' = Some 1"
  "dag_TxIndices two_levels = [''t1'' \<mapsto> 0, ''t2'' \<mapsto> 1]"
  "node_deps two_levels ''t1'' = []" "node_deps two_levels ''t2'' = [''t1'']"
  by (simp_all add: two_levels_def two_graph_def CalculateLevels_def Let_def level_loop.simps level_pass_def
      level_visit_def level_init_def level_init_step_def level_rest_def no_deps_def node_deps_def
      AddTransaction_def NewTransactionDAG_def)

lemma two_decode:
  "decode_entry block_codec ''t1'' = Some (''t1'', tx_of ''t1'')"
  "decode_entry block_codec ''t2'' = Some (''t2'', tx_of ''t2'')"
  "extractRWSet block_codec (tx_of b) = Inr [b \<mapsto> ns_of b ''wk'']"
  "un_KVRWSet block_codec ''wk'' = Some (write_rwset ''k'')"
  by (simp_all add: decode_entry_def extractRWSet_def extract_action_def add_ns_def tx_of_def block_codec_def
      ns_of_def)

lemma two_index_inv: "index_inv block_codec two_data two_levels"
  by (auto simp: index_inv_def two_data_def two_decode)

lemma two_headed: "\<forall>b \<in> set two_data. \<not> headerless block_codec b"
  by (simp add: two_data_def headerless_def block_codec_def)

lemma two_process:
  "process_tx block_codec ns_orders two_data two_levels 0 ''t1'' = Return (Some True)"
  "process_tx block_codec ns_orders two_data two_levels 1 ''t2'' = Return (Some True)"
proof -
  have n: "fmlookup (dag_Nodes two_levels) ''t2'' =
      Some \<lparr>td_TxID = ''t2'', td_DependentTxIDs = [''t1''], td_HasDependency = True\<rparr>"
    by (simp add: two_levels_def two_graph_def CalculateLevels_def Let_def AddTransaction_def NewTransactionDAG_def)
  have c: "\<not> checkRWSetConflicts block_codec [''t2''] (tx_of ''t2'') (tx_of ''t1'')"
    by (simp add: checkRWSetConflicts_def two_decode)
  have e: "un_Envelope block_codec b = Some \<lparr>env_Payload = b, env_Signature = []\<rparr>"
    "un_Payload block_codec b = Some \<lparr>pl_Header = Some \<lparr>hd_ChannelHeader = b, hd_SignatureHeader = []\<rparr>, pl_Data = b\<rparr>"
    "un_Transaction block_codec b = Some (tx_of b)" "actions_valid block_codec (tx_Actions (tx_of b))"
    if "b \<in> {''t1'', ''t2''}" for b
    using that by (auto simp: block_codec_def tx_of_def)
  show "process_tx block_codec ns_orders two_data two_levels 0 ''t1'' = Return (Some True)"
    "process_tx block_codec ns_orders two_data two_levels 1 ''t2'' = Return (Some True)"
    using n c by (simp_all add: process_tx_def GetIndexByTxID_def go_index_def two_data_def unmarshal_defs e
        ns_orders_def)
qed

lemma two_valid: "valid_tx block_codec ns_orders two_data two_levels ''t2''"
proof (rule valid_tx.intros)
  have "valid_tx block_codec ns_orders two_data two_levels ''t1''"
    by (rule valid_tx.intros [where l = 0]) (simp_all add: tx_ok_def two_process)
  then show "\<forall>d \<in> set (node_deps two_levels ''t2''). valid_tx block_codec ns_orders two_data two_levels d"
    by simp
qed (simp_all add: tx_ok_def two_process)

lemma ns_orders_ok: "orders_ok ns_orders"
  using sorted_orders_ok by (simp add: orders_ok_def ns_orders_def)

definition two_block :: Block where
  "two_block = \<lparr>blk_Number = 7, blk_Data = two_data, blk_Metadata = Some [[], []]\<rparr>"

lemma two_build:
  "\<exists>dag. BuildDAGFromBlock block_codec ns_orders two_block = Return dag \<and>
     dag_Levels dag ''t1'' = Some 0 \<and> dag_Levels dag ''t2'' = Some 0"
proof -
  let ?g = "AddTransaction ''t2'' 1 False [] (AddTransaction ''t1'' 0 False [] NewTransactionDAG)"
  have scan: "scan_actions block_codec (tx_Actions (tx_of b)) (False, []) = (False, [])" for b
    by (simp add: tx_of_def block_codec_def ParseDependencyInfo_def)
  have add: "add_block_txs block_codec 0 (blk_Data two_block) NewTransactionDAG = Return ?g"
    using two_headed by (simp add: two_block_def two_data_def add_block_tx_eq two_decode scan)
  then obtain dag where dag: "BuildDAGFromBlock block_codec ns_orders two_block = Return dag"
    "dag_Nodes dag = dag_Nodes ?g"
    by (auto simp: BuildDAGFromBlock_def CalculateLevels_def Let_def)
  have lev: "levelled dag" using BuildDAG_inv [OF ns_orders_ok dag(1)] by blast
  have "has_level (dag_Nodes dag) k 0" if "k \<in> {''t1'', ''t2''}" for k
    by (rule has_level.base [where node = "\<lparr>td_TxID = k, td_DependentTxIDs = [], td_HasDependency = False\<rparr>"])
      (use that dag(2) in \<open>auto simp: AddTransaction_def NewTransactionDAG_def no_deps_def\<close>)
  then show ?thesis using dag(1) levelled_level [OF lev] by blast
qed



definition two_bp :: "unit BlockAndPvtData" where
  "two_bp = \<lparr>bp_Block = two_block, bp_PvtData = ()\<rparr>"

definition failing_ledger :: "(unit, unit, nat) ledger_commit" where
  "failing_ledger bp opts n = (Some ''disk full'', Suc n)"

theorem CommitLegacy_flags_witness:
  "\<exists>bp'. CommitLegacy failing_ledger block_codec ns_orders two_bp () 0 = Return (Some ''disk full'', 2, bp')"
proof -
  have "\<exists>dag. BuildDAGFromBlock block_codec ns_orders (bp_Block two_bp) = Return dag \<and>
    CommitLegacy failing_ledger block_codec ns_orders two_bp () 0 =
      Return (commit_twice failing_ledger
        (two_bp\<lparr>bp_Block := set_flags
          (flags_of (length (blk_Data (bp_Block two_bp))) dag
             (valid_tx block_codec ns_orders (blk_Data (bp_Block two_bp)) dag))
          (bp_Block two_bp)\<rparr>) () 0)"
    by (rule CommitLegacy_flags [OF ns_orders_ok, where md = "[[], []]"])
      (use two_headed in \<open>simp_all add: two_bp_def two_block_def\<close>)
  then show ?thesis by (auto simp: commit_twice_def failing_ledger_def numeral_2_eq_2)
qed



end
