(* ===== verification/Proposal.thy ===== *)
theory Proposal
  imports Messages
begin

text \<open>
  Proposals (\<^verbatim>\<open>core/endorser/msgvalidation.go\<close>, with the helpers of \<^verbatim>\<open>protoutil\<close>): unpacking a
  signed proposal and validating it against an identity.  Protobuf decoding and SHA-256 are
  the fields of a parameter, and so is the MSP that turns a creator into an identity.
\<close>

section \<open>Messages\<close>

record ChaincodeID =
  ccid_Name :: string
  ccid_Version :: string

record ChaincodeInput =
  ci_Args :: "bytes list"

record ChaincodeSpec =
  cs_ChaincodeId :: "ChaincodeID option"
  cs_Input :: "ChaincodeInput option"

record ChaincodeDeploymentSpec =
  cds_ChaincodeSpec :: "ChaincodeSpec option"
  cds_CodePackage :: bytes

record Proposal =
  prop_Header :: bytes
  prop_Payload :: bytes

record SignedProposal =
  sp_ProposalBytes :: "bytes option"
  sp_Signature :: "bytes option"

record UnpackedProposal =
  up_ChaincodeName :: string
  up_ChannelHeader :: ChannelHeader
  up_Input :: ChaincodeInput
  up_Proposal :: Proposal
  up_SignatureHeader :: SignatureHeader
  up_SignedProposal :: SignedProposal
  up_ProposalHash :: bytes

record Endorsement =
  eds_Endorser :: bytes
  eds_Signature :: bytes

record 'p ChaincodeCall =
  call_Name :: string
  call_CollectionNames :: "string list"
  call_NoPrivateReads :: bool
  call_DisregardNamespacePolicy :: bool
  call_KeyPolicies :: "'p list"

record 'p ProposalResponse =
  rsp_Version :: int
  rsp_Response :: "Response option"
  rsp_Payload :: "bytes option"
  rsp_Endorsement :: "Endorsement option"
  rsp_Interest :: "'p ChaincodeCall list option"

text \<open>
  The decoders of the messages inside a proposal; \<^term>\<open>None\<close> is a decoding error.  A
  chaincode header extension is represented by its optional chaincode ID, a proposal payload
  by its input bytes, an invocation spec by its optional chaincode spec.
\<close>

record prop_codec =
  pc_Proposal :: "bytes \<Rightarrow> Proposal option"
  pc_Header :: "bytes \<Rightarrow> Header option"
  pc_ChannelHeader :: "bytes \<Rightarrow> ChannelHeader option"
  pc_SignatureHeader :: "bytes \<Rightarrow> SignatureHeader option"
  pc_HeaderExtension :: "bytes \<Rightarrow> ChaincodeID option option"
  pc_ProposalPayload :: "bytes \<Rightarrow> bytes option"
  pc_InvocationSpec :: "bytes \<Rightarrow> ChaincodeSpec option option"
  pc_DeploymentSpec :: "bytes \<Rightarrow> ChaincodeDeploymentSpec option"
  pc_MarshalPayload :: "bytes \<Rightarrow> bytes option"
  pc_sha256 :: "bytes \<Rightarrow> bytes"

datatype prop_error =
  BadMessage string
| NoChaincodeId
| EmptyChaincodeName
| NoChaincodeSpec
| NoChaincodeInput
| NotMarshalled
| InvalidHeaderType int
| EpochNotZero
| EmptyNonce
| EmptyCreator
| WrongTxID string string
| EmptyProposalBytes
| EmptySignature
| AccessDeniedMalformed string
| AccessDenied string string

definition unmarshal_or :: "string \<Rightarrow> 'a option \<Rightarrow> (prop_error + 'a)" where
  "unmarshal_or name r = (case r of None \<Rightarrow> Inl (BadMessage name) | Some x \<Rightarrow> Inr x)"

definition sum_bind :: "'e + 'a \<Rightarrow> ('a \<Rightarrow> 'e + 'b) \<Rightarrow> 'e + 'b" where
  "sum_bind x f = (case x of Inl e \<Rightarrow> Inl e | Inr a \<Rightarrow> f a)"

lemma sum_bind_simps [simp, go_simps]:
  "sum_bind (Inl e) f = Inl e"
  "sum_bind (Inr a) f = f a"
  by (simp_all add: sum_bind_def)

lemma sum_bind_Inr_iff [go_simps]: "sum_bind x f = Inr b \<longleftrightarrow> (\<exists>a. x = Inr a \<and> f a = Inr b)"
  by (cases x) auto

lemma guard_Inr_iff [go_simps]:
  "(case x of None \<Rightarrow> Inl e | Some y \<Rightarrow> f y) = Inr b \<longleftrightarrow> (\<exists>y. x = Some y \<and> f y = Inr b)"
  "(if c then Inl e else t) = Inr b \<longleftrightarrow> \<not> c \<and> t = Inr b"
  by (auto split: option.splits)

lemma unmarshal_or_Inr [simp]: "unmarshal_or n r = Inr x \<longleftrightarrow> r = Some x"
  by (simp add: unmarshal_or_def split: option.splits)

section \<open>Unpacking\<close>

definition UnmarshalProposal :: "prop_codec \<Rightarrow> bytes \<Rightarrow> prop_error + Proposal" where
  "UnmarshalProposal pc b = unmarshal_or ''Proposal'' (pc_Proposal pc b)"

definition UnmarshalHeader :: "prop_codec \<Rightarrow> bytes \<Rightarrow> prop_error + Header" where
  "UnmarshalHeader pc b = unmarshal_or ''Header'' (pc_Header pc b)"

definition UnmarshalSignatureHeader :: "prop_codec \<Rightarrow> bytes \<Rightarrow> prop_error + SignatureHeader" where
  "UnmarshalSignatureHeader pc b = unmarshal_or ''SignatureHeader'' (pc_SignatureHeader pc b)"

definition UnmarshalChaincodeHeaderExtension :: "prop_codec \<Rightarrow> bytes \<Rightarrow> prop_error + ChaincodeID option" where
  "UnmarshalChaincodeHeaderExtension pc b = unmarshal_or ''ChaincodeHeaderExtension'' (pc_HeaderExtension pc b)"

definition UnmarshalChaincodeProposalPayload :: "prop_codec \<Rightarrow> bytes \<Rightarrow> prop_error + bytes" where
  "UnmarshalChaincodeProposalPayload pc b = unmarshal_or ''ChaincodeProposalPayload'' (pc_ProposalPayload pc b)"

definition UnmarshalChaincodeInvocationSpec :: "prop_codec \<Rightarrow> bytes \<Rightarrow> prop_error + ChaincodeSpec option" where
  "UnmarshalChaincodeInvocationSpec pc b = unmarshal_or ''ChaincodeInvocationSpec'' (pc_InvocationSpec pc b)"

definition UnmarshalChaincodeDeploymentSpec :: "prop_codec \<Rightarrow> bytes \<Rightarrow> prop_error + ChaincodeDeploymentSpec" where
  "UnmarshalChaincodeDeploymentSpec pc b = unmarshal_or ''ChaincodeDeploymentSpec'' (pc_DeploymentSpec pc b)"

lemmas unmarshal_prop_defs =
  UnmarshalProposal_def UnmarshalHeader_def UnmarshalSignatureHeader_def UnmarshalChaincodeHeaderExtension_def
  UnmarshalChaincodeProposalPayload_def UnmarshalChaincodeInvocationSpec_def UnmarshalChaincodeDeploymentSpec_def

definition UnpackProposal :: "prop_codec \<Rightarrow> SignedProposal \<Rightarrow> prop_error + UnpackedProposal" where
  "UnpackProposal pc signedProp =
     sum_bind (UnmarshalProposal pc (case sp_ProposalBytes signedProp of None \<Rightarrow> [] | Some b \<Rightarrow> b)) (\<lambda>prop.
     sum_bind (UnmarshalHeader pc (prop_Header prop)) (\<lambda>hdr.
     sum_bind (unmarshal_or ''ChannelHeader'' (pc_ChannelHeader pc (hd_ChannelHeader hdr))) (\<lambda>chdr.
     sum_bind (UnmarshalSignatureHeader pc (hd_SignatureHeader hdr)) (\<lambda>shdr.
     sum_bind (UnmarshalChaincodeHeaderExtension pc (chdr_Extension chdr)) (\<lambda>chaincodeId.
       case chaincodeId of
         None \<Rightarrow> Inl NoChaincodeId
       | Some ccid \<Rightarrow>
           if ccid_Name ccid = [] then Inl EmptyChaincodeName
           else
     sum_bind (UnmarshalChaincodeProposalPayload pc (prop_Payload prop)) (\<lambda>cppInput.
     sum_bind (UnmarshalChaincodeInvocationSpec pc cppInput) (\<lambda>chaincodeSpec.
       case chaincodeSpec of
         None \<Rightarrow> Inl NoChaincodeSpec
       | Some spec \<Rightarrow>
           (case cs_Input spec of
              None \<Rightarrow> Inl NoChaincodeInput
            | Some input \<Rightarrow>
                (case pc_MarshalPayload pc cppInput of
                   None \<Rightarrow> Inl NotMarshalled
                 | Some ppBytes \<Rightarrow>
                     Inr \<lparr>up_ChaincodeName = ccid_Name ccid, up_ChannelHeader = chdr, up_Input = input,
                       up_Proposal = prop, up_SignatureHeader = shdr, up_SignedProposal = signedProp,
                       up_ProposalHash = pc_sha256 pc (hd_ChannelHeader hdr @ hd_SignatureHeader hdr @ ppBytes)\<rparr>)))))))))"

definition ChannelID :: "UnpackedProposal \<Rightarrow> string" where
  "ChannelID up = chdr_ChannelId (up_ChannelHeader up)"

definition TxID :: "UnpackedProposal \<Rightarrow> string" where
  "TxID up = chdr_TxId (up_ChannelHeader up)"

section \<open>Validating\<close>

definition hex_digit :: "nat \<Rightarrow> char" where
  "hex_digit n = (if n < 10 then char_of (n + 48) else char_of (n + 87))"

definition hex_encode :: "bytes \<Rightarrow> string" where
  "hex_encode bs = concat (map (\<lambda>c. let n = of_char c in [hex_digit (n div 16), hex_digit (n mod 16)]) bs)"

definition ComputeTxID :: "prop_codec \<Rightarrow> bytes \<Rightarrow> bytes \<Rightarrow> string" where
  "ComputeTxID pc nonce creator = hex_encode (pc_sha256 pc (nonce @ creator))"

definition HeaderType_CONFIG :: int where
  "HeaderType_CONFIG = 1"

text \<open>An identity, as far as validation uses it; \<^term>\<open>True\<close> is the absence of an error.\<close>

record Identity =
  id_MSP :: string
  id_Valid :: bool
  id_Verify :: "bytes \<Rightarrow> bytes \<Rightarrow> bool"

definition Validate :: "prop_codec \<Rightarrow> (bytes \<Rightarrow> Identity option) \<Rightarrow> UnpackedProposal \<Rightarrow> prop_error option" where
  "Validate pc deserializeIdentity up =
     (let chdr = up_ChannelHeader up; shdr = up_SignatureHeader up;
          expectedTxID = ComputeTxID pc (shdr_Nonce shdr) (shdr_Creator shdr)
      in if chdr_Type chdr \<noteq> HeaderType_ENDORSER_TRANSACTION \<and> chdr_Type chdr \<noteq> HeaderType_CONFIG
         then Some (InvalidHeaderType (chdr_Type chdr))
         else if chdr_Epoch chdr \<noteq> 0 then Some EpochNotZero
         else if shdr_Nonce shdr = [] then Some EmptyNonce
         else if shdr_Creator shdr = [] then Some EmptyCreator
         else if TxID up \<noteq> expectedTxID then Some (WrongTxID (TxID up) expectedTxID)
         else (case sp_ProposalBytes (up_SignedProposal up) of
                 None \<Rightarrow> Some EmptyProposalBytes
               | Some proposalBytes \<Rightarrow>
                   (case sp_Signature (up_SignedProposal up) of
                      None \<Rightarrow> Some EmptySignature
                    | Some signature \<Rightarrow>
                        (case deserializeIdentity (shdr_Creator shdr) of
                           None \<Rightarrow> Some (AccessDeniedMalformed (ChannelID up))
                         | Some creator \<Rightarrow>
                             if \<not> id_Valid creator then Some (AccessDenied (ChannelID up) (id_MSP creator))
                             else if \<not> id_Verify creator proposalBytes signature
                             then Some (AccessDenied (ChannelID up) (id_MSP creator))
                             else None))))"

section \<open>What a validated proposal guarantees\<close>

lemma UnpackProposal_Inr:
  assumes "UnpackProposal pc sp = Inr up"
  shows "\<exists>prop hdr b. pc_Proposal pc (case sp_ProposalBytes sp of None \<Rightarrow> [] | Some b \<Rightarrow> b) = Some prop \<and>
    pc_Header pc (prop_Header prop) = Some hdr \<and>
    pc_ChannelHeader pc (hd_ChannelHeader hdr) = Some (up_ChannelHeader up) \<and>
    pc_SignatureHeader pc (hd_SignatureHeader hdr) = Some (up_SignatureHeader up) \<and>
    up_Proposal up = prop \<and> up_SignedProposal up = sp \<and> up_ChaincodeName up \<noteq> [] \<and>
    up_ProposalHash up = pc_sha256 pc (hd_ChannelHeader hdr @ hd_SignatureHeader hdr @ b)"
  using assms unfolding UnpackProposal_def sum_bind_Inr_iff guard_Inr_iff unmarshal_prop_defs unmarshal_or_Inr
  by (elim exE conjE) auto

lemma Validate_None:
  "Validate pc ident up = None \<longleftrightarrow>
     chdr_Type (up_ChannelHeader up) \<in> {HeaderType_ENDORSER_TRANSACTION, HeaderType_CONFIG} \<and>
     chdr_Epoch (up_ChannelHeader up) = 0 \<and>
     shdr_Nonce (up_SignatureHeader up) \<noteq> [] \<and> shdr_Creator (up_SignatureHeader up) \<noteq> [] \<and>
     TxID up = ComputeTxID pc (shdr_Nonce (up_SignatureHeader up)) (shdr_Creator (up_SignatureHeader up)) \<and>
     (\<exists>b sig creator. sp_ProposalBytes (up_SignedProposal up) = Some b \<and> sp_Signature (up_SignedProposal up) = Some sig \<and>
        ident (shdr_Creator (up_SignatureHeader up)) = Some creator \<and> id_Valid creator \<and> id_Verify creator b sig)"
  by (auto simp: Validate_def Let_def split: option.split if_split)

section \<open>Properties\<close>

text \<open>C16: validation. A proposal that unpacks and validates has a chaincode name, the transaction ID
  that its nonce and creator hash to, an accepted header type and epoch 0, and its bytes, from
  which its headers were decoded, carry a signature that the valid identity of the creator
  named in those headers verifies.\<close>

theorem validated_proposal:
  assumes "UnpackProposal pc sp = Inr up" "Validate pc ident up = None"
  shows "\<exists>b sig prop hdr creator. sp_ProposalBytes sp = Some b \<and> sp_Signature sp = Some sig \<and>
    pc_Proposal pc b = Some prop \<and> pc_Header pc (prop_Header prop) = Some hdr \<and>
    pc_SignatureHeader pc (hd_SignatureHeader hdr) = Some (up_SignatureHeader up) \<and>
    pc_ChannelHeader pc (hd_ChannelHeader hdr) = Some (up_ChannelHeader up) \<and>
    ident (shdr_Creator (up_SignatureHeader up)) = Some creator \<and> id_Valid creator \<and> id_Verify creator b sig \<and>
    TxID up = hex_encode (pc_sha256 pc (shdr_Nonce (up_SignatureHeader up) @ shdr_Creator (up_SignatureHeader up))) \<and>
    chdr_Type (up_ChannelHeader up) \<in> {1, 3} \<and> chdr_Epoch (up_ChannelHeader up) = 0 \<and> up_ChaincodeName up \<noteq> []"
  using UnpackProposal_Inr [OF assms(1)] assms(2) unfolding Validate_None
  by (auto simp: ComputeTxID_def HeaderType_CONFIG_def HeaderType_ENDORSER_TRANSACTION_def)

section \<open>An example\<close>

definition sample_pc :: prop_codec where
  "sample_pc = \<lparr>pc_Proposal = (\<lambda>b. if b = ''prop'' then Some \<lparr>prop_Header = ''hdr'', prop_Payload = ''pay''\<rparr> else None),
     pc_Header = (\<lambda>b. Some \<lparr>hd_ChannelHeader = ''ch'', hd_SignatureHeader = ''sh''\<rparr>),
     pc_ChannelHeader = (\<lambda>b. Some \<lparr>chdr_Type = 3, chdr_ChannelId = ''mych'', chdr_TxId = hex_encode ''nalice'',
        chdr_Epoch = 0, chdr_Extension = ''ext''\<rparr>),
     pc_SignatureHeader = (\<lambda>b. Some \<lparr>shdr_Creator = ''alice'', shdr_Nonce = ''n''\<rparr>),
     pc_HeaderExtension = (\<lambda>b. Some (Some \<lparr>ccid_Name = ''mycc'', ccid_Version = ''1''\<rparr>)),
     pc_ProposalPayload = Some,
     pc_InvocationSpec = (\<lambda>b. Some (Some \<lparr>cs_ChaincodeId = None, cs_Input = Some \<lparr>ci_Args = [''get'', ''k'']\<rparr>\<rparr>)),
     pc_DeploymentSpec = (\<lambda>_. None), pc_MarshalPayload = Some, pc_sha256 = (\<lambda>b. b)\<rparr>"

definition sample_signed :: SignedProposal where
  "sample_signed = \<lparr>sp_ProposalBytes = Some ''prop'', sp_Signature = Some ''sig''\<rparr>"

definition sample_ident :: "bytes \<Rightarrow> Identity option" where
  "sample_ident c = (if c = ''alice'' then Some \<lparr>id_MSP = ''Org1'', id_Valid = True,
     id_Verify = (\<lambda>b s. b = ''prop'' \<and> s = ''sig'')\<rparr> else None)"

lemma sample_unpacks:
  "\<exists>up. UnpackProposal sample_pc sample_signed = Inr up \<and> Validate sample_pc sample_ident up = None \<and>
     up_ChaincodeName up = ''mycc'' \<and> ChannelID up = ''mych'' \<and> up_Input up = \<lparr>ci_Args = [''get'', ''k'']\<rparr>"
  by (simp add: UnpackProposal_def unmarshal_prop_defs unmarshal_or_def sample_pc_def sample_signed_def
      Validate_def Let_def ChannelID_def TxID_def ComputeTxID_def sample_ident_def HeaderType_ENDORSER_TRANSACTION_def)

theorem validated_proposal_witness:
  "\<exists>up. UnpackProposal sample_pc sample_signed = Inr up \<and> Validate sample_pc sample_ident up = None \<and>
     up_ChaincodeName up \<noteq> [] \<and> chdr_Epoch (up_ChannelHeader up) = 0"
proof -
  obtain up where up: "UnpackProposal sample_pc sample_signed = Inr up" "Validate sample_pc sample_ident up = None"
    using sample_unpacks by blast
  then show ?thesis using validated_proposal [OF up] by blast
qed

end
