(* ===== verification/Go_Json.thy ===== *)
theory Go_Json
  imports Prelude "HOL-Library.Finite_Map" "HOL-Library.List_Lexorder" "HOL-Library.Char_ord"
begin

text \<open>
  What the shard code uses of Go's \<^verbatim>\<open>encoding/json\<close> and \<^verbatim>\<open>encoding/base64\<close>.  A JSON text is
  represented by its syntax tree (numbers are integers; strings are valid UTF-8).  A byte
  slice is marshalled as its base64 text, a map as an object with its keys in order, a nil
  slice as null; unmarshalling into a struct matches field names up to letter case, ignores
  unknown members, leaves a field alone on null and fails on a value of the wrong type.
\<close>

datatype json = JNull | JBool bool | JNum int | JStr string | JArr "json list" | JObj "(string \<times> json) list"

section \<open>Base64\<close>

definition b64_char :: "nat \<Rightarrow> char" where
  "b64_char n =
     (if n < 26 then char_of (n + 65) else if n < 52 then char_of (n + 71)
      else if n < 62 then char_of (n - 4) else if n = 62 then CHR ''+'' else CHR ''/'')"

definition b64_val :: "char \<Rightarrow> nat option" where
  "b64_val c =
     (let n = of_char c in
      if 65 \<le> n \<and> n \<le> 90 then Some (n - 65) else if 97 \<le> n \<and> n \<le> 122 then Some (n - 71)
      else if 48 \<le> n \<and> n \<le> 57 then Some (n + 4) else if n = 43 then Some 62
      else if n = 47 then Some 63 else None)"

fun b64_encode :: "bytes \<Rightarrow> string" where
  "b64_encode [] = []"
| "b64_encode [a] =
     (let x = of_char a in [b64_char (x div 4), b64_char (x mod 4 * 16), CHR ''='', CHR ''=''])"
| "b64_encode [a, b] =
     (let x = of_char a; y = of_char b in
      [b64_char (x div 4), b64_char (x mod 4 * 16 + y div 16), b64_char (y mod 16 * 4), CHR ''=''])"
| "b64_encode (a # b # c # r) =
     (let x = of_char a; y = of_char b; z = of_char c in
      b64_char (x div 4) # b64_char (x mod 4 * 16 + y div 16) # b64_char (y mod 16 * 4 + z div 64) #
      b64_char (z mod 64) # b64_encode r)"

fun b64_quads :: "string \<Rightarrow> bytes option" where
  "b64_quads [] = Some []"
| "b64_quads (p # q # r # s # t) =
     (if s = CHR ''='' \<and> t = [] then
        (if r = CHR ''='' then
           (case (b64_val p, b64_val q) of
              (Some i, Some j) \<Rightarrow> Some [char_of (i * 4 + j div 16)]
            | _ \<Rightarrow> None)
         else (case (b64_val p, b64_val q, b64_val r) of
                 (Some i, Some j, Some k) \<Rightarrow> Some [char_of (i * 4 + j div 16), char_of (j mod 16 * 16 + k div 4)]
               | _ \<Rightarrow> None))
      else (case (b64_val p, b64_val q, b64_val r, b64_val s, b64_quads t) of
              (Some i, Some j, Some k, Some l, Some u) \<Rightarrow>
                Some (char_of (i * 4 + j div 16) # char_of (j mod 16 * 16 + k div 4) #
                      char_of (k mod 4 * 64 + l) # u)
            | _ \<Rightarrow> None))"
| "b64_quads _ = None"

text \<open>The decoder of Go skips line breaks.\<close>

definition b64_decode :: "string \<Rightarrow> bytes option" where
  "b64_decode s = b64_quads (filter (\<lambda>c. c \<noteq> CHR 0x0A \<and> c \<noteq> CHR 0x0D) s)"

lemma of_char_b64_char:
  "n < 64 \<Longrightarrow> of_char (b64_char n) =
     (if n < 26 then n + 65 else if n < 52 then n + 71 else if n < 62 then n - 4
      else if n = 62 then 43 else 47 :: nat)"
  by (simp add: b64_char_def of_char_of)

lemma b64_val_char [simp]: "n < 64 \<Longrightarrow> b64_val (b64_char n) = Some n"
  by (simp add: b64_val_def of_char_b64_char Let_def) linarith

lemma b64_char_plain:
  assumes "n < 64"
  shows "b64_char n \<noteq> CHR ''=''" "b64_char n \<noteq> CHR 0x0A" "b64_char n \<noteq> CHR 0x0D"
  using assms of_char_b64_char [OF assms] by (auto split: if_splits)

lemma sextets:
  "of_char a div 4 < (64 :: nat)" "of_char a mod 4 * 16 < (64 :: nat)"
  "of_char a mod 4 * 16 + of_char b div 16 < (64 :: nat)" "of_char a mod 16 * 4 < (64 :: nat)"
  "of_char a mod 16 * 4 + of_char b div 64 < (64 :: nat)" "of_char a mod 64 < (64 :: nat)"
proof -
  have lt: "of_char c < (256 :: nat)" for c by simp
  have "of_char b div 16 < (16 :: nat)" "of_char b div 64 < (4 :: nat)"
    using lt [of b] by (simp_all add: less_mult_imp_div_less)
  moreover have "of_char a mod 4 < (4 :: nat)" "of_char a mod 16 < (16 :: nat)" by simp_all
  ultimately show "of_char a mod 4 * 16 + of_char b div 16 < (64 :: nat)" "of_char a mod 4 * 16 < (64 :: nat)"
    "of_char a mod 16 * 4 < (64 :: nat)" "of_char a mod 16 * 4 + of_char b div 64 < (64 :: nat)"
    by linarith+
  show "of_char a div 4 < (64 :: nat)" using lt [of a] by (simp add: less_mult_imp_div_less)
qed simp

lemma high_bits:
  "of_char c div 16 div 16 = (0 :: nat)" "of_char c div 16 mod 16 = (of_char c div 16 :: nat)"
  "of_char c div 64 div 4 = (0 :: nat)" "of_char c div 64 mod 4 = (of_char c div 64 :: nat)"
proof -
  have "of_char c < (256 :: nat)" by simp
  then have "of_char c div 16 < (16 :: nat)" "of_char c div 64 < (4 :: nat)"
    by (simp_all add: less_mult_imp_div_less)
  then show "of_char c div 16 div 16 = (0 :: nat)" "of_char c div 16 mod 16 = (of_char c div 16 :: nat)"
    "of_char c div 64 div 4 = (0 :: nat)" "of_char c div 64 mod 4 = (of_char c div 64 :: nat)"
    by simp_all
qed

lemma b64_quads_encode: "b64_quads (b64_encode bs) = Some bs"
  by (induction bs rule: b64_encode.induct) (simp_all add: Let_def b64_char_plain sextets high_bits)

lemma b64_encode_plain: "c \<in> set (b64_encode bs) \<Longrightarrow> c \<noteq> CHR 0x0A \<and> c \<noteq> CHR 0x0D"
  by (induction bs rule: b64_encode.induct) (auto simp: Let_def b64_char_plain sextets)

lemma b64_roundtrip [simp]: "b64_decode (b64_encode bs) = Some bs"
proof -
  have "filter (\<lambda>c. c \<noteq> CHR 0x0A \<and> c \<noteq> CHR 0x0D) (b64_encode bs) = b64_encode bs"
    using b64_encode_plain by (simp add: filter_id_conv)
  then show ?thesis by (simp add: b64_decode_def b64_quads_encode)
qed

section \<open>Byte slices and maps of byte slices\<close>

definition json_bytes :: "bytes option \<Rightarrow> json" where
  "json_bytes b = (case b of None \<Rightarrow> JNull | Some bs \<Rightarrow> JStr (b64_encode bs))"

fun json_octets :: "json list \<Rightarrow> bytes option" where
  "json_octets [] = Some []"
| "json_octets (JNum n # js) =
     (if 0 \<le> n \<and> n < 256 then map_option (Cons (char_of n)) (json_octets js) else None)"
| "json_octets (JNull # js) = map_option (Cons (char_of (0 :: nat))) (json_octets js)"
| "json_octets _ = None"

fun json_to_bytes :: "json \<Rightarrow> bytes option option" where
  "json_to_bytes JNull = Some None"
| "json_to_bytes (JStr s) = map_option Some (b64_decode s)"
| "json_to_bytes (JArr js) = map_option Some (json_octets js)"
| "json_to_bytes _ = None"

lemma json_bytes_roundtrip [simp]: "json_to_bytes (json_bytes b) = Some b"
  by (cases b) (simp_all add: json_bytes_def)

type_synonym byte_map = "(string, bytes option) fmap"

definition json_map :: "byte_map \<Rightarrow> json" where
  "json_map m = JObj (map (\<lambda>k. (k, json_bytes (the (fmlookup m k)))) (sorted_list_of_fset (fmdom m)))"

fun members_to_map :: "(string \<times> json) list \<Rightarrow> byte_map \<Rightarrow> byte_map option" where
  "members_to_map [] m = Some m"
| "members_to_map ((k, v) # kvs) m =
     (case json_to_bytes v of None \<Rightarrow> None | Some b \<Rightarrow> members_to_map kvs (fmupd k b m))"

fun json_to_map :: "json \<Rightarrow> byte_map option" where
  "json_to_map JNull = Some fmempty"
| "json_to_map (JObj kvs) = members_to_map kvs fmempty"
| "json_to_map _ = None"

lemma members_roundtrip:
  "members_to_map (map (\<lambda>k. (k, json_bytes (g k))) ks) m = Some (fold (\<lambda>k. fmupd k (g k)) ks m)"
  by (induction ks arbitrary: m) simp_all

lemma fold_fmupd_lookup:
  "fmlookup (fold (\<lambda>k. fmupd k (g k)) ks m) k = (if k \<in> set ks then Some (g k) else fmlookup m k)"
  by (induction ks arbitrary: m) auto

lemma set_sorted_fset [simp]: "set (sorted_list_of_fset S) = fset S"
  by (simp add: sorted_list_of_fset.rep_eq)

lemma fold_fmupd_id: "fold (\<lambda>k. fmupd k (the (fmlookup m k))) (sorted_list_of_fset (fmdom m)) fmempty = m"
  by (rule fmap_ext) (auto simp: fold_fmupd_lookup fmlookup_dom_iff)

lemma json_map_roundtrip [simp]: "json_to_map (json_map m) = Some m"
  by (simp only: json_map_def json_to_map.simps members_roundtrip fold_fmupd_id)

section \<open>Members of an object\<close>

definition ascii_lower :: "char \<Rightarrow> char" where
  "ascii_lower c = (let n = of_char c :: nat in if 65 \<le> n \<and> n \<le> 90 then char_of (n + 32) else c)"

definition same_field :: "string \<Rightarrow> string \<Rightarrow> bool" where
  "same_field a b \<longleftrightarrow> map ascii_lower a = map ascii_lower b"

text \<open>The last member with the name of a field.\<close>

definition member_of :: "string \<Rightarrow> (string \<times> json) list \<Rightarrow> json option" where
  "member_of name kvs = map_option snd (find (\<lambda>(k, v). same_field k name) (rev kvs))"

text \<open>Fields of a fresh struct, from an optional member.\<close>

fun field_string :: "json option \<Rightarrow> string option" where
  "field_string None = Some []"
| "field_string (Some JNull) = Some []"
| "field_string (Some (JStr s)) = Some s"
| "field_string _ = None"

fun field_int64 :: "json option \<Rightarrow> int option" where
  "field_int64 None = Some 0"
| "field_int64 (Some JNull) = Some 0"
| "field_int64 (Some (JNum n)) = (if - (2 ^ 63) \<le> n \<and> n < 2 ^ 63 then Some n else None)"
| "field_int64 _ = None"

definition field_map :: "json option \<Rightarrow> byte_map option" where
  "field_map j = (case j of None \<Rightarrow> Some fmempty | Some v \<Rightarrow> json_to_map v)"

end
