(* ===== verification/Shard_Leader.thy ===== *)
theory Shard_Leader
  imports Go_Json Go_Strings
begin

text \<open>
  The leader of a shard (\<^verbatim>\<open>core/endorser/sharding/types.go\<close>, \<^verbatim>\<open>shard_leader.go\<close>): the queue of
  prepare requests and its batches, the entries handed to Raft, and the application of
  committed entries to the dependency map.  Raft itself (etcd) is not part of this component:
  committed entries are an argument, the outcome of a proposal is an event.
\<close>

section \<open>Data\<close>

record TransactionDependencyInfo =
  tdi_Value :: "bytes option"
  tdi_DependentTxID :: string
  tdi_ExpiryTime :: time
  tdi_HasDependency :: bool

record ShardConfig =
  sc_ShardID :: string
  sc_ReplicaNodes :: "string list"
  sc_ReplicaID :: u64

record PrepareRequest =
  pr_TxID :: string
  pr_ShardID :: string
  pr_ReadSet :: byte_map
  pr_WriteSet :: byte_map
  pr_Timestamp :: time

record PrepareRequestProto =
  pp_TxID :: string
  pp_ShardID :: string
  pp_ReadSet :: byte_map
  pp_WriteSet :: byte_map
  pp_Timestamp :: int

record AbortEntry =
  ae_TxID :: string
  ae_Timestamp :: int

record PrepareProof =
  pf_TxID :: string
  pf_ShardID :: string
  pf_CommitIndex :: u64
  pf_LeaderID :: u64
  pf_Signature :: bytes
  pf_Term :: u64

text \<open>The data of a Raft entry: none, bytes that are not JSON, or a JSON text.\<close>

datatype raft_data = NoData | NotJson | Text json

datatype entry_type = EntryNormal | EntryConfChange

record Entry =
  en_Type :: entry_type
  en_Index :: u64
  en_Term :: u64
  en_Data :: raft_data

record ShardLeader =
  sl_shardID :: string
  sl_peers :: "u64 list"
  sl_commitIndex :: u64
  sl_variableMap :: "string \<rightharpoonup> TransactionDependencyInfo"
  sl_batchQueue :: "PrepareRequest list"
  sl_batchTimeout :: duration
  sl_maxBatchSize :: int
  sl_lastBatchTime :: time
  sl_proposeC :: "PrepareRequest list"
  sl_commitC :: "PrepareProof list"
  sl_requestsHandled :: u64
  sl_stopped :: bool

definition DefaultBatchMaxSize :: int where
  "DefaultBatchMaxSize = 20"

definition DefaultBatchTimeout :: duration where
  "DefaultBatchTimeout = 300 * 1000000"

definition DefaultExpiryDuration :: duration where
  "DefaultExpiryDuration = 5 * 60 * 1000000000"

definition chan_capacity :: nat where
  "chan_capacity = 1000"

text \<open>
  \<open>NewShardLeader\<close>. Starting the Raft node is a parameter that says whether etcd accepts the
  node's ID and peers (it panics otherwise); a negative capacity panics in \<open>make\<close>.
\<close>

definition NewShardLeader ::
    "(u64 \<Rightarrow> u64 list \<Rightarrow> bool) \<Rightarrow> ShardConfig \<Rightarrow> duration \<Rightarrow> int \<Rightarrow> time \<Rightarrow> ShardLeader go" where
  "NewShardLeader startNode config batchTimeout maxBatchSize now =
     (let peers = map (\<lambda>i. of_nat (i + 1)) [0..<length (sc_ReplicaNodes config)]
      in if \<not> startNode (sc_ReplicaID config) peers then Panic
         else if maxBatchSize < 0 then Panic
         else Return \<lparr>sl_shardID = sc_ShardID config, sl_peers = peers, sl_commitIndex = 0,
                sl_variableMap = Map.empty, sl_batchQueue = [], sl_batchTimeout = batchTimeout,
                sl_maxBatchSize = maxBatchSize, sl_lastBatchTime = now, sl_proposeC = [],
                sl_commitC = [], sl_requestsHandled = 0, sl_stopped = False\<rparr>)"

section \<open>Entries\<close>

definition unix_seconds :: "time \<Rightarrow> int" where
  "unix_seconds t = t div 1000000000"

definition proto_of :: "PrepareRequest \<Rightarrow> PrepareRequestProto" where
  "proto_of req = \<lparr>pp_TxID = pr_TxID req, pp_ShardID = pr_ShardID req, pp_ReadSet = pr_ReadSet req,
     pp_WriteSet = pr_WriteSet req, pp_Timestamp = unix_seconds (pr_Timestamp req)\<rparr>"

definition json_proto :: "PrepareRequestProto \<Rightarrow> json" where
  "json_proto r = JObj [(''TxID'', JStr (pp_TxID r)), (''ShardID'', JStr (pp_ShardID r)),
     (''ReadSet'', json_map (pp_ReadSet r)), (''WriteSet'', json_map (pp_WriteSet r)),
     (''Timestamp'', JNum (pp_Timestamp r))]"

definition Batch_Marshal :: "PrepareRequestProto option list \<Rightarrow> json" where
  "Batch_Marshal reqs =
     JObj [(''Requests'', JArr (map (\<lambda>r. case r of None \<Rightarrow> JNull | Some p \<Rightarrow> json_proto p) reqs))]"

fun unmarshal_proto :: "json \<Rightarrow> PrepareRequestProto option option" where
  "unmarshal_proto JNull = Some None"
| "unmarshal_proto (JObj kvs) =
     (case (field_string (member_of ''TxID'' kvs), field_string (member_of ''ShardID'' kvs),
            field_map (member_of ''ReadSet'' kvs), field_map (member_of ''WriteSet'' kvs),
            field_int64 (member_of ''Timestamp'' kvs)) of
        (Some t, Some s, Some r, Some w, Some n) \<Rightarrow>
          Some (Some \<lparr>pp_TxID = t, pp_ShardID = s, pp_ReadSet = r, pp_WriteSet = w, pp_Timestamp = n\<rparr>)
      | _ \<Rightarrow> None)"
| "unmarshal_proto _ = None"

fun Batch_Unmarshal :: "json \<Rightarrow> PrepareRequestProto option list option" where
  "Batch_Unmarshal JNull = Some []"
| "Batch_Unmarshal (JObj kvs) =
     (case member_of ''Requests'' kvs of
        None \<Rightarrow> Some []
      | Some JNull \<Rightarrow> Some []
      | Some (JArr js) \<Rightarrow> those (map unmarshal_proto js)
      | Some _ \<Rightarrow> None)"
| "Batch_Unmarshal _ = None"

definition Abort_Marshal :: "AbortEntry \<Rightarrow> json" where
  "Abort_Marshal a = JObj [(''TxID'', JStr (ae_TxID a)), (''Timestamp'', JNum (ae_Timestamp a))]"

definition serializeBatch :: "PrepareRequest list \<Rightarrow> json" where
  "serializeBatch batch = Batch_Marshal (map (\<lambda>req. Some (proto_of req)) batch)"

text \<open>\<open>HandleAbort\<close>: the data it proposes.\<close>

definition HandleAbort :: "time \<Rightarrow> string \<Rightarrow> json" where
  "HandleAbort now txID = Abort_Marshal \<lparr>ae_TxID = txID, ae_Timestamp = unix_seconds now\<rparr>"

section \<open>Applying a committed entry\<close>

text \<open>
  What the code reads from its surroundings while it handles one request: the clock, the
  leader Raft reports, the orders in which it ranges over the read set and twice over the
  write set, and how many proofs the consumers of the commit channel have taken since the
  last one was sent.
\<close>

record req_env =
  re_now :: time
  re_lead :: u64
  re_reads :: "string list"
  re_checks :: "string list"
  re_updates :: "string list"
  re_taken :: nat

text \<open>The two lists are the orders of the ranges over the read set and the write set of the request.\<close>

definition checkDependencies ::
    "string list \<Rightarrow> string list \<Rightarrow> (string \<rightharpoonup> TransactionDependencyInfo) \<Rightarrow> bool \<times> string" where
  "checkDependencies readOrder writeOrder variableMap =
     (case first_hit variableMap readOrder of
        Some depInfo \<Rightarrow> (True, tdi_DependentTxID depInfo)
      | None \<Rightarrow>
          (case first_hit variableMap writeOrder of
             Some depInfo \<Rightarrow> (True, tdi_DependentTxID depInfo)
           | None \<Rightarrow> (False, [])))"

definition updateDependencyMap ::
    "string list \<Rightarrow> time \<Rightarrow> PrepareRequestProto \<Rightarrow> bool \<Rightarrow> (string \<rightharpoonup> TransactionDependencyInfo) \<Rightarrow>
     (string \<rightharpoonup> TransactionDependencyInfo)" where
  "updateDependencyMap order now req hasDep variableMap =
     put_all (\<lambda>key. \<lparr>tdi_Value = the (fmlookup (pp_WriteSet req) key), tdi_DependentTxID = pp_TxID req,
                     tdi_ExpiryTime = now + DefaultExpiryDuration, tdi_HasDependency = hasDep\<rparr>)
       order variableMap"

definition signProof :: "string \<Rightarrow> string \<Rightarrow> u64 \<Rightarrow> bytes" where
  "signProof shardID txID commitIndex = shardID @ '':'' @ show_nat (unat commitIndex) @ '':'' @ txID"

definition send_proof :: "nat \<Rightarrow> PrepareProof \<Rightarrow> PrepareProof list \<Rightarrow> PrepareProof list" where
  "send_proof taken proof commitC =
     (let c = drop taken commitC in if length c < chan_capacity then c @ [proof] else c)"

definition apply_request :: "req_env \<Rightarrow> Entry \<Rightarrow> PrepareRequestProto \<Rightarrow> ShardLeader \<Rightarrow> ShardLeader" where
  "apply_request env entry reqProto sl =
     (let (hasDependency, dependentTxID) =
            checkDependencies (re_reads env) (re_checks env) (sl_variableMap sl);
          proof = \<lparr>pf_TxID = pp_TxID reqProto, pf_ShardID = sl_shardID sl, pf_CommitIndex = sl_commitIndex sl,
            pf_LeaderID = re_lead env,
            pf_Signature = signProof (sl_shardID sl) (pp_TxID reqProto) (sl_commitIndex sl),
            pf_Term = en_Term entry\<rparr>
      in sl\<lparr>sl_variableMap := updateDependencyMap (re_updates env) (re_now env) reqProto hasDependency
              (sl_variableMap sl),
            sl_commitC := send_proof (re_taken env) proof (sl_commitC sl),
            sl_requestsHandled := sl_requestsHandled sl + 1\<rparr>)"

text \<open>A null in the list of requests is a nil pointer, dereferenced by the first range.\<close>

fun apply_requests ::
    "(nat \<Rightarrow> req_env) \<Rightarrow> nat \<Rightarrow> Entry \<Rightarrow> PrepareRequestProto option list \<Rightarrow> ShardLeader \<Rightarrow> ShardLeader go" where
  "apply_requests envs i entry [] sl = Return sl"
| "apply_requests envs i entry (None # rs) sl = Panic"
| "apply_requests envs i entry (Some r # rs) sl =
     apply_requests envs (Suc i) entry rs (apply_request (envs i) entry r sl)"

definition applyEntry :: "(nat \<Rightarrow> req_env) \<Rightarrow> Entry \<Rightarrow> ShardLeader \<Rightarrow> ShardLeader go" where
  "applyEntry envs entry sl =
     (let sl1 = sl\<lparr>sl_commitIndex := en_Index entry\<rparr>
      in case en_Data entry of
           Text j \<Rightarrow>
             (case Batch_Unmarshal j of
                None \<Rightarrow> Return sl1
              | Some reqs \<Rightarrow> apply_requests envs 0 entry reqs sl1)
         | _ \<Rightarrow> Return sl1)"

text \<open>The committed entries of one \<open>Ready\<close>, in \<open>runRaft\<close>.\<close>

fun apply_committed :: "(nat \<Rightarrow> nat \<Rightarrow> req_env) \<Rightarrow> nat \<Rightarrow> Entry list \<Rightarrow> ShardLeader \<Rightarrow> ShardLeader go" where
  "apply_committed envs n [] sl = Return sl"
| "apply_committed envs n (entry # es) sl =
     (if en_Type entry = EntryNormal \<and> en_Data entry \<noteq> NoData
      then go_bind (applyEntry (envs n) entry sl) (\<lambda>sl'. apply_committed envs (Suc n) es sl')
      else apply_committed envs (Suc n) es sl)"

definition GetRequestsHandled :: "ShardLeader \<Rightarrow> u64" where
  "GetRequestsHandled sl = sl_requestsHandled sl"

text \<open>\<open>Stop\<close>: closing a closed channel panics.\<close>

definition Stop :: "ShardLeader \<Rightarrow> ShardLeader go" where
  "Stop sl = (if sl_stopped sl then Panic else Return (sl\<lparr>sl_stopped := True\<rparr>))"

section \<open>Batches\<close>

text \<open>
  The goroutines \<open>runRaft\<close> and \<open>runBatcher\<close> share the queue.  \<open>runRaft\<close> appends a request
  and flushes when the queue has reached the maximum; \<open>runBatcher\<close> flushes on each tick.
  \<open>flushBatch\<close> takes the queue under its lock and proposes it after releasing it, so the two
  goroutines can propose in the other order than they took.  The position of each goroutine
  is part of the state; \<open>fl_submitted\<close> and \<open>fl_taken\<close> record history, \<open>fl_proposed\<close> the
  batches Raft accepted and \<open>fl_lost\<close> those for which \<open>Propose\<close> returned an error.
\<close>

datatype position = Idle | Flushing | Proposing "PrepareRequest list"

record flow =
  fl_proposeC :: "PrepareRequest list"
  fl_queue :: "PrepareRequest list"
  fl_raft :: position
  fl_batcher :: position
  fl_submitted :: "PrepareRequest list"
  fl_taken :: "PrepareRequest list list"
  fl_proposed :: "PrepareRequest list list"
  fl_lost :: "PrepareRequest list list"

definition flow_start :: flow where
  "flow_start = \<lparr>fl_proposeC = [], fl_queue = [], fl_raft = Idle, fl_batcher = Idle, fl_submitted = [],
     fl_taken = [], fl_proposed = [], fl_lost = []\<rparr>"

text \<open>The locked part of \<open>flushBatch\<close>: where the goroutine goes on, and the batch it holds.\<close>

definition flush_take :: "PrepareRequest list \<Rightarrow> position \<times> PrepareRequest list list" where
  "flush_take queue = (if queue = [] then (Idle, []) else (Proposing queue, [queue]))"

definition shouldFlush :: "int \<Rightarrow> PrepareRequest list \<Rightarrow> bool" where
  "shouldFlush maxBatchSize queue \<longleftrightarrow> int (length queue) \<ge> maxBatchSize"

inductive flow_step :: "int \<Rightarrow> flow \<Rightarrow> flow \<Rightarrow> bool" for maxBatchSize where
  submit: "length (fl_proposeC s) < chan_capacity \<Longrightarrow>
    flow_step maxBatchSize s (s\<lparr>fl_proposeC := fl_proposeC s @ [r], fl_submitted := fl_submitted s @ [r]\<rparr>)"
| receive: "fl_raft s = Idle \<Longrightarrow> fl_proposeC s = r # rs \<Longrightarrow>
    flow_step maxBatchSize s (s\<lparr>fl_proposeC := rs, fl_queue := fl_queue s @ [r],
      fl_raft := (if shouldFlush maxBatchSize (fl_queue s @ [r]) then Flushing else Idle)\<rparr>)"
| take_raft: "fl_raft s = Flushing \<Longrightarrow> flush_take (fl_queue s) = (p, bs) \<Longrightarrow>
    flow_step maxBatchSize s (s\<lparr>fl_queue := [], fl_raft := p, fl_taken := fl_taken s @ bs\<rparr>)"
| take_batcher: "fl_batcher s = Idle \<Longrightarrow> flush_take (fl_queue s) = (p, bs) \<Longrightarrow>
    flow_step maxBatchSize s (s\<lparr>fl_queue := [], fl_batcher := p, fl_taken := fl_taken s @ bs\<rparr>)"
| propose_raft: "fl_raft s = Proposing b \<Longrightarrow>
    flow_step maxBatchSize s (s\<lparr>fl_raft := Idle, fl_proposed := fl_proposed s @ [b]\<rparr>)"
| propose_batcher: "fl_batcher s = Proposing b \<Longrightarrow>
    flow_step maxBatchSize s (s\<lparr>fl_batcher := Idle, fl_proposed := fl_proposed s @ [b]\<rparr>)"
| fail_raft: "fl_raft s = Proposing b \<Longrightarrow>
    flow_step maxBatchSize s (s\<lparr>fl_raft := Idle, fl_lost := fl_lost s @ [b]\<rparr>)"
| fail_batcher: "fl_batcher s = Proposing b \<Longrightarrow>
    flow_step maxBatchSize s (s\<lparr>fl_batcher := Idle, fl_lost := fl_lost s @ [b]\<rparr>)"

section \<open>The dependency map as the last writers of the log\<close>

definition reads_of :: "PrepareRequestProto \<Rightarrow> string set" where
  "reads_of r = fmdom' (pp_ReadSet r)"

definition writes_of :: "PrepareRequestProto \<Rightarrow> string set" where
  "writes_of r = fmdom' (pp_WriteSet r)"

text \<open>The surroundings of a request: the orders are orders of its sets.\<close>

definition env_ok :: "PrepareRequestProto \<Rightarrow> req_env \<Rightarrow> bool" where
  "env_ok r env \<longleftrightarrow> set (re_reads env) = reads_of r \<and> set (re_checks env) = writes_of r \<and>
     set (re_updates env) = writes_of r"

text \<open>What replicas can agree on: everything but the expiry time, which is read off the local clock.\<close>

type_synonym view = "string \<rightharpoonup> string \<times> bytes option \<times> bool"

definition view :: "(string \<rightharpoonup> TransactionDependencyInfo) \<Rightarrow> view" where
  "view vm = (\<lambda>k. map_option (\<lambda>i. (tdi_DependentTxID i, tdi_Value i, tdi_HasDependency i)) (vm k))"

definition view_step :: "PrepareRequestProto \<Rightarrow> view \<Rightarrow> view" where
  "view_step r v =
     (\<lambda>k. if k \<in> writes_of r
          then Some (pp_TxID r, the (fmlookup (pp_WriteSet r) k), \<exists>x \<in> reads_of r \<union> writes_of r. v x \<noteq> None)
          else v k)"

lemma view_None [simp]: "view vm k = None \<longleftrightarrow> vm k = None"
  by (simp add: view_def)

lemma checkDependencies_fst:
  "fst (checkDependencies ro wo vm) \<longleftrightarrow> (\<exists>k \<in> set ro \<union> set wo. vm k \<noteq> None)"
  using first_hit_None_iff [of vm ro] first_hit_None_iff [of vm wo]
  by (auto simp: checkDependencies_def split: option.splits)

lemma updateDependencyMap_lookup:
  "updateDependencyMap order now req has vm k =
     (if k \<in> set order
      then Some \<lparr>tdi_Value = the (fmlookup (pp_WriteSet req) k), tdi_DependentTxID = pp_TxID req,
             tdi_ExpiryTime = now + DefaultExpiryDuration, tdi_HasDependency = has\<rparr>
      else vm k)"
  by (simp add: updateDependencyMap_def put_all_lookup)

lemma apply_request_view:
  "env_ok r env \<Longrightarrow> view (sl_variableMap (apply_request env entry r sl)) = view_step r (view (sl_variableMap sl))"
  using checkDependencies_fst [of "re_reads env" "re_checks env" "sl_variableMap sl"]
  by (auto simp: apply_request_def Let_def view_def view_step_def updateDependencyMap_lookup env_ok_def
      fun_eq_iff split: prod.splits)

lemma apply_request_frame [simp]:
  "sl_requestsHandled (apply_request env entry r sl) = sl_requestsHandled sl + 1"
  "sl_commitIndex (apply_request env entry r sl) = sl_commitIndex sl"
  "sl_shardID (apply_request env entry r sl) = sl_shardID sl"
  "sl_batchQueue (apply_request env entry r sl) = sl_batchQueue sl"
  by (simp_all add: apply_request_def Let_def split: prod.splits)

lemma apply_requests_Panic: "apply_requests envs i entry rs sl = Panic \<longleftrightarrow> None \<in> set rs"
  by (induction envs i entry rs sl rule: apply_requests.induct) auto

interpretation leader: replicated_log "\<lambda>env r. apply_request env entry r"
    "\<lambda>sl. view (sl_variableMap sl)" env_ok view_step for entry
  by unfold_locales (rule apply_request_view)

lemma apply_requests_fold:
  "apply_requests envs i entry rs sl = Return sl' \<Longrightarrow>
     sl' = fold (\<lambda>(e, r). apply_request e entry r) (zip (map envs [i..<i + length rs]) (map the rs)) sl"
  by (induction envs i entry rs sl rule: apply_requests.induct) (simp_all add: upt_conv_Cons del: upt_Suc)

lemma fold_apply_frame:
  "sl_requestsHandled (fold (\<lambda>(e, r). apply_request e entry r) ers sl) = sl_requestsHandled sl + of_nat (length ers)"
  "sl_commitIndex (fold (\<lambda>(e, r). apply_request e entry r) ers sl) = sl_commitIndex sl"
  "sl_shardID (fold (\<lambda>(e, r). apply_request e entry r) ers sl) = sl_shardID sl"
  by (induction ers arbitrary: sl) (auto split: prod.splits)

lemma apply_requests_view:
  assumes "apply_requests envs i entry rs sl = Return sl'"
    and "\<And>j r. j < length rs \<Longrightarrow> rs ! j = Some r \<Longrightarrow> env_ok r (envs (i + j))"
  shows "view (sl_variableMap sl') = fold view_step (map the rs) (view (sl_variableMap sl)) \<and>
    sl_requestsHandled sl' = sl_requestsHandled sl + of_nat (length rs) \<and>
    sl_commitIndex sl' = sl_commitIndex sl \<and> sl_shardID sl' = sl_shardID sl"
proof -
  have "None \<notin> set rs" using assms(1) apply_requests_Panic [of envs i entry rs sl] by auto
  then have "list_all2 env_ok (map the rs) (map envs [i..<i + length rs])"
    using assms(2) by (auto simp: list_all2_conv_all_nth) (metis nth_mem option.collapse)
  then show ?thesis
    using leader.run [of "map the rs" "map envs [i..<i + length rs]" entry sl] apply_requests_fold [OF assms(1)]
    by (simp add: fold_apply_frame)
qed

text \<open>The requests of an entry, and of a sequence of entries.\<close>

definition entry_requests :: "Entry \<Rightarrow> PrepareRequestProto option list" where
  "entry_requests e =
     (if en_Type e = EntryNormal
      then (case en_Data e of Text j \<Rightarrow> (case Batch_Unmarshal j of Some rs \<Rightarrow> rs | None \<Rightarrow> []) | _ \<Rightarrow> [])
      else [])"

definition log_requests :: "Entry list \<Rightarrow> PrepareRequestProto list" where
  "log_requests es = map the (concat (map entry_requests es))"

definition envs_ok :: "(nat \<Rightarrow> nat \<Rightarrow> req_env) \<Rightarrow> nat \<Rightarrow> Entry list \<Rightarrow> bool" where
  "envs_ok envs n es \<longleftrightarrow>
     (\<forall>i < length es. \<forall>j < length (entry_requests (es ! i)). \<forall>r.
        entry_requests (es ! i) ! j = Some r \<longrightarrow> env_ok r (envs (n + i) j))"

lemma envs_ok_Cons:
  "envs_ok envs n (e # es) \<longleftrightarrow>
     (\<forall>j < length (entry_requests e). \<forall>r. entry_requests e ! j = Some r \<longrightarrow> env_ok r (envs n j)) \<and>
     envs_ok envs (Suc n) es"
  by (auto simp: envs_ok_def nth_Cons less_Suc_eq_0_disj split: nat.splits)

lemma applyEntry_requests:
  "en_Type entry = EntryNormal \<Longrightarrow>
     applyEntry envs entry sl = apply_requests envs 0 entry (entry_requests entry) (sl\<lparr>sl_commitIndex := en_Index entry\<rparr>)"
  by (simp add: applyEntry_def entry_requests_def Let_def split: raft_data.splits option.splits)

lemma apply_committed_Panic:
  "apply_committed envs n es sl = Panic \<longleftrightarrow> None \<in> set (concat (map entry_requests es))"
proof (induction es arbitrary: n sl)
  case (Cons e es)
  show ?case
  proof (cases "en_Type e = EntryNormal \<and> en_Data e \<noteq> NoData")
    case True
    show ?thesis
    proof (cases "applyEntry (envs n) e sl")
      case (Return sl')
      then have "None \<notin> set (entry_requests e)"
        using True apply_requests_Panic [of "envs n" 0 e "entry_requests e"] by (metis applyEntry_requests go.distinct(1))
      then show ?thesis using Cons True Return by simp
    next
      case Panic
      then have "None \<in> set (entry_requests e)"
        using True apply_requests_Panic [of "envs n" 0 e "entry_requests e"] by (metis applyEntry_requests)
      then show ?thesis using True Panic by simp
    qed
  next
    case False
    then have "entry_requests e = []" by (auto simp: entry_requests_def)
    then show ?thesis using False Cons by auto
  qed
qed simp

lemma apply_committed_view:
  assumes "apply_committed envs n es sl = Return sl'" "envs_ok envs n es"
  shows "view (sl_variableMap sl') = fold view_step (log_requests es) (view (sl_variableMap sl)) \<and>
    sl_requestsHandled sl' = sl_requestsHandled sl + of_nat (length (log_requests es))"
  using assms
proof (induction es arbitrary: n sl)
  case Nil
  then show ?case by (simp add: log_requests_def)
next
  case (Cons e es)
  show ?case
  proof (cases "en_Type e = EntryNormal \<and> en_Data e \<noteq> NoData")
    case True
    then obtain sl1 where s1: "applyEntry (envs n) e sl = Return sl1" "apply_committed envs (Suc n) es sl1 = Return sl'"
      using Cons.prems(1) by (auto simp: go_bind_Return_iff)
    have "view (sl_variableMap sl1) = fold view_step (map the (entry_requests e)) (view (sl_variableMap sl)) \<and>
      sl_requestsHandled sl1 = sl_requestsHandled sl + of_nat (length (entry_requests e))"
      using apply_requests_view [of "envs n" 0 e "entry_requests e" "sl\<lparr>sl_commitIndex := en_Index e\<rparr>" sl1]
        s1(1) True Cons.prems(2) by (auto simp: applyEntry_requests envs_ok_Cons)
    then show ?thesis using Cons.IH [OF s1(2)] Cons.prems(2)
      by (simp add: envs_ok_Cons log_requests_def)
  next
    case False
    then have "entry_requests e = []" by (auto simp: entry_requests_def)
    moreover have "apply_committed envs (Suc n) es sl = Return sl'" using False Cons.prems(1) by (auto split: if_splits)
    ultimately show ?thesis using Cons.IH Cons.prems(2) by (simp add: envs_ok_Cons log_requests_def)
  qed
qed

text \<open>
  The specification: the position in the log of the last request that writes a key, and
  whether an earlier request writes a key the request at a position touches.
\<close>

definition last_writer :: "PrepareRequestProto list \<Rightarrow> string \<Rightarrow> nat option" where
  "last_writer rs k =
     (let ws = filter (\<lambda>i. k \<in> writes_of (rs ! i)) [0..<length rs] in if ws = [] then None else Some (last ws))"

definition depends :: "PrepareRequestProto list \<Rightarrow> nat \<Rightarrow> bool" where
  "depends rs i \<longleftrightarrow> (\<exists>j < i. (reads_of (rs ! i) \<union> writes_of (rs ! i)) \<inter> writes_of (rs ! j) \<noteq> {})"

definition log_view :: "PrepareRequestProto list \<Rightarrow> view" where
  "log_view rs =
     (\<lambda>k. map_option (\<lambda>i. (pp_TxID (rs ! i), the (fmlookup (pp_WriteSet (rs ! i)) k), depends rs i))
            (last_writer rs k))"

lemma last_writer_Nil [simp]: "last_writer [] k = None"
  by (simp add: last_writer_def)

lemma last_writer_snoc:
  "last_writer (rs @ [r]) k = (if k \<in> writes_of r then Some (length rs) else last_writer rs k)"
proof -
  have "filter (\<lambda>i. k \<in> writes_of ((rs @ [r]) ! i)) [0..<length rs] =
      filter (\<lambda>i. k \<in> writes_of (rs ! i)) [0..<length rs]"
    by (rule filter_cong) (simp_all add: nth_append)
  then show ?thesis by (simp add: last_writer_def Let_def)
qed

lemma last_writer_less: "last_writer rs k = Some i \<Longrightarrow> i < length rs \<and> k \<in> writes_of (rs ! i)"
proof (induction rs rule: rev_induct)
  case (snoc r rs)
  then show ?case by (cases "k \<in> writes_of r") (auto simp: last_writer_snoc nth_append)
qed simp

lemma last_writer_None: "last_writer rs k = None \<longleftrightarrow> (\<forall>j < length rs. k \<notin> writes_of (rs ! j))"
  by (auto simp: last_writer_def Let_def filter_empty_conv)

lemma depends_append: "i < length rs \<Longrightarrow> depends (rs @ [r]) i = depends rs i"
  unfolding depends_def by (intro ex_cong1) (auto simp: nth_append)

lemma depends_last:
  "depends (rs @ [r]) (length rs) \<longleftrightarrow> (\<exists>x \<in> reads_of r \<union> writes_of r. last_writer rs x \<noteq> None)"
  by (auto simp: depends_def nth_append last_writer_None)

lemma fold_view_step: "fold view_step rs Map.empty = log_view rs"
proof (induction rs rule: rev_induct)
  case Nil
  then show ?case by (simp add: log_view_def)
next
  case (snoc r rs)
  have "log_view rs x = None \<longleftrightarrow> last_writer rs x = None" for x by (simp add: log_view_def)
  moreover have "view_step r (log_view rs) k = log_view (rs @ [r]) k" for k
    using depends_last [of rs r] calculation last_writer_less [of rs k]
    by (cases "last_writer rs k")
      (auto simp: view_step_def log_view_def last_writer_snoc nth_append depends_append)
  ultimately show ?case using snoc by (simp add: ext)
qed

lemma view_empty [simp]: "view Map.empty = Map.empty"
  by (simp add: view_def)

section \<open>Round trip of the entries\<close>

lemma proto_members [simp]:
  "member_of ''TxID'' [(''TxID'', a), (''ShardID'', b), (''ReadSet'', c), (''WriteSet'', d), (''Timestamp'', e)] = Some a"
  "member_of ''ShardID'' [(''TxID'', a), (''ShardID'', b), (''ReadSet'', c), (''WriteSet'', d), (''Timestamp'', e)] = Some b"
  "member_of ''ReadSet'' [(''TxID'', a), (''ShardID'', b), (''ReadSet'', c), (''WriteSet'', d), (''Timestamp'', e)] = Some c"
  "member_of ''WriteSet'' [(''TxID'', a), (''ShardID'', b), (''ReadSet'', c), (''WriteSet'', d), (''Timestamp'', e)] = Some d"
  "member_of ''Timestamp'' [(''TxID'', a), (''ShardID'', b), (''ReadSet'', c), (''WriteSet'', d), (''Timestamp'', e)] = Some e"
  "member_of ''Requests'' [(''Requests'', a)] = Some a"
  "member_of ''Requests'' [(''TxID'', a), (''Timestamp'', e)] = None"
  by (simp_all add: member_of_def same_field_def ascii_lower_def)

definition int64 :: "int \<Rightarrow> bool" where
  "int64 n \<longleftrightarrow> - (2 ^ 63) \<le> n \<and> n < 2 ^ 63"

lemma proto_roundtrip:
  "int64 (pp_Timestamp r) \<Longrightarrow> unmarshal_proto (json_proto r) = Some (Some r)"
  by (simp add: json_proto_def field_map_def int64_def)

lemma those_map_Some: "(\<And>x. x \<in> set xs \<Longrightarrow> f x = Some (g x)) \<Longrightarrow> those (map f xs) = Some (map g xs)"
  by (induction xs) auto

lemma Batch_roundtrip:
  assumes "\<And>r. Some r \<in> set rs \<Longrightarrow> int64 (pp_Timestamp r)"
  shows "Batch_Unmarshal (Batch_Marshal rs) = Some rs"
proof -
  have "those (map unmarshal_proto (map (\<lambda>r. case r of None \<Rightarrow> JNull | Some p \<Rightarrow> json_proto p) rs)) = Some (map id rs)"
    unfolding map_map o_def
    by (rule those_map_Some) (use assms proto_roundtrip in \<open>auto split: option.split\<close>)
  then show ?thesis by (simp add: Batch_Marshal_def)
qed

lemma serializeBatch_roundtrip:
  assumes "\<And>r. r \<in> set batch \<Longrightarrow> int64 (unix_seconds (pr_Timestamp r))"
  shows "Batch_Unmarshal (serializeBatch batch) = Some (map (\<lambda>r. Some (proto_of r)) batch)"
  unfolding serializeBatch_def by (rule Batch_roundtrip) (use assms in \<open>auto simp: proto_of_def\<close>)

section \<open>The invariant of the batches\<close>

fun held :: "position \<Rightarrow> PrepareRequest list multiset" where
  "held (Proposing b) = {#b#}"
| "held _ = {#}"

definition flow_inv :: "int \<Rightarrow> flow \<Rightarrow> bool" where
  "flow_inv maxB s \<longleftrightarrow>
     concat (fl_taken s) @ fl_queue s @ fl_proposeC s = fl_submitted s \<and>
     mset (fl_taken s) = mset (fl_proposed s) + mset (fl_lost s) + held (fl_raft s) + held (fl_batcher s) \<and>
     (\<forall>b \<in> set (fl_taken s). b \<noteq> [] \<and> int (length b) \<le> max 1 maxB) \<and>
     (int (length (fl_queue s)) < max 1 maxB \<or> fl_raft s = Flushing \<and> int (length (fl_queue s)) = max 1 maxB)"

lemma flow_inv_start: "flow_inv maxB flow_start"
  by (simp add: flow_inv_def flow_start_def)

lemma flush_take_cases:
  assumes "flush_take q = (p, bs)"
  obtains "q = []" "p = Idle" "bs = []" | "q \<noteq> []" "p = Proposing q" "bs = [q]"
  using assms by (auto simp: flush_take_def split: if_splits)

lemma flow_step_inv: "flow_step maxB s s' \<Longrightarrow> flow_inv maxB s \<Longrightarrow> flow_inv maxB s'"
proof (induction rule: flow_step.induct)
  case (receive s r rs)
  then show ?case by (auto simp: flow_inv_def shouldFlush_def)
next
  case (take_raft s p bs)
  then show ?case by (elim flush_take_cases) (simp_all add: flow_inv_def, linarith?)
next
  case (take_batcher s p bs)
  then show ?case by (elim flush_take_cases) (simp_all add: flow_inv_def, linarith?)
qed (auto simp: flow_inv_def)

lemma flow_reachable_inv: "(flow_step maxB)\<^sup>*\<^sup>* flow_start s \<Longrightarrow> flow_inv maxB s"
  by (induction rule: rtranclp_induct) (auto simp: flow_inv_start intro: flow_step_inv)

section \<open>Properties\<close>

text \<open>C10: the dependency map refines the log. Whatever the clocks, the iteration orders, the
  reported leaders and the consumers of the proofs do, after any sequence of committed
  entries the map of a fresh leader holds for each key the transaction, the value and the
  dependency flag of the last request in the log that writes the key, and nothing for keys
  no request writes; a dependency never expires.\<close>

theorem apply_committed_last_writer:
  assumes "apply_committed envs 0 es sl = Return sl'" "envs_ok envs 0 es" "sl_variableMap sl = Map.empty"
  shows "view (sl_variableMap sl') = log_view (log_requests es) \<and>
    sl_requestsHandled sl' = sl_requestsHandled sl + of_nat (length (log_requests es))"
  using apply_committed_view [OF assms(1,2)] assms(3) fold_view_step by simp

text \<open>C11: replicas agree. Two replicas whose maps agree up to expiry times still agree after the
  same committed entries, in whatever surroundings each of them handles the entries.\<close>

theorem replicas_agree:
  assumes "view (sl_variableMap a) = view (sl_variableMap b)"
    and "apply_committed envs n es a = Return a'" "envs_ok envs n es"
    and "apply_committed envs' m es b = Return b'" "envs_ok envs' m es"
  shows "view (sl_variableMap a') = view (sl_variableMap b')"
  using apply_committed_view [OF assms(2,3)] apply_committed_view [OF assms(4,5)] assms(1) by simp

text \<open>C12: batches lose nothing on the way. In every reachable state of the two goroutines the
  batches taken so far, then the queue, then the channel, are the submitted requests in
  order; every batch taken has been accepted by Raft, refused by it, or is still held by one
  of the goroutines, each exactly once; and a batch is never empty nor larger than the maximum.\<close>

theorem flow_conserves_requests:
  assumes "(flow_step maxB)\<^sup>*\<^sup>* flow_start s"
  shows "concat (fl_taken s) @ fl_queue s @ fl_proposeC s = fl_submitted s \<and>
    mset (fl_taken s) = mset (fl_proposed s) + mset (fl_lost s) + held (fl_raft s) + held (fl_batcher s) \<and>
    (\<forall>b \<in> set (fl_taken s). b \<noteq> [] \<and> int (length b) \<le> max 1 maxB)"
  using flow_reachable_inv [OF assms] by (simp add: flow_inv_def)

text \<open>C19: round trip of a batch. Applying the entry made from a batch handles exactly the
  requests of the batch, in order, and cannot panic.\<close>

theorem batch_entry_applied:
  assumes "\<forall>r \<in> set batch. int64 (unix_seconds (pr_Timestamp r))"
    and "en_Type e = EntryNormal" "en_Data e = Text (serializeBatch batch)"
  shows "applyEntry envs e sl =
    Return (fold (\<lambda>(env, r). apply_request env e r) (zip (map envs [0..<length batch]) (map proto_of batch))
      (sl\<lparr>sl_commitIndex := en_Index e\<rparr>))"
proof -
  have rs: "entry_requests e = map (\<lambda>r. Some (proto_of r)) batch"
    using serializeBatch_roundtrip [of batch] assms by (simp add: entry_requests_def)
  then have "None \<notin> set (entry_requests e)" by auto
  then obtain sl' where "applyEntry envs e sl = Return sl'"
    using apply_requests_Panic [of envs 0 e "entry_requests e"] applyEntry_requests [OF assms(2)]
    by (metis go.exhaust)
  moreover from this have "sl' = fold (\<lambda>(env, r). apply_request env e r)
      (zip (map envs [0..<length batch]) (map proto_of batch)) (sl\<lparr>sl_commitIndex := en_Index e\<rparr>)"
    using apply_requests_fold [of envs 0 e "entry_requests e"] applyEntry_requests [OF assms(2)] rs
    by (simp add: o_def)
  ultimately show ?thesis by simp
qed

text \<open>C20: an abort does nothing. The entry \<open>HandleAbort\<close> proposes decodes as a batch without
  requests: when it is committed, the dependency map, the commit channel and the counter stay
  as they are, so the writes of the aborted transaction remain dependencies of later ones.\<close>

theorem abort_entry_ignored:
  assumes "en_Data e = Text (HandleAbort now txID)"
  shows "applyEntry envs e sl = Return (sl\<lparr>sl_commitIndex := en_Index e\<rparr>)"
  using assms by (simp add: applyEntry_def HandleAbort_def Abort_Marshal_def Let_def)

text \<open>Applying committed entries panics exactly when an entry that decodes has a null among
  its requests.\<close>

theorem apply_committed_panics:
  "apply_committed envs n es sl = Panic \<longleftrightarrow> (\<exists>e \<in> set es. None \<in> set (entry_requests e))"
  by (auto simp: apply_committed_Panic)

section \<open>A log of two requests\<close>

definition env_of :: "time \<Rightarrow> PrepareRequestProto \<Rightarrow> req_env" where
  "env_of now r = \<lparr>re_now = now, re_lead = 1, re_reads = sorted_list_of_fset (fmdom (pp_ReadSet r)),
     re_checks = sorted_list_of_fset (fmdom (pp_WriteSet r)), re_updates = sorted_list_of_fset (fmdom (pp_WriteSet r)),
     re_taken = 0\<rparr>"

definition envs_of :: "time \<Rightarrow> Entry list \<Rightarrow> nat \<Rightarrow> nat \<Rightarrow> req_env" where
  "envs_of now es n i = env_of now (the (entry_requests (es ! n) ! i))"

lemma envs_of_ok: "envs_ok (envs_of now es) 0 es"
  by (simp add: envs_ok_def envs_of_def env_of_def env_ok_def reads_of_def writes_of_def fmdom'_alt_def)

definition put_req :: PrepareRequest where
  "put_req = \<lparr>pr_TxID = ''t1'', pr_ShardID = ''cc'', pr_ReadSet = fmempty,
     pr_WriteSet = fmupd ''k'' (Some ''1'') fmempty, pr_Timestamp = 5000000000\<rparr>"

definition copy_req :: PrepareRequest where
  "copy_req = \<lparr>pr_TxID = ''t2'', pr_ShardID = ''cc'', pr_ReadSet = fmupd ''k'' (Some ''1'') fmempty,
     pr_WriteSet = fmupd ''m'' (Some ''1'') fmempty, pr_Timestamp = 6000000000\<rparr>"

definition batch_entry :: "u64 \<Rightarrow> PrepareRequest list \<Rightarrow> Entry" where
  "batch_entry i batch = \<lparr>en_Type = EntryNormal, en_Index = i, en_Term = 1, en_Data = Text (serializeBatch batch)\<rparr>"

definition two_entries :: "Entry list" where
  "two_entries = [batch_entry 2 [put_req], batch_entry 3 [copy_req]]"

definition new_leader :: ShardLeader where
  "new_leader = \<lparr>sl_shardID = ''cc'', sl_peers = [1, 2, 3], sl_commitIndex = 0, sl_variableMap = Map.empty,
     sl_batchQueue = [], sl_batchTimeout = DefaultBatchTimeout, sl_maxBatchSize = DefaultBatchMaxSize,
     sl_lastBatchTime = 0, sl_proposeC = [], sl_commitC = [], sl_requestsHandled = 0, sl_stopped = False\<rparr>"

lemma req_times: "int64 (unix_seconds (pr_Timestamp put_req))" "int64 (unix_seconds (pr_Timestamp copy_req))"
  by (simp_all add: int64_def unix_seconds_def put_req_def copy_req_def)

lemma two_entries_requests:
  "entry_requests (batch_entry 2 [put_req]) = [Some (proto_of put_req)]"
  "entry_requests (batch_entry 3 [copy_req]) = [Some (proto_of copy_req)]"
  using serializeBatch_roundtrip [of "[put_req]"] serializeBatch_roundtrip [of "[copy_req]"] req_times
  by (simp_all add: entry_requests_def batch_entry_def)

lemma two_entries_log: "log_requests two_entries = [proto_of put_req, proto_of copy_req]"
  by (simp add: log_requests_def two_entries_def two_entries_requests)

lemma two_entries_runs: "\<exists>sl'. apply_committed envs 0 two_entries new_leader = Return sl'"
proof -
  have "apply_committed envs 0 two_entries new_leader \<noteq> Panic"
    unfolding apply_committed_Panic by (simp add: two_entries_def two_entries_requests)
  then show ?thesis by (cases "apply_committed envs 0 two_entries new_leader") auto
qed

theorem apply_committed_last_writer_witness:
  "\<exists>sl'. apply_committed (envs_of 0 two_entries) 0 two_entries new_leader = Return sl' \<and>
     view (sl_variableMap sl') ''k'' = Some (''t1'', Some ''1'', False) \<and>
     view (sl_variableMap sl') ''m'' = Some (''t2'', Some ''1'', True) \<and>
     view (sl_variableMap sl') ''z'' = None"
proof -
  obtain sl' where sl': "apply_committed (envs_of 0 two_entries) 0 two_entries new_leader = Return sl'"
    using two_entries_runs by blast
  have "view (sl_variableMap sl') = log_view [proto_of put_req, proto_of copy_req]"
    using apply_committed_last_writer [OF sl' envs_of_ok] two_entries_log by (simp add: new_leader_def)
  moreover have "log_view [proto_of put_req, proto_of copy_req] ''k'' = Some (''t1'', Some ''1'', False)"
    "log_view [proto_of put_req, proto_of copy_req] ''m'' = Some (''t2'', Some ''1'', True)"
    "log_view [proto_of put_req, proto_of copy_req] ''z'' = None"
    by (simp_all add: log_view_def last_writer_def depends_def reads_of_def writes_of_def proto_of_def
        put_req_def copy_req_def upt_rec less_Suc_eq_0_disj)
  ultimately show ?thesis using sl' by (intro exI [of _ sl']) (simp del: view_None)
qed

theorem replicas_agree_witness:
  "\<exists>a b. apply_committed (envs_of 0 two_entries) 0 two_entries new_leader = Return a \<and>
     apply_committed (envs_of 99 two_entries) 0 two_entries new_leader = Return b \<and>
     view (sl_variableMap a) = view (sl_variableMap b)"
proof -
  obtain a b where ab: "apply_committed (envs_of 0 two_entries) 0 two_entries new_leader = Return a"
    "apply_committed (envs_of 99 two_entries) 0 two_entries new_leader = Return b"
    using two_entries_runs by blast
  then show ?thesis using replicas_agree [OF refl ab(1) envs_of_ok ab(2) envs_of_ok] by blast
qed

theorem flow_conserves_requests_witness:
  "\<exists>s. (flow_step 1)\<^sup>*\<^sup>* flow_start s \<and> fl_taken s = [[put_req]] \<and> fl_submitted s = [put_req] \<and>
     concat (fl_taken s) @ fl_queue s @ fl_proposeC s = fl_submitted s"
proof -
  let ?s1 = "flow_start\<lparr>fl_proposeC := [put_req], fl_submitted := [put_req]\<rparr>"
  let ?s2 = "?s1\<lparr>fl_proposeC := [], fl_queue := [put_req], fl_raft := Flushing\<rparr>"
  let ?s3 = "?s2\<lparr>fl_queue := [], fl_raft := Proposing [put_req], fl_taken := [[put_req]]\<rparr>"
  have "flow_step 1 flow_start ?s1"
    using flow_step.submit [of flow_start 1 put_req] by (simp add: flow_start_def chan_capacity_def)
  moreover have "flow_step 1 ?s1 ?s2"
    using flow_step.receive [of ?s1 put_req "[]" 1] by (simp add: flow_start_def shouldFlush_def)
  moreover have "flow_step 1 ?s2 ?s3"
    using flow_step.take_raft [of ?s2 "Proposing [put_req]" "[[put_req]]" 1]
    by (simp add: flow_start_def flush_take_def)
  ultimately have r: "(flow_step 1)\<^sup>*\<^sup>* flow_start ?s3"
    by (blast intro: converse_rtranclp_into_rtranclp)
  then show ?thesis using flow_conserves_requests [OF r] by (intro exI [of _ ?s3]) (simp add: flow_start_def)
qed

theorem batch_entry_applied_witness:
  "\<exists>sl'. applyEntry (\<lambda>_. env_of 0 (proto_of put_req)) (batch_entry 2 [put_req]) new_leader = Return sl' \<and>
     sl_commitIndex sl' = 2 \<and> sl_requestsHandled sl' = 1"
  using batch_entry_applied [of "[put_req]" "batch_entry 2 [put_req]" "\<lambda>_. env_of 0 (proto_of put_req)" new_leader] req_times
  by (simp add: batch_entry_def fold_apply_frame new_leader_def)

theorem abort_entry_ignored_witness:
  "applyEntry (\<lambda>_. env_of 0 (proto_of put_req))
     \<lparr>en_Type = EntryNormal, en_Index = 4, en_Term = 1, en_Data = Text (HandleAbort 7000000000 ''t1'')\<rparr> new_leader =
   Return (new_leader\<lparr>sl_commitIndex := 4\<rparr>)"
  by (subst abort_entry_ignored) simp_all

end
