(* ===== verification/Circuit_Breaker.thy ===== *)
theory Circuit_Breaker
  imports Prelude
begin

text \<open>
  The circuit breaker of the leader connection (\<^verbatim>\<open>core/endorser/circuit_breaker.go\<close>).
  \<open>Execute\<close> is composed of the sections the code runs under the lock; the operation between
  them runs without it, so calls overlap.  \<open>Execute\<close> models one call on its own and \<open>cb_step\<close>
  the interleavings of any number of calls.
\<close>

datatype CircuitState = CircuitClosed | CircuitOpen | CircuitHalfOpen

record CircuitBreakerConfig =
  cfg_Threshold :: int
  cfg_Timeout :: duration
  cfg_MaxRetries :: int
  cfg_RetryInterval :: duration

definition DefaultCircuitBreakerConfig :: CircuitBreakerConfig where
  "DefaultCircuitBreakerConfig = \<lparr>cfg_Threshold = 5, cfg_Timeout = 30 * 1000000000, cfg_MaxRetries = 3,
     cfg_RetryInterval = 5 * 1000000000\<rparr>"

record breaker_metrics =
  bm_Open :: nat
  bm_HalfOpen :: nat
  bm_Closed :: nat

record CircuitBreaker =
  cb_failures :: int
  cb_lastFailureTime :: time
  cb_config :: CircuitBreakerConfig
  cb_state :: CircuitState
  cb_metrics :: "breaker_metrics option"
  cb_retryCount :: int

text \<open>The zero value of \<open>lastFailureTime\<close> lies before every time the clock shows.\<close>

definition NewCircuitBreaker :: "time \<Rightarrow> CircuitBreakerConfig \<Rightarrow> breaker_metrics option \<Rightarrow> CircuitBreaker" where
  "NewCircuitBreaker zeroTime config metrics = \<lparr>cb_failures = 0, cb_lastFailureTime = zeroTime, cb_config = config,
     cb_state = CircuitClosed, cb_metrics = metrics, cb_retryCount = 0\<rparr>"

section \<open>The sections of Execute\<close>

definition count_open :: "CircuitBreaker \<Rightarrow> CircuitBreaker" where
  "count_open cb = cb\<lparr>cb_metrics := map_option (\<lambda>m. m\<lparr>bm_Open := bm_Open m + 1\<rparr>) (cb_metrics cb)\<rparr>"

definition count_half :: "CircuitBreaker \<Rightarrow> CircuitBreaker" where
  "count_half cb = cb\<lparr>cb_metrics := map_option (\<lambda>m. m\<lparr>bm_HalfOpen := bm_HalfOpen m + 1\<rparr>) (cb_metrics cb)\<rparr>"

definition count_closed :: "CircuitBreaker \<Rightarrow> CircuitBreaker" where
  "count_closed cb = cb\<lparr>cb_metrics := map_option (\<lambda>m. m\<lparr>bm_Closed := bm_Closed m + 1\<rparr>) (cb_metrics cb)\<rparr>"

datatype admission = Reject | Probe | Pass

text \<open>Under the read lock: what the call does next.\<close>

definition admit :: "time \<Rightarrow> CircuitBreaker \<Rightarrow> admission" where
  "admit now cb =
     (if cb_state cb = CircuitOpen
      then (if now - cb_lastFailureTime cb < cfg_Timeout (cb_config cb) then Reject else Probe)
      else Pass)"

definition enter_half :: "CircuitBreaker \<Rightarrow> CircuitBreaker" where
  "enter_half cb = count_half (cb\<lparr>cb_state := CircuitHalfOpen, cb_retryCount := 0\<rparr>)"

definition on_failure :: "time \<Rightarrow> CircuitBreaker \<Rightarrow> CircuitBreaker" where
  "on_failure now cb =
     (let cb1 = cb\<lparr>cb_failures := cb_failures cb + 1\<rparr>
      in if cb_state cb1 = CircuitHalfOpen
         then count_open (cb1\<lparr>cb_state := CircuitOpen, cb_lastFailureTime := now\<rparr>)
         else if cb_failures cb1 \<ge> cfg_Threshold (cb_config cb1)
         then count_open (cb1\<lparr>cb_state := CircuitOpen, cb_lastFailureTime := now\<rparr>)
         else cb1)"

definition on_success :: "CircuitBreaker \<Rightarrow> CircuitBreaker" where
  "on_success cb = count_closed (cb\<lparr>cb_failures := 0, cb_state := CircuitClosed\<rparr>)"

text \<open>One call on its own; the operation maps its own state to an error, if any, and a new state.\<close>

definition Execute ::
    "time \<Rightarrow> time \<Rightarrow> ('s \<Rightarrow> string option \<times> 's) \<Rightarrow> 's \<Rightarrow> CircuitBreaker \<Rightarrow> string option \<times> 's \<times> CircuitBreaker" where
  "Execute now nowFail operation s cb =
     (case admit now cb of
        Reject \<Rightarrow> (Some ''circuit breaker is open'', s, count_open cb)
      | adm \<Rightarrow>
          (let cb1 = (if adm = Probe then enter_half cb else cb);
               (err, s') = operation s
           in case err of
                Some e \<Rightarrow> (Some e, s', on_failure nowFail cb1)
              | None \<Rightarrow> (None, s', on_success cb1)))"

definition GetState :: "CircuitBreaker \<Rightarrow> CircuitState" where
  "GetState cb = cb_state cb"

section \<open>Overlapping calls\<close>

text \<open>
  \<open>bs_probing\<close> counts the calls between the read lock and the write lock that sets the state to
  half open, \<open>bs_running\<close> those inside the operation; the clock does not run backwards.
\<close>

record breakers =
  bs_cb :: CircuitBreaker
  bs_probing :: nat
  bs_running :: nat
  bs_now :: time

inductive cb_step :: "breakers \<Rightarrow> breakers \<Rightarrow> bool" where
  tick: "bs_now s \<le> t \<Longrightarrow> cb_step s (s\<lparr>bs_now := t\<rparr>)"
| reject: "admit (bs_now s) (bs_cb s) = Reject \<Longrightarrow> cb_step s (s\<lparr>bs_cb := count_open (bs_cb s)\<rparr>)"
| probe: "admit (bs_now s) (bs_cb s) = Probe \<Longrightarrow> cb_step s (s\<lparr>bs_probing := Suc (bs_probing s)\<rparr>)"
| half: "bs_probing s = Suc n \<Longrightarrow>
    cb_step s (s\<lparr>bs_cb := enter_half (bs_cb s), bs_probing := n, bs_running := Suc (bs_running s)\<rparr>)"
| pass: "admit (bs_now s) (bs_cb s) = Pass \<Longrightarrow> cb_step s (s\<lparr>bs_running := Suc (bs_running s)\<rparr>)"
| failed: "bs_running s = Suc n \<Longrightarrow>
    cb_step s (s\<lparr>bs_cb := on_failure (bs_now s) (bs_cb s), bs_running := n\<rparr>)"
| succeeded: "bs_running s = Suc n \<Longrightarrow>
    cb_step s (s\<lparr>bs_cb := on_success (bs_cb s), bs_running := n\<rparr>)"

definition breakers_start :: "time \<Rightarrow> CircuitBreaker \<Rightarrow> breakers" where
  "breakers_start now cb = \<lparr>bs_cb = cb, bs_probing = 0, bs_running = 0, bs_now = now\<rparr>"

section \<open>Counters do not matter\<close>

lemma count_frame [simp]:
  "cb_failures (count_open cb) = cb_failures cb" "cb_state (count_open cb) = cb_state cb"
  "cb_config (count_open cb) = cb_config cb" "cb_lastFailureTime (count_open cb) = cb_lastFailureTime cb"
  "cb_failures (count_half cb) = cb_failures cb" "cb_state (count_half cb) = cb_state cb"
  "cb_config (count_half cb) = cb_config cb" "cb_lastFailureTime (count_half cb) = cb_lastFailureTime cb"
  "cb_failures (count_closed cb) = cb_failures cb" "cb_state (count_closed cb) = cb_state cb"
  "cb_config (count_closed cb) = cb_config cb" "cb_lastFailureTime (count_closed cb) = cb_lastFailureTime cb"
  by (simp_all add: count_open_def count_half_def count_closed_def)

lemma section_frame [simp]:
  "cb_config (enter_half cb) = cb_config cb" "cb_config (on_failure t cb) = cb_config cb"
  "cb_config (on_success cb) = cb_config cb" "cb_failures (on_failure t cb) = cb_failures cb + 1"
  "cb_failures (enter_half cb) = cb_failures cb" "cb_state (enter_half cb) = CircuitHalfOpen"
  "cb_failures (on_success cb) = 0" "cb_state (on_success cb) = CircuitClosed"
  by (simp_all add: enter_half_def on_failure_def on_success_def Let_def)

lemma on_failure_state:
  "cb_state (on_failure t cb) =
     (if cb_state cb = CircuitHalfOpen \<or> cfg_Threshold (cb_config cb) \<le> cb_failures cb + 1 then CircuitOpen
      else cb_state cb)"
  by (simp add: on_failure_def Let_def)

lemma on_failure_time:
  "cb_lastFailureTime (on_failure t cb) =
     (if cb_state cb = CircuitHalfOpen \<or> cfg_Threshold (cb_config cb) \<le> cb_failures cb + 1 then t
      else cb_lastFailureTime cb)"
  by (simp add: on_failure_def Let_def)

section \<open>The invariant\<close>

definition breakers_inv :: "breakers \<Rightarrow> bool" where
  "breakers_inv s \<longleftrightarrow>
     0 < cfg_Threshold (cb_config (bs_cb s)) \<and> 0 \<le> cb_failures (bs_cb s) \<and>
     (cb_state (bs_cb s) = CircuitClosed \<longrightarrow> cb_failures (bs_cb s) < cfg_Threshold (cb_config (bs_cb s))) \<and>
     cb_lastFailureTime (bs_cb s) \<le> bs_now s"

lemma cb_step_inv: "cb_step s s' \<Longrightarrow> breakers_inv s \<Longrightarrow> breakers_inv s'"
  by (induction rule: cb_step.induct)
    (auto simp: breakers_inv_def on_failure_state on_failure_time enter_half_def on_success_def)

lemma breakers_run_inv: "cb_step\<^sup>*\<^sup>* s s' \<Longrightarrow> breakers_inv s \<Longrightarrow> breakers_inv s'"
  by (induction rule: rtranclp_induct) (auto intro: cb_step_inv)

section \<open>A run of failing calls\<close>

fun failing_calls :: "(time \<times> time \<times> string) list \<Rightarrow> CircuitBreaker \<Rightarrow> CircuitBreaker" where
  "failing_calls [] cb = cb"
| "failing_calls ((now, nowFail, e) # cs) cb =
     failing_calls cs (snd (snd (Execute now nowFail (\<lambda>s. (Some e, s)) () cb)))"

lemma Execute_fail_closed:
  "cb_state cb = CircuitClosed \<Longrightarrow>
     Execute now nowFail (\<lambda>s. (Some e, s)) () cb = (Some e, (), on_failure nowFail cb)"
  by (simp add: Execute_def admit_def Let_def)

lemma failing_calls_closed:
  assumes "cb_state cb = CircuitClosed" "cb_failures cb + int (length cs) \<le> cfg_Threshold (cb_config cb)" "cs \<noteq> []"
  shows "cb_failures (failing_calls cs cb) = cb_failures cb + int (length cs) \<and>
    cb_config (failing_calls cs cb) = cb_config cb \<and>
    cb_state (failing_calls cs cb) =
      (if cb_failures cb + int (length cs) = cfg_Threshold (cb_config cb) then CircuitOpen else CircuitClosed) \<and>
    (cb_state (failing_calls cs cb) = CircuitOpen \<longrightarrow>
       cb_lastFailureTime (failing_calls cs cb) = fst (snd (last cs)))"
  using assms
proof (induction cs arbitrary: cb)
  case (Cons c cs)
  obtain now nowFail e where c: "c = (now, nowFail, e)" by (cases c) auto
  let ?cb = "on_failure nowFail cb"
  have step: "failing_calls (c # cs) cb = failing_calls cs ?cb"
    using Cons.prems(1) c by (simp add: Execute_fail_closed)
  show ?case
  proof (cases "cs = []")
    case True
    then show ?thesis using step Cons.prems c by (simp add: on_failure_state on_failure_time)
  next
    case False
    then have "cb_failures cb + 1 < cfg_Threshold (cb_config cb)" using Cons.prems(2) by (cases cs) auto
    then have "cb_state ?cb = CircuitClosed" using Cons.prems(1) by (simp add: on_failure_state)
    then show ?thesis using Cons.IH [of ?cb] Cons.prems(2) False step by (simp add: algebra_simps)
  qed
qed simp

section \<open>Properties\<close>

text \<open>C30: tripping. A closed breaker stays closed through fewer failing calls than its threshold
  allows, opens exactly at the call that reaches it, and then rejects every call before the
  timeout has passed since that call, without running the operation; the first call after
  the timeout runs it, and closes the breaker if it succeeds or opens it again if it fails.\<close>

theorem breaker_trips:
  assumes "cb_state cb = CircuitClosed" "cs \<noteq> []"
    and "cb_failures cb + int (length cs) \<le> cfg_Threshold (cb_config cb)"
  shows "let cb' = failing_calls cs cb; opened = fst (snd (last cs)) in
    (GetState cb' = CircuitOpen \<longleftrightarrow> cb_failures cb + int (length cs) = cfg_Threshold (cb_config cb)) \<and>
    (GetState cb' = CircuitOpen \<longrightarrow>
      (\<forall>now nowFail. now - opened < cfg_Timeout (cb_config cb) \<longrightarrow>
         (\<forall>op s. Execute now nowFail op s cb' = (Some ''circuit breaker is open'', s, count_open cb'))) \<and>
      (\<forall>now nowFail. cfg_Timeout (cb_config cb) \<le> now - opened \<longrightarrow>
         GetState (snd (snd (Execute now nowFail (\<lambda>s. (None, s)) () cb'))) = CircuitClosed \<and>
         (\<forall>e. GetState (snd (snd (Execute now nowFail (\<lambda>s. (Some e, s)) () cb'))) = CircuitOpen)))"
  using failing_calls_closed [OF assms(1,3,2)]
  by (auto simp: Let_def GetState_def Execute_def admit_def on_failure_state)


theorem breaker_trips_witness:
  "let cb = NewCircuitBreaker 0 (DefaultCircuitBreakerConfig\<lparr>cfg_Threshold := 2\<rparr>) None;
       cb' = failing_calls [(10, 11, ''down''), (20, 21, ''down'')] cb in
   GetState cb' = CircuitOpen \<and>
   Execute 22 23 (\<lambda>s. (None, s)) () cb' = (Some ''circuit breaker is open'', (), count_open cb') \<and>
   GetState (snd (snd (Execute 30000000022 30000000023 (\<lambda>s. (None, s)) () cb'))) = CircuitClosed"
proof -
  let ?cb = "NewCircuitBreaker 0 (DefaultCircuitBreakerConfig\<lparr>cfg_Threshold := 2\<rparr>) None"
  show ?thesis
    using breaker_trips [where ?'a = unit, of ?cb "[(10, 11, ''down''), (20, 21, ''down'')]"]
    by (simp add: NewCircuitBreaker_def DefaultCircuitBreakerConfig_def Let_def del: failing_calls.simps)
qed


end
