(* ===== verification/Leader_Endorser.thy ===== *)
theory Leader_Endorser
  imports Proposal Shard_Leader Dep_Info Circuit_Breaker
begin

text \<open>
  The leader endorser (\<^verbatim>\<open>core/endorser/transaction_processor.go\<close>) and the health checks of an
  endorser (\<^verbatim>\<open>core/endorser/endorser.go\<close>, \<^verbatim>\<open>health_check.go\<close>): the expiring map of dependencies,
  the transactions that pass from one channel to another, and the connection to the leader
  behind its circuit breaker.  Random UUIDs, the clock and the outcome of dialling are
  arguments.
\<close>

type_synonym variable_map = "string \<rightharpoonup> TransactionDependencyInfo"

section \<open>Cleaning up\<close>

text \<open>A tick collects the expired keys under the read lock and deletes them under the write lock.\<close>

definition cleanup_mark :: "time \<Rightarrow> string list \<Rightarrow> variable_map \<Rightarrow> string list" where
  "cleanup_mark now order vm =
     filter (\<lambda>key. case vm key of Some info \<Rightarrow> now > tdi_ExpiryTime info | None \<Rightarrow> False) order"

definition cleanup_delete :: "string list \<Rightarrow> variable_map \<Rightarrow> variable_map" where
  "cleanup_delete entriesToRemove vm = fold (\<lambda>key m. m(key := None)) entriesToRemove vm"

definition cleanupExpiredDependencies :: "time \<Rightarrow> string list \<Rightarrow> variable_map \<Rightarrow> variable_map" where
  "cleanupExpiredDependencies now order vm = cleanup_delete (cleanup_mark now order vm) vm"

section \<open>Processing\<close>

record DependencyInfo =
  di_Value :: "bytes option"
  di_DependentTxID :: string
  di_HasDependency :: bool

definition note_read :: "variable_map \<Rightarrow> KVRead \<Rightarrow> DependencyInfo \<Rightarrow> DependencyInfo" where
  "note_read vm read depInfo =
     (case vm (kr_Key read) of
        Some info \<Rightarrow> depInfo\<lparr>di_HasDependency := True, di_DependentTxID := tdi_DependentTxID info, di_Value := tdi_Value info\<rparr>
      | None \<Rightarrow> depInfo)"

definition extractDependencyInfo ::
    "codec \<Rightarrow> variable_map \<Rightarrow> 'p ProposalResponse \<Rightarrow> unmarshal_error + DependencyInfo" where
  "extractDependencyInfo cd vm tx =
     (case un_ChaincodeAction cd (case rsp_Payload tx of None \<Rightarrow> [] | Some b \<Rightarrow> b) of
        None \<Rightarrow> Inl (ErrUnmarshal ''ChaincodeAction'')
      | Some chaincodeAction \<Rightarrow>
          (case un_KVRWSet cd (case ca_Results chaincodeAction of None \<Rightarrow> [] | Some b \<Rightarrow> b) of
             None \<Rightarrow> Inl (ErrUnmarshal ''KVRWSet'')
           | Some rwSet \<Rightarrow>
               Inr (fold (note_read vm) (rw_Reads rwSet)
                      \<lparr>di_Value = None, di_DependentTxID = [], di_HasDependency = False\<rparr>)))"

text \<open>The surroundings of one transaction: the UUID drawn and the two readings of the clock.\<close>

record tx_env =
  te_uuid :: string
  te_now :: time
  te_now2 :: time

definition processTransaction ::
    "codec \<Rightarrow> duration \<Rightarrow> tx_env \<Rightarrow> 'p ProposalResponse \<Rightarrow> variable_map \<Rightarrow>
     ((unmarshal_error + 'p ProposalResponse) \<times> variable_map) go" where
  "processTransaction cd expiry env tx vm =
     (case extractDependencyInfo cd vm tx of
        Inl err \<Rightarrow> Return (Inl err, vm)
      | Inr depInfo \<Rightarrow>
          (let vm' = vm(te_uuid env \<mapsto> \<lparr>tdi_Value = di_Value depInfo, tdi_DependentTxID = di_DependentTxID depInfo,
                 tdi_ExpiryTime = te_now env + expiry, tdi_HasDependency = di_HasDependency depInfo\<rparr>)
           in case rsp_Response tx of
                None \<Rightarrow> Panic
              | Some response \<Rightarrow>
                  Return (Inr (tx\<lparr>rsp_Response := Some (response\<lparr>resp_Message :=
                    leader_message (di_HasDependency depInfo) (di_DependentTxID depInfo)
                      (unix_seconds (te_now2 env + expiry))\<rparr>)\<rparr>), vm')))"

text \<open>The loop from the transaction channel to the response channel: errors are dropped.\<close>

fun processTransactions ::
    "codec \<Rightarrow> duration \<Rightarrow> (tx_env \<times> 'p ProposalResponse) list \<Rightarrow> variable_map \<Rightarrow>
     ('p ProposalResponse list \<times> variable_map) go" where
  "processTransactions cd expiry [] vm = Return ([], vm)"
| "processTransactions cd expiry ((env, tx) # txs) vm =
     go_bind (processTransaction cd expiry env tx vm)
       (\<lambda>(r, vm'). go_bind (processTransactions cd expiry txs vm')
          (\<lambda>(out, vm''). Return (case r of Inl _ \<Rightarrow> out | Inr tx' \<Rightarrow> tx' # out, vm'')))"

section \<open>Health\<close>

datatype EndorserRole = NormalEndorser | LeaderEndorser

record HealthStatus =
  hs_IsHealthy :: bool
  hs_LastCheckTime :: time
  hs_dependencyMapSize :: nat
  hs_leaderConnectivity :: "string option"
  hs_channels :: string

record leader_link =
  ll_LastLeaderCheck :: time
  ll_LeaderCheckError :: "string option"
  ll_LeaderCircuitBreaker :: "CircuitBreaker option"

text \<open>One check: the clock at its start, when a failure is recorded and when the connection is up.\<close>

record check_env =
  ce_now :: time
  ce_nowFail :: time
  ce_nowDone :: time
  ce_dial :: "string option"

definition dial_leader :: "check_env \<Rightarrow> time \<Rightarrow> string option \<times> time" where
  "dial_leader env lastCheck =
     (case ce_dial env of
        Some err \<Rightarrow> (Some (''failed to connect to leader: '' @ err), lastCheck)
      | None \<Rightarrow> (None, ce_nowDone env))"

definition checkLeaderConnectivity :: "check_env \<Rightarrow> leader_link \<Rightarrow> string option \<times> leader_link" where
  "checkLeaderConnectivity env ll =
     (if ce_now env - ll_LastLeaderCheck ll < 30 * 1000000000 then (ll_LeaderCheckError ll, ll)
      else (case ll_LeaderCircuitBreaker ll of
              None \<Rightarrow> (None, ll)
            | Some cb \<Rightarrow>
                (let (err, lastCheck, cb') =
                       Execute (ce_now env) (ce_nowFail env) (dial_leader env) (ll_LastLeaderCheck ll) cb
                 in (err, ll\<lparr>ll_LastLeaderCheck := lastCheck, ll_LeaderCircuitBreaker := Some cb'\<rparr>))))"

definition performHealthCheck ::
    "time \<Rightarrow> check_env \<Rightarrow> EndorserRole \<Rightarrow> nat \<Rightarrow> bool \<Rightarrow> leader_link \<Rightarrow> HealthStatus \<times> leader_link" where
  "performHealthCheck now env role mapSize channels ll =
     (let status = \<lparr>hs_IsHealthy = True, hs_LastCheckTime = now, hs_dependencyMapSize = mapSize,
            hs_leaderConnectivity = None, hs_channels = []\<rparr>;
          (status1, ll1) =
            (if role = NormalEndorser
             then (case checkLeaderConnectivity env ll of
                     (Some err, ll') \<Rightarrow>
                       (status\<lparr>hs_IsHealthy := False, hs_leaderConnectivity := Some err\<rparr>,
                        ll'\<lparr>ll_LeaderCheckError := Some err\<rparr>)
                   | (None, ll') \<Rightarrow>
                       (status\<lparr>hs_leaderConnectivity := Some ''ok''\<rparr>, ll'\<lparr>ll_LeaderCheckError := None\<rparr>))
             else (status, ll))
      in (if channels then status1\<lparr>hs_channels := ''ok''\<rparr>
          else status1\<lparr>hs_IsHealthy := False, hs_channels := ''transaction channels not initialized''\<rparr>, ll1))"

section \<open>Lemmas\<close>

lemma cleanup_delete_lookup: "cleanup_delete ks vm k = (if k \<in> set ks then None else vm k)"
  unfolding cleanup_delete_def by (induction ks arbitrary: vm) auto

lemma note_read_miss: "vm (kr_Key r) = None \<Longrightarrow> note_read vm r d = d"
  by (simp add: note_read_def)

lemma extract_miss:
  assumes "extractDependencyInfo cd vm tx = Inr d"
    and "\<And>a rw r. un_ChaincodeAction cd (case rsp_Payload tx of None \<Rightarrow> [] | Some b \<Rightarrow> b) = Some a \<Longrightarrow>
      un_KVRWSet cd (case ca_Results a of None \<Rightarrow> [] | Some b \<Rightarrow> b) = Some rw \<Longrightarrow>
      r \<in> set (rw_Reads rw) \<Longrightarrow> vm (kr_Key r) = None"
  shows "d = \<lparr>di_Value = None, di_DependentTxID = [], di_HasDependency = False\<rparr>"
proof -
  have "fold (note_read vm) rs d0 = d0" if "\<And>r. r \<in> set rs \<Longrightarrow> vm (kr_Key r) = None" for rs d0
    using that by (induction rs) (simp_all add: note_read_miss)
  then show ?thesis using assms
    by (auto simp: extractDependencyInfo_def split: option.split_asm)
qed

text \<open>The keys a transaction reads, as the leader decodes them.\<close>

definition leader_reads :: "codec \<Rightarrow> 'p ProposalResponse \<Rightarrow> string set" where
  "leader_reads cd tx =
     {kr_Key r |a rw r. un_ChaincodeAction cd (case rsp_Payload tx of None \<Rightarrow> [] | Some b \<Rightarrow> b) = Some a \<and>
        un_KVRWSet cd (case ca_Results a of None \<Rightarrow> [] | Some b \<Rightarrow> b) = Some rw \<and> r \<in> set (rw_Reads rw)}"

lemma processTransaction_miss:
  assumes "processTransaction cd expiry env tx vm = Return (Inr tx', vm')" "leader_reads cd tx \<inter> dom vm = {}"
  shows "dom vm' = insert (te_uuid env) (dom vm) \<and>
    (\<exists>resp n. rsp_Response tx' = Some resp \<and> resp_Message resp = leader_message False [] n)"
proof -
  obtain d where d: "extractDependencyInfo cd vm tx = Inr d"
    using assms(1) by (auto simp: processTransaction_def split: sum.splits)
  have "d = \<lparr>di_Value = None, di_DependentTxID = [], di_HasDependency = False\<rparr>"
    by (rule extract_miss [OF d]) (use assms(2) in \<open>auto simp: leader_reads_def\<close>)
  then show ?thesis using assms(1) d
    by (auto simp: processTransaction_def Let_def split: option.split_asm)
qed

lemma processTransaction_dom:
  "processTransaction cd expiry env tx vm = Return (r, vm') \<Longrightarrow> dom vm' \<subseteq> insert (te_uuid env) (dom vm)"
  by (auto simp: processTransaction_def Let_def split: sum.split_asm option.split_asm)

lemma processTransactions_miss:
  assumes "processTransactions cd expiry txs vm = Return (out, vm')"
    and "\<And>env tx. (env, tx) \<in> set txs \<Longrightarrow> leader_reads cd tx \<inter> (dom vm \<union> te_uuid ` fst ` set txs) = {}"
  shows "\<forall>tx' \<in> set out. \<exists>resp n. rsp_Response tx' = Some resp \<and> resp_Message resp = leader_message False [] n"
  using assms
proof (induction cd expiry txs vm arbitrary: out rule: processTransactions.induct)
  case (2 cd expiry env tx txs vm)
  obtain r vm1 out1 where r: "processTransaction cd expiry env tx vm = Return (r, vm1)"
    "processTransactions cd expiry txs vm1 = Return (out1, vm')" "out = (case r of Inl _ \<Rightarrow> out1 | Inr t \<Rightarrow> t # out1)"
    using "2.prems"(1) by (auto simp: go_bind_Return_iff)
  have "leader_reads cd tx2 \<inter> (dom vm1 \<union> te_uuid ` fst ` set txs) = {}" if "(env2, tx2) \<in> set txs" for env2 tx2
  proof -
    have "leader_reads cd tx2 \<inter> (dom vm \<union> insert (te_uuid env) (te_uuid ` fst ` set txs)) = {}"
      using "2.prems"(2) [of env2 tx2] that by simp
    then show ?thesis using processTransaction_dom [OF r(1)] by blast
  qed
  then have rest: "\<forall>tx' \<in> set out1. \<exists>resp n. rsp_Response tx' = Some resp \<and> resp_Message resp = leader_message False [] n"
    using "2.IH" [OF r(2)] by blast
  show ?case
  proof (cases r)
    case (Inr t)
    have "leader_reads cd tx \<inter> dom vm = {}" using "2.prems"(2) [of env tx] by auto
    then show ?thesis using processTransaction_miss [OF r(1) [unfolded Inr]] rest r(3) Inr by auto
  qed (use rest r(3) in simp)
qed simp

section \<open>Properties\<close>

text \<open>Cleaning up removes exactly the entries whose expiry time has passed.\<close>

theorem cleanup_exact:
  assumes "enumerates order vm"
  shows "cleanupExpiredDependencies now order vm k =
    (case vm k of Some info \<Rightarrow> if tdi_ExpiryTime info < now then None else Some info | None \<Rightarrow> None)"
  using assms by (auto simp: cleanupExpiredDependencies_def cleanup_delete_lookup cleanup_mark_def enumerates_def
      split: option.splits)

text \<open>C28: the leader finds no dependencies. It records each transaction under a UUID it has just
  drawn and looks dependencies up by the keys a transaction reads; so, starting from an empty
  map, as long as no transaction reads a key that is one of those UUIDs, every response says
  that there is no dependency, whatever the transactions read and write.\<close>

theorem leader_reports_no_dependency:
  assumes "processTransactions cd expiry txs Map.empty = Return (out, vm')"
    and "\<forall>tx \<in> snd ` set txs. leader_reads cd tx \<inter> te_uuid ` fst ` set txs = {}"
  shows "\<forall>tx' \<in> set out. \<exists>resp n. rsp_Response tx' = Some resp \<and> resp_Message resp = leader_message False [] n"
  by (rule processTransactions_miss [OF assms(1)]) (use assms(2) in force)

section \<open>Examples\<close>

definition expiring :: variable_map where
  "expiring = [''a'' \<mapsto> \<lparr>tdi_Value = None, tdi_DependentTxID = ''t1'', tdi_ExpiryTime = 10, tdi_HasDependency = False\<rparr>,
     ''b'' \<mapsto> \<lparr>tdi_Value = None, tdi_DependentTxID = ''t2'', tdi_ExpiryTime = 30, tdi_HasDependency = False\<rparr>]"

theorem cleanup_exact_witness:
  "cleanupExpiredDependencies 20 [''b'', ''a''] expiring ''a'' = None \<and>
   cleanupExpiredDependencies 20 [''b'', ''a''] expiring ''b'' = expiring ''b''"
proof -
  have "enumerates [''b'', ''a''] expiring" by (auto simp: enumerates_def expiring_def)
  then show ?thesis using cleanup_exact [of "[''b'', ''a'']" expiring 20] by (simp add: expiring_def)
qed

definition read_codec :: codec where
  "read_codec = \<lparr>un_Envelope = (\<lambda>_. None), un_Payload = (\<lambda>_. None), un_ChannelHeader = (\<lambda>_. None),
     un_Transaction = (\<lambda>_. None),
     un_ChaincodeAction = (\<lambda>b. Some \<lparr>ca_Results = Some b, ca_Events = [], ca_Response = None\<rparr>),
     un_TxReadWriteSet = (\<lambda>_. None),
     un_KVRWSet = (\<lambda>b. Some \<lparr>rw_Reads = [\<lparr>kr_Key = b, kr_Version = None\<rparr>], rw_RangeQueriesInfo = [], rw_Writes = [],
        rw_MetadataWrites = []\<rparr>),
     un_HashedRWSet = (\<lambda>_. None)\<rparr>"

definition reading_tx :: "string \<Rightarrow> unit ProposalResponse" where
  "reading_tx k = \<lparr>rsp_Version = 1, rsp_Response = Some \<lparr>resp_Status = 200, resp_Message = [], resp_Payload = []\<rparr>,
     rsp_Payload = Some k, rsp_Endorsement = None, rsp_Interest = None\<rparr>"

definition two_reads :: "(tx_env \<times> unit ProposalResponse) list" where
  "two_reads = [(\<lparr>te_uuid = ''u1'', te_now = 0, te_now2 = 0\<rparr>, reading_tx ''k''),
     (\<lparr>te_uuid = ''u2'', te_now = 1, te_now2 = 1\<rparr>, reading_tx ''k'')]"

theorem leader_reports_no_dependency_witness:
  "\<exists>out vm'. processTransactions read_codec 5 two_reads Map.empty = Return (out, vm') \<and> length out = 2 \<and>
     (\<forall>tx' \<in> set out. \<exists>resp n. rsp_Response tx' = Some resp \<and> resp_Message resp = leader_message False [] n)"
proof -
  have "\<exists>out vm'. processTransactions read_codec 5 two_reads Map.empty = Return (out, vm') \<and> length out = 2"
    by (simp add: two_reads_def processTransaction_def extractDependencyInfo_def read_codec_def reading_tx_def
        note_read_def Let_def)
  then obtain out vm' where o: "processTransactions read_codec 5 two_reads Map.empty = Return (out, vm')" "length out = 2"
    by blast
  have "\<forall>tx \<in> snd ` set two_reads. leader_reads read_codec tx \<inter> te_uuid ` fst ` set two_reads = {}"
    by (auto simp: two_reads_def leader_reads_def read_codec_def reading_tx_def)
  from leader_reports_no_dependency [OF o(1) this] o show ?thesis by blast
qed

end
