(* ===== verification/Endorser_Deps.thy ===== *)
theory Endorser_Deps
  imports Proposal Go_Strings
begin

text \<open>
  What the endorser reads off the results of a simulation
  (\<^verbatim>\<open>core/endorser/utils.go\<close>, \<^verbatim>\<open>metadata.go\<close>, \<^verbatim>\<open>endorser.go\<close>, \<^verbatim>\<open>pvtrwset_assembler.go\<close>): the keys a
  transaction depends on, the chaincodes and collections whose policies it needs, and the
  collection configurations that travel with its private data.  A Go map that is only ranged
  over is a list of its entries in the order of the iteration.
\<close>

record TxSimulationResults =
  sim_Pub :: "NsReadWriteSet list option"
  sim_Pvt :: "NsPvtReadWriteSet list option"
  sim_PrivateReads :: "(string \<times> string list) list"
  sim_WritesetMetadata :: "(string \<times> (string \<times> (string \<times> (string \<rightharpoonup> bytes)) list) list) list"

section \<open>The keys a transaction depends on\<close>

type_synonym dependencies = "string \<rightharpoonup> bytes"

definition version_bytes :: "ProtoVersion option \<Rightarrow> bytes" where
  "version_bytes v =
     (case v of
        Some ver \<Rightarrow> show_nat (unat (pv_BlockNum ver)) @ ''-'' @ show_nat (unat (pv_TxNum ver))
      | None \<Rightarrow> [])"

definition add_write :: "string \<Rightarrow> KVWrite \<Rightarrow> dependencies \<Rightarrow> dependencies" where
  "add_write prefix write deps = deps(prefix @ kw_Key write \<mapsto> kw_Value write)"

definition add_read :: "string \<Rightarrow> KVRead \<Rightarrow> dependencies \<Rightarrow> dependencies" where
  "add_read prefix read deps =
     (case deps (prefix @ kr_Key read) of
        Some _ \<Rightarrow> deps
      | None \<Rightarrow> deps(prefix @ kr_Key read \<mapsto> version_bytes (kr_Version read)))"

definition add_rwset :: "string \<Rightarrow> KVRWSet \<Rightarrow> dependencies \<Rightarrow> dependencies" where
  "add_rwset prefix kvRWSet deps =
     fold (add_read prefix) (rw_Reads kvRWSet) (fold (add_write prefix) (rw_Writes kvRWSet) deps)"

definition add_public :: "codec \<Rightarrow> (string \<Rightarrow> bool) \<Rightarrow> NsReadWriteSet \<Rightarrow> dependencies \<Rightarrow> dependencies" where
  "add_public cd isSysCC nsRWSet deps =
     (if isSysCC (ns_Namespace nsRWSet) then deps
      else (case un_KVRWSet cd (ns_Rwset nsRWSet) of
              None \<Rightarrow> deps
            | Some kvRWSet \<Rightarrow> add_rwset (ns_Namespace nsRWSet @ '':'') kvRWSet deps))"

definition add_collection :: "codec \<Rightarrow> string \<Rightarrow> CollectionPvtReadWriteSet \<Rightarrow> dependencies \<Rightarrow> dependencies" where
  "add_collection cd namespace collection deps =
     (case un_KVRWSet cd (cp_Rwset collection) of
        None \<Rightarrow> deps
      | Some collKVRWSet \<Rightarrow>
          add_rwset (namespace @ '':'' @ cp_CollectionName collection @ '':'') collKVRWSet deps)"

definition add_private :: "codec \<Rightarrow> (string \<Rightarrow> bool) \<Rightarrow> NsPvtReadWriteSet \<Rightarrow> dependencies \<Rightarrow> dependencies" where
  "add_private cd isSysCC pvtRWSet deps =
     (if isSysCC (np_Namespace pvtRWSet) then deps
      else fold (add_collection cd (np_Namespace pvtRWSet)) (np_CollectionPvtRwset pvtRWSet) deps)"

definition extractTransactionDependencies ::
    "codec \<Rightarrow> (string \<Rightarrow> bool) \<Rightarrow> TxSimulationResults \<Rightarrow> dependencies" where
  "extractTransactionDependencies cd isSysCC simResult =
     (let deps = (case sim_Pub simResult of
                    None \<Rightarrow> Map.empty
                  | Some nsRwset \<Rightarrow> fold (add_public cd isSysCC) nsRwset Map.empty)
      in case sim_Pvt simResult of
           None \<Rightarrow> deps
         | Some nsPvtRwset \<Rightarrow> fold (add_private cd isSysCC) nsPvtRwset deps)"

section \<open>The policies a transaction needs\<close>

record 'p metadataPolicies =
  mp_sbePolicies :: "string \<rightharpoonup> 'p list"
  mp_policyRequired :: "string \<rightharpoonup> (string \<rightharpoonup> bool)"

definition sbe_of :: "'p metadataPolicies \<Rightarrow> string \<Rightarrow> 'p list" where
  "sbe_of mp ns = (case mp_sbePolicies mp ns of None \<Rightarrow> [] | Some ps \<Rightarrow> ps)"

definition required_of :: "'p metadataPolicies \<Rightarrow> string \<Rightarrow> (string \<rightharpoonup> bool)" where
  "required_of mp ns = (case mp_policyRequired mp ns of None \<Rightarrow> Map.empty | Some m \<Rightarrow> m)"

abbreviation validation_parameter :: string where
  "validation_parameter \<equiv> ''VALIDATION_PARAMETER''"

definition parse_key ::
    "(bytes \<Rightarrow> 'p option) \<Rightarrow> string \<Rightarrow> string \<Rightarrow> string \<times> (string \<rightharpoonup> bytes) \<Rightarrow> 'p metadataPolicies \<Rightarrow>
     unmarshal_error + 'p metadataPolicies" where
  "parse_key unmarshalPolicy ns coll km mp =
     (case snd km validation_parameter of
        Some policyBytes \<Rightarrow>
          (case unmarshalPolicy policyBytes of
             None \<Rightarrow> Inl (ErrUnmarshal ''SignaturePolicyEnvelope'')
           | Some policy \<Rightarrow> Inr (mp\<lparr>mp_sbePolicies := (mp_sbePolicies mp)(ns \<mapsto> sbe_of mp ns @ [policy])\<rparr>))
      | None \<Rightarrow>
          Inr (mp\<lparr>mp_policyRequired := (mp_policyRequired mp)(ns \<mapsto> (required_of mp ns)(coll \<mapsto> True))\<rparr>))"

definition parse_ns ::
    "(bytes \<Rightarrow> 'p option) \<Rightarrow> string \<times> (string \<times> (string \<times> (string \<rightharpoonup> bytes)) list) list \<Rightarrow> 'p metadataPolicies \<Rightarrow>
     unmarshal_error + 'p metadataPolicies" where
  "parse_ns unmarshalPolicy nm mp =
     fold_err (\<lambda>cm. fold_err (parse_key unmarshalPolicy (fst nm) (fst cm)) (snd cm)) (snd nm)
       (mp\<lparr>mp_policyRequired := (mp_policyRequired mp)(fst nm \<mapsto> [[] \<mapsto> False])\<rparr>)"

definition parseWritesetMetadata ::
    "(bytes \<Rightarrow> 'p option) \<Rightarrow> (string \<times> (string \<times> (string \<times> (string \<rightharpoonup> bytes)) list) list) list \<Rightarrow>
     unmarshal_error + 'p metadataPolicies" where
  "parseWritesetMetadata unmarshalPolicy metadata =
     fold_err (parse_ns unmarshalPolicy) metadata \<lparr>mp_sbePolicies = Map.empty, mp_policyRequired = Map.empty\<rparr>"

definition mp_add :: "string \<Rightarrow> string \<Rightarrow> bool \<Rightarrow> 'p metadataPolicies \<Rightarrow> 'p metadataPolicies" where
  "mp_add ns coll required mp =
     (case mp_policyRequired mp ns of
        Some entry \<Rightarrow> mp\<lparr>mp_policyRequired := (mp_policyRequired mp)(ns \<mapsto> entry(coll \<mapsto> required))\<rparr>
      | None \<Rightarrow> mp\<lparr>mp_policyRequired := (mp_policyRequired mp)(ns \<mapsto> [coll \<mapsto> required])\<rparr>)"

definition requireChaincodePolicy :: "'p metadataPolicies \<Rightarrow> string \<Rightarrow> bool" where
  "requireChaincodePolicy mp ns = (required_of mp ns [] = Some True)"

definition add_namespace ::
    "(string \<Rightarrow> bool) \<Rightarrow> NsReadWriteSet \<Rightarrow> 'p metadataPolicies \<Rightarrow> 'p metadataPolicies" where
  "add_namespace isSysCC nsrws mp =
     (if isSysCC (ns_Namespace nsrws) then mp
      else (case mp_policyRequired mp (ns_Namespace nsrws) of
              Some _ \<Rightarrow> mp
            | None \<Rightarrow> mp_add (ns_Namespace nsrws) [] True mp))"

definition add_namespaces ::
    "(string \<Rightarrow> bool) \<Rightarrow> NsReadWriteSet list \<Rightarrow> 'p metadataPolicies \<Rightarrow> 'p metadataPolicies" where
  "add_namespaces isSysCC nsRwset = fold (add_namespace isSysCC) nsRwset"

definition add_private_reads :: "(string \<times> string list) list \<Rightarrow> 'p metadataPolicies \<Rightarrow> 'p metadataPolicies" where
  "add_private_reads privateReads mp =
     fold (\<lambda>(chaincode, collections) mp. fold (\<lambda>collection. mp_add chaincode collection True) collections mp)
       privateReads mp"

text \<open>One iteration of the loop that builds the calls: \<^term>\<open>None\<close> where it continues without one.\<close>

definition chaincode_call ::
    "'p metadataPolicies \<Rightarrow> (string \<times> string list) list \<Rightarrow> string \<Rightarrow> string \<Rightarrow> 'p ChaincodeCall option" where
  "chaincode_call policies privateReads chaincode collection =
     (let ccCall = \<lparr>call_Name = chaincode, call_CollectionNames = [], call_NoPrivateReads = False,
            call_DisregardNamespacePolicy = False, call_KeyPolicies = []\<rparr>
      in if collection = [] then
           (let keyPolicies = sbe_of policies chaincode
            in if keyPolicies \<noteq> [] then
                 Some (ccCall\<lparr>call_KeyPolicies := keyPolicies,
                         call_DisregardNamespacePolicy := \<not> requireChaincodePolicy policies chaincode\<rparr>)
               else if \<not> requireChaincodePolicy policies chaincode then None
               else Some ccCall)
         else Some (ccCall\<lparr>call_CollectionNames := [collection],
                     call_NoPrivateReads := \<not> list_ex (\<lambda>(cc, colls). cc = chaincode \<and> collection \<in> set colls) privateReads\<rparr>))"

definition interest_policies ::
    "(bytes \<Rightarrow> 'p option) \<Rightarrow> (string \<Rightarrow> bool) \<Rightarrow> TxSimulationResults \<Rightarrow> unmarshal_error + 'p metadataPolicies" where
  "interest_policies unmarshalPolicy isSysCC simResult =
     sum_bind (parseWritesetMetadata unmarshalPolicy (sim_WritesetMetadata simResult))
       (\<lambda>policies. Inr (add_private_reads (sim_PrivateReads simResult)
          (add_namespaces isSysCC (case sim_Pub simResult of None \<Rightarrow> [] | Some ns \<Rightarrow> ns) policies)))"

definition buildChaincodeInterest ::
    "(bytes \<Rightarrow> 'p option) \<Rightarrow> (string \<Rightarrow> bool) \<Rightarrow> ('p metadataPolicies \<Rightarrow> (string \<times> string list) list) \<Rightarrow>
     TxSimulationResults \<Rightarrow> unmarshal_error + 'p ChaincodeCall list" where
  "buildChaincodeInterest unmarshalPolicy isSysCC order simResult =
     sum_bind (interest_policies unmarshalPolicy isSysCC simResult)
       (\<lambda>policies. Inr (concat (map (\<lambda>(chaincode, collections).
                if isSysCC chaincode then []
                else List.map_filter (chaincode_call policies (sim_PrivateReads simResult) chaincode) collections)
              (order policies))))"

section \<open>The configurations of private data\<close>

text \<open>A configuration package is the list of its collection names; \<^term>\<open>None\<close> is one that is not static.\<close>

fun collect_configs ::
    "(string \<Rightarrow> string + string option list option) \<Rightarrow> NsPvtReadWriteSet list \<Rightarrow>
     (string \<rightharpoonup> string option list) \<Rightarrow> string + (string \<rightharpoonup> string option list)" where
  "collect_configs getConfig [] configs = Inr configs"
| "collect_configs getConfig (pvtRwset # rest) configs =
     (case configs (np_Namespace pvtRwset) of
        Some _ \<Rightarrow> collect_configs getConfig rest configs
      | None \<Rightarrow>
          (case getConfig (np_Namespace pvtRwset) of
             Inl err \<Rightarrow> Inl err
           | Inr None \<Rightarrow> Inl (''no collection config for chaincode '' @ np_Namespace pvtRwset)
           | Inr (Some pkg) \<Rightarrow> collect_configs getConfig rest (configs(np_Namespace pvtRwset \<mapsto> pkg))))"

definition trimCollectionConfigs ::
    "NsPvtReadWriteSet list \<Rightarrow> (string \<rightharpoonup> string option list) \<Rightarrow> (string \<rightharpoonup> string option list)" where
  "trimCollectionConfigs nsPvtRwset configs =
     (let flags = fold (\<lambda>n f. fold (\<lambda>c f. f(np_Namespace n := insert (cp_CollectionName c) (f (np_Namespace n))))
                    (np_CollectionPvtRwset n) f) nsPvtRwset (\<lambda>_. {})
      in (\<lambda>namespace. map_option (filter (\<lambda>conf. case conf of Some name \<Rightarrow> name \<in> flags namespace | None \<Rightarrow> False))
            (configs namespace)))"

definition AssemblePvtRWSet ::
    "(string \<Rightarrow> string + string option list option) \<Rightarrow> NsPvtReadWriteSet list \<Rightarrow>
     string + (string \<rightharpoonup> string option list)" where
  "AssemblePvtRWSet getConfig privData =
     (case collect_configs getConfig privData Map.empty of
        Inl err \<Rightarrow> Inl err
      | Inr configs \<Rightarrow> Inr (trimCollectionConfigs privData configs))"

section \<open>The dependencies are the locations accessed\<close>

definition rw_keys :: "string \<Rightarrow> KVRWSet \<Rightarrow> string set" where
  "rw_keys prefix kv = (\<lambda>k. prefix @ k) ` (kw_Key ` set (rw_Writes kv) \<union> kr_Key ` set (rw_Reads kv))"

definition public_keys :: "codec \<Rightarrow> (string \<Rightarrow> bool) \<Rightarrow> NsReadWriteSet \<Rightarrow> string set" where
  "public_keys cd isSysCC n =
     (if isSysCC (ns_Namespace n) then {}
      else case un_KVRWSet cd (ns_Rwset n) of None \<Rightarrow> {} | Some kv \<Rightarrow> rw_keys (ns_Namespace n @ '':'') kv)"

definition private_keys :: "codec \<Rightarrow> (string \<Rightarrow> bool) \<Rightarrow> NsPvtReadWriteSet \<Rightarrow> string set" where
  "private_keys cd isSysCC n =
     (if isSysCC (np_Namespace n) then {}
      else \<Union>c \<in> set (np_CollectionPvtRwset n).
             case un_KVRWSet cd (cp_Rwset c) of None \<Rightarrow> {}
             | Some kv \<Rightarrow> rw_keys (np_Namespace n @ '':'' @ cp_CollectionName c @ '':'') kv)"

lemma dom_add_writes: "dom (fold (add_write p) ws m) = dom m \<union> (\<lambda>k. p @ k) ` kw_Key ` set ws"
  by (induction ws arbitrary: m) (auto simp: add_write_def)

lemma dom_add_read: "dom (add_read p r m) = insert (p @ kr_Key r) (dom m)"
  by (auto simp: add_read_def split: option.splits)

lemma dom_add_reads: "dom (fold (add_read p) rs m) = dom m \<union> (\<lambda>k. p @ k) ` kr_Key ` set rs"
  by (induction rs arbitrary: m) (auto simp: dom_add_read)

lemma dom_add_rwset: "dom (add_rwset p kv m) = dom m \<union> rw_keys p kv"
  by (simp add: add_rwset_def dom_add_reads dom_add_writes rw_keys_def image_Un Un_assoc)

lemma dom_fold: "(\<And>x m. dom (f x m) = dom m \<union> g x) \<Longrightarrow> dom (fold f xs m) = dom m \<union> (\<Union>x \<in> set xs. g x)"
  by (induction xs arbitrary: m) auto

lemma dom_add_public: "dom (add_public cd sys n m) = dom m \<union> public_keys cd sys n"
  by (auto simp: add_public_def public_keys_def dom_add_rwset split: option.splits)

lemma dom_add_private: "dom (add_private cd sys n m) = dom m \<union> private_keys cd sys n"
proof -
  have "dom (add_collection cd ns c m) = dom m \<union>
      (case un_KVRWSet cd (cp_Rwset c) of None \<Rightarrow> {} | Some kv \<Rightarrow> rw_keys (ns @ '':'' @ cp_CollectionName c @ '':'') kv)"
    for ns c m by (simp add: add_collection_def dom_add_rwset split: option.split)
  then show ?thesis by (simp add: add_private_def private_keys_def dom_fold)
qed

section \<open>The policies that are required\<close>

lemma mp_add_required:
  "required_of (mp_add ns coll b mp) ns' = (if ns' = ns then (required_of mp ns)(coll \<mapsto> b) else required_of mp ns')"
  by (auto simp: mp_add_def required_of_def split: option.splits)

lemma mp_add_other: "ns' \<noteq> ns \<Longrightarrow> mp_policyRequired (mp_add ns coll b mp) ns' = mp_policyRequired mp ns'"
  by (auto simp: mp_add_def split: option.splits)

definition keeps_required :: "('p metadataPolicies \<Rightarrow> 'p metadataPolicies) \<Rightarrow> bool" where
  "keeps_required f \<longleftrightarrow> (\<forall>mp ns coll. required_of mp ns coll = Some True \<longrightarrow> required_of (f mp) ns coll = Some True)"

lemma keeps_requiredD:
  "keeps_required f \<Longrightarrow> required_of mp ns coll = Some True \<Longrightarrow> required_of (f mp) ns coll = Some True"
  by (simp add: keeps_required_def)

lemma keeps_required_fold: "(\<And>x. keeps_required (f x)) \<Longrightarrow> keeps_required (fold f xs)"
  by (induction xs) (auto simp: keeps_required_def)

lemma keeps_mp_add: "keeps_required (mp_add ns coll True)"
  by (auto simp: keeps_required_def mp_add_required)

lemma keeps_private_reads: "keeps_required (add_private_reads prs)"
  unfolding add_private_reads_def
  by (rule keeps_required_fold) (auto split: prod.split intro: keeps_required_fold keeps_mp_add)

lemma required_private_reads:
  assumes "(cc, colls) \<in> set prs" "coll \<in> set colls"
  shows "required_of (add_private_reads prs mp) cc coll = Some True"
proof -
  obtain p1 p2 where p: "prs = p1 @ (cc, colls) # p2" using assms(1) by (metis split_list)
  obtain c1 c2 where c: "colls = c1 @ coll # c2" using assms(2) by (metis split_list)
  have k2: "keeps_required (fold (\<lambda>collection. mp_add cc collection True) c2)"
    by (rule keeps_required_fold) (rule keeps_mp_add)
  have "required_of (fold (\<lambda>collection. mp_add cc collection True) colls mp') cc coll = Some True" for mp'
    by (simp add: c keeps_requiredD [OF k2] mp_add_required)
  moreover have "add_private_reads prs mp = add_private_reads p2
      (fold (\<lambda>collection. mp_add cc collection True) colls (add_private_reads p1 mp))"
    by (simp add: p add_private_reads_def)
  ultimately show ?thesis using keeps_requiredD [OF keeps_private_reads] by metis
qed

lemma required_namespaces:
  assumes "n \<in> set ns" "\<not> sys (ns_Namespace n)" "mp_policyRequired mp (ns_Namespace n) = None"
  shows "required_of (add_namespaces sys ns mp) (ns_Namespace n) [] = Some True"
  using assms
proof (induction ns arbitrary: mp)
  case (Cons x ns)
  have keeps: "keeps_required (fold (add_namespace sys) ns)"
    by (rule keeps_required_fold)
      (auto simp: keeps_required_def add_namespace_def mp_add_required split: option.splits)
  show ?case
  proof (cases "ns_Namespace x = ns_Namespace n")
    case True
    then have "required_of (add_namespace sys x mp) (ns_Namespace n) [] = Some True"
      using Cons.prems(2,3) by (simp add: add_namespace_def mp_add_required)
    then show ?thesis by (simp add: add_namespaces_def keeps_requiredD [OF keeps])
  next
    case False
    then have "mp_policyRequired (add_namespace sys x mp) (ns_Namespace n) = None"
      using Cons.prems(3) by (auto simp: add_namespace_def mp_add_other split: option.split)
    moreover have "n \<in> set ns" using False Cons.prems(1) by auto
    ultimately show ?thesis using Cons.IH [of "add_namespace sys x mp"] Cons.prems(2) by (simp add: add_namespaces_def)
  qed
qed simp

lemma parse_key_dom:
  "parse_key un ns coll km mp = Inr mp' \<Longrightarrow> dom (mp_policyRequired mp') \<subseteq> insert ns (dom (mp_policyRequired mp))"
  by (auto simp: parse_key_def split: option.split_asm)

lemma parse_ns_dom:
  assumes "parse_ns un nm mp = Inr mp'"
  shows "dom (mp_policyRequired mp') \<subseteq> insert (fst nm) (dom (mp_policyRequired mp))"
proof -
  let ?P = "\<lambda>m :: 'a metadataPolicies. dom (mp_policyRequired m) \<subseteq> insert (fst nm) (dom (mp_policyRequired mp))"
  have inner: "?P m'" if "fold_err (parse_key un (fst nm) c) ks m = Inr m'" "?P m" for c ks m m'
    using that(1) by (rule fold_err_inv) (use that(2) parse_key_dom in \<open>blast+\<close>)
  show ?thesis
    using assms unfolding parse_ns_def by (rule fold_err_inv) (use inner in \<open>auto\<close>)
qed

lemma parse_dom:
  assumes "parseWritesetMetadata un md = Inr mp"
  shows "dom (mp_policyRequired mp) \<subseteq> fst ` set md"
  using assms unfolding parseWritesetMetadata_def
proof (rule fold_err_inv)
  fix x and m m' :: "'a metadataPolicies"
  assume "x \<in> set md" "dom (mp_policyRequired m) \<subseteq> fst ` set md" "parse_ns un x m = Inr m'"
  then show "dom (mp_policyRequired m') \<subseteq> fst ` set md" using parse_ns_dom [of un x m m'] by blast
qed simp

text \<open>The order in which the required policies are visited is an order of both maps.\<close>

definition interest_order :: "(string \<times> string list) list \<Rightarrow> 'p metadataPolicies \<Rightarrow> bool" where
  "interest_order order mp \<longleftrightarrow>
     (\<forall>ns m. mp_policyRequired mp ns = Some m \<longrightarrow> (\<exists>colls. (ns, colls) \<in> set order \<and> set colls = dom m))"

lemma interest_call:
  assumes "interest_order order mp" "required_of mp cc coll = Some True" "\<not> sys cc"
    and "chaincode_call mp prs cc coll = Some call"
  shows "call \<in> set (concat (map (\<lambda>(chaincode, collections).
    if sys chaincode then [] else List.map_filter (chaincode_call mp prs chaincode) collections) order))"
proof -
  obtain m where m: "mp_policyRequired mp cc = Some m" "m coll = Some True"
    using assms(2) by (auto simp: required_of_def split: option.split_asm)
  then obtain colls where "(cc, colls) \<in> set order" "coll \<in> set colls"
    using assms(1) unfolding interest_order_def by blast
  then show ?thesis using assms(3,4) by (force simp: List.map_filter_def)
qed

section \<open>Properties\<close>

text \<open>C22: the dependencies the endorser extracts are exactly the keys of the reads and writes of the
  decodable read-write sets of the namespaces that are not system chaincodes, public keys
  under their namespace and private keys under namespace and collection.\<close>

theorem extractTransactionDependencies_keys:
  "dom (extractTransactionDependencies cd sys sim) =
     (\<Union>n \<in> set (case sim_Pub sim of None \<Rightarrow> [] | Some ns \<Rightarrow> ns). public_keys cd sys n) \<union>
     (\<Union>n \<in> set (case sim_Pvt sim of None \<Rightarrow> [] | Some ns \<Rightarrow> ns). private_keys cd sys n)"
  by (auto simp: extractTransactionDependencies_def Let_def dom_fold [OF dom_add_public] dom_fold [OF dom_add_private]
      split: option.split)

text \<open>The keys can collide. There are two simulations, one that writes only a public key and one
  that writes only a private key, which have the same dependency key.\<close>

theorem dependency_keys_collide:
  "\<exists>cd pub pvt. sim_Pvt pub = None \<and> sim_Pub pvt = None \<and>
     dom (extractTransactionDependencies cd (\<lambda>_. False) pub) \<inter> dom (extractTransactionDependencies cd (\<lambda>_. False) pvt) \<noteq> {}"
proof -
  let ?w = "\<lambda>k. \<lparr>rw_Reads = [], rw_RangeQueriesInfo = [], rw_Writes = [\<lparr>kw_Key = k, kw_IsDelete = False, kw_Value = ''v''\<rparr>],
     rw_MetadataWrites = []\<rparr>"
  let ?cd = "\<lparr>un_Envelope = (\<lambda>_. None), un_Payload = (\<lambda>_. None), un_ChannelHeader = (\<lambda>_. None),
     un_Transaction = (\<lambda>_. None), un_ChaincodeAction = (\<lambda>_. None), un_TxReadWriteSet = (\<lambda>_. None),
     un_KVRWSet = (\<lambda>b. Some (?w b)), un_HashedRWSet = (\<lambda>_. None)\<rparr>"
  let ?pub = "\<lparr>sim_Pub = Some [\<lparr>ns_Namespace = ''cc'', ns_Rwset = ''coll:k'', ns_CollectionHashedRwset = []\<rparr>],
     sim_Pvt = None, sim_PrivateReads = [], sim_WritesetMetadata = []\<rparr>"
  let ?pvt = "\<lparr>sim_Pub = None, sim_Pvt = Some [\<lparr>np_Namespace = ''cc'',
     np_CollectionPvtRwset = [\<lparr>cp_CollectionName = ''coll'', cp_Rwset = ''k''\<rparr>]\<rparr>], sim_PrivateReads = [], sim_WritesetMetadata = []\<rparr>"
  have "''cc:coll:k'' \<in> dom (extractTransactionDependencies ?cd (\<lambda>_. False) ?pub)"
    "''cc:coll:k'' \<in> dom (extractTransactionDependencies ?cd (\<lambda>_. False) ?pvt)"
    by (simp_all add: extractTransactionDependencies_def Let_def add_public_def add_private_def add_collection_def
        add_rwset_def add_write_def)
  then have "dom (extractTransactionDependencies ?cd (\<lambda>_. False) ?pub) \<inter> dom (extractTransactionDependencies ?cd (\<lambda>_. False) ?pvt) \<noteq> {}"
    by blast
  then show ?thesis by (intro exI [of _ ?cd] exI [of _ ?pub] exI [of _ ?pvt]) simp
qed

text \<open>C23: the interest covers what was touched. Every namespace in the public results that is not a
  system chaincode and has no metadata writes gets a call for its chaincode policy, and every
  collection read privately gets a call that names it and does not deny private reads.\<close>

theorem interest_covers:
  assumes "interest_policies un sys sim = Inr policies" "interest_order (order policies) policies"
    and "buildChaincodeInterest un sys order sim = Inr calls"
  shows "(\<forall>n. n \<in> set (case sim_Pub sim of None \<Rightarrow> [] | Some ns \<Rightarrow> ns) \<and> \<not> sys (ns_Namespace n) \<and>
       ns_Namespace n \<notin> fst ` set (sim_WritesetMetadata sim) \<longrightarrow>
       (\<exists>call \<in> set calls. call_Name call = ns_Namespace n \<and> call_CollectionNames call = [] \<and>
          \<not> call_DisregardNamespacePolicy call)) \<and>
    (\<forall>cc colls coll. (cc, colls) \<in> set (sim_PrivateReads sim) \<and> coll \<in> set colls \<and> coll \<noteq> [] \<and> \<not> sys cc \<longrightarrow>
       (\<exists>call \<in> set calls. call_Name call = cc \<and> call_CollectionNames call = [coll] \<and> \<not> call_NoPrivateReads call))"
proof -
  let ?pub = "case sim_Pub sim of None \<Rightarrow> [] | Some ns \<Rightarrow> ns" and ?prs = "sim_PrivateReads sim"
  obtain mp where mp: "parseWritesetMetadata un (sim_WritesetMetadata sim) = Inr mp"
    and mp2: "policies = add_private_reads ?prs (add_namespaces sys ?pub mp)"
    using assms(1) by (auto simp: interest_policies_def sum_bind_Inr_iff)
  have calls: "calls = concat (map (\<lambda>(chaincode, collections).
      if sys chaincode then [] else List.map_filter (chaincode_call policies ?prs chaincode) collections) (order policies))"
    using assms(1,3) by (simp add: buildChaincodeInterest_def)
  have "\<exists>call \<in> set calls. call_Name call = ns_Namespace n \<and> call_CollectionNames call = [] \<and> \<not> call_DisregardNamespacePolicy call"
    if n: "n \<in> set ?pub" "\<not> sys (ns_Namespace n)" "ns_Namespace n \<notin> fst ` set (sim_WritesetMetadata sim)" for n
  proof -
    have "mp_policyRequired mp (ns_Namespace n) = None" using parse_dom [OF mp] n(3) by blast
    then have req: "required_of policies (ns_Namespace n) [] = Some True"
      using keeps_requiredD [OF keeps_private_reads required_namespaces [where sys = sys, OF n(1,2)]] mp2 by blast
    then obtain call where "chaincode_call policies ?prs (ns_Namespace n) [] = Some call" "call_Name call = ns_Namespace n"
      "call_CollectionNames call = []" "\<not> call_DisregardNamespacePolicy call"
      by (cases "sbe_of policies (ns_Namespace n) = []")
        (auto simp: chaincode_call_def Let_def requireChaincodePolicy_def)
    then show ?thesis using interest_call [where sys = sys, OF assms(2) req n(2)] calls by blast
  qed
  moreover have "\<exists>call \<in> set calls. call_Name call = cc \<and> call_CollectionNames call = [coll] \<and> \<not> call_NoPrivateReads call"
    if r: "(cc, colls) \<in> set ?prs" "coll \<in> set colls" "coll \<noteq> []" "\<not> sys cc" for cc colls coll
  proof -
    have "list_ex (\<lambda>(c, cs). c = cc \<and> coll \<in> set cs) ?prs"
      using r(1,2) by (auto simp: list_ex_iff)
    then obtain call where "chaincode_call policies ?prs cc coll = Some call" "call_Name call = cc"
      "call_CollectionNames call = [coll]" "\<not> call_NoPrivateReads call"
      using r(3) by (auto simp: chaincode_call_def Let_def)
    then show ?thesis using interest_call [where sys = sys, OF assms(2) required_private_reads [OF r(1,2), of "add_namespaces sys ?pub mp", folded mp2] r(4)] calls by blast
  qed
  ultimately show ?thesis by blast
qed

definition sample_sim :: TxSimulationResults where
  "sample_sim = \<lparr>sim_Pub = Some [\<lparr>ns_Namespace = ''cc'', ns_Rwset = [], ns_CollectionHashedRwset = []\<rparr>],
     sim_Pvt = None, sim_PrivateReads = [(''dd'', [''coll''])], sim_WritesetMetadata = []\<rparr>"

theorem interest_covers_witness:
  "\<exists>calls. buildChaincodeInterest (\<lambda>_. None :: unit option) (\<lambda>_. False) (\<lambda>_. [(''cc'', [[]]), (''dd'', [''coll''])])
       sample_sim = Inr calls \<and>
     (\<exists>call \<in> set calls. call_Name call = ''cc'' \<and> call_CollectionNames call = []) \<and>
     (\<exists>call \<in> set calls. call_Name call = ''dd'' \<and> call_CollectionNames call = [''coll''])"
proof -
  let ?o = "\<lambda>_. [(''cc'', [[]]), (''dd'', [''coll''])]"
  let ?p = "\<lparr>mp_sbePolicies = Map.empty, mp_policyRequired = [''cc'' \<mapsto> [[] \<mapsto> True], ''dd'' \<mapsto> [''coll'' \<mapsto> True]]\<rparr>
     :: unit metadataPolicies"
  have p: "interest_policies (\<lambda>_. None :: unit option) (\<lambda>_. False) sample_sim = Inr ?p"
    by (simp add: interest_policies_def parseWritesetMetadata_def sample_sim_def add_private_reads_def
        add_namespaces_def add_namespace_def mp_add_def)
  have o: "interest_order (?o ?p) ?p" by (auto simp: interest_order_def)
  obtain calls where c: "buildChaincodeInterest (\<lambda>_. None :: unit option) (\<lambda>_. False) ?o sample_sim = Inr calls"
    using p by (simp add: buildChaincodeInterest_def)
  from interest_covers [OF p o c] c show ?thesis by (fastforce simp: sample_sim_def)
qed

end
