(* ===== verification/Shard_Manager.thy ===== *)
theory Shard_Manager
  imports Shard_Leader
begin

text \<open>
  The shards of a peer and their network (\<^verbatim>\<open>core/endorser/sharding/shard_manager.go\<close>,
  \<^verbatim>\<open>transport_grpc.go\<close>).  The file \<^verbatim>\<open>sharding.json\<close>, the environment variable
  \<^verbatim>\<open>CORE_PEER_ADDRESS\<close>, the clock and the connections of gRPC are arguments.
\<close>

section \<open>The manager\<close>

record ShardManager =
  sm_shards :: "string \<rightharpoonup> ShardLeader"
  sm_config :: "string \<rightharpoonup> ShardConfig"

text \<open>What the manager reads from its surroundings.\<close>

record node_env =
  ne_startNode :: "u64 \<Rightarrow> u64 list \<Rightarrow> bool"
  ne_now :: time
  ne_config :: "(string \<rightharpoonup> string list) option"
  ne_address :: string

fun start_shards ::
    "node_env \<Rightarrow> (string \<rightharpoonup> ShardConfig) \<Rightarrow> string list \<Rightarrow> (string \<rightharpoonup> ShardLeader) \<Rightarrow>
     (string \<rightharpoonup> ShardLeader) go" where
  "start_shards env configs [] shards = Return shards"
| "start_shards env configs (shardID # ids) shards =
     go_bind (NewShardLeader (ne_startNode env) (the (configs shardID)) DefaultBatchTimeout
                DefaultBatchMaxSize (ne_now env))
       (\<lambda>shard. start_shards env configs ids (shards(shardID \<mapsto> shard)))"

definition NewShardManager ::
    "node_env \<Rightarrow> string list \<Rightarrow> (string \<rightharpoonup> ShardConfig) option \<Rightarrow> ShardManager go" where
  "NewShardManager env order configs =
     (let cs = (case configs of None \<Rightarrow> Map.empty | Some c \<Rightarrow> c)
      in go_bind (start_shards env cs order Map.empty)
           (\<lambda>shards. Return \<lparr>sm_shards = shards, sm_config = cs\<rparr>))"

text \<open>The position of the peer's address among the replicas; 1 when it is not there.\<close>

fun replica_index :: "string \<Rightarrow> nat \<Rightarrow> string list \<Rightarrow> u64" where
  "replica_index myAddr i [] = 1"
| "replica_index myAddr i (nodeAddr # as) =
     (if nodeAddr = myAddr then of_nat (i + 1) else replica_index myAddr (Suc i) as)"

definition shard_config :: "node_env \<Rightarrow> string \<Rightarrow> ShardConfig" where
  "shard_config env contractName =
     (let config = \<lparr>sc_ShardID = contractName,
            sc_ReplicaNodes = [''localhost:7051'', ''localhost:7052'', ''localhost:7053''], sc_ReplicaID = 1\<rparr>
      in case ne_config env of
           None \<Rightarrow> config
         | Some externalConfig \<Rightarrow>
             (case externalConfig contractName of
                None \<Rightarrow> config
              | Some replicas \<Rightarrow>
                  (let myAddr = (if ne_address env = [] then ''localhost:7051'' else ne_address env)
                   in config\<lparr>sc_ReplicaNodes := replicas, sc_ReplicaID := replica_index myAddr 0 replicas\<rparr>)))"

text \<open>The part of \<open>GetOrCreateShard\<close> under the write lock, and the whole call.\<close>

definition create_shard :: "node_env \<Rightarrow> string \<Rightarrow> ShardManager \<Rightarrow> (ShardLeader \<times> ShardManager) go" where
  "create_shard env contractName sm =
     (case sm_shards sm contractName of
        Some shard \<Rightarrow> Return (shard, sm)
      | None \<Rightarrow>
          go_bind (NewShardLeader (ne_startNode env) (shard_config env contractName) DefaultBatchTimeout
                     DefaultBatchMaxSize (ne_now env))
            (\<lambda>shard. Return (shard, sm\<lparr>sm_shards := (sm_shards sm)(contractName \<mapsto> shard)\<rparr>)))"

definition GetOrCreateShard :: "node_env \<Rightarrow> string \<Rightarrow> ShardManager \<Rightarrow> (ShardLeader \<times> ShardManager) go" where
  "GetOrCreateShard env contractName sm =
     (case sm_shards sm contractName of
        Some shard \<Rightarrow> Return (shard, sm)
      | None \<Rightarrow> create_shard env contractName sm)"

fun stop_shards :: "string list \<Rightarrow> (string \<rightharpoonup> ShardLeader) \<Rightarrow> (string \<rightharpoonup> ShardLeader) go" where
  "stop_shards [] shards = Return shards"
| "stop_shards (shardID # ids) shards =
     (case shards shardID of
        None \<Rightarrow> stop_shards ids shards
      | Some shard \<Rightarrow>
          go_bind (Stop shard) (\<lambda>shard'. stop_shards ids (shards(shardID \<mapsto> shard'))))"

definition Shutdown :: "string list \<Rightarrow> ShardManager \<Rightarrow> ShardManager go" where
  "Shutdown order sm =
     go_bind (stop_shards order (sm_shards sm)) (\<lambda>shards. Return (sm\<lparr>sm_shards := shards\<rparr>))"

definition GetShardMetrics :: "ShardManager \<Rightarrow> (string \<rightharpoonup> u64)" where
  "GetShardMetrics sm = (\<lambda>shardID. map_option GetRequestsHandled (sm_shards sm shardID))"

section \<open>Callers of GetOrCreateShard\<close>

text \<open>
  Goroutines that ask for shards at the same time: each looks under the read lock, and when it
  finds nothing asks for the write lock and looks again.  \<open>cs_created\<close> records the names for
  which a shard was started.
\<close>

datatype caller = Asking string | Missed string | Got string

record callers_state =
  cs_manager :: ShardManager
  cs_callers :: "nat \<rightharpoonup> caller"
  cs_created :: "string list"

inductive caller_step :: "node_env \<Rightarrow> callers_state \<Rightarrow> callers_state \<Rightarrow> bool" for env where
  found: "cs_callers s i = Some (Asking c) \<Longrightarrow> sm_shards (cs_manager s) c = Some shard \<Longrightarrow>
    caller_step env s (s\<lparr>cs_callers := (cs_callers s)(i \<mapsto> Got c)\<rparr>)"
| missed: "cs_callers s i = Some (Asking c) \<Longrightarrow> sm_shards (cs_manager s) c = None \<Longrightarrow>
    caller_step env s (s\<lparr>cs_callers := (cs_callers s)(i \<mapsto> Missed c)\<rparr>)"
| create: "cs_callers s i = Some (Missed c) \<Longrightarrow> create_shard env c (cs_manager s) = Return (shard, sm') \<Longrightarrow>
    caller_step env s (s\<lparr>cs_callers := (cs_callers s)(i \<mapsto> Got c), cs_manager := sm',
      cs_created := (if sm_shards (cs_manager s) c = None then cs_created s @ [c] else cs_created s)\<rparr>)"

section \<open>The transport\<close>

record 'c Transport =
  tr_nodeID :: u64
  tr_address :: string
  tr_peers :: "u64 \<rightharpoonup> string"
  tr_clients :: "u64 \<rightharpoonup> 'c"
  tr_clientConn :: "u64 \<rightharpoonup> 'c"
  tr_stopped :: bool

definition NewTransport :: "u64 \<Rightarrow> string \<Rightarrow> (u64 \<rightharpoonup> string) \<Rightarrow> 'c Transport" where
  "NewTransport nodeID address peers =
     \<lparr>tr_nodeID = nodeID, tr_address = address, tr_peers = peers, tr_clients = Map.empty,
      tr_clientConn = Map.empty, tr_stopped = False\<rparr>"

datatype client_error = UnknownPeer u64 | DialFailed string

definition getClient :: "(string \<Rightarrow> string + 'c) \<Rightarrow> u64 \<Rightarrow> 'c Transport \<Rightarrow> (client_error + 'c) \<times> 'c Transport" where
  "getClient dial nodeID t =
     (case tr_clients t nodeID of
        Some client \<Rightarrow> (Inr client, t)
      | None \<Rightarrow>
          (case tr_peers t nodeID of
             None \<Rightarrow> (Inl (UnknownPeer nodeID), t)
           | Some addr \<Rightarrow>
               (case dial addr of
                  Inl err \<Rightarrow> (Inl (DialFailed err), t)
                | Inr conn \<Rightarrow>
                    (Inr conn, t\<lparr>tr_clients := (tr_clients t)(nodeID \<mapsto> conn),
                                 tr_clientConn := (tr_clientConn t)(nodeID \<mapsto> conn)\<rparr>))))"

text \<open>\<open>send\<close>: the client the message goes to and its bytes, when it goes out at all.\<close>

definition send ::
    "(string \<Rightarrow> string + 'c) \<Rightarrow> ('m \<Rightarrow> bytes option) \<Rightarrow> ('m \<Rightarrow> u64) \<Rightarrow> 'm \<Rightarrow> 'c Transport \<Rightarrow>
     ('c \<times> bytes) option \<times> 'c Transport" where
  "send dial marshal to msg t =
     (case getClient dial (to msg) t of
        (Inl _, t') \<Rightarrow> (None, t')
      | (Inr client, t') \<Rightarrow>
          (case marshal msg of None \<Rightarrow> (None, t') | Some data \<Rightarrow> (Some (client, data), t')))"

record StepResponse =
  sr_Success :: bool
  sr_Error :: string

text \<open>The gRPC handler \<open>Step\<close>: the message for the leader, if the bytes decode.\<close>

definition Transport_Step ::
    "(bytes \<Rightarrow> string + 'm) \<Rightarrow> ('m \<Rightarrow> string option) \<Rightarrow> bytes \<Rightarrow> StepResponse" where
  "Transport_Step unmarshal leaderStep data =
     (case unmarshal data of
        Inl err \<Rightarrow> \<lparr>sr_Success = False, sr_Error = err\<rparr>
      | Inr msg \<Rightarrow>
          (case leaderStep msg of
             Some err \<Rightarrow> \<lparr>sr_Success = False, sr_Error = err\<rparr>
           | None \<Rightarrow> \<lparr>sr_Success = True, sr_Error = []\<rparr>))"

definition Transport_Stop :: "'c Transport \<Rightarrow> 'c Transport go" where
  "Transport_Stop t = (if tr_stopped t then Panic else Return (t\<lparr>tr_stopped := True\<rparr>))"

section \<open>One shard per contract\<close>

lemma create_shard_shards:
  assumes "create_shard env c sm = Return (shard, sm')"
  shows "sm_shards sm' c = Some shard \<and>
    sm_shards sm' = (if sm_shards sm c = None then (sm_shards sm)(c \<mapsto> shard) else sm_shards sm)"
  using assms by (auto simp: create_shard_def go_bind_Return_iff split: option.splits)

definition callers_inv :: "callers_state \<Rightarrow> callers_state \<Rightarrow> bool" where
  "callers_inv s0 s \<longleftrightarrow>
     distinct (cs_created s) \<and> set (cs_created s) \<inter> dom (sm_shards (cs_manager s0)) = {} \<and>
     dom (sm_shards (cs_manager s)) = dom (sm_shards (cs_manager s0)) \<union> set (cs_created s) \<and>
     (\<forall>c shard. sm_shards (cs_manager s0) c = Some shard \<longrightarrow> sm_shards (cs_manager s) c = Some shard) \<and>
     (\<forall>i c. cs_callers s i = Some (Got c) \<longrightarrow> sm_shards (cs_manager s) c \<noteq> None)"

lemma callers_inv_step:
  assumes "caller_step env s s'" "callers_inv s0 s"
  shows "callers_inv s0 s'"
  using assms(1)
proof cases
  case (create i c shard sm')
  note cs = create_shard_shards [OF create(3)]
  show ?thesis
  proof (cases "sm_shards (cs_manager s) c = None")
    case True
    then have "c \<notin> dom (sm_shards (cs_manager s))" by auto
    then have "c \<notin> set (cs_created s)" "c \<notin> dom (sm_shards (cs_manager s0))"
      using assms(2) by (auto simp: callers_inv_def)
    then show ?thesis using assms(2) True cs create(1) by (auto simp: callers_inv_def)
  next
    case False
    then show ?thesis using assms(2) cs create(1) by (auto simp: callers_inv_def)
  qed
qed (use assms(2) in \<open>auto simp: callers_inv_def\<close>)

lemma callers_inv_run:
  assumes "(caller_step env)\<^sup>*\<^sup>* s0 s" "cs_created s0 = []" "\<And>i c. cs_callers s0 i \<noteq> Some (Got c)"
  shows "callers_inv s0 s"
  using assms(1)
proof (induction rule: rtranclp_induct)
  case base
  then show ?case using assms(2,3) by (simp add: callers_inv_def)
next
  case (step s s')
  then show ?case using callers_inv_step by blast
qed

section \<open>Replica numbers\<close>

lemma replica_index_nth:
  "distinct as \<Longrightarrow> j < length as \<Longrightarrow> replica_index (as ! j) i as = of_nat (i + j + 1)"
proof (induction as arbitrary: i j)
  case (Cons a as)
  then show ?case
    by (cases j) (auto dest: nth_mem simp del: of_nat_Suc of_nat_add)
qed simp

lemma replica_index_absent: "a \<notin> set as \<Longrightarrow> replica_index a i as = 1"
  by (induction as arbitrary: i) auto

section \<open>Properties\<close>

text \<open>C21: one shard per contract. However any number of goroutines interleave in
  \<open>GetOrCreateShard\<close>, a shard is started at most once for each contract and never for a
  contract that had one, no shard is ever replaced, and a caller that has returned has a
  shard in the map.\<close>

theorem one_shard_per_contract:
  assumes "(caller_step env)\<^sup>*\<^sup>* s0 s" "cs_created s0 = []" "\<forall>i c. cs_callers s0 i \<noteq> Some (Got c)"
  shows "distinct (cs_created s) \<and> set (cs_created s) \<inter> dom (sm_shards (cs_manager s0)) = {} \<and>
    dom (sm_shards (cs_manager s)) = dom (sm_shards (cs_manager s0)) \<union> set (cs_created s) \<and>
    (\<forall>c shard. sm_shards (cs_manager s0) c = Some shard \<longrightarrow> sm_shards (cs_manager s) c = Some shard) \<and>
    (\<forall>i c. cs_callers s i = Some (Got c) \<longrightarrow> sm_shards (cs_manager s) c \<noteq> None)"
  using callers_inv_run [OF assms(1,2)] assms(3) by (simp add: callers_inv_def)

text \<open>Replica numbers. A peer whose address is the \<open>j\<close>-th of the configured replicas gets
  number \<open>j + 1\<close>; a peer that is not among them gets number 1, the number of the first replica.\<close>

theorem shard_config_replica:
  assumes "ne_config env = Some cfg" "cfg c = Some replicas" "distinct replicas" "ne_address env \<noteq> []"
  shows "sc_ReplicaNodes (shard_config env c) = replicas \<and>
    (\<forall>j < length replicas. ne_address env = replicas ! j \<longrightarrow> sc_ReplicaID (shard_config env c) = of_nat (j + 1)) \<and>
    (ne_address env \<notin> set replicas \<longrightarrow> sc_ReplicaID (shard_config env c) = 1)"
  using assms replica_index_nth [of replicas _ 0] replica_index_absent [of "ne_address env" replicas 0]
  by (simp add: shard_config_def Let_def del: of_nat_Suc of_nat_add)

text \<open>Clients are reused. A successful \<open>getClient\<close> keeps all clients there were and records the
  client under the node's number; asking again returns the same client without dialling, and a
  node that is not among the peers is refused without dialling.\<close>

theorem getClient_cached:
  assumes "getClient dial n t = (Inr client, t')"
  shows "getClient dial' n t' = (Inr client, t') \<and>
    (\<forall>m c. tr_clients t m = Some c \<longrightarrow> tr_clients t' m = Some c) \<and>
    (tr_clients t n = None \<longrightarrow> (\<exists>addr. tr_peers t n = Some addr \<and> dial addr = Inr client))"
  using assms by (auto simp: getClient_def split: option.splits sum.splits)

section \<open>Examples\<close>

definition sample_env :: node_env where
  "sample_env = \<lparr>ne_startNode = (\<lambda>_ _. True), ne_now = 0,
     ne_config = Some [''fabcar'' \<mapsto> [''h:1'', ''h:2'', ''h:3'']], ne_address = ''h:2''\<rparr>"

definition no_shards :: ShardManager where
  "no_shards = \<lparr>sm_shards = Map.empty, sm_config = Map.empty\<rparr>"

lemma sample_creates: "\<exists>shard sm'. create_shard sample_env ''fabcar'' no_shards = Return (shard, sm')"
  by (simp add: create_shard_def no_shards_def NewShardLeader_def sample_env_def DefaultBatchMaxSize_def Let_def)

theorem one_shard_per_contract_witness:
  "\<exists>s. (caller_step sample_env)\<^sup>*\<^sup>* \<lparr>cs_manager = no_shards, cs_callers = [0 \<mapsto> Missed ''fabcar''], cs_created = []\<rparr> s \<and>
     cs_created s = [''fabcar''] \<and> dom (sm_shards (cs_manager s)) = {''fabcar''}"
proof -
  let ?old = "\<lparr>cs_manager = no_shards, cs_callers = [0 \<mapsto> Missed ''fabcar''], cs_created = []\<rparr>"
  obtain shard sm' where c: "create_shard sample_env ''fabcar'' no_shards = Return (shard, sm')"
    using sample_creates by blast
  let ?new = "?old\<lparr>cs_callers := [0 \<mapsto> Got ''fabcar''], cs_manager := sm', cs_created := [''fabcar'']\<rparr>"
  have "caller_step sample_env ?old ?new"
    using caller_step.create [of ?old 0 "''fabcar''" sample_env shard sm'] c by (simp add: no_shards_def)
  then have r: "(caller_step sample_env)\<^sup>*\<^sup>* ?old ?new" by blast
  have "dom (sm_shards (cs_manager ?new)) = dom (sm_shards (cs_manager ?old)) \<union> set (cs_created ?new)"
    using one_shard_per_contract [OF r] by simp
  then show ?thesis using r by (intro exI [of _ ?new]) (simp add: no_shards_def)
qed

theorem shard_config_replica_witness:
  "sc_ReplicaID (shard_config sample_env ''fabcar'') = 2 \<and>
   sc_ReplicaID (shard_config (sample_env\<lparr>ne_address := ''other:1''\<rparr>) ''fabcar'') = 1"
proof -
  let ?cfg = "[''fabcar'' \<mapsto> [''h:1'', ''h:2'', ''h:3'']]" and ?rs = "[''h:1'', ''h:2'', ''h:3'']"
  have "sc_ReplicaID (shard_config sample_env ''fabcar'') = of_nat (1 + 1)"
    using shard_config_replica [of sample_env ?cfg "''fabcar''" ?rs, THEN conjunct2, THEN conjunct1, THEN spec [of _ 1]]
    by (simp add: sample_env_def)
  moreover have "sc_ReplicaID (shard_config (sample_env\<lparr>ne_address := ''other:1''\<rparr>) ''fabcar'') = 1"
    using shard_config_replica [of "sample_env\<lparr>ne_address := ''other:1''\<rparr>" ?cfg "''fabcar''" ?rs]
    by (simp add: sample_env_def)
  ultimately show ?thesis by simp
qed

theorem getClient_cached_witness:
  "\<exists>t'. getClient (\<lambda>a. Inr a) 2 (NewTransport 1 ''h:1'' [2 \<mapsto> ''h:2'']) = (Inr ''h:2'', t') \<and>
     getClient (\<lambda>a. Inl ''down'') 2 t' = (Inr ''h:2'', t')"
proof -
  obtain t' where t': "getClient (\<lambda>a. Inr a) 2 (NewTransport 1 ''h:1'' [2 \<mapsto> ''h:2'']) = (Inr ''h:2'', t')"
    by (simp add: getClient_def NewTransport_def)
  then show ?thesis using getClient_cached [OF t'] by blast
qed

end
