(* ===== verification/Endorser.thy ===== *)
theory Endorser
  imports Endorser_Deps Shard_Manager Dep_Info
begin

text \<open>
  The endorsement of a proposal (\<^verbatim>\<open>core/endorser/endorser.go\<close>, \<^verbatim>\<open>chaincode.go\<close>, \<^verbatim>\<open>utils.go\<close>), from
  the signed proposal to the response, and the one operation of the ledger's simulator
  (\<^verbatim>\<open>core/ledger/kvledger/txmgmt/txmgr/tx_simulator.go\<close>) its outcome turns on.  The interface
  \<open>Support\<close>, through which the endorser reaches the peer, is a record of functions; a
  simulator is a state the functions thread through.  Metrics and logging are left out.
\<close>

section \<open>The simulator\<close>

record txSimulator =
  ts_simulationResultsComputed :: bool
  ts_err :: "string option"
  ts_built :: "string + TxSimulationResults"

definition GetTxSimulationResults :: "txSimulator \<Rightarrow> (string + TxSimulationResults) \<times> txSimulator" where
  "GetTxSimulationResults s =
     (if ts_simulationResultsComputed s
      then (Inl ''this function should only be called once on a transaction simulator instance'', s)
      else let s' = s\<lparr>ts_simulationResultsComputed := True\<rparr>
           in case ts_err s of
                Some err \<Rightarrow> (Inl err, s')
              | None \<Rightarrow> (ts_built s, s'))"

section \<open>What the endorser relies on\<close>

record ChaincodeEvent =
  cev_Name :: string
  cev_Payload :: bytes

record ChaincodeEndorsementInfo =
  cei_Version :: string
  cei_EndorsementPlugin :: string

record ('s, 'p) Support =
  su_GetTxSimulator :: "string \<Rightarrow> string \<Rightarrow> string + 's"
  su_GetHistoryQueryExecutor :: "string \<Rightarrow> string option"
  su_GetTransactionByID :: "string \<Rightarrow> string \<Rightarrow> bool"
  su_IsSysCC :: "string \<Rightarrow> bool"
  su_Execute :: "string \<Rightarrow> ChaincodeInput \<Rightarrow> 's option \<Rightarrow> (string + Response \<times> ChaincodeEvent option) \<times> 's option"
  su_ExecuteLegacyInit :: "string \<Rightarrow> string \<Rightarrow> 's option \<Rightarrow> string option \<times> 's option"
  su_ChaincodeEndorsementInfo :: "string \<Rightarrow> string \<Rightarrow> 's option \<Rightarrow> string + ChaincodeEndorsementInfo"
  su_CheckACL :: "string \<Rightarrow> SignedProposal \<Rightarrow> string option"
  su_EndorseWithPlugin :: "string \<Rightarrow> string \<Rightarrow> bytes \<Rightarrow> SignedProposal \<Rightarrow> string + (Endorsement \<times> bytes)"
  su_GetLedgerHeight :: "string \<Rightarrow> string + u64"
  su_AllCollectionsConfigPkg :: "string \<Rightarrow> string \<Rightarrow> string + string option list option"
  su_DistributePrivateData :: "string \<Rightarrow> string \<Rightarrow> (string \<rightharpoonup> string option list) \<Rightarrow> u64 \<Rightarrow> string option"
  su_GetTxSimulationResults :: "'s \<Rightarrow> (string + TxSimulationResults) \<times> 's"
  su_GetPubSimulationBytes :: "TxSimulationResults \<Rightarrow> string + bytes"
  su_MarshalEvent :: "ChaincodeEvent \<Rightarrow> string + bytes"
  su_MarshalAction :: "bytes option \<Rightarrow> Response \<Rightarrow> bytes option \<Rightarrow> ChaincodeID \<Rightarrow> string + bytes"
  su_MarshalResponsePayload :: "bytes \<Rightarrow> bytes \<Rightarrow> string + bytes"
  su_UnmarshalPolicy :: "bytes \<Rightarrow> 'p option"
  su_interestOrder :: "'p metadataPolicies \<Rightarrow> (string \<times> string list) list"

text \<open>Statuses of the shim.\<close>

definition shim_ERRORTHRESHOLD :: int where
  "shim_ERRORTHRESHOLD = 400"

definition shim_ERROR :: int where
  "shim_ERROR = 500"

section \<open>Executing the chaincode\<close>

definition acquireTxSimulator :: "string \<Rightarrow> string \<Rightarrow> bool" where
  "acquireTxSimulator chainID chaincodeName =
     (if chainID = [] then False
      else if chaincodeName = ''qscc'' \<or> chaincodeName = ''cscc'' then False else True)"

definition CreateCCEventBytes ::
    "('s, 'p) Support \<Rightarrow> ChaincodeEvent option \<Rightarrow> string + bytes option" where
  "CreateCCEventBytes su ccevent =
     (case ccevent of
        None \<Rightarrow> Inr None
      | Some ev \<Rightarrow> (case su_MarshalEvent su ev of Inl e \<Rightarrow> Inl e | Inr b \<Rightarrow> Inr (Some b)))"

text \<open>Deploying or upgrading through the legacy life cycle.\<close>

definition legacy_deploy :: "string \<Rightarrow> ChaincodeInput \<Rightarrow> bool" where
  "legacy_deploy chaincodeName input \<longleftrightarrow>
     \<not> (chaincodeName \<noteq> ''lscc'' \<or> length (ci_Args input) < 3 \<or>
        (ci_Args input ! 0 \<noteq> ''deploy'' \<and> ci_Args input ! 0 \<noteq> ''upgrade''))"

definition callChaincode ::
    "prop_codec \<Rightarrow> ('s, 'p) Support \<Rightarrow> string \<Rightarrow> ChaincodeInput \<Rightarrow> 's option \<Rightarrow>
     ((string + Response \<times> ChaincodeEvent option) \<times> 's option) go" where
  "callChaincode pc su chaincodeName input sim =
     (case su_Execute su chaincodeName input sim of
        (Inl err, sim1) \<Rightarrow> Return (Inl err, sim1)
      | (Inr (res, ccevent), sim1) \<Rightarrow>
          if resp_Status res \<ge> shim_ERRORTHRESHOLD then Return (Inr (res, None), sim1)
          else if \<not> legacy_deploy chaincodeName input then Return (Inr (res, ccevent), sim1)
          else (case pc_DeploymentSpec pc (ci_Args input ! 2) of
                  None \<Rightarrow> Return (Inl ''error unmarshalling ChaincodeDeploymentSpec'', sim1)
                | Some cds \<Rightarrow>
                    (case cds_ChaincodeSpec cds of
                       None \<Rightarrow> Panic
                     | Some spec \<Rightarrow>
                         (case cs_ChaincodeId spec of
                            None \<Rightarrow> Panic
                          | Some ccid \<Rightarrow>
                              if su_IsSysCC su (ccid_Name ccid)
                              then Return (Inl ''attempting to deploy a system chaincode'', sim1)
                              else if cds_CodePackage cds \<noteq> []
                              then Return (Inl ''lscc upgrade/deploy should not include a code packages'', sim1)
                              else (case su_ExecuteLegacyInit su (ccid_Name ccid) (ccid_Version ccid) sim1 of
                                      (Some err, sim2) \<Rightarrow> Return (Inl err, sim2)
                                    | (None, sim2) \<Rightarrow> Return (Inr (res, ccevent), sim2))))))"

text \<open>Private data is assembled with its configurations and handed to the distributor.\<close>

definition distribute_private ::
    "('s, 'p) Support \<Rightarrow> string \<Rightarrow> string \<Rightarrow> string \<Rightarrow> NsPvtReadWriteSet list \<Rightarrow> string option" where
  "distribute_private su channelID txID chaincodeName pvt =
     (if chaincodeName = ''lscc'' then Some ''Private data is forbidden to be used in instantiate''
      else (case AssemblePvtRWSet (su_AllCollectionsConfigPkg su channelID) pvt of
              Inl err \<Rightarrow> Some (''failed to obtain collections config: '' @ err)
            | Inr configs \<Rightarrow>
                (case su_GetLedgerHeight su channelID of
                   Inl err \<Rightarrow> Some err
                 | Inr endorsedAt \<Rightarrow> su_DistributePrivateData su channelID txID configs endorsedAt)))"

record 'p simulated =
  sd_res :: Response
  sd_results :: "bytes option"
  sd_event :: "ChaincodeEvent option"
  sd_interest :: "'p ChaincodeCall list option"

definition simulateProposal ::
    "prop_codec \<Rightarrow> ('s, 'p) Support \<Rightarrow> string \<Rightarrow> string \<Rightarrow> string \<Rightarrow> ChaincodeInput \<Rightarrow> 's option \<Rightarrow>
     ((string + 'p simulated) \<times> 's option) go" where
  "simulateProposal pc su channelID txID chaincodeName input sim =
     go_bind (callChaincode pc su chaincodeName input sim) (\<lambda>(r, sim1).
       case r of
         Inl err \<Rightarrow> Return (Inl err, sim1)
       | Inr (res, ccevent) \<Rightarrow>
           (case sim1 of
              None \<Rightarrow> Return (Inr \<lparr>sd_res = res, sd_results = None, sd_event = ccevent, sd_interest = None\<rparr>, None)
            | Some s1 \<Rightarrow>
                (case su_GetTxSimulationResults su s1 of
                   (Inl err, s2) \<Rightarrow> Return (Inl err, Some s2)
                 | (Inr simResult, s2) \<Rightarrow>
                     (case (case sim_Pvt simResult of
                              None \<Rightarrow> None
                            | Some pvt \<Rightarrow> distribute_private su channelID txID chaincodeName pvt) of
                        Some err \<Rightarrow> Return (Inl err, Some s2)
                      | None \<Rightarrow>
                          (case buildChaincodeInterest (su_UnmarshalPolicy su) (su_IsSysCC su) (su_interestOrder su) simResult of
                             Inl _ \<Rightarrow> Return (Inl ''error unmarshalling SignaturePolicyEnvelope'', Some s2)
                           | Inr ccInterest \<Rightarrow>
                               (case su_GetPubSimulationBytes su simResult of
                                  Inl err \<Rightarrow> Return (Inl err, Some s2)
                                | Inr pubSimResBytes \<Rightarrow>
                                    Return (Inr \<lparr>sd_res = res, sd_results = Some pubSimResBytes, sd_event = ccevent,
                                              sd_interest = Some ccInterest\<rparr>, Some s2)))))))"

section \<open>The shard\<close>

definition verifyProof :: "PrepareProof option \<Rightarrow> bool" where
  "verifyProof proof =
     (case proof of
        None \<Rightarrow> False
      | Some p \<Rightarrow>
          if pf_TxID p = [] \<or> pf_ShardID p = [] then False
          else pf_Signature p = pf_ShardID p @ '':'' @ show_nat (unat (pf_CommitIndex p)) @ '':'' @ pf_TxID p)"

text \<open>
  The surroundings of one endorsement: those of the shard manager, the clock, whether the shard
  takes the request before the timeout, and the proof read from the commit channel before it
  (\<^term>\<open>None\<close> is the timeout).
\<close>

record endorse_env =
  ee_node :: node_env
  ee_now :: time
  ee_submitted :: bool
  ee_proof :: "PrepareProof option"

datatype endorse_error =
  SimulatorError string
| HistoryError string
| NotDefined string
| SimulationError string
| ResultsError string
| SubmitTimeout
| ProofTimeout
| InvalidProof
| EventError string
| PayloadError string
| PluginError string

record effects =
  ef_manager :: ShardManager
  ef_submitted :: "PrepareRequest option"
  ef_aborted :: "string option"

text \<open>
  The exchange with the shard: the request carries every key the transaction reads or writes as
  a write.  The maps handed over are finite, so the request holds a finite map with the same
  entries.
\<close>

definition prepare_request :: "time \<Rightarrow> string \<Rightarrow> string \<Rightarrow> dependencies \<Rightarrow> PrepareRequest" where
  "prepare_request now txID contractName deps =
     \<lparr>pr_TxID = txID, pr_ShardID = contractName, pr_ReadSet = fmempty,
      pr_WriteSet = fmap_of_list (map (\<lambda>k. (k, deps k)) (sorted_list_of_set (dom deps))), pr_Timestamp = now\<rparr>"

definition resolve_dependencies ::
    "endorse_env \<Rightarrow> string \<Rightarrow> string \<Rightarrow> dependencies \<Rightarrow> ShardManager \<Rightarrow>
     ((endorse_error + PrepareProof) \<times> effects) go" where
  "resolve_dependencies env txID contractName deps sm =
     go_bind (GetOrCreateShard (ee_node env) contractName sm) (\<lambda>(shard, sm1).
       let prepareReq = prepare_request (ee_now env) txID contractName deps
       in if \<not> ee_submitted env
          then Return (Inl SubmitTimeout, \<lparr>ef_manager = sm1, ef_submitted = None, ef_aborted = None\<rparr>)
          else
            (let sm2 = sm1\<lparr>sm_shards := (sm_shards sm1)(contractName \<mapsto>
                         shard\<lparr>sl_proposeC := sl_proposeC shard @ [prepareReq]\<rparr>)\<rparr>
             in case ee_proof env of
                  None \<Rightarrow> Return (Inl ProofTimeout, \<lparr>ef_manager = sm2, ef_submitted = Some prepareReq, ef_aborted = Some txID\<rparr>)
                | Some proof \<Rightarrow>
                    if \<not> verifyProof (Some proof)
                    then Return (Inl InvalidProof, \<lparr>ef_manager = sm2, ef_submitted = Some prepareReq, ef_aborted = Some txID\<rparr>)
                    else Return (Inr proof, \<lparr>ef_manager = sm2, ef_submitted = Some prepareReq, ef_aborted = None\<rparr>)))"

section \<open>The response\<close>

definition GetBytesProposalResponsePayload ::
    "('s, 'p) Support \<Rightarrow> bytes \<Rightarrow> Response \<Rightarrow> bytes option \<Rightarrow> bytes option \<Rightarrow> ChaincodeID \<Rightarrow> string + bytes" where
  "GetBytesProposalResponsePayload su hash response result event ccid =
     (case su_MarshalAction su result response event ccid of
        Inl err \<Rightarrow> Inl err
      | Inr cActBytes \<Rightarrow> su_MarshalResponsePayload su cActBytes hash)"

definition bare_response :: "Response \<Rightarrow> 'p ProposalResponse" where
  "bare_response res = \<lparr>rsp_Version = 0, rsp_Response = Some res, rsp_Payload = None, rsp_Endorsement = None,
     rsp_Interest = None\<rparr>"

definition endorse_result ::
    "('s, 'p) Support \<Rightarrow> UnpackedProposal \<Rightarrow> ChaincodeEndorsementInfo \<Rightarrow> 'p simulated \<Rightarrow> PrepareProof \<Rightarrow>
     endorse_error + 'p ProposalResponse" where
  "endorse_result su up cdLedger sd proof =
     (let hasDependency = pf_CommitIndex proof > 1; dependentTxID = []; res = sd_res sd
      in case CreateCCEventBytes su (sd_event sd) of
           Inl err \<Rightarrow> Inl (EventError err)
         | Inr cceventBytes \<Rightarrow>
             (case GetBytesProposalResponsePayload su (up_ProposalHash up) res (sd_results sd) cceventBytes
                     \<lparr>ccid_Name = up_ChaincodeName up, ccid_Version = cei_Version cdLedger\<rparr> of
                Inl err \<Rightarrow> Inl (PayloadError err)
              | Inr prpBytes \<Rightarrow>
                  if resp_Status res \<ge> shim_ERROR
                  then Inr ((bare_response res)\<lparr>rsp_Payload := Some prpBytes, rsp_Interest := sd_interest sd\<rparr>)
                  else if ChannelID up = [] then Inr (bare_response res)
                  else if resp_Status res \<ge> shim_ERRORTHRESHOLD then Inr (bare_response res)
                  else (case su_EndorseWithPlugin su (cei_EndorsementPlugin cdLedger) (ChannelID up) prpBytes
                               (up_SignedProposal up) of
                          Inl err \<Rightarrow> Inl (PluginError err)
                        | Inr (endorsement, mPrpBytes) \<Rightarrow>
                            Inr \<lparr>rsp_Version = 1,
                              rsp_Response = Some (res\<lparr>resp_Message := endorsement_message (resp_Message res) hasDependency
                                dependentTxID (uint (pf_CommitIndex proof)) (uint (pf_Term proof))\<rparr>),
                              rsp_Payload = Some mPrpBytes, rsp_Endorsement = Some endorsement,
                              rsp_Interest = sd_interest sd\<rparr>)))"

text \<open>Acquiring the simulator: \<^term>\<open>None\<close> for proposals that run without one.\<close>

definition acquire_simulator :: "('s, 'p) Support \<Rightarrow> UnpackedProposal \<Rightarrow> endorse_error + 's option" where
  "acquire_simulator su up =
     (if \<not> acquireTxSimulator (ChannelID up) (up_ChaincodeName up) then Inr None
      else (case su_GetTxSimulator su (ChannelID up) (TxID up) of
              Inl err \<Rightarrow> Inl (SimulatorError err)
            | Inr txSim \<Rightarrow>
                (case su_GetHistoryQueryExecutor su (ChannelID up) of
                   Some err \<Rightarrow> Inl (HistoryError err)
                 | None \<Rightarrow> Inr (Some txSim))))"

text \<open>
  The whole path. The results of the simulation are fetched a second time after
  \<open>simulateProposal\<close>, from a simulator that is nil where none was acquired.
\<close>

definition ProcessProposalSuccessfullyOrError ::
    "codec \<Rightarrow> prop_codec \<Rightarrow> ('s, 'p) Support \<Rightarrow> endorse_env \<Rightarrow> UnpackedProposal \<Rightarrow> ShardManager \<Rightarrow>
     ((endorse_error + 'p ProposalResponse) \<times> effects) go" where
  "ProcessProposalSuccessfullyOrError cd pc su env up sm =
     (let idle = \<lparr>ef_manager = sm, ef_submitted = None, ef_aborted = None\<rparr>
      in case acquire_simulator su up of
           Inl err \<Rightarrow> Return (Inl err, idle)
         | Inr sim \<Rightarrow>
             (case su_ChaincodeEndorsementInfo su (ChannelID up) (up_ChaincodeName up) sim of
                Inl err \<Rightarrow> Return (Inl (NotDefined err), idle)
              | Inr cdLedger \<Rightarrow>
                  go_bind (simulateProposal pc su (ChannelID up) (TxID up) (up_ChaincodeName up) (up_Input up) sim)
                    (\<lambda>(r, sim1).
                       case r of
                         Inl err \<Rightarrow> Return (Inl (SimulationError err), idle)
                       | Inr sd \<Rightarrow>
                           if resp_Status (sd_res sd) \<ge> shim_ERROR then Return (Inr (bare_response (sd_res sd)), idle)
                           else (case sim1 of
                                   None \<Rightarrow> Panic
                                 | Some s1 \<Rightarrow>
                                     (case su_GetTxSimulationResults su s1 of
                                        (Inl err, _) \<Rightarrow> Return (Inl (ResultsError err), idle)
                                      | (Inr simResults, _) \<Rightarrow>
                                          go_bind (resolve_dependencies env (TxID up) (up_ChaincodeName up)
                                                     (extractTransactionDependencies cd (su_IsSysCC su) simResults) sm)
                                            (\<lambda>(p, ef).
                                               case p of
                                                 Inl err \<Rightarrow> Return (Inl err, ef)
                                               | Inr proof \<Rightarrow> Return (endorse_result su up cdLedger sd proof, ef)))))))"

section \<open>Checks before\<close>

datatype process_error =
  InvalidProposal prop_error
| DuplicateTransaction string
| ACLFailed string

definition preProcess ::
    "prop_codec \<Rightarrow> ('s, 'p) Support \<Rightarrow> (bytes \<Rightarrow> Identity option) \<Rightarrow> UnpackedProposal \<Rightarrow> process_error option" where
  "preProcess pc su deserializeIdentity up =
     (case Validate pc deserializeIdentity up of
        Some err \<Rightarrow> Some (InvalidProposal err)
      | None \<Rightarrow>
          if ChannelID up = [] then None
          else if su_GetTransactionByID su (ChannelID up) (TxID up) then Some (DuplicateTransaction (TxID up))
          else if \<not> su_IsSysCC su (up_ChaincodeName up)
          then map_option ACLFailed (su_CheckACL su (ChannelID up) (up_SignedProposal up))
          else None)"

text \<open>
  The answer to the client: the response and whether the call itself returns an error.  The
  texts of the messages are left out: a failed response has status 500.
\<close>

datatype 'p answer =
  Refused process_error
| NoChannel string
| Failed endorse_error
| Answered "'p ProposalResponse"

definition ProcessProposal ::
    "codec \<Rightarrow> prop_codec \<Rightarrow> ('s, 'p) Support \<Rightarrow> (string \<rightharpoonup> (bytes \<Rightarrow> Identity option)) \<Rightarrow> (bytes \<Rightarrow> Identity option) \<Rightarrow>
     endorse_env \<Rightarrow> SignedProposal \<Rightarrow> ShardManager \<Rightarrow> ('p answer \<times> effects) go" where
  "ProcessProposal cd pc su channels localMSP env signedProp sm =
     (let idle = \<lparr>ef_manager = sm, ef_submitted = None, ef_aborted = None\<rparr>
      in case UnpackProposal pc signedProp of
           Inl err \<Rightarrow> Return (Refused (InvalidProposal err), idle)
         | Inr up \<Rightarrow>
             (case (if ChannelID up \<noteq> [] then channels (ChannelID up) else Some localMSP) of
                None \<Rightarrow> Return (NoChannel (ChannelID up), idle)
              | Some deserializer \<Rightarrow>
                  (case preProcess pc su deserializer up of
                     Some err \<Rightarrow> Return (Refused err, idle)
                   | None \<Rightarrow>
                       go_bind (ProcessProposalSuccessfullyOrError cd pc su env up sm)
                         (\<lambda>(r, ef). case r of
                                      Inl err \<Rightarrow> Return (Failed err, ef)
                                    | Inr pResp \<Rightarrow> Return (Answered pResp, ef)))))"

section \<open>Lemmas on the path\<close>

lemma simulateProposal_computed:
  assumes "su_GetTxSimulationResults su = GetTxSimulationResults"
    and "simulateProposal pc su ch tx cc input sim = Return (Inr sd, Some s)"
  shows "ts_simulationResultsComputed s"
proof -
  obtain r sim1 where c: "callChaincode pc su cc input sim = Return (r, sim1)"
    using assms(2) by (auto simp: simulateProposal_def go_bind_Return_iff)
  then obtain res ev s1 where r: "r = Inr (res, ev)" "sim1 = Some s1"
    using assms(2) by (auto simp: simulateProposal_def split: sum.split_asm option.split_asm prod.split_asm)
  obtain q s2 where q: "GetTxSimulationResults s1 = (q, s2)" by fastforce
  have "s = s2" using assms c r q
    by (auto simp: simulateProposal_def split: sum.split_asm option.split_asm prod.split_asm)
  then show ?thesis using q
    by (auto simp: GetTxSimulationResults_def Let_def split: if_split_asm option.split_asm)
qed

lemma process_stages:
  assumes "ProcessProposalSuccessfullyOrError cd pc su env up sm = Return (Inr rsp, ef)"
  shows "(\<exists>res. rsp = bare_response res \<and> shim_ERROR \<le> resp_Status res \<and> ef_submitted ef = None) \<or>
    (\<exists>sim s1 s2 cdLedger sd results proof.
       simulateProposal pc su (ChannelID up) (TxID up) (up_ChaincodeName up) (up_Input up) sim = Return (Inr sd, Some s1) \<and>
       su_GetTxSimulationResults su s1 = (Inr results, s2) \<and>
       resolve_dependencies env (TxID up) (up_ChaincodeName up)
         (extractTransactionDependencies cd (su_IsSysCC su) results) sm = Return (Inr proof, ef) \<and>
       endorse_result su up cdLedger sd proof = Inr rsp)"
proof -
  obtain sim where sim: "acquire_simulator su up = Inr sim"
    using assms by (auto simp: ProcessProposalSuccessfullyOrError_def Let_def split: sum.split_asm)
  obtain cdl where cdl: "su_ChaincodeEndorsementInfo su (ChannelID up) (up_ChaincodeName up) sim = Inr cdl"
    using assms sim by (auto simp: ProcessProposalSuccessfullyOrError_def Let_def split: sum.split_asm)
  obtain x sim1 where x: "simulateProposal pc su (ChannelID up) (TxID up) (up_ChaincodeName up) (up_Input up) sim =
      Return (x, sim1)"
    using assms sim cdl by (auto simp: ProcessProposalSuccessfullyOrError_def Let_def go_bind_Return_iff)
  then obtain sd where sd: "simulateProposal pc su (ChannelID up) (TxID up) (up_ChaincodeName up) (up_Input up) sim =
      Return (Inr sd, sim1)"
    using assms sim cdl by (cases x) (auto simp: ProcessProposalSuccessfullyOrError_def Let_def)
  show ?thesis
  proof (cases "resp_Status (sd_res sd) \<ge> shim_ERROR")
    case True
    then show ?thesis using assms sim cdl sd
      by (auto simp: ProcessProposalSuccessfullyOrError_def Let_def)
  next
    case False
    then obtain s1 results s2 where s1: "sim1 = Some s1" "su_GetTxSimulationResults su s1 = (Inr results, s2)"
      using assms sim cdl sd
      by (auto simp: ProcessProposalSuccessfullyOrError_def Let_def split: option.split_asm prod.split_asm sum.split_asm)
    then obtain p ef' where p: "resolve_dependencies env (TxID up) (up_ChaincodeName up)
         (extractTransactionDependencies cd (su_IsSysCC su) results) sm = Return (p, ef')"
      using assms sim cdl sd False
      by (auto simp: ProcessProposalSuccessfullyOrError_def Let_def go_bind_Return_iff)
    then obtain pf where "p = Inr pf" "ef' = ef" "endorse_result su up cdl sd pf = Inr rsp"
      using assms sim cdl sd False s1
      by (auto simp: ProcessProposalSuccessfullyOrError_def Let_def split: sum.split_asm)
    then show ?thesis using sd s1 p by blast
  qed
qed

lemma endorse_result_message:
  assumes "endorse_result su up cdl sd proof = Inr rsp" "rsp_Endorsement rsp \<noteq> None"
  shows "\<exists>res. rsp_Response rsp = Some res \<and>
    resp_Message res = endorsement_message (resp_Message (sd_res sd)) (pf_CommitIndex proof > 1) []
      (uint (pf_CommitIndex proof)) (uint (pf_Term proof))"
  using assms
  by (auto simp: endorse_result_def Let_def bare_response_def split: sum.split_asm if_split_asm)

section \<open>Properties\<close>

text \<open>C9: with the simulator of the ledger no proposal is ever endorsed. The results of a simulation can
  be fetched only once, and the endorser fetches them twice: whatever the peer and the shards
  do, an answer that is not an error is the bare response of a chaincode that failed with
  status 500 or more, without endorsement, and nothing has been submitted to a shard.\<close>

theorem ledger_simulator_never_endorses:
  assumes "su_GetTxSimulationResults su = GetTxSimulationResults"
    and "ProcessProposalSuccessfullyOrError cd pc su env up sm = Return (Inr rsp, ef)"
  shows "rsp_Endorsement rsp = None \<and> ef_submitted ef = None \<and>
    (\<exists>res. rsp_Response rsp = Some res \<and> 500 \<le> resp_Status res)"
proof -
  have "\<not> (\<exists>sim s1 s2 sd results.
      simulateProposal pc su (ChannelID up) (TxID up) (up_ChaincodeName up) (up_Input up) sim = Return (Inr sd, Some s1) \<and>
      su_GetTxSimulationResults su s1 = (Inr results, s2))"
    using simulateProposal_computed [OF assms(1)] by (auto simp: assms(1) GetTxSimulationResults_def)
  then obtain res where "rsp = bare_response res" "shim_ERROR \<le> resp_Status res" "ef_submitted ef = None"
    using process_stages [OF assms(2)] by blast
  then show ?thesis by (simp add: bare_response_def shim_ERROR_def)
qed

text \<open>C29: proposals without a simulator crash the endorser. For a proposal without a channel, or for
  the query and configuration chaincodes, a chaincode that succeeds is followed by a
  dereference of the simulator that was never acquired.\<close>

theorem no_simulator_panics:
  assumes "\<not> acquireTxSimulator (ChannelID up) (up_ChaincodeName up)"
    and "su_ChaincodeEndorsementInfo su (ChannelID up) (up_ChaincodeName up) None = Inr cdl"
    and "simulateProposal pc su (ChannelID up) (TxID up) (up_ChaincodeName up) (up_Input up) None = Return (Inr sd, None)"
    and "resp_Status (sd_res sd) < 500"
  shows "ProcessProposalSuccessfullyOrError cd pc su env up sm = Panic"
  using assms by (simp add: ProcessProposalSuccessfullyOrError_def acquire_simulator_def shim_ERROR_def Let_def)



text \<open>C13: nothing happens for an unchecked proposal. When \<open>ProcessProposal\<close> submits a request to a
  shard or answers with the result of a chaincode, the proposal unpacked and validated against
  the channel's identities, and on a channel its transaction was new and the access check of
  its chaincode, unless it is a system chaincode, had passed.\<close>

theorem processed_proposal_checked:
  assumes "ProcessProposal cd pc su channels localMSP env signedProp sm = Return (a, ef)"
    and "ef_submitted ef \<noteq> None \<or> (\<exists>rsp. a = Answered rsp)"
  shows "\<exists>up ident. UnpackProposal pc signedProp = Inr up \<and>
    (if ChannelID up \<noteq> [] then channels (ChannelID up) = Some ident else ident = localMSP) \<and>
    Validate pc ident up = None \<and>
    (ChannelID up \<noteq> [] \<longrightarrow> \<not> su_GetTransactionByID su (ChannelID up) (TxID up) \<and>
       (su_IsSysCC su (up_ChaincodeName up) \<or> su_CheckACL su (ChannelID up) (up_SignedProposal up) = None))"
proof -
  obtain up where up: "UnpackProposal pc signedProp = Inr up"
    using assms by (auto simp: ProcessProposal_def Let_def split: sum.split_asm)
  obtain ident where i: "(if ChannelID up \<noteq> [] then channels (ChannelID up) else Some localMSP) = Some ident"
    using assms up by (auto simp: ProcessProposal_def Let_def split: option.split_asm)
  have pre: "preProcess pc su ident up = None"
    using assms up i by (auto simp: ProcessProposal_def Let_def split: option.split_asm)
  have v: "Validate pc ident up = None"
    "ChannelID up \<noteq> [] \<Longrightarrow> \<not> su_GetTransactionByID su (ChannelID up) (TxID up) \<and>
       (su_IsSysCC su (up_ChaincodeName up) \<or> su_CheckACL su (ChannelID up) (up_SignedProposal up) = None)"
    using pre by (auto simp: preProcess_def split: option.split_asm if_split_asm)
  show ?thesis using up i v by (intro exI [of _ up] exI [of _ ident]) (auto split: if_split_asm)
qed

section \<open>An endorsement\<close>

text \<open>A peer on which a chaincode answers with a given status, over a simulator \<open>s\<close> read by \<open>get\<close>.\<close>

definition sample_support ::
    "int \<Rightarrow> 's \<Rightarrow> ('s \<Rightarrow> (string + TxSimulationResults) \<times> 's) \<Rightarrow> ('s, unit) Support" where
  "sample_support status s get = \<lparr>su_GetTxSimulator = (\<lambda>_ _. Inr s), su_GetHistoryQueryExecutor = (\<lambda>_. None),
     su_GetTransactionByID = (\<lambda>_ _. False), su_IsSysCC = (\<lambda>_. False),
     su_Execute = (\<lambda>_ _ sim. (Inr (\<lparr>resp_Status = status, resp_Message = ''OK'', resp_Payload = []\<rparr>, None), sim)),
     su_ExecuteLegacyInit = (\<lambda>_ _ sim. (None, sim)),
     su_ChaincodeEndorsementInfo = (\<lambda>_ _ _. Inr \<lparr>cei_Version = ''1'', cei_EndorsementPlugin = ''escc''\<rparr>),
     su_CheckACL = (\<lambda>_ _. None),
     su_EndorseWithPlugin = (\<lambda>_ _ b _. Inr (\<lparr>eds_Endorser = ''peer'', eds_Signature = ''s''\<rparr>, b)),
     su_GetLedgerHeight = (\<lambda>_. Inr 7), su_AllCollectionsConfigPkg = (\<lambda>_ _. Inr None),
     su_DistributePrivateData = (\<lambda>_ _ _ _. None), su_GetTxSimulationResults = get,
     su_GetPubSimulationBytes = (\<lambda>_. Inr ''results''), su_MarshalEvent = (\<lambda>_. Inr ''event''),
     su_MarshalAction = (\<lambda>_ _ _ _. Inr ''action''), su_MarshalResponsePayload = (\<lambda>_ _. Inr ''payload''),
     su_UnmarshalPolicy = (\<lambda>_. None), su_interestOrder = (\<lambda>_. [(''cc'', [[]]), (''dd'', [''coll''])])\<rparr>"

definition null_codec :: codec where
  "null_codec = \<lparr>un_Envelope = (\<lambda>_. None), un_Payload = (\<lambda>_. None), un_ChannelHeader = (\<lambda>_. None),
     un_Transaction = (\<lambda>_. None), un_ChaincodeAction = (\<lambda>_. None), un_TxReadWriteSet = (\<lambda>_. None),
     un_KVRWSet = (\<lambda>_. None), un_HashedRWSet = (\<lambda>_. None)\<rparr>"

definition other_proof :: PrepareProof where
  "other_proof = \<lparr>pf_TxID = ''other'', pf_ShardID = ''mycc'', pf_CommitIndex = 5, pf_LeaderID = 1,
     pf_Signature = signProof ''mycc'' ''other'' 5, pf_Term = 2\<rparr>"

definition answering_env :: endorse_env where
  "answering_env = \<lparr>ee_node = sample_env, ee_now = 0, ee_submitted = True, ee_proof = Some other_proof\<rparr>"

definition sample_up :: UnpackedProposal where
  "sample_up = (case UnpackProposal sample_pc sample_signed of Inr up \<Rightarrow> up | Inl _ \<Rightarrow> undefined)"

lemma sample_up_facts [simp]:
  "UnpackProposal sample_pc sample_signed = Inr sample_up" "Validate sample_pc sample_ident sample_up = None"
  "up_ChaincodeName sample_up = ''mycc''" "ChannelID sample_up = ''mych''"
  "up_Input sample_up = \<lparr>ci_Args = [''get'', ''k'']\<rparr>"
  using sample_unpacks by (auto simp: sample_up_def)

lemma sample_shard: "\<exists>shard sm1. GetOrCreateShard sample_env c no_shards = Return (shard, sm1)"
  by (simp add: GetOrCreateShard_def create_shard_def no_shards_def NewShardLeader_def sample_env_def
      DefaultBatchMaxSize_def Let_def)

lemma sample_simulates:
  assumes "get s = (Inr sample_sim, s')" "400 > status"
  shows "\<exists>sd. simulateProposal sample_pc (sample_support status s get) ch tx ''mycc'' \<lparr>ci_Args = [''get'', ''k'']\<rparr> (Some s) =
    Return (Inr sd, Some s') \<and> sd_res sd = \<lparr>resp_Status = status, resp_Message = ''OK'', resp_Payload = []\<rparr> \<and> sd_event sd = None"
  using assms
  by (simp add: simulateProposal_def callChaincode_def sample_support_def legacy_deploy_def shim_ERRORTHRESHOLD_def
      buildChaincodeInterest_def interest_policies_def parseWritesetMetadata_def sample_sim_def Let_def)

lemma sample_resolves:
  "\<exists>ef. resolve_dependencies answering_env txID contract deps no_shards = Return (Inr other_proof, ef)"
proof -
  obtain shard sm1 where "GetOrCreateShard sample_env contract no_shards = Return (shard, sm1)"
    using sample_shard by blast
  then show ?thesis
    by (simp add: resolve_dependencies_def answering_env_def verifyProof_def other_proof_def signProof_def Let_def)
qed

lemma sample_endorses:
  "\<exists>rsp ef e. ProcessProposalSuccessfullyOrError null_codec sample_pc
       (sample_support 200 () (\<lambda>s. (Inr sample_sim, s))) answering_env sample_up no_shards = Return (Inr rsp, ef) \<and>
     rsp_Endorsement rsp = Some e"
proof -
  let ?su = "sample_support 200 () (\<lambda>s. (Inr sample_sim, s))"
  obtain sd where sd: "simulateProposal sample_pc ?su (ChannelID sample_up) (TxID sample_up) (up_ChaincodeName sample_up)
      (up_Input sample_up) (Some ()) = Return (Inr sd, Some ())"
    "sd_res sd = \<lparr>resp_Status = 200, resp_Message = ''OK'', resp_Payload = []\<rparr>" "sd_event sd = None"
    using sample_simulates [of "\<lambda>s. (Inr sample_sim, s)" "()" "()" 200] by auto
  obtain ef where ef: "resolve_dependencies answering_env (TxID sample_up) (up_ChaincodeName sample_up)
      (extractTransactionDependencies null_codec (su_IsSysCC ?su) sample_sim) no_shards = Return (Inr other_proof, ef)"
    using sample_resolves by blast
  have "acquire_simulator ?su sample_up = Inr (Some ())"
    by (simp add: acquire_simulator_def acquireTxSimulator_def sample_support_def)
  moreover have "su_ChaincodeEndorsementInfo ?su c n x = Inr \<lparr>cei_Version = ''1'', cei_EndorsementPlugin = ''escc''\<rparr>"
    "su_GetTxSimulationResults ?su () = (Inr sample_sim, ())" for c n x
    by (simp_all add: sample_support_def)
  ultimately show ?thesis using sd ef
    by (simp add: ProcessProposalSuccessfullyOrError_def shim_ERROR_def Let_def endorse_result_def CreateCCEventBytes_def
        GetBytesProposalResponsePayload_def shim_ERRORTHRESHOLD_def sample_support_def)
qed

definition ledger_sim :: txSimulator where
  "ledger_sim = \<lparr>ts_simulationResultsComputed = False, ts_err = None, ts_built = Inr sample_sim\<rparr>"

theorem ledger_simulator_never_endorses_witness:
  "\<exists>rsp ef. ProcessProposalSuccessfullyOrError null_codec sample_pc
       (sample_support 503 ledger_sim GetTxSimulationResults) answering_env sample_up no_shards = Return (Inr rsp, ef) \<and>
     rsp_Endorsement rsp = None \<and> ef_submitted ef = None"
proof -
  let ?su = "sample_support 503 ledger_sim GetTxSimulationResults"
  have "\<exists>rsp ef. ProcessProposalSuccessfullyOrError null_codec sample_pc ?su answering_env sample_up no_shards =
      Return (Inr rsp, ef)"
    by (simp add: ProcessProposalSuccessfullyOrError_def acquire_simulator_def acquireTxSimulator_def
        simulateProposal_def callChaincode_def sample_support_def legacy_deploy_def shim_ERRORTHRESHOLD_def shim_ERROR_def
        ledger_sim_def GetTxSimulationResults_def buildChaincodeInterest_def interest_policies_def
        parseWritesetMetadata_def sample_sim_def Let_def)
  then obtain rsp ef where r: "ProcessProposalSuccessfullyOrError null_codec sample_pc ?su answering_env sample_up no_shards =
      Return (Inr rsp, ef)" by blast
  have "su_GetTxSimulationResults ?su = GetTxSimulationResults" by (simp add: sample_support_def)
  from ledger_simulator_never_endorses [OF this r] r show ?thesis by blast
qed

theorem no_simulator_panics_witness:
  "ProcessProposalSuccessfullyOrError null_codec sample_pc (sample_support 200 () (\<lambda>s. (Inr sample_sim, s))) answering_env
     (sample_up\<lparr>up_ChaincodeName := ''qscc''\<rparr>) no_shards = Panic"
proof -
  let ?su = "sample_support 200 () (\<lambda>s. (Inr sample_sim, s))" and ?up = "sample_up\<lparr>up_ChaincodeName := ''qscc''\<rparr>"
  have ch: "ChannelID ?up = ''mych''" using sample_up_facts(4) by (simp add: ChannelID_def)
  show ?thesis
    by (rule no_simulator_panics [where sd = "\<lparr>sd_res = \<lparr>resp_Status = 200, resp_Message = ''OK'', resp_Payload = []\<rparr>,
          sd_results = None, sd_event = None, sd_interest = None\<rparr>"
        and cdl = "\<lparr>cei_Version = ''1'', cei_EndorsementPlugin = ''escc''\<rparr>"])
      (simp_all add: acquireTxSimulator_def ch sample_support_def simulateProposal_def callChaincode_def legacy_deploy_def
        shim_ERRORTHRESHOLD_def)
qed



theorem processed_proposal_checked_witness:
  "\<exists>a ef. ProcessProposal null_codec sample_pc (sample_support 200 () (\<lambda>s. (Inr sample_sim, s))) [''mych'' \<mapsto> sample_ident]
       (\<lambda>_. None) answering_env sample_signed no_shards = Return (a, ef) \<and> (\<exists>rsp. a = Answered rsp) \<and>
     Validate sample_pc sample_ident sample_up = None"
proof -
  let ?su = "sample_support 200 () (\<lambda>s. (Inr sample_sim, s))"
  obtain rsp ef where r: "ProcessProposalSuccessfullyOrError null_codec sample_pc ?su answering_env sample_up no_shards =
      Return (Inr rsp, ef)" using sample_endorses by blast
  have "preProcess sample_pc ?su sample_ident sample_up = None"
    by (simp add: preProcess_def sample_support_def)
  then have p: "ProcessProposal null_codec sample_pc ?su [''mych'' \<mapsto> sample_ident] (\<lambda>_. None) answering_env
      sample_signed no_shards = Return (Answered rsp, ef)"
    using r by (simp add: ProcessProposal_def Let_def)
  have "\<exists>up ident. UnpackProposal sample_pc sample_signed = Inr up \<and>
      (if ChannelID up \<noteq> [] then [''mych'' \<mapsto> sample_ident] (ChannelID up) = Some ident else ident = (\<lambda>_. None)) \<and>
      Validate sample_pc ident up = None"
    using processed_proposal_checked [OF p] by blast
  then show ?thesis using p by auto
qed

end
