(* ===== verification/Version_Height.thy ===== *)
theory Version_Height
  imports Prelude "HOL-Library.List_Lexorder" "HOL-Library.Char_ord"
begin

text \<open>
  Heights of transactions (\<^verbatim>\<open>core/ledger/internal/version/version.go\<close>) and the order-preserving
  encoding of numbers (\<^verbatim>\<open>common/ledger/util/util.go\<close>) they are stored in.  Numbers keep their
  64 bits; \<open>int(x)\<close> of an unsigned number is its two's complement reading.
\<close>

section \<open>Numbers as bytes\<close>

fun be_bytes :: "nat \<Rightarrow> nat \<Rightarrow> bytes" where
  "be_bytes 0 n = []"
| "be_bytes (Suc k) n = be_bytes k (n div 256) @ [char_of (n mod 256)]"

definition be_val :: "bytes \<Rightarrow> nat" where
  "be_val bs = foldl (\<lambda>a c. a * 256 + of_char c) 0 bs"

text \<open>\<open>proto.EncodeVarint\<close> and \<open>proto.DecodeVarint\<close>; a decoding error is \<^term>\<open>(0 :: nat, 0 :: nat)\<close>.\<close>

fun EncodeVarint :: "nat \<Rightarrow> bytes" where
  "EncodeVarint n = (if n < 128 then [char_of n] else char_of (n mod 128 + 128) # EncodeVarint (n div 128))"

declare EncodeVarint.simps [simp del]

fun consume_varint :: "nat \<Rightarrow> nat \<Rightarrow> bytes \<Rightarrow> (nat \<times> nat) option" where
  "consume_varint i v [] = None"
| "consume_varint i v (c # bs) =
     (let y = of_char c in
      if i = 9 then (if y < 2 then Some (v + y * 2 ^ 63, 10) else None)
      else if y < 128 then Some (v + y * 2 ^ (7 * i), Suc i)
      else consume_varint (Suc i) (v + (y - 128) * 2 ^ (7 * i)) bs)"

definition DecodeVarint :: "bytes \<Rightarrow> nat \<times> nat" where
  "DecodeVarint bs = (case consume_varint 0 0 bs of None \<Rightarrow> (0, 0) | Some r \<Rightarrow> r)"

definition EncodeOrderPreservingVarUint64 :: "u64 \<Rightarrow> bytes go" where
  "EncodeOrderPreservingVarUint64 number =
     (let bytes = be_bytes 8 (unat number);
          significant = dropWhile (\<lambda>b. b = CHR 0x00) bytes;
          sizeBytes = EncodeVarint (length significant)
      in if length sizeBytes > 1 then Panic else Return (hd sizeBytes # significant))"

datatype varint_error = BadLength nat | BadSize nat | TooShort nat nat

definition DecodeOrderPreservingVarUint64 :: "bytes \<Rightarrow> varint_error + u64 \<times> nat" where
  "DecodeOrderPreservingVarUint64 bytes =
     (let (s, numBytes) = DecodeVarint bytes
      in if numBytes \<noteq> 1 then Inl (BadLength numBytes)
         else if s > 8 then Inl (BadSize s)
         else if int s > int (length bytes) - 1 then Inl (TooShort s (length bytes - 1))
         else Inr (of_nat (be_val (replicate (8 - s) (CHR 0x00) @ take s (drop 1 bytes))), s + 1))"

section \<open>Heights\<close>

datatype Height = Height (BlockNum: u64) (TxNum: u64)

definition NewHeightFromBytes :: "bytes \<Rightarrow> varint_error + Height \<times> nat" where
  "NewHeightFromBytes b =
     (case DecodeOrderPreservingVarUint64 b of
        Inl err \<Rightarrow> Inl err
      | Inr (blockNum, n1) \<Rightarrow>
          (case DecodeOrderPreservingVarUint64 (drop n1 b) of
             Inl err \<Rightarrow> Inl err
           | Inr (txNum, n2) \<Rightarrow> Inr (Height blockNum txNum, n1 + n2)))"

definition ToBytes :: "Height \<Rightarrow> bytes go" where
  "ToBytes h =
     go_bind (EncodeOrderPreservingVarUint64 (BlockNum h)) (\<lambda>blockNumBytes.
       go_bind (EncodeOrderPreservingVarUint64 (TxNum h)) (\<lambda>txNumBytes. Return (blockNumBytes @ txNumBytes)))"

definition to_int :: "u64 \<Rightarrow> int" where
  "to_int w = (if uint w < 2 ^ 63 then uint w else uint w - 2 ^ 64)"

definition Compare :: "Height \<Rightarrow> Height \<Rightarrow> int" where
  "Compare h h1 =
     (if BlockNum h \<noteq> BlockNum h1 then (if to_int (BlockNum h - BlockNum h1) > 0 then 1 else - 1)
      else if TxNum h \<noteq> TxNum h1 then (if to_int (TxNum h - TxNum h1) > 0 then 1 else - 1)
      else 0)"

definition AreSame :: "Height option \<Rightarrow> Height option \<Rightarrow> bool" where
  "AreSame h1 h2 =
     (case h1 of
        None \<Rightarrow> h2 = None
      | Some a \<Rightarrow> (case h2 of None \<Rightarrow> False | Some b \<Rightarrow> Compare a b = 0))"

text \<open>Heights are ordered by block, then by transaction.\<close>

instantiation Height :: linorder
begin

definition less_Height :: "Height \<Rightarrow> Height \<Rightarrow> bool" where
  "less_Height h h1 \<longleftrightarrow> BlockNum h < BlockNum h1 \<or> BlockNum h = BlockNum h1 \<and> TxNum h < TxNum h1"

definition less_eq_Height :: "Height \<Rightarrow> Height \<Rightarrow> bool" where
  "less_eq_Height h h1 \<longleftrightarrow> BlockNum h < BlockNum h1 \<or> BlockNum h = BlockNum h1 \<and> TxNum h \<le> TxNum h1"

instance
  by intro_classes (auto simp: less_Height_def less_eq_Height_def intro: Height.expand)

end

section \<open>Bytes and values\<close>

lemma length_be_bytes [simp]: "length (be_bytes k n) = k"
  by (induction k arbitrary: n) auto

lemma be_val_append: "be_val (bs @ cs) = be_val bs * 256 ^ length cs + be_val cs"
proof (induction cs rule: rev_induct)
  case Nil
  then show ?case by (simp add: be_val_def)
next
  case (snoc c cs)
  have "be_val (xs @ [c]) = be_val xs * 256 + of_char c" for xs by (simp add: be_val_def)
  then show ?case using snoc by (simp add: algebra_simps flip: append_assoc)
qed

lemma be_val_simps [simp]: "be_val [] = 0" "be_val [c] = of_char c"
  by (simp_all add: be_val_def)

lemma be_val_Cons: "be_val (c # cs) = of_char c * 256 ^ length cs + be_val cs"
  using be_val_append [of "[c]" cs] by simp

lemma be_val_zeros [simp]: "be_val (replicate k (CHR 0x00) @ bs) = be_val bs"
  by (induction k) (simp_all add: be_val_Cons)

lemma be_val_dropWhile: "be_val (dropWhile (\<lambda>b. b = CHR 0x00) bs) = be_val bs"
  by (induction bs) (simp_all add: be_val_Cons)

lemma be_val_be_bytes: "be_val (be_bytes k n) = n mod 256 ^ k"
proof (induction k arbitrary: n)
  case (Suc k)
  have "n mod 256 ^ Suc k = 256 * (n div 256 mod 256 ^ k) + n mod 256"
    by (simp add: mod_mult2_eq)
  then show ?case using Suc by (simp add: be_val_append of_char_of)
qed simp

lemma be_val_less: "be_val bs < 256 ^ length bs"
proof (induction bs)
  case (Cons c bs)
  have "of_char c < (256 :: nat)" by (metis of_char_mod_256 mod_less_divisor zero_less_numeral)
  then have "of_char c + 1 \<le> (256 :: nat)" by linarith
  then have "(of_char c + 1) * 256 ^ length bs \<le> (256 :: nat) * 256 ^ length bs" by (rule mult_right_mono) simp
  then have "of_char c * 256 ^ length bs + 256 ^ length bs \<le> (256 :: nat) ^ length (c # bs)"
    by (simp only: add_mult_distrib mult_1 list.size power.simps add.right_neutral add_Suc_right)
  then show ?case using Cons unfolding be_val_Cons by linarith
qed simp

lemma less_same_length:
  "length bs = length cs \<Longrightarrow> bs < cs \<longleftrightarrow> be_val bs < be_val cs"
proof (induction bs cs rule: list_induct2)
  case (Cons b bs c cs)
  have bounds: "be_val bs < 256 ^ length cs" "be_val cs < 256 ^ length cs"
    using be_val_less [of bs] be_val_less [of cs] Cons.hyps by simp_all
  have step: "x * N + r < y * N + s" if "x < y" "r < N" for x y r s N :: nat
  proof -
    have "x * N + r < (x + 1) * N" using that(2) by simp
    also have "\<dots> \<le> y * N" using that(1) by (intro mult_right_mono) auto
    finally show ?thesis by simp
  qed
  show ?case
  proof (cases "b = c")
    case True
    then show ?thesis using Cons by (simp add: be_val_Cons)
  next
    case False
    then have "(of_char b :: nat) \<noteq> of_char c" by simp
    then show ?thesis using False step [of "of_char b" "of_char c"] step [of "of_char c" "of_char b"] bounds Cons.hyps
      by (cases "(of_char b :: nat) < of_char c") (auto simp: be_val_Cons less_char_def not_less_iff_gr_or_eq)
  qed
qed simp

section \<open>Encoding a number\<close>

text \<open>The significant bytes of a number.\<close>

definition sig_bytes :: "u64 \<Rightarrow> bytes" where
  "sig_bytes n = dropWhile (\<lambda>b. b = CHR 0x00) (be_bytes 8 (unat n))"

lemma sig_bytes_length: "length (sig_bytes n) \<le> 8"
  unfolding sig_bytes_def using length_dropWhile_le [of _ "be_bytes 8 (unat n)"] by simp

lemma sig_bytes_val: "be_val (sig_bytes n) = unat n"
proof -
  have "unat n < 256 ^ 8" using unsigned_less [of n, where ?'a = nat] by simp
  then show ?thesis by (simp only: sig_bytes_def be_val_dropWhile be_val_be_bytes mod_less)
qed

lemma sig_bytes_lower: "sig_bytes n \<noteq> [] \<Longrightarrow> 256 ^ (length (sig_bytes n) - 1) \<le> unat n"
proof -
  assume ne: "sig_bytes n \<noteq> []"
  then obtain c cs where c: "sig_bytes n = c # cs" by (cases "sig_bytes n") auto
  then have "c \<noteq> CHR 0x00" using hd_dropWhile [of "\<lambda>b. b = CHR 0x00" "be_bytes 8 (unat n)"] by (auto simp: sig_bytes_def)
  then have "(of_char c :: nat) \<noteq> of_char (CHR 0x00)" using of_char_eq_iff by blast
  then have "0 < (of_char c :: nat)" by simp
  then have "1 * 256 ^ length cs \<le> (of_char c :: nat) * 256 ^ length cs" by (intro mult_right_mono) auto
  also have "\<dots> \<le> unat n" unfolding sig_bytes_val [of n, symmetric] c be_val_Cons by (rule le_add1)
  finally show ?thesis using c by simp
qed

definition enc :: "u64 \<Rightarrow> bytes" where
  "enc n = char_of (length (sig_bytes n)) # sig_bytes n"

lemma Encode_eq: "EncodeOrderPreservingVarUint64 n = Return (enc n)"
proof -
  have "EncodeVarint (length (sig_bytes n)) = [char_of (length (sig_bytes n))]"
    using sig_bytes_length [of n] EncodeVarint.simps [of "length (sig_bytes n)"] by simp
  then show ?thesis by (simp add: EncodeOrderPreservingVarUint64_def enc_def sig_bytes_def Let_def)
qed

lemma Decode_enc: "DecodeOrderPreservingVarUint64 (enc n @ rest) = Inr (n, length (enc n))"
proof -
  have len: "length (sig_bytes n) \<le> 8" by (rule sig_bytes_length)
  then have "DecodeVarint (enc n @ rest) = (length (sig_bytes n), 1)"
    by (simp add: DecodeVarint_def enc_def of_char_of)
  then show ?thesis using len
    by (simp add: DecodeOrderPreservingVarUint64_def enc_def sig_bytes_val)
qed

lemma sig_length_mono: "unat n \<le> unat m \<Longrightarrow> length (sig_bytes n) \<le> length (sig_bytes m)"
proof (rule ccontr)
  assume le: "unat n \<le> unat m" and "\<not> length (sig_bytes n) \<le> length (sig_bytes m)"
  then have l: "length (sig_bytes m) \<le> length (sig_bytes n) - 1" "sig_bytes n \<noteq> []" by auto
  have "unat m < 256 ^ length (sig_bytes m)" using be_val_less [of "sig_bytes m"] by (simp add: sig_bytes_val)
  also have "\<dots> \<le> 256 ^ (length (sig_bytes n) - 1)" using l(1) by (simp add: power_increasing)
  also have "\<dots> \<le> unat n" using sig_bytes_lower l(2) by blast
  finally show False using le by simp
qed

lemma size_char_less:
  "char_of (length (sig_bytes n)) < (char_of (length (sig_bytes m)) :: char) \<longleftrightarrow> length (sig_bytes n) < length (sig_bytes m)"
  using sig_bytes_length [of n] sig_bytes_length [of m] by (simp add: less_char_def of_char_of)

lemma append_less_same_length:
  "length xs = length ys \<Longrightarrow> (xs :: string) @ a < ys @ b \<longleftrightarrow> xs < ys \<or> xs = ys \<and> a < b"
  by (induction xs ys rule: list_induct2) auto

lemma enc_append_less:
  "enc n @ a < enc m @ b \<longleftrightarrow> n < m \<or> n = m \<and> a < b"
proof (cases "length (sig_bytes n) = length (sig_bytes m)")
  case True
  have "sig_bytes n = sig_bytes m \<longleftrightarrow> n = m" using sig_bytes_val by (metis word_unat_eq_iff)
  then show ?thesis using True less_same_length [OF True]
    by (auto simp: enc_def append_less_same_length [OF True] sig_bytes_val word_less_nat_alt)
next
  case False
  have "length (sig_bytes n) < length (sig_bytes m) \<longleftrightarrow> n < m"
    using False sig_length_mono [of n m] sig_length_mono [of m n]
    by (cases "unat n < unat m") (auto simp: word_less_nat_alt)
  moreover have "n \<noteq> m" using False by auto
  moreover have "char_of (length (sig_bytes n)) \<noteq> (char_of (length (sig_bytes m)) :: char)"
    using False size_char_less [of n m] size_char_less [of m n] by (metis less_irrefl nat_neq_iff)
  ultimately show ?thesis using size_char_less [of n m] by (simp add: enc_def)
qed

section \<open>Heights as bytes\<close>

lemma ToBytes_eq: "ToBytes h = Return (enc (BlockNum h) @ enc (TxNum h))"
  by (simp add: ToBytes_def Encode_eq)

text \<open>C25: reading a height back: whatever bytes follow, \<^const>\<open>NewHeightFromBytes\<close> of the bytes
  \<^const>\<open>ToBytes\<close> wrote returns the height and the number of bytes written, for every 64-bit block
  and transaction number; and \<^const>\<open>ToBytes\<close> never reaches its panic.
\<close>

theorem height_bytes_roundtrip:
  "\<exists>bs. ToBytes h = Return bs \<and> NewHeightFromBytes (bs @ rest) = Inr (h, length bs)"
  by (simp add: ToBytes_eq NewHeightFromBytes_def Decode_enc)

text \<open>C24: the encoding preserves the order: comparing the stored bytes of two heights byte by byte, as
  the state database compares its keys, gives the order of the heights, block first and transaction
  second.
\<close>

theorem height_bytes_order:
  "\<exists>bs bs1. ToBytes h = Return bs \<and> ToBytes h1 = Return bs1 \<and> (bs < bs1 \<longleftrightarrow> h < h1)"
proof -
  have "enc (TxNum h) < enc (TxNum h1) \<longleftrightarrow> TxNum h < TxNum h1"
    using enc_append_less [of "TxNum h" "[]" "TxNum h1" "[]"] by simp
  then show ?thesis by (simp add: ToBytes_eq enc_append_less less_Height_def)
qed

section \<open>Comparing heights\<close>

lemma uint_diff: "uint (a - b) = (if uint b \<le> uint a then uint a - uint b else uint a - uint b + 2 ^ 64)" for a b :: u64
proof -
  have b: "0 \<le> uint a" "uint a < 2 ^ 64" "0 \<le> uint b" "uint b < 2 ^ 64"
    using unsigned_less [of a, where ?'a = int] unsigned_less [of b, where ?'a = int] by simp_all
  have "uint (a - b) = (uint a - uint b) mod 2 ^ 64" by (simp add: uint_word_ariths)
  moreover have "(uint a - uint b) mod 2 ^ 64 = uint a - uint b" if "uint b \<le> uint a"
    using that b by (intro mod_pos_pos_trivial) linarith+
  moreover have "(uint a - uint b) mod 2 ^ 64 = uint a - uint b + 2 ^ 64" if "\<not> uint b \<le> uint a"
  proof -
    have "(uint a - uint b + 2 ^ 64) mod 2 ^ 64 = uint a - uint b + 2 ^ 64"
      using that b by (intro mod_pos_pos_trivial) linarith+
    then show ?thesis by simp
  qed
  ultimately show ?thesis by simp
qed

lemma to_int_diff_pos:
  "uint a < 2 ^ 63 \<Longrightarrow> uint b < 2 ^ 63 \<Longrightarrow> 0 < to_int (a - b) \<longleftrightarrow> b < a" for a b :: u64
proof -
  assume "uint a < 2 ^ 63" "uint b < 2 ^ 63"
  moreover have "0 \<le> uint a" "0 \<le> uint b" by simp_all
  moreover have "0 < (let d = if y \<le> x then x - y else x - y + 2 ^ 64 in if d < 2 ^ 63 then d else d - 2 ^ 64) \<longleftrightarrow> y < x"
    if "x < 2 ^ 63" "y < 2 ^ 63" "0 \<le> x" "0 \<le> y" for x y :: int
    using that by (auto simp: Let_def)
  ultimately show ?thesis unfolding to_int_def uint_diff word_less_def Let_def by blast
qed

definition small_height :: "Height \<Rightarrow> bool" where
  "small_height h \<longleftrightarrow> uint (BlockNum h) < 2 ^ 63 \<and> uint (TxNum h) < 2 ^ 63"

lemma Compare_zero_iff: "Compare h h1 = 0 \<longleftrightarrow> h = h1"
  by (simp add: Compare_def Height.expand) (metis Height.expand)

text \<open>Two heights are the same exactly when both are absent or both are equal, at every width.\<close>

lemma AreSame_iff: "AreSame h h1 \<longleftrightarrow> h = h1"
  by (cases h; cases h1) (simp_all add: AreSame_def Compare_zero_iff)

text \<open>C26: \<^const>\<open>Compare\<close> is the order of heights while the numbers stay below \<open>2 ^ 63\<close>: it returns -1, 0
  or 1 as the first height is less than, equal to or greater than the second.
\<close>

theorem Compare_small:
  "small_height h \<Longrightarrow> small_height h1 \<Longrightarrow>
     Compare h h1 = (if h < h1 then - 1 else if h = h1 then 0 else 1)"
  by (cases h; cases h1) (auto simp: Compare_def small_height_def less_Height_def to_int_diff_pos)

theorem Compare_small_witness: "Compare (Height 3 7) (Height 3 9) = - 1"
  using Compare_small [of "Height 3 7" "Height 3 9"] by (simp add: small_height_def less_Height_def)

text \<open>
  Beyond that the difference wraps: two heights whose blocks are \<open>2 ^ 63\<close> apart compare as less
  both ways, so \<^const>\<open>Compare\<close> is no order on all of the 64-bit heights.
\<close>

theorem Compare_wraps:
  "Compare (Height (2 ^ 63) t) (Height 0 t1) = - 1 \<and> Compare (Height 0 t1) (Height (2 ^ 63) t) = - 1"
  by (simp add: Compare_def to_int_def)

end
