(* ===== verification/Update_Batch.thy ===== *)
theory Update_Batch
  imports Version_Height "HOL-Library.Finite_Map"
begin

text \<open>
  Batches of updates to the state: \<open>UpdateBatch\<close> and its range iterator
  (\<^verbatim>\<open>core/ledger/kvledger/txmgmt/statedb/statedb.go\<close>) and the maps of batches for private data and its
  hashes (\<^verbatim>\<open>privacyenabledstate/types.go\<close>).  A batch is a map of namespaces to maps of keys; a nil
  value marks a deletion.  Both kinds of batch are instances of one interface, \<open>keyed_batch\<close>: an entry
  that is written is read back and nothing else changes, so writing a set of entries does not depend
  on the order of a map iteration.
\<close>

section \<open>Versioned values and batches\<close>

record VersionedValue =
  vv_Value :: "bytes option"
  vv_Metadata :: "bytes option"
  vv_Version :: "Height option"

definition IsDelete :: "VersionedValue \<Rightarrow> bool" where
  "IsDelete vv \<longleftrightarrow> vv_Value vv = None"

record VersionedKV =
  vk_Namespace :: string
  vk_Key :: string
  vk_Val :: VersionedValue

type_synonym nsUpdates = "(string, VersionedValue) fmap"

record UpdateBatch =
  ub_ContainsPostOrderWrites :: bool
  ub_Updates :: "(string, nsUpdates) fmap"

definition NewUpdateBatch :: UpdateBatch where
  "NewUpdateBatch = \<lparr>ub_ContainsPostOrderWrites = False, ub_Updates = fmempty\<rparr>"

definition ub_Get :: "UpdateBatch \<Rightarrow> string \<Rightarrow> string \<Rightarrow> VersionedValue option" where
  "ub_Get batch ns key =
     (case fmlookup (ub_Updates batch) ns of None \<Rightarrow> None | Some m \<Rightarrow> fmlookup m key)"

definition getOrCreateNsUpdates :: "string \<Rightarrow> UpdateBatch \<Rightarrow> nsUpdates" where
  "getOrCreateNsUpdates ns batch =
     (case fmlookup (ub_Updates batch) ns of None \<Rightarrow> fmempty | Some m \<Rightarrow> m)"

definition ub_Update :: "string \<Rightarrow> string \<Rightarrow> VersionedValue \<Rightarrow> UpdateBatch \<Rightarrow> UpdateBatch" where
  "ub_Update ns key vv batch =
     batch\<lparr>ub_Updates := fmupd ns (fmupd key vv (getOrCreateNsUpdates ns batch)) (ub_Updates batch)\<rparr>"

definition ub_PutValAndMetadata ::
  "string \<Rightarrow> string \<Rightarrow> bytes option \<Rightarrow> bytes option \<Rightarrow> Height option \<Rightarrow> UpdateBatch \<Rightarrow> UpdateBatch go" where
  "ub_PutValAndMetadata ns key val metadata ver batch =
     (if val = None then Panic
      else Return (ub_Update ns key \<lparr>vv_Value = val, vv_Metadata = metadata, vv_Version = ver\<rparr> batch))"

definition ub_Put :: "string \<Rightarrow> string \<Rightarrow> bytes option \<Rightarrow> Height option \<Rightarrow> UpdateBatch \<Rightarrow> UpdateBatch go" where
  "ub_Put ns key val ver batch = ub_PutValAndMetadata ns key val None ver batch"

definition ub_Delete :: "string \<Rightarrow> string \<Rightarrow> Height option \<Rightarrow> UpdateBatch \<Rightarrow> UpdateBatch" where
  "ub_Delete ns key ver batch =
     ub_Update ns key \<lparr>vv_Value = None, vv_Metadata = None, vv_Version = ver\<rparr> batch"

definition ub_Exists :: "UpdateBatch \<Rightarrow> string \<Rightarrow> string \<Rightarrow> bool" where
  "ub_Exists batch ns key =
     (case fmlookup (ub_Updates batch) ns of None \<Rightarrow> False | Some m \<Rightarrow> fmlookup m key \<noteq> None)"

definition GetUpdates :: "UpdateBatch \<Rightarrow> string \<Rightarrow> nsUpdates option" where
  "GetUpdates batch ns = fmlookup (ub_Updates batch) ns"

text \<open>
  The order in which a loop over the namespaces, and over the keys of each, visits a batch; it is the
  order of the elements that \<open>GetUpdatedNamespaces\<close> returns as well.
\<close>

type_synonym visit = "(string \<times> string) list"

definition visits :: "visit \<Rightarrow> UpdateBatch \<Rightarrow> bool" where
  "visits ord batch \<longleftrightarrow> distinct ord \<and> set ord = {(ns, key). ub_Get batch ns key \<noteq> None}"

definition merge_entry :: "UpdateBatch \<Rightarrow> string \<times> string \<Rightarrow> UpdateBatch \<Rightarrow> UpdateBatch" where
  "merge_entry toMerge = (\<lambda>(ns, key) batch.
     case ub_Get toMerge ns key of None \<Rightarrow> batch | Some vv \<Rightarrow> ub_Update ns key vv batch)"

definition Merge :: "visit \<Rightarrow> UpdateBatch \<Rightarrow> UpdateBatch \<Rightarrow> UpdateBatch" where
  "Merge ord toMerge batch =
     fold (merge_entry toMerge) ord
       (batch\<lparr>ub_ContainsPostOrderWrites := ub_ContainsPostOrderWrites batch \<or> ub_ContainsPostOrderWrites toMerge\<rparr>)"

section \<open>The iterator over a range of a batch\<close>

text \<open>\<open>sort.SearchStrings\<close>: the first position whose element is not below the one searched for.\<close>

definition SearchStrings :: "string list \<Rightarrow> string \<Rightarrow> nat" where
  "SearchStrings xs x = length (takeWhile (\<lambda>y. y < x) xs)"

definition GetSortedKeys :: "(string, 'v) fmap \<Rightarrow> string list" where
  "GetSortedKeys m = sorted_list_of_fset (fmdom m)"

record nsIterator =
  ni_ns :: string
  ni_nsUpdates :: nsUpdates
  ni_sortedKeys :: "string list"
  ni_nextIndex :: nat
  ni_lastIndex :: nat

definition newNsIterator :: "string \<Rightarrow> string \<Rightarrow> string \<Rightarrow> UpdateBatch \<Rightarrow> nsIterator" where
  "newNsIterator ns startKey endKey batch =
     (case fmlookup (ub_Updates batch) ns of
        None \<Rightarrow> \<lparr>ni_ns = '''', ni_nsUpdates = fmempty, ni_sortedKeys = [], ni_nextIndex = 0, ni_lastIndex = 0\<rparr>
      | Some m \<Rightarrow>
          let sortedKeys = GetSortedKeys m
          in \<lparr>ni_ns = ns, ni_nsUpdates = m, ni_sortedKeys = sortedKeys,
              ni_nextIndex = (if startKey = '''' then 0 else SearchStrings sortedKeys startKey),
              ni_lastIndex = (if endKey = '''' then length sortedKeys else SearchStrings sortedKeys endKey)\<rparr>)"

definition nsIterator_Next :: "nsIterator \<Rightarrow> (VersionedKV option \<times> nsIterator) go" where
  "nsIterator_Next itr =
     (if ni_nextIndex itr \<ge> ni_lastIndex itr then Return (None, itr)
      else go_bind (go_index (ni_sortedKeys itr) (ni_nextIndex itr)) (\<lambda>key.
        case fmlookup (ni_nsUpdates itr) key of
          None \<Rightarrow> Panic
        | Some vv \<Rightarrow>
            Return (Some \<lparr>vk_Namespace = ni_ns itr, vk_Key = key, vk_Val = vv\<rparr>,
                    itr\<lparr>ni_nextIndex := ni_nextIndex itr + 1\<rparr>)))"

section \<open>Batches for private data and hashes\<close>

type_synonym UpdateMap = "(string, UpdateBatch) fmap"

definition getOrCreateNsBatch :: "string \<Rightarrow> UpdateMap \<Rightarrow> UpdateBatch" where
  "getOrCreateNsBatch ns b = (case fmlookup b ns of None \<Rightarrow> NewUpdateBatch | Some batch \<Rightarrow> batch)"

definition um_PutValAndMetadata ::
  "string \<Rightarrow> string \<Rightarrow> string \<Rightarrow> bytes option \<Rightarrow> bytes option \<Rightarrow> Height option \<Rightarrow> UpdateMap \<Rightarrow> UpdateMap go" where
  "um_PutValAndMetadata ns coll key val metadata ver b =
     go_bind (ub_PutValAndMetadata coll key val metadata ver (getOrCreateNsBatch ns b)) (\<lambda>batch.
       Return (fmupd ns batch b))"

definition um_Put :: "string \<Rightarrow> string \<Rightarrow> string \<Rightarrow> bytes option \<Rightarrow> Height option \<Rightarrow> UpdateMap \<Rightarrow> UpdateMap go" where
  "um_Put ns coll key val ver b = um_PutValAndMetadata ns coll key val None ver b"

definition um_Delete :: "string \<Rightarrow> string \<Rightarrow> string \<Rightarrow> Height option \<Rightarrow> UpdateMap \<Rightarrow> UpdateMap" where
  "um_Delete ns coll key ver b = fmupd ns (ub_Delete coll key ver (getOrCreateNsBatch ns b)) b"

definition um_Get :: "UpdateMap \<Rightarrow> string \<Rightarrow> string \<Rightarrow> string \<Rightarrow> VersionedValue option" where
  "um_Get b ns coll key = (case fmlookup b ns of None \<Rightarrow> None | Some batch \<Rightarrow> ub_Get batch coll key)"

definition um_Contains :: "UpdateMap \<Rightarrow> string \<Rightarrow> string \<Rightarrow> string \<Rightarrow> bool" where
  "um_Contains b ns coll key = (case fmlookup b ns of None \<Rightarrow> False | Some batch \<Rightarrow> ub_Exists batch coll key)"

definition um_IsEmpty :: "UpdateMap \<Rightarrow> bool" where
  "um_IsEmpty b \<longleftrightarrow> b = fmempty"

text \<open>The order in which the loops over namespaces, collections and keys visit a map of batches.\<close>

type_synonym um_visit = "(string \<times> string \<times> string) list"

definition um_visits :: "um_visit \<Rightarrow> UpdateMap \<Rightarrow> bool" where
  "um_visits ord b \<longleftrightarrow> distinct ord \<and> set ord = {(ns, coll, key). um_Get b ns coll key \<noteq> None}"

definition ToCompositeKeyMap :: "um_visit \<Rightarrow> UpdateMap \<Rightarrow> (string \<times> string \<times> string \<rightharpoonup> VersionedValue)" where
  "ToCompositeKeyMap ord b =
     fold (\<lambda>(ns, coll, key) m.
       case um_Get b ns coll key of None \<Rightarrow> m | Some vv \<Rightarrow> m((ns, coll, key) \<mapsto> vv)) ord Map.empty"

section \<open>The interface of a batch\<close>

locale keyed_batch =
  fixes upd :: "'k \<Rightarrow> 'v \<Rightarrow> 'b \<Rightarrow> 'b" and get :: "'b \<Rightarrow> 'k \<Rightarrow> 'v option"
  assumes get_upd: "get (upd k v b) k' = (if k' = k then Some v else get b k')"
begin

text \<open>Writing the entries a partial function gives for a list of keys.\<close>

definition write_all :: "('k \<Rightarrow> 'v option) \<Rightarrow> 'k list \<Rightarrow> 'b \<Rightarrow> 'b" where
  "write_all f = fold (\<lambda>k b. case f k of None \<Rightarrow> b | Some v \<Rightarrow> upd k v b)"

lemma get_write_all:
  "get (write_all f ks b) k = (if k \<in> set ks \<and> f k \<noteq> None then f k else get b k)"
  by (induction ks arbitrary: b) (auto simp: write_all_def get_upd split: option.splits)

text \<open>The same with the keys renamed.\<close>

definition write_mapped :: "('j \<Rightarrow> 'k) \<Rightarrow> ('j \<Rightarrow> 'v option) \<Rightarrow> 'j list \<Rightarrow> 'b \<Rightarrow> 'b" where
  "write_mapped g f = fold (\<lambda>j b. case f j of None \<Rightarrow> b | Some v \<Rightarrow> upd (g j) v b)"

lemma get_write_mapped_other:
  "\<forall>j \<in> set js. f j \<noteq> None \<longrightarrow> g j \<noteq> k \<Longrightarrow> get (write_mapped g f js b) k = get b k"
  by (induction js arbitrary: b) (auto simp: write_mapped_def get_upd split: option.splits)

lemma get_write_mapped:
  "inj_on g (set js) \<Longrightarrow> j \<in> set js \<Longrightarrow> f j = Some v \<Longrightarrow> get (write_mapped g f js b) (g j) = Some v"
proof (induction js arbitrary: b)
  case (Cons i js)
  show ?case
  proof (cases "j \<in> set js")
    case True
    then show ?thesis using Cons by (auto simp: write_mapped_def split: option.split)
  next
    case False
    then have j: "j = i" using Cons.prems(2) by simp
    have "\<forall>j' \<in> set js. f j' \<noteq> None \<longrightarrow> g j' \<noteq> g j" using Cons.prems(1) False j by (auto simp: inj_on_def)
    then have "get (write_mapped g f js (upd (g j) v b)) (g j) = get (upd (g j) v b) (g j)"
      by (rule get_write_mapped_other)
    then show ?thesis using Cons.prems(3) j by (simp add: write_mapped_def get_upd)
  qed
qed simp

lemma write_all_order:
  "set ks = set ks' \<Longrightarrow> get (write_all f ks b) = get (write_all f ks' b)"
  by (rule ext) (simp add: get_write_all)

end

lemma ub_Get_Update:
  "ub_Get (ub_Update ns key vv b) ns' key' = (if ns' = ns \<and> key' = key then Some vv else ub_Get b ns' key')"
  by (auto simp: ub_Get_def ub_Update_def getOrCreateNsUpdates_def split: option.splits)

interpretation pub: keyed_batch "\<lambda>(ns, key). ub_Update ns key" "\<lambda>b (ns, key). ub_Get b ns key"
  by unfold_locales (simp add: ub_Get_Update split: prod.splits)

lemma ub_Get_New [simp]: "ub_Get NewUpdateBatch ns key = None"
  by (simp add: ub_Get_def NewUpdateBatch_def)

definition um_Update :: "string \<Rightarrow> string \<Rightarrow> string \<Rightarrow> VersionedValue \<Rightarrow> UpdateMap \<Rightarrow> UpdateMap" where
  "um_Update ns coll key vv b = fmupd ns (ub_Update coll key vv (getOrCreateNsBatch ns b)) b"

lemma um_Get_Update:
  "um_Get (um_Update ns coll key vv b) ns' coll' key' =
     (if ns' = ns \<and> coll' = coll \<and> key' = key then Some vv else um_Get b ns' coll' key')"
  by (simp add: um_Get_def um_Update_def getOrCreateNsBatch_def ub_Get_Update split: option.split)

interpretation hashed: keyed_batch "\<lambda>(ns, coll, key). um_Update ns coll key" "\<lambda>b (ns, coll, key). um_Get b ns coll key"
  by unfold_locales (simp add: um_Get_Update split: prod.splits)

section \<open>The operations through the interface\<close>

lemma ub_Exists_iff: "ub_Exists b ns key \<longleftrightarrow> ub_Get b ns key \<noteq> None"
  by (simp add: ub_Exists_def ub_Get_def split: option.split)

lemma um_Contains_iff: "um_Contains b ns coll key \<longleftrightarrow> um_Get b ns coll key \<noteq> None"
  by (simp add: um_Contains_def um_Get_def ub_Exists_iff split: option.split)

lemma ub_Put_Some:
  "ub_PutValAndMetadata ns key (Some val) md ver b =
     Return (ub_Update ns key \<lparr>vv_Value = Some val, vv_Metadata = md, vv_Version = ver\<rparr> b)"
  by (simp add: ub_PutValAndMetadata_def)

lemma um_Put_Some:
  "um_PutValAndMetadata ns coll key (Some val) md ver b =
     Return (um_Update ns coll key \<lparr>vv_Value = Some val, vv_Metadata = md, vv_Version = ver\<rparr> b)"
  by (simp add: um_PutValAndMetadata_def ub_Put_Some um_Update_def)

lemma um_Delete_eq:
  "um_Delete ns coll key ver b = um_Update ns coll key \<lparr>vv_Value = None, vv_Metadata = None, vv_Version = ver\<rparr> b"
  by (simp add: um_Delete_def um_Update_def ub_Delete_def)

lemma ub_Get_flag [simp]: "ub_Get (b\<lparr>ub_ContainsPostOrderWrites := x\<rparr>) ns key = ub_Get b ns key"
  by (simp add: ub_Get_def)

lemma um_Get_empty [simp]: "um_Get fmempty ns coll key = None"
  by (simp add: um_Get_def)

text \<open>Merging in any order puts the entries of the second batch over those of the first.\<close>

lemma Merge_Get:
  assumes "visits ord toMerge"
  shows "ub_Get (Merge ord toMerge b) ns key =
           (case ub_Get toMerge ns key of None \<Rightarrow> ub_Get b ns key | Some vv \<Rightarrow> Some vv)"
proof -
  let ?f = "\<lambda>(ns, key). ub_Get toMerge ns key"
  have "merge_entry toMerge = (\<lambda>k b. case ?f k of None \<Rightarrow> b | Some v \<Rightarrow> (\<lambda>(ns, key). ub_Update ns key) k v b)"
    by (auto simp: merge_entry_def fun_eq_iff split: option.split)
  then have "Merge ord toMerge b = pub.write_all ?f ord
      (b\<lparr>ub_ContainsPostOrderWrites := ub_ContainsPostOrderWrites b \<or> ub_ContainsPostOrderWrites toMerge\<rparr>)"
    by (simp add: Merge_def pub.write_all_def)
  then show ?thesis
    using pub.get_write_all [of ?f ord _ "(ns, key)"] assms by (auto simp: visits_def split: option.split)
qed

interpretation plain: keyed_batch "\<lambda>k v m. m(k \<mapsto> v)" "\<lambda>m. m"
  by unfold_locales simp

lemma ToCompositeKeyMap_lookup:
  assumes "um_visits ord b"
  shows "ToCompositeKeyMap ord b (ns, coll, key) = um_Get b ns coll key"
proof -
  let ?f = "\<lambda>(ns, coll, key). um_Get b ns coll key"
  have "ToCompositeKeyMap ord b = plain.write_all ?f ord Map.empty"
    unfolding ToCompositeKeyMap_def plain.write_all_def
    by (rule arg_cong [where f = "\<lambda>g. fold g ord Map.empty"]) (auto simp: fun_eq_iff split: option.split)
  then show ?thesis
    using plain.get_write_all [of ?f ord _ "(ns, coll, key)"] assms by (auto simp: um_visits_def)
qed

section \<open>What the iterator returns\<close>

definition in_range :: "string \<Rightarrow> string \<Rightarrow> string \<Rightarrow> bool" where
  "in_range startKey endKey key \<longleftrightarrow> startKey \<le> key \<and> (endKey = '''' \<or> key < endKey)"

definition batch_range :: "UpdateBatch \<Rightarrow> string \<Rightarrow> string \<Rightarrow> string \<Rightarrow> VersionedKV list" where
  "batch_range batch ns startKey endKey =
     (case fmlookup (ub_Updates batch) ns of
        None \<Rightarrow> []
      | Some m \<Rightarrow> map (\<lambda>key. \<lparr>vk_Namespace = ns, vk_Key = key, vk_Val = the (fmlookup m key)\<rparr>)
                    (filter (in_range startKey endKey) (GetSortedKeys m)))"

lemma SearchStrings_simps:
  "SearchStrings [] x = 0"
  "SearchStrings (y # ys) x = (if y < x then Suc (SearchStrings ys x) else 0)"
  by (simp_all add: SearchStrings_def)

lemma SearchStrings_above: "\<forall>y \<in> set ys. \<not> y < x \<Longrightarrow> SearchStrings ys x = 0"
  by (cases ys) (simp_all add: SearchStrings_simps)

lemma SearchStrings_range:
  "sorted xs \<Longrightarrow>
     drop (SearchStrings xs a) (take (SearchStrings xs b) xs) = filter (\<lambda>k. a \<le> k \<and> k < b) xs"
proof (induction xs)
  case (Cons x xs)
  then have le: "\<forall>y \<in> set xs. x \<le> y" and IH: "drop (SearchStrings xs a) (take (SearchStrings xs b) xs) = filter (\<lambda>k. a \<le> k \<and> k < b) xs"
    by auto
  show ?case
  proof (cases "x < b")
    case True
    have "SearchStrings xs a = 0" if "\<not> x < a" using that le by (intro SearchStrings_above) force
    then show ?thesis using IH True by (auto simp: SearchStrings_simps)
  next
    case False
    have "\<not> y < b" if "y \<in> set xs" for y using that le False by force
    then have "filter (\<lambda>k. a \<le> k \<and> k < b) (x # xs) = []" using False by (auto simp: filter_empty_conv)
    then show ?thesis using False by (simp add: SearchStrings_simps)
  qed
qed (simp add: SearchStrings_simps)

lemma SearchStrings_from: "sorted xs \<Longrightarrow> drop (SearchStrings xs a) xs = filter (\<lambda>k. a \<le> k) xs"
proof (induction xs)
  case (Cons x xs)
  show ?case
  proof (cases "x < a")
    case True
    then show ?thesis using Cons by (simp add: SearchStrings_simps)
  next
    case False
    then have "\<forall>k \<in> set xs. a \<le> k" using Cons.prems by auto
    then show ?thesis using False by (simp add: SearchStrings_simps)
  qed
qed (simp add: SearchStrings_simps)

lemma SearchStrings_empty: "SearchStrings xs '''' = 0"
  by (rule SearchStrings_above) simp

lemma SearchStrings_le: "SearchStrings xs x \<le> length xs"
  by (simp add: SearchStrings_def length_takeWhile_le)

lemma GetSortedKeys_props: "sorted (GetSortedKeys m)" "distinct (GetSortedKeys m)" "set (GetSortedKeys m) = fset (fmdom m)"
  by (simp_all add: GetSortedKeys_def sorted_list_of_fset.rep_eq)

text \<open>The entries an iterator has still to return.\<close>

definition itr_keys :: "nsIterator \<Rightarrow> string list" where
  "itr_keys itr = drop (ni_nextIndex itr) (take (ni_lastIndex itr) (ni_sortedKeys itr))"

definition itr_item :: "nsIterator \<Rightarrow> string \<Rightarrow> VersionedKV" where
  "itr_item itr key = \<lparr>vk_Namespace = ni_ns itr, vk_Key = key, vk_Val = the (fmlookup (ni_nsUpdates itr) key)\<rparr>"

definition itr_rest :: "nsIterator \<Rightarrow> VersionedKV list" where
  "itr_rest itr = map (itr_item itr) (itr_keys itr)"

definition itr_wf :: "nsIterator \<Rightarrow> bool" where
  "itr_wf itr \<longleftrightarrow> ni_lastIndex itr \<le> length (ni_sortedKeys itr) \<and>
     (\<forall>key \<in> set (ni_sortedKeys itr). fmlookup (ni_nsUpdates itr) key \<noteq> None)"

lemma newNsIterator_wf: "itr_wf (newNsIterator ns startKey endKey batch)"
proof (cases "fmlookup (ub_Updates batch) ns")
  case None
  then show ?thesis by (simp add: newNsIterator_def itr_wf_def)
next
  case (Some m)
  have "fmlookup m key \<noteq> None" if "key \<in> set (GetSortedKeys m)" for key
    using that by (simp add: GetSortedKeys_props fmlookup_dom_iff)
  then show ?thesis using Some by (simp add: newNsIterator_def itr_wf_def Let_def SearchStrings_le)
qed

lemma newNsIterator_rest: "itr_rest (newNsIterator ns startKey endKey batch) = batch_range batch ns startKey endKey"
proof (cases "fmlookup (ub_Updates batch) ns")
  case None
  then show ?thesis by (simp add: newNsIterator_def itr_rest_def itr_keys_def batch_range_def)
next
  case (Some m)
  let ?xs = "GetSortedKeys m"
  have keys: "drop (if startKey = '''' then 0 else SearchStrings ?xs startKey)
     (take (if endKey = '''' then length ?xs else SearchStrings ?xs endKey) ?xs) = filter (in_range startKey endKey) ?xs"
    using SearchStrings_range [OF GetSortedKeys_props(1), of m startKey endKey]
      SearchStrings_from [OF GetSortedKeys_props(1), of m startKey] SearchStrings_empty [of ?xs]
    by (cases "startKey = ''''"; cases "endKey = ''''") (simp_all add: in_range_def [abs_def])
  show ?thesis using Some keys
    by (simp add: newNsIterator_def itr_rest_def itr_keys_def itr_item_def [abs_def] batch_range_def Let_def)
qed

lemma itr_rest_shift: "itr_rest (itr\<lparr>ni_nextIndex := i\<rparr>) = map (itr_item itr) (drop i (take (ni_lastIndex itr) (ni_sortedKeys itr)))"
  by (simp add: itr_rest_def itr_keys_def itr_item_def [abs_def])

text \<open>A well-formed iterator returns its entries one by one and then nil, and never panics.\<close>

lemma nsIterator_Next_rest:
  assumes "itr_wf itr"
  shows "\<exists>itr'. itr_wf itr' \<and>
    nsIterator_Next itr = Return (case itr_rest itr of [] \<Rightarrow> None | x # _ \<Rightarrow> Some x, itr') \<and> itr_rest itr' = tl (itr_rest itr)"
proof (cases "ni_nextIndex itr < ni_lastIndex itr")
  case False
  then have "itr_rest itr = []" by (simp add: itr_rest_def itr_keys_def)
  then show ?thesis using assms False by (auto simp: nsIterator_Next_def)
next
  case True
  let ?i = "ni_nextIndex itr" and ?ks = "ni_sortedKeys itr"
  have i: "?i < length ?ks" using True assms by (simp add: itr_wf_def)
  then obtain vv where vv: "fmlookup (ni_nsUpdates itr) (?ks ! ?i) = Some vv"
    using assms nth_mem [OF i] unfolding itr_wf_def by blast
  have "drop ?i (take (ni_lastIndex itr) ?ks) = ?ks ! ?i # drop (Suc ?i) (take (ni_lastIndex itr) ?ks)"
    using True i by (subst Cons_nth_drop_Suc [symmetric]) simp_all
  then have rest: "itr_rest itr = itr_item itr (?ks ! ?i) # itr_rest (itr\<lparr>ni_nextIndex := ?i + 1\<rparr>)"
    unfolding itr_rest_shift by (simp add: itr_rest_def itr_keys_def)
  have "itr_wf (itr\<lparr>ni_nextIndex := ?i + 1\<rparr>)" using assms by (simp add: itr_wf_def)
  then show ?thesis using True i vv rest by (simp add: nsIterator_Next_def itr_item_def)
qed

end
