(* ===== verification/Versioned_DB.thy ===== *)
theory Versioned_DB
  imports Update_Batch
begin

text \<open>
  The state database as its clients see it: the operations of the interface \<open>statedb.VersionedDB\<close> that
  validation and commit use, as a record of functions, and the contract of the interface as a locale.
  A call that can fail returns an error or a value, and can panic; \<open>res_bind\<close> sequences such calls.
\<close>

section \<open>Calls that return a value or an error\<close>

type_synonym 'a res = "(string + 'a) go"

definition ret :: "'a \<Rightarrow> 'a res" where
  "ret x = Return (Inr x)"

definition err :: "string \<Rightarrow> 'a res" where
  "err e = Return (Inl e)"

definition res_bind :: "'a res \<Rightarrow> ('a \<Rightarrow> 'b res) \<Rightarrow> 'b res" where
  "res_bind x f = (case x of Panic \<Rightarrow> Panic | Return (Inl e) \<Rightarrow> Return (Inl e) | Return (Inr a) \<Rightarrow> f a)"

definition lift_err :: "string + 'a \<Rightarrow> 'a res" where
  "lift_err x = Return x"

definition lift_go :: "'a go \<Rightarrow> 'a res" where
  "lift_go x = go_bind x ret"

named_theorems res_simps \<open>rewriting through calls that return values, errors or panics\<close>

lemma res_bind_simps [simp, res_simps]:
  "res_bind (ret a) f = f a"
  "res_bind (err e) f = err e"
  "res_bind Panic f = Panic"
  "res_bind (Return (Inr a)) f = f a"
  "res_bind (Return (Inl e)) f = Return (Inl e)"
  by (simp_all add: res_bind_def ret_def err_def)

lemma ret_simps [simp, res_simps]:
  "ret a = ret b \<longleftrightarrow> a = b"
  "ret a \<noteq> err e" "err e \<noteq> ret a" "ret a \<noteq> Panic" "Panic \<noteq> ret a" "err e \<noteq> Panic" "Panic \<noteq> err e"
  "lift_err (Inr a) = ret a" "lift_err (Inl e) = err e"
  "lift_go (Return a) = ret a" "lift_go Panic = Panic"
  by (simp_all add: ret_def err_def lift_err_def lift_go_def)

lemma res_bind_ret_iff [res_simps]:
  "res_bind x f = ret b \<longleftrightarrow> (\<exists>a. x = ret a \<and> f a = ret b)"
  by (auto simp: res_bind_def ret_def split: go.splits sum.splits)

lemma res_bind_cong [fundef_cong]:
  assumes "x = y" "\<And>a. y = Return (Inr a) \<Longrightarrow> f a = g a"
  shows "res_bind x f = res_bind y g"
  using assms by (auto simp: res_bind_def split: go.split sum.split)

lemma res_bind_assoc [res_simps]: "res_bind (res_bind x f) g = res_bind x (\<lambda>a. res_bind (f a) g)"
  by (auto simp: res_bind_def split: go.split sum.split)

text \<open>A loop that stops at the first error or panic.\<close>

fun fold_res :: "('a \<Rightarrow> 's \<Rightarrow> 's res) \<Rightarrow> 'a list \<Rightarrow> 's \<Rightarrow> 's res" where
  "fold_res f [] s = ret s"
| "fold_res f (x # xs) s = res_bind (f x s) (fold_res f xs)"

lemma fold_res_append: "fold_res f (xs @ ys) s = res_bind (fold_res f xs s) (fold_res f ys)"
  by (induction xs arbitrary: s) (simp_all add: res_bind_assoc cong: res_bind_cong)

lemma fold_res_ret: "(\<And>x s. x \<in> set xs \<Longrightarrow> f x s = ret (g x s)) \<Longrightarrow> fold_res f xs s = ret (fold g xs s)"
  by (induction xs arbitrary: s) simp_all

section \<open>The database\<close>

text \<open>
  An iterator over the database: the results it has still to return and the error it ends with, if any.
\<close>

record scan =
  sc_items :: "VersionedKV list"
  sc_error :: "string option"

fun scan_Next :: "scan \<Rightarrow> string + VersionedKV option \<times> scan" where
  "scan_Next sc =
     (case sc_items sc of
        x # xs \<Rightarrow> Inr (Some x, sc\<lparr>sc_items := xs\<rparr>)
      | [] \<Rightarrow> (case sc_error sc of Some e \<Rightarrow> Inl e | None \<Rightarrow> Inr (None, sc)))"

record CompositeKey =
  ck_Namespace :: string
  ck_Key :: string

record VersionedDB =
  vd_GetState :: "string \<Rightarrow> string \<Rightarrow> string + VersionedValue option"
  vd_GetVersion :: "string \<Rightarrow> string \<Rightarrow> string + Height option"
  vd_GetStateMultipleKeys :: "string \<Rightarrow> string list \<Rightarrow> string + VersionedValue option list"
  vd_Scan :: "string \<Rightarrow> string \<Rightarrow> string \<Rightarrow> string + scan"
  vd_ScanPage :: "string \<Rightarrow> string \<Rightarrow> string \<Rightarrow> int \<Rightarrow> string + scan"
  vd_ExecuteQuery :: "string \<Rightarrow> string \<Rightarrow> (string \<times> int) option \<Rightarrow> string + scan"
  vd_ValidateKeyValue :: "string \<Rightarrow> bytes \<Rightarrow> string option"
  vd_BytesKeySupported :: bool
  vd_LoadCommittedVersions :: "(CompositeKey list \<Rightarrow> string option) option"

definition kv_item :: "string \<Rightarrow> nsUpdates \<Rightarrow> string \<Rightarrow> VersionedKV" where
  "kv_item ns m key = \<lparr>vk_Namespace = ns, vk_Key = key, vk_Val = the (fmlookup m key)\<rparr>"

definition ns_range :: "string \<Rightarrow> nsUpdates \<Rightarrow> string \<Rightarrow> string \<Rightarrow> VersionedKV list" where
  "ns_range ns m startKey endKey = map (kv_item ns m) (filter (in_range startKey endKey) (GetSortedKeys m))"

definition version_of :: "VersionedValue option \<Rightarrow> Height option" where
  "version_of v = (case v of None \<Rightarrow> None | Some vv \<Rightarrow> vv_Version vv)"

text \<open>
  The contract: the database holds a map of keys to live values for every namespace with a valid name;
  a lookup returns the entry, the version is the version of the entry, and a scan returns the entries
  from the start key up to, but not including, the end key in the order of the keys.
\<close>

locale versioned_db =
  fixes db :: VersionedDB and content :: "string \<Rightarrow> nsUpdates" and valid_ns :: "string \<Rightarrow> bool"
  assumes GetState: "valid_ns ns \<Longrightarrow> vd_GetState db ns key = Inr (fmlookup (content ns) key)"
    and GetVersion: "valid_ns ns \<Longrightarrow> vd_GetVersion db ns key = Inr (version_of (fmlookup (content ns) key))"
    and GetStateMultipleKeys: "valid_ns ns \<Longrightarrow> vd_GetStateMultipleKeys db ns keys = Inr (map (fmlookup (content ns)) keys)"
    and Scan: "valid_ns ns \<Longrightarrow>
      vd_Scan db ns startKey endKey = Inr \<lparr>sc_items = ns_range ns (content ns) startKey endKey, sc_error = None\<rparr>"
    and live: "valid_ns ns \<Longrightarrow> fmlookup (content ns) key = Some vv \<Longrightarrow> vv_Value vv \<noteq> None"

lemma batch_range_ns_range:
  "batch_range batch ns startKey endKey = ns_range ns (getOrCreateNsUpdates ns batch) startKey endKey"
  by (simp add: batch_range_def ns_range_def kv_item_def [abs_def] getOrCreateNsUpdates_def GetSortedKeys_def
      sorted_list_of_fset.rep_eq split: option.split)

lemma ns_range_keys: "map vk_Key (ns_range ns m startKey endKey) = filter (in_range startKey endKey) (GetSortedKeys m)"
  by (simp add: ns_range_def kv_item_def comp_def)

lemma ns_range_sorted: "sorted_wrt (\<lambda>x y. vk_Key x < vk_Key y) (ns_range ns m startKey endKey)"
proof -
  have "sorted_wrt (<) (map vk_Key (ns_range ns m startKey endKey))"
    unfolding ns_range_keys using GetSortedKeys_props(1,2) [of m]
    by (intro sorted_wrt_filter) (simp add: strict_sorted_iff)
  then show ?thesis by (simp add: sorted_wrt_map)
qed

lemma set_ns_range:
  "x \<in> set (ns_range ns m startKey endKey) \<longleftrightarrow>
     in_range startKey endKey (vk_Key x) \<and> fmlookup m (vk_Key x) \<noteq> None \<and> x = kv_item ns m (vk_Key x)"
proof -
  have "vk_Key (kv_item ns m k) = k" for k by (simp add: kv_item_def)
  then show ?thesis
    unfolding ns_range_def by (auto simp: GetSortedKeys_props fmlookup_dom_iff)
qed

lemma sorted_wrt_key_unique:
  fixes xs ys :: "VersionedKV list"
  assumes "sorted_wrt (\<lambda>x y. vk_Key x < vk_Key y) xs" "sorted_wrt (\<lambda>x y. vk_Key x < vk_Key y) ys" "set xs = set ys"
  shows "xs = ys"
proof -
  have inj: "inj_on vk_Key (set xs)"
  proof -
    have "sorted_wrt (<) (map vk_Key xs)" using assms(1) by (simp add: sorted_wrt_map)
    then have "distinct (map vk_Key xs)" by (simp add: strict_sorted_iff)
    then show ?thesis by (simp add: distinct_map)
  qed
  have "map vk_Key xs = map vk_Key ys"
    using assms by (intro strict_sorted_equal) (simp_all add: sorted_wrt_map)
  then show ?thesis using inj assms(3) by (simp add: inj_on_map_eq_map)
qed

end
