(* ===== verification/Level_DB.thy ===== *)
theory Level_DB
  imports Versioned_DB "HOL-Library.Sublist"
begin

text \<open>
  Many named databases in one LevelDB store (\<^verbatim>\<open>common/ledger/util/leveldbhelper/leveldb_helper.go\<close> and
  \<^verbatim>\<open>leveldb_provider.go\<close>).  The store itself, the package goleveldb, is third-party code: a record of its
  operations, on states \<open>'s\<close> and iterators \<open>'c\<close>, that the definitions take as an argument.  The locale
  \<open>level_store\<close> states what its documentation promises.  The lemmas show that the databases do not
  interfere and that dropping one removes all of it and nothing else.
\<close>

section \<open>The store\<close>

datatype ldb_error = ErrNotFound | OtherErr string

datatype batch_op = BPut bytes bytes | BDelete bytes

record ('s, 'c) leveldb =
  ld_Get :: "'s \<Rightarrow> bytes \<Rightarrow> ldb_error + bytes"
  ld_Put :: "bytes \<Rightarrow> bytes \<Rightarrow> 's \<Rightarrow> string + 's"
  ld_Delete :: "bytes \<Rightarrow> 's \<Rightarrow> string + 's"
  ld_Write :: "batch_op list \<Rightarrow> 's \<Rightarrow> string + 's"
  ld_NewIterator :: "'s \<Rightarrow> bytes option \<Rightarrow> bytes option \<Rightarrow> 'c"
  it_Next :: "'c \<Rightarrow> bool \<times> 'c"
  it_Prev :: "'c \<Rightarrow> bool \<times> 'c"
  it_Seek :: "bytes \<Rightarrow> 'c \<Rightarrow> bool \<times> 'c"
  it_Key :: "'c \<Rightarrow> bytes"
  it_Value :: "'c \<Rightarrow> bytes"
  it_Error :: "'c \<Rightarrow> string option"

section \<open>leveldb\_helper.go\<close>

definition DB_Get :: "('s, 'c) leveldb \<Rightarrow> 's \<Rightarrow> bytes \<Rightarrow> string + bytes option" where
  "DB_Get ld s key =
     (case ld_Get ld s key of
        Inr value \<Rightarrow> Inr (Some value)
      | Inl ErrNotFound \<Rightarrow> Inr None
      | Inl (OtherErr e) \<Rightarrow> Inl e)"

definition DB_Put :: "('s, 'c) leveldb \<Rightarrow> bytes \<Rightarrow> bytes \<Rightarrow> 's \<Rightarrow> string option \<times> 's" where
  "DB_Put ld key value s = (case ld_Put ld key value s of Inl e \<Rightarrow> (Some e, s) | Inr s' \<Rightarrow> (None, s'))"

definition DB_Delete :: "('s, 'c) leveldb \<Rightarrow> bytes \<Rightarrow> 's \<Rightarrow> string option \<times> 's" where
  "DB_Delete ld key s = (case ld_Delete ld key s of Inl e \<Rightarrow> (Some e, s) | Inr s' \<Rightarrow> (None, s'))"

definition DB_GetIterator :: "('s, 'c) leveldb \<Rightarrow> 's \<Rightarrow> bytes option \<Rightarrow> bytes option \<Rightarrow> 'c" where
  "DB_GetIterator ld s startKey endKey = ld_NewIterator ld s startKey endKey"

definition DB_WriteBatch :: "('s, 'c) leveldb \<Rightarrow> batch_op list \<Rightarrow> 's \<Rightarrow> string option \<times> 's" where
  "DB_WriteBatch ld batch s = (case ld_Write ld batch s of Inl e \<Rightarrow> (Some e, s) | Inr s' \<Rightarrow> (None, s'))"

definition DB_IsEmpty :: "('s, 'c) leveldb \<Rightarrow> 's \<Rightarrow> bool \<times> string option" where
  "DB_IsEmpty ld s =
     (let (hasItems, itr) = it_Next ld (ld_NewIterator ld s None None) in (\<not> hasItems, it_Error ld itr))"

section \<open>leveldb\_provider.go\<close>

abbreviation NUL :: char where "NUL \<equiv> CHR 0x00"
abbreviation SOH :: char where "SOH \<equiv> CHR 0x01"

definition constructLevelKey :: "string \<Rightarrow> bytes \<Rightarrow> bytes" where
  "constructLevelKey dbName key = dbName @ [NUL] @ key"

text \<open>\<open>bytes.SplitN(b, {0}, 2)\<close>: what stands before the first zero byte and, if there is one, what follows.\<close>

fun split_nul :: "bytes \<Rightarrow> bytes \<times> bytes option" where
  "split_nul [] = ([], None)"
| "split_nul (c # cs) = (if c = NUL then ([], Some cs) else (case split_nul cs of (a, r) \<Rightarrow> (c # a, r)))"

definition retrieveAppKey :: "bytes \<Rightarrow> bytes go" where
  "retrieveAppKey levelKey = (case snd (split_nul levelKey) of None \<Rightarrow> Panic | Some key \<Rightarrow> Return key)"

definition h_Get :: "('s, 'c) leveldb \<Rightarrow> string \<Rightarrow> 's \<Rightarrow> bytes \<Rightarrow> string + bytes option" where
  "h_Get ld dbName s key = DB_Get ld s (constructLevelKey dbName key)"

definition h_Put :: "('s, 'c) leveldb \<Rightarrow> string \<Rightarrow> bytes \<Rightarrow> bytes \<Rightarrow> 's \<Rightarrow> string option \<times> 's" where
  "h_Put ld dbName key value s = DB_Put ld (constructLevelKey dbName key) value s"

definition h_Delete :: "('s, 'c) leveldb \<Rightarrow> string \<Rightarrow> bytes \<Rightarrow> 's \<Rightarrow> string option \<times> 's" where
  "h_Delete ld dbName key s = DB_Delete ld (constructLevelKey dbName key) s"

definition h_GetIterator ::
  "('s, 'c) leveldb \<Rightarrow> string \<Rightarrow> 's \<Rightarrow> bytes option \<Rightarrow> bytes option \<Rightarrow> string + 'c" where
  "h_GetIterator ld dbName s startKey endKey =
     (let key = (\<lambda>k. case k of None \<Rightarrow> [] | Some k \<Rightarrow> k);
          sKey = constructLevelKey dbName (key startKey);
          eKey = constructLevelKey dbName (key endKey);
          eKey = (if endKey = None then eKey[length eKey - 1 := SOH] else eKey);
          itr = DB_GetIterator ld s (Some sKey) (Some eKey)
      in case it_Error ld itr of Some e \<Rightarrow> Inl e | None \<Rightarrow> Inr itr)"

definition h_itr_Key :: "('s, 'c) leveldb \<Rightarrow> 'c \<Rightarrow> bytes go" where
  "h_itr_Key ld itr = retrieveAppKey (it_Key ld itr)"

definition h_itr_Seek :: "('s, 'c) leveldb \<Rightarrow> string \<Rightarrow> bytes \<Rightarrow> 'c \<Rightarrow> bool \<times> 'c" where
  "h_itr_Seek ld dbName key itr = it_Seek ld (constructLevelKey dbName key) itr"

definition h_IsEmpty :: "('s, 'c) leveldb \<Rightarrow> string \<Rightarrow> 's \<Rightarrow> string + bool" where
  "h_IsEmpty ld dbName s =
     (case h_GetIterator ld dbName s None None of
        Inl e \<Rightarrow> Inl e
      | Inr itr \<Rightarrow> (case it_Error ld itr of Some e \<Rightarrow> Inl e | None \<Rightarrow> Inr (\<not> fst (it_Next ld itr))))"

subsection \<open>Batches\<close>

record lvUpdateBatch =
  lv_leveldbBatch :: "batch_op list"
  lv_dbName :: string
  lv_size :: nat

definition h_NewUpdateBatch :: "string \<Rightarrow> lvUpdateBatch" where
  "h_NewUpdateBatch dbName = \<lparr>lv_leveldbBatch = [], lv_dbName = dbName, lv_size = 0\<rparr>"

definition lv_Put :: "bytes \<Rightarrow> bytes option \<Rightarrow> lvUpdateBatch \<Rightarrow> lvUpdateBatch go" where
  "lv_Put key value b =
     (case value of
        None \<Rightarrow> Panic
      | Some value \<Rightarrow>
          let k = constructLevelKey (lv_dbName b) key
          in Return (b\<lparr>lv_leveldbBatch := lv_leveldbBatch b @ [BPut k value], lv_size := lv_size b + length k + length value\<rparr>))"

definition lv_Delete :: "bytes \<Rightarrow> lvUpdateBatch \<Rightarrow> lvUpdateBatch" where
  "lv_Delete key b =
     (let k = constructLevelKey (lv_dbName b) key
      in b\<lparr>lv_size := lv_size b + length k, lv_leveldbBatch := lv_leveldbBatch b @ [BDelete k]\<rparr>)"

definition lv_Len :: "lvUpdateBatch \<Rightarrow> nat" where
  "lv_Len b = length (lv_leveldbBatch b)"

definition lv_Reset :: "lvUpdateBatch \<Rightarrow> lvUpdateBatch" where
  "lv_Reset b = b\<lparr>lv_leveldbBatch := [], lv_size := 0\<rparr>"

definition h_WriteBatch :: "('s, 'c) leveldb \<Rightarrow> lvUpdateBatch \<Rightarrow> 's \<Rightarrow> string option \<times> 's" where
  "h_WriteBatch ld batch s =
     (if length (lv_leveldbBatch batch) = 0 then (None, s) else DB_WriteBatch ld (lv_leveldbBatch batch) s)"

subsection \<open>Dropping a database\<close>

definition maxBatchSize :: nat where "maxBatchSize = 1000000"

partial_function (option) deleteAll_loop ::
  "('s, 'c) leveldb \<Rightarrow> 'c \<Rightarrow> nat \<Rightarrow> batch_op list \<Rightarrow> 's \<Rightarrow> (string option \<times> 's) option" where
  "deleteAll_loop ld dbIter batchSize batch s =
     (let (more, dbIter) = it_Next ld dbIter
      in if \<not> more then Some (if length batch > 0 then DB_WriteBatch ld batch s else (None, s))
         else case it_Error ld dbIter of
                Some e \<Rightarrow> Some (Some e, s)
              | None \<Rightarrow>
                  let key = it_Key ld dbIter;
                      batchSize = batchSize + length key;
                      batch = batch @ [BDelete key]
                  in if batchSize \<ge> maxBatchSize
                     then (case DB_WriteBatch ld batch s of
                             (Some e, s) \<Rightarrow> Some (Some e, s)
                           | (None, s) \<Rightarrow> deleteAll_loop ld dbIter 0 [] s)
                     else deleteAll_loop ld dbIter batchSize batch s)"

definition deleteAll :: "('s, 'c) leveldb \<Rightarrow> string \<Rightarrow> 's \<Rightarrow> (string option \<times> 's) option" where
  "deleteAll ld dbName s =
     (case h_GetIterator ld dbName s None None of
        Inl e \<Rightarrow> Some (Some e, s)
      | Inr iter \<Rightarrow> deleteAll_loop ld iter 0 [] s)"

definition Drop :: "('s, 'c) leveldb \<Rightarrow> string \<Rightarrow> 's \<Rightarrow> (string option \<times> 's) option" where
  "Drop ld dbName s = deleteAll ld dbName s"

subsection \<open>The format of the data\<close>

abbreviation internalDBName :: string where "internalDBName \<equiv> ''_''"
abbreviation formatVersionKey :: bytes where "formatVersionKey \<equiv> ''f''"

datatype open_error = StoreErr string | ErrFormatMismatch string string

definition openDBAndCheckFormat :: "('s, 'c) leveldb \<Rightarrow> string \<Rightarrow> 's \<Rightarrow> open_error option \<times> 's" where
  "openDBAndCheckFormat ld ExpectedFormat s =
     (case DB_IsEmpty ld s of
        (_, Some e) \<Rightarrow> (Some (StoreErr e), s)
      | (dbEmpty, None) \<Rightarrow>
          if dbEmpty \<and> ExpectedFormat \<noteq> '''' then
            (case h_Put ld internalDBName formatVersionKey ExpectedFormat s of
               (Some e, s) \<Rightarrow> (Some (StoreErr e), s)
             | (None, s) \<Rightarrow> (None, s))
          else
            (case h_Get ld internalDBName s formatVersionKey of
               Inl e \<Rightarrow> (Some (StoreErr e), s)
             | Inr formatVersion \<Rightarrow>
                 let format = (case formatVersion of None \<Rightarrow> '''' | Some f \<Rightarrow> f)
                 in if format \<noteq> ExpectedFormat then (Some (ErrFormatMismatch ExpectedFormat format), s) else (None, s)))"

definition GetDataFormat :: "('s, 'c) leveldb \<Rightarrow> 's \<Rightarrow> string + string" where
  "GetDataFormat ld s =
     (case h_Get ld internalDBName s formatVersionKey of
        Inl e \<Rightarrow> Inl e
      | Inr f \<Rightarrow> Inr (case f of None \<Rightarrow> '''' | Some f \<Rightarrow> f))"

definition SetDataFormat :: "('s, 'c) leveldb \<Rightarrow> string \<Rightarrow> 's \<Rightarrow> string option \<times> 's" where
  "SetDataFormat ld format s = h_Put ld internalDBName formatVersionKey format s"

section \<open>Keys of a named database\<close>

lemma split_nul_append: "NUL \<notin> set a \<Longrightarrow> split_nul (a @ NUL # r) = (a, Some r)"
  by (induction a) auto

lemma retrieveAppKey_construct: "NUL \<notin> set dbName \<Longrightarrow> retrieveAppKey (constructLevelKey dbName key) = Return key"
  by (simp add: retrieveAppKey_def constructLevelKey_def split_nul_append)

lemma constructLevelKey_inj:
  "NUL \<notin> set n \<Longrightarrow> NUL \<notin> set n' \<Longrightarrow> constructLevelKey n k = constructLevelKey n' k' \<longleftrightarrow> n = n' \<and> k = k'"
  unfolding constructLevelKey_def append_Cons append_Nil by (metis Pair_inject option.inject split_nul_append)

lemma NUL_le [simp]: "NUL \<le> c"
  by (simp add: less_eq_char_def)

lemma less_SOH [simp]: "c < SOH \<longleftrightarrow> c = NUL"
proof -
  have "(of_char c :: nat) = 0 \<longleftrightarrow> c = NUL" using of_char_eq_iff [of c NUL] by simp
  then show ?thesis by (simp add: less_char_def)
qed

lemma append_less_iff [simp]: "P @ x < P @ y \<longleftrightarrow> x < y" for P :: string
  by (induction P) simp_all

lemma append_le_iff [simp]: "P @ x \<le> P @ y \<longleftrightarrow> x \<le> y" for P :: string
  by (induction P) simp_all

text \<open>A key between two keys with a common prefix has that prefix.\<close>

lemma between_prefix: "P @ a \<le> k \<Longrightarrow> k < P @ b \<Longrightarrow> \<exists>r. k = P @ r" for P :: string
proof (induction P arbitrary: k)
  case (Cons c P)
  then show ?case by (cases k) auto
qed simp

lemma prefix_range_bounded:
  "P @ a \<le> k \<and> k < P @ b \<longleftrightarrow> (\<exists>r. k = P @ r \<and> a \<le> r \<and> r < b)" for P :: string
  using between_prefix [of P a k b] by auto

lemma prefix_range_open:
  "P @ NUL # a \<le> k \<and> k < P @ [SOH] \<longleftrightarrow> (\<exists>r. k = P @ NUL # r \<and> a \<le> r)" for P :: string
proof
  assume k: "P @ NUL # a \<le> k \<and> k < P @ [SOH]"
  then obtain r where r: "k = P @ r" using between_prefix [of P "NUL # a" k "[SOH]"] by auto
  then have "NUL # a \<le> r" "r < [SOH]" using k by simp_all
  then show "\<exists>r. k = P @ NUL # r \<and> a \<le> r" using r by (cases r) auto
qed auto

section \<open>What the store promises\<close>

fun batch_step :: "batch_op \<Rightarrow> (bytes, bytes) fmap \<Rightarrow> (bytes, bytes) fmap" where
  "batch_step (BPut k v) m = fmupd k v m"
| "batch_step (BDelete k) m = fmdrop k m"

definition key_range :: "bytes option \<Rightarrow> bytes option \<Rightarrow> bytes \<Rightarrow> bool" where
  "key_range a b k \<longleftrightarrow> (case a of None \<Rightarrow> True | Some a \<Rightarrow> a \<le> k) \<and> (case b of None \<Rightarrow> True | Some b \<Rightarrow> k < b)"

definition level_range :: "(bytes, bytes) fmap \<Rightarrow> bytes option \<Rightarrow> bytes option \<Rightarrow> (bytes \<times> bytes) list" where
  "level_range m a b = filter (\<lambda>(k, _). key_range a b k) (sorted_list_of_fmap m)"

text \<open>
  A state holds a map of keys to values.  A write fails and changes nothing, or is carried out as a
  whole.  An iterator is a list of the entries it was opened on, in the order of the keys, and a position
  in it: 0 before the first entry, \<open>i + 1\<close> at the entry \<open>i\<close>, one more than their number after the last.
\<close>

locale level_store =
  fixes ld :: "('s, 'c) leveldb" and items :: "'s \<Rightarrow> (bytes, bytes) fmap" and view :: "'c \<Rightarrow> (bytes \<times> bytes) list \<times> nat"
  assumes Get: "ld_Get ld s k = (case fmlookup (items s) k of None \<Rightarrow> Inl ErrNotFound | Some v \<Rightarrow> Inr v)"
    and Put: "ld_Put ld k v s = Inr s' \<Longrightarrow> items s' = fmupd k v (items s)"
    and Delete: "ld_Delete ld k s = Inr s' \<Longrightarrow> items s' = fmdrop k (items s)"
    and Write: "ld_Write ld batch s = Inr s' \<Longrightarrow> items s' = fold batch_step batch (items s)"
    and NewIterator: "view (ld_NewIterator ld s a b) = (level_range (items s) a b, 0)"
    and Next: "view c = (xs, p) \<Longrightarrow> \<exists>c'. it_Next ld c = (p < length xs, c') \<and> view c' = (xs, min (p + 1) (length xs + 1))"
    and Prev: "view c = (xs, p) \<Longrightarrow> \<exists>c'. it_Prev ld c = (2 \<le> p, c') \<and> view c' = (xs, p - 1)"
    and Seek: "view c = (xs, p) \<Longrightarrow>
      \<exists>c'. it_Seek ld k c = (\<exists>x \<in> set xs. k \<le> fst x, c') \<and> view c' = (xs, length (takeWhile (\<lambda>x. fst x < k) xs) + 1)"
    and Entry: "view c = (xs, p) \<Longrightarrow> 1 \<le> p \<Longrightarrow> p \<le> length xs \<Longrightarrow> (it_Key ld c, it_Value ld c) = xs ! (p - 1)"
    and Error: "it_Error ld c = None"
begin

lemma DB_Get_eq: "DB_Get ld s k = Inr (fmlookup (items s) k)"
  by (simp add: DB_Get_def Get split: option.split)

text \<open>The entries an iterator has still to give.\<close>

definition rest :: "'c \<Rightarrow> (bytes \<times> bytes) list" where
  "rest c = (case view c of (xs, p) \<Rightarrow> drop p xs)"

lemma Next_Nil: "rest c = [] \<Longrightarrow> \<exists>c'. it_Next ld c = (False, c') \<and> rest c' = []"
  using Next [of c "fst (view c)" "snd (view c)"] by (auto simp: rest_def split: prod.splits)

lemma Next_Cons:
  assumes "rest c = (k, v) # r"
  shows "\<exists>c'. it_Next ld c = (True, c') \<and> it_Key ld c' = k \<and> it_Value ld c' = v \<and> rest c' = r"
proof -
  obtain xs p where c: "view c = (xs, p)" by fastforce
  have d: "drop p xs = (k, v) # r" using assms c by (simp add: rest_def)
  then have p: "p < length xs" by (metis drop_all leI list.distinct(1))
  obtain c' where c': "it_Next ld c = (True, c')" "view c' = (xs, p + 1)"
    using Next [OF c] p by (auto simp: min_def)
  have "xs ! p = (k, v)" using d p by (metis nth_via_drop)
  then have "(it_Key ld c', it_Value ld c') = (k, v)" using Entry [OF c'(2)] p by simp
  moreover have "rest c' = r" using c'(2) d by (simp add: rest_def) (metis drop_Suc list.sel(3) tl_drop)
  ultimately show ?thesis using c'(1) by simp
qed

lemma rest_NewIterator: "rest (ld_NewIterator ld s a b) = level_range (items s) a b"
  by (simp add: rest_def NewIterator)

end

section \<open>Dropping a database removes it and nothing else\<close>

definition writes_succeed :: "('s, 'c) leveldb \<Rightarrow> bool" where
  "writes_succeed ld \<longleftrightarrow> (\<forall>b s. \<exists>s'. ld_Write ld b s = Inr s')"

lemma fold_deletes: "fold batch_step (map BDelete ks) m = fmfilter (\<lambda>k. k \<notin> set ks) m"
proof (induction ks arbitrary: m)
  case (Cons k ks)
  have "fmfilter (\<lambda>x. x \<notin> set ks) (fmdrop k m) = fmfilter (\<lambda>x. x \<notin> set (k # ks)) m"
    by (rule fmap_ext) auto
  then show ?case by (simp add: Cons.IH)
qed simp

lemma set_level_range: "(k, v) \<in> set (level_range m a b) \<longleftrightarrow> key_range a b k \<and> fmlookup m k = Some v"
  by (auto simp: level_range_def sorted_list_of_fmap_def sorted_list_of_fset.rep_eq fmlookup_dom_iff)

lemma set_level_range_keys: "set (map fst (level_range m a b)) = {k. key_range a b k \<and> fmlookup m k \<noteq> None}"
proof (rule set_eqI)
  fix k
  have "k \<in> set (map fst (level_range m a b)) \<longleftrightarrow> (\<exists>v. (k, v) \<in> set (level_range m a b))" by force
  then show "k \<in> set (map fst (level_range m a b)) \<longleftrightarrow> k \<in> {k. key_range a b k \<and> fmlookup m k \<noteq> None}"
    by (simp add: set_level_range)
qed

lemma constructLevelKey_last:
  "(constructLevelKey dbName [])[length (constructLevelKey dbName []) - 1 := SOH] = dbName @ [SOH]"
  by (simp add: constructLevelKey_def)

lemma key_range_db:
  "key_range (Some (constructLevelKey dbName [])) (Some (dbName @ [SOH])) k \<longleftrightarrow> (\<exists>r. k = constructLevelKey dbName r)"
  using prefix_range_open [of dbName "[]" k] by (simp add: key_range_def constructLevelKey_def)

context level_store
begin

lemma deleteAll_loop_eq:
  assumes "writes_succeed ld"
  shows "\<exists>s'. deleteAll_loop ld c n batch s = Some (None, s') \<and>
    items s' = fold batch_step (batch @ map (BDelete \<circ> fst) (rest c)) (items s)"
proof (induction "rest c" arbitrary: c n batch s)
  case Nil
  obtain c' where "it_Next ld c = (False, c')" using Next_Nil Nil by metis
  moreover obtain s' where "ld_Write ld batch s = Inr s'" using assms by (auto simp: writes_succeed_def)
  ultimately show ?case using Nil Write [of batch s]
    by (subst deleteAll_loop.simps) (auto simp: DB_WriteBatch_def)
next
  case (Cons x r)
  obtain k v where x: "x = (k, v)" by fastforce
  then obtain c' where c': "it_Next ld c = (True, c')" "it_Key ld c' = k" "rest c' = r"
    using Next_Cons [of c k v r] Cons.hyps(2) by auto
  obtain s1 where s1: "ld_Write ld (batch @ [BDelete k]) s = Inr s1" using assms by (auto simp: writes_succeed_def)
  show ?case
  proof (cases "n + length k \<ge> maxBatchSize")
    case True
    then have "deleteAll_loop ld c n batch s = deleteAll_loop ld c' 0 [] s1"
      using c' s1 by (subst deleteAll_loop.simps) (simp add: Error DB_WriteBatch_def Let_def)
    then show ?thesis using Cons.hyps(1) [OF c'(3) [symmetric], of 0 "[]" s1] Write [OF s1] Cons.hyps(2) c'(3) x
      by (auto simp flip: Cons.hyps(2))
  next
    case False
    then have "deleteAll_loop ld c n batch s = deleteAll_loop ld c' (n + length k) (batch @ [BDelete k]) s"
      using c' by (subst deleteAll_loop.simps) (simp add: Error Let_def)
    then show ?thesis using Cons.hyps(1) [OF c'(3) [symmetric], of "n + length k" "batch @ [BDelete k]" s] c'(3) x
      by (auto simp flip: Cons.hyps(2))
  qed
qed

lemma deleteAll_eq:
  assumes "writes_succeed ld"
  shows "\<exists>s'. deleteAll ld dbName s = Some (None, s') \<and>
    items s' = fmfilter (\<lambda>k. \<nexists>r. k = constructLevelKey dbName r) (items s)"
proof -
  let ?range = "level_range (items s) (Some (constructLevelKey dbName [])) (Some (dbName @ [SOH]))"
  let ?c = "ld_NewIterator ld s (Some (constructLevelKey dbName [])) (Some (dbName @ [SOH]))"
  have itr: "h_GetIterator ld dbName s None None = Inr ?c"
    by (simp only: h_GetIterator_def Let_def option.case if_True Error DB_GetIterator_def constructLevelKey_last refl)
  obtain s' where s': "deleteAll_loop ld ?c 0 [] s = Some (None, s')"
    "items s' = fold batch_step (map BDelete (map fst ?range)) (items s)"
    using deleteAll_loop_eq [OF assms, of ?c 0 "[]" s] by (auto simp: rest_NewIterator)
  have "fmfilter (\<lambda>k. k \<notin> set (map fst ?range)) (items s) = fmfilter (\<lambda>k. \<nexists>r. k = constructLevelKey dbName r) (items s)"
    unfolding set_level_range_keys key_range_db by (rule fmap_ext) (auto simp: fmlookup_filter)
  then show ?thesis using s' itr unfolding fold_deletes by (auto simp: deleteAll_def)
qed

lemma Drop_isolated:
  assumes "writes_succeed ld" "NUL \<notin> set dbName"
  shows "\<exists>s'. Drop ld dbName s = Some (None, s') \<and> (\<forall>k. h_Get ld dbName s' k = Inr None) \<and> h_IsEmpty ld dbName s' = Inr True \<and>
    (\<forall>other k. NUL \<notin> set other \<and> other \<noteq> dbName \<longrightarrow> h_Get ld other s' k = h_Get ld other s k)"
proof -
  obtain s' where s': "Drop ld dbName s = Some (None, s')"
    "items s' = fmfilter (\<lambda>k. \<nexists>r. k = constructLevelKey dbName r) (items s)"
    using deleteAll_eq [OF assms(1)] unfolding Drop_def by blast
  have "set (map fst (level_range (items s') (Some (constructLevelKey dbName [])) (Some (dbName @ [SOH])))) = {}"
    unfolding set_level_range_keys key_range_db s'(2) by auto
  then have "level_range (items s') (Some (constructLevelKey dbName [])) (Some (dbName @ [SOH])) = []" by simp
  then have "h_IsEmpty ld dbName s' = Inr True"
    using Next_Nil [of "ld_NewIterator ld s' (Some (constructLevelKey dbName [])) (Some (dbName @ [SOH]))"]
    by (auto simp: h_IsEmpty_def h_GetIterator_def Let_def Error DB_GetIterator_def constructLevelKey_last [simplified]
        rest_NewIterator constructLevelKey_def)
  moreover have "h_Get ld dbName s' k = Inr None" for k
    by (auto simp: h_Get_def DB_Get_eq s'(2))
  moreover have "h_Get ld other s' k = h_Get ld other s k" if "NUL \<notin> set other" "other \<noteq> dbName" for other k
    using that assms(2) by (simp add: h_Get_def DB_Get_eq s'(2) constructLevelKey_inj)
  ultimately show ?thesis using s'(1) by blast
qed

end

section \<open>The format of the data is fixed when the store is created\<close>

context level_store
begin

lemma DB_IsEmpty_eq: "DB_IsEmpty ld s = (items s = fmempty, None)"
proof -
  let ?c = "ld_NewIterator ld s None None"
  have range: "level_range (items s) None None = [] \<longleftrightarrow> items s = fmempty"
  proof -
    have "set (map fst (level_range (items s) None None)) = {k. fmlookup (items s) k \<noteq> None}"
      unfolding set_level_range_keys by (simp add: key_range_def)
    then have "level_range (items s) None None = [] \<longleftrightarrow> (\<forall>k. fmlookup (items s) k = None)" by (auto simp flip: set_empty)
    also have "\<dots> \<longleftrightarrow> items s = fmempty" by (auto intro: fmap_ext)
    finally show ?thesis .
  qed
  show ?thesis
  proof (cases "rest ?c")
    case Nil
    then show ?thesis using Next_Nil [OF Nil] range by (auto simp: DB_IsEmpty_def Error rest_NewIterator)
  next
    case (Cons x r)
    then show ?thesis using Next_Cons [of ?c "fst x" "snd x" r] range by (auto simp: DB_IsEmpty_def Error rest_NewIterator)
  qed
qed

lemma open_format:
  assumes "items s = fmempty" "fmt \<noteq> ''''" "ld_Put ld (constructLevelKey internalDBName formatVersionKey) fmt s = Inr s'"
  shows "openDBAndCheckFormat ld fmt s = (None, s')"
    and "openDBAndCheckFormat ld fmt' s' = (if fmt' = fmt then None else Some (ErrFormatMismatch fmt' fmt), s')"
    and "GetDataFormat ld s' = Inr fmt"
proof -
  have s': "items s' = fmupd (constructLevelKey internalDBName formatVersionKey) fmt fmempty" using Put [OF assms(3)] assms(1) by simp
  have "h_Get ld internalDBName s' formatVersionKey = Inr (Some fmt)" by (simp add: h_Get_def DB_Get_eq s')
  moreover have "items s' \<noteq> fmempty" by (simp add: s')
  ultimately show "openDBAndCheckFormat ld fmt' s' = (if fmt' = fmt then None else Some (ErrFormatMismatch fmt' fmt), s')"
    "GetDataFormat ld s' = Inr fmt"
    by (simp_all add: openDBAndCheckFormat_def DB_IsEmpty_eq GetDataFormat_def)
  show "openDBAndCheckFormat ld fmt s = (None, s')"
    using assms by (simp add: openDBAndCheckFormat_def DB_IsEmpty_eq h_Put_def DB_Put_def)
qed

end

section \<open>A store in memory\<close>

text \<open>A store that keeps its entries in memory does what is promised.\<close>

definition mem_leveldb :: "((bytes, bytes) fmap, (bytes \<times> bytes) list \<times> nat) leveldb" where
  "mem_leveldb =
     \<lparr>ld_Get = (\<lambda>s k. case fmlookup s k of None \<Rightarrow> Inl ErrNotFound | Some v \<Rightarrow> Inr v),
      ld_Put = (\<lambda>k v s. Inr (fmupd k v s)),
      ld_Delete = (\<lambda>k s. Inr (fmdrop k s)),
      ld_Write = (\<lambda>b s. Inr (fold batch_step b s)),
      ld_NewIterator = (\<lambda>s a b. (level_range s a b, 0)),
      it_Next = (\<lambda>(xs, p). (p < length xs, (xs, min (p + 1) (length xs + 1)))),
      it_Prev = (\<lambda>(xs, p). (2 \<le> p, (xs, p - 1))),
      it_Seek = (\<lambda>k (xs, p). (list_ex (\<lambda>x. k \<le> fst x) xs, (xs, length (takeWhile (\<lambda>x. fst x < k) xs) + 1))),
      it_Key = (\<lambda>(xs, p). if 1 \<le> p \<and> p \<le> length xs then fst (xs ! (p - 1)) else []),
      it_Value = (\<lambda>(xs, p). if 1 \<le> p \<and> p \<le> length xs then snd (xs ! (p - 1)) else []),
      it_Error = (\<lambda>_. None)\<rparr>"

interpretation mem: level_store mem_leveldb "\<lambda>s. s" "\<lambda>c. c"
  by unfold_locales (auto simp: mem_leveldb_def list_ex_iff)

lemma mem_writes: "writes_succeed mem_leveldb"
  by (simp add: writes_succeed_def mem_leveldb_def)

text \<open>C38: dropping a named database always returns, whatever the number of its keys and of the batches they
  are deleted in; afterwards the database is empty, and every key of every other database has the value it
  had.  The names of databases contain no zero byte.  The store is only assumed to do what goleveldb
  documents and not to fail.
\<close>

theorem Drop_isolates:
  assumes "level_store ld items view" "writes_succeed ld" "NUL \<notin> set dbName"
  shows "\<exists>s'. Drop ld dbName s = Some (None, s') \<and> (\<forall>k. h_Get ld dbName s' k = Inr None) \<and> h_IsEmpty ld dbName s' = Inr True \<and>
    (\<forall>other k. NUL \<notin> set other \<and> other \<noteq> dbName \<longrightarrow> h_Get ld other s' k = h_Get ld other s k)"
  by (rule level_store.Drop_isolated [OF assms])

theorem Drop_isolates_witness:
  "\<exists>s'. Drop mem_leveldb ''ch'' (fmap_of_list [(''ch'' @ NUL # ''k'', ''v''), (''ch1'' @ NUL # ''k'', ''w'')]) = Some (None, s') \<and>
     h_Get mem_leveldb ''ch'' s' ''k'' = Inr None \<and> h_Get mem_leveldb ''ch1'' s' ''k'' = Inr (Some ''w'')"
proof -
  let ?s = "fmap_of_list [(''ch'' @ NUL # ''k'', ''v''), (''ch1'' @ NUL # ''k'', ''w'')]"
  have "h_Get mem_leveldb ''ch1'' ?s ''k'' = Inr (Some ''w'')"
    by (simp add: h_Get_def mem.DB_Get_eq constructLevelKey_def fmlookup_of_list)
  then show ?thesis
    using Drop_isolates [OF mem.level_store_axioms mem_writes, of "''ch''" ?s] by fastforce
qed

end
