(* ===== verification/Privacy_DB.thy ===== *)
theory Privacy_DB
  imports Versioned_DB Go_Json
begin

text \<open>
  The database of a channel (\<^verbatim>\<open>core/ledger/kvledger/txmgmt/privacyenabledstate/db.go\<close>, \<^verbatim>\<open>optimization.go\<close>):
  one versioned database holds the public data, the private data and the hashes of the private data, the
  latter two in namespaces whose names are derived from the chaincode and the collection.  The lemmas
  show that the derived namespaces do not interfere and what a combined batch holds.
\<close>

section \<open>Names of namespaces\<close>

abbreviation nsJoiner :: string where "nsJoiner \<equiv> ''$$''"
abbreviation pvtDataPrefix :: string where "pvtDataPrefix \<equiv> ''p''"
abbreviation hashDataPrefix :: string where "hashDataPrefix \<equiv> ''h''"

definition derivePvtDataNs :: "string \<Rightarrow> string \<Rightarrow> string" where
  "derivePvtDataNs namespace collection = namespace @ nsJoiner @ pvtDataPrefix @ collection"

definition deriveHashedDataNs :: "string \<Rightarrow> string \<Rightarrow> string" where
  "deriveHashedDataNs namespace collection = namespace @ nsJoiner @ hashDataPrefix @ collection"

section \<open>Reading\<close>

record metadataHint =
  mh_cache :: "string \<Rightarrow> bool"

record DB =
  pd_db :: VersionedDB
  pd_metadataHint :: metadataHint

definition metadataEverUsedFor :: "metadataHint \<Rightarrow> string \<Rightarrow> bool" where
  "metadataEverUsedFor h namespace = mh_cache h namespace"

definition IsBulkOptimizable :: "DB \<Rightarrow> bool" where
  "IsBulkOptimizable s \<longleftrightarrow> vd_LoadCommittedVersions (pd_db s) \<noteq> None"

definition key_str :: "DB \<Rightarrow> bytes \<Rightarrow> string" where
  "key_str s keyHash = (if \<not> vd_BytesKeySupported (pd_db s) then b64_encode keyHash else keyHash)"

record HashedCompositeKey =
  hck_Namespace :: string
  hck_CollectionName :: string
  hck_KeyHash :: string

definition LoadCommittedVersionsOfPubAndHashedKeys ::
  "DB \<Rightarrow> CompositeKey list \<Rightarrow> HashedCompositeKey list \<Rightarrow> string option" where
  "LoadCommittedVersionsOfPubAndHashedKeys s pubKeys hashedKeys =
     (case vd_LoadCommittedVersions (pd_db s) of
        None \<Rightarrow> None
      | Some load \<Rightarrow>
          load (pubKeys @
            map (\<lambda>key. \<lparr>ck_Namespace = deriveHashedDataNs (hck_Namespace key) (hck_CollectionName key),
                        ck_Key = key_str s (hck_KeyHash key)\<rparr>) hashedKeys))"

definition GetPrivateData :: "DB \<Rightarrow> string \<Rightarrow> string \<Rightarrow> string \<Rightarrow> string + VersionedValue option" where
  "GetPrivateData s namespace collection key =
     vd_GetState (pd_db s) (derivePvtDataNs namespace collection) key"

definition GetValueHash :: "DB \<Rightarrow> string \<Rightarrow> string \<Rightarrow> bytes \<Rightarrow> string + VersionedValue option" where
  "GetValueHash s namespace collection keyHash =
     vd_GetState (pd_db s) (deriveHashedDataNs namespace collection) (key_str s keyHash)"

definition GetPrivateDataHash :: "(string \<Rightarrow> bytes) \<Rightarrow> DB \<Rightarrow> string \<Rightarrow> string \<Rightarrow> string \<Rightarrow> string + VersionedValue option" where
  "GetPrivateDataHash ComputeStringHash s namespace collection key =
     GetValueHash s namespace collection (ComputeStringHash key)"

definition GetKeyHashVersion :: "DB \<Rightarrow> string \<Rightarrow> string \<Rightarrow> bytes \<Rightarrow> string + Height option" where
  "GetKeyHashVersion s namespace collection keyHash =
     vd_GetVersion (pd_db s) (deriveHashedDataNs namespace collection) (key_str s keyHash)"

definition GetStateMetadata :: "DB \<Rightarrow> string \<Rightarrow> string \<Rightarrow> string + bytes option" where
  "GetStateMetadata s namespace key =
     (if \<not> metadataEverUsedFor (pd_metadataHint s) namespace then Inr None
      else case vd_GetState (pd_db s) namespace key of
             Inl e \<Rightarrow> Inl e
           | Inr None \<Rightarrow> Inr None
           | Inr (Some vv) \<Rightarrow> Inr (vv_Metadata vv))"

definition GetPrivateDataMetadataByHash :: "DB \<Rightarrow> string \<Rightarrow> string \<Rightarrow> bytes \<Rightarrow> string + bytes option" where
  "GetPrivateDataMetadataByHash s namespace collection keyHash =
     (if \<not> metadataEverUsedFor (pd_metadataHint s) namespace then Inr None
      else case GetValueHash s namespace collection keyHash of
             Inl e \<Rightarrow> Inl e
           | Inr None \<Rightarrow> Inr None
           | Inr (Some vv) \<Rightarrow> Inr (vv_Metadata vv))"

section \<open>Writing\<close>

record PrivacyUpdateBatch =
  pub_updates :: UpdateBatch
  hash_updates :: UpdateMap
  pvt_updates :: UpdateMap

definition addPvtUpdates :: "um_visit \<Rightarrow> UpdateMap \<Rightarrow> UpdateBatch \<Rightarrow> UpdateBatch" where
  "addPvtUpdates ord pvtUpdateBatch pubUpdateBatch =
     fold (\<lambda>(ns, coll, key) b.
       case um_Get pvtUpdateBatch ns coll key of
         None \<Rightarrow> b | Some vv \<Rightarrow> ub_Update (derivePvtDataNs ns coll) key vv b) ord pubUpdateBatch"

definition addHashedUpdates :: "um_visit \<Rightarrow> bool \<Rightarrow> UpdateMap \<Rightarrow> UpdateBatch \<Rightarrow> UpdateBatch" where
  "addHashedUpdates ord base64Key hashedUpdateBatch pubUpdateBatch =
     fold (\<lambda>(ns, coll, key) b.
       case um_Get hashedUpdateBatch ns coll key of
         None \<Rightarrow> b
       | Some vv \<Rightarrow> ub_Update (deriveHashedDataNs ns coll) (if base64Key then b64_encode key else key) vv b)
       ord pubUpdateBatch"

definition filterNamespacesThatHasMetadata :: "visit \<Rightarrow> um_visit \<Rightarrow> PrivacyUpdateBatch \<Rightarrow> string \<Rightarrow> bool" where
  "filterNamespacesThatHasMetadata ord hord updates ns \<longleftrightarrow>
     (\<exists>(ns', key) \<in> set ord. ns' = ns \<and>
        (case ub_Get (pub_updates updates) ns' key of None \<Rightarrow> False | Some vv \<Rightarrow> vv_Metadata vv \<noteq> None)) \<or>
     (\<exists>(ns', coll, key) \<in> set hord. ns' = ns \<and>
        (case um_Get (hash_updates updates) ns' coll key of None \<Rightarrow> False | Some vv \<Rightarrow> vv_Metadata vv \<noteq> None))"

text \<open>
  The new hint and the write of the bookkeeper, which stores the namespaces that are new.
\<close>

definition setMetadataUsedFlag ::
  "((string \<Rightarrow> bool) \<Rightarrow> string option) \<Rightarrow> visit \<Rightarrow> um_visit \<Rightarrow> PrivacyUpdateBatch \<Rightarrow> metadataHint \<Rightarrow> string option \<times> metadataHint" where
  "setMetadataUsedFlag WriteBatch ord hord updates h =
     (let found = filterNamespacesThatHasMetadata ord hord updates
      in (WriteBatch (\<lambda>ns. found ns \<and> \<not> mh_cache h ns), h\<lparr>mh_cache := \<lambda>ns. mh_cache h ns \<or> found ns\<rparr>))"

definition ApplyPrivacyAwareUpdates ::
  "((string \<Rightarrow> bool) \<Rightarrow> string option) \<Rightarrow> (UpdateBatch \<Rightarrow> Height option \<Rightarrow> 'd \<Rightarrow> 'd res) \<Rightarrow> bool \<Rightarrow>
     visit \<Rightarrow> um_visit \<Rightarrow> um_visit \<Rightarrow> PrivacyUpdateBatch \<Rightarrow> Height option \<Rightarrow> metadataHint \<times> 'd \<Rightarrow> (metadataHint \<times> 'd) res" where
  "ApplyPrivacyAwareUpdates WriteBatch ApplyUpdates bytesKeySupported ord hord pord updates height = (\<lambda>(h, d).
     let combinedUpdates = addHashedUpdates hord (\<not> bytesKeySupported) (hash_updates updates)
           (addPvtUpdates pord (pvt_updates updates) (pub_updates updates))
     in case setMetadataUsedFlag WriteBatch ord hord (updates\<lparr>pub_updates := combinedUpdates\<rparr>) h of
          (Some e, h) \<Rightarrow> err e
        | (None, h) \<Rightarrow> res_bind (ApplyUpdates combinedUpdates height d) (\<lambda>d. ret (h, d)))"

section \<open>Derived namespaces do not interfere\<close>

text \<open>Names of chaincodes have no dollar sign.\<close>

definition plain_ns :: "string \<Rightarrow> bool" where
  "plain_ns ns \<longleftrightarrow> CHR ''$'' \<notin> set ns"

lemma split_dollar:
  "CHR ''$'' \<notin> set a \<Longrightarrow> CHR ''$'' \<notin> set b \<Longrightarrow> a @ CHR ''$'' # x = b @ CHR ''$'' # y \<longleftrightarrow> a = b \<and> x = y"
proof (induction a arbitrary: b)
  case Nil
  then show ?case by (cases b) auto
next
  case (Cons c a)
  then show ?case by (cases b) auto
qed

lemma deriveHashedDataNs_inj:
  "plain_ns ns \<Longrightarrow> plain_ns ns' \<Longrightarrow> deriveHashedDataNs ns c = deriveHashedDataNs ns' c' \<longleftrightarrow> ns = ns' \<and> c = c'"
  by (simp add: deriveHashedDataNs_def plain_ns_def split_dollar)

lemma derivePvtDataNs_inj:
  "plain_ns ns \<Longrightarrow> plain_ns ns' \<Longrightarrow> derivePvtDataNs ns c = derivePvtDataNs ns' c' \<longleftrightarrow> ns = ns' \<and> c = c'"
  by (simp add: derivePvtDataNs_def plain_ns_def split_dollar)

lemma derived_ns_disjoint:
  "plain_ns ns \<Longrightarrow> plain_ns ns' \<Longrightarrow> derivePvtDataNs ns c \<noteq> deriveHashedDataNs ns' c'"
  "plain_ns ns \<Longrightarrow> ns \<noteq> deriveHashedDataNs ns' c'"
  "plain_ns ns \<Longrightarrow> ns \<noteq> derivePvtDataNs ns' c'"
  by (auto simp: derivePvtDataNs_def deriveHashedDataNs_def plain_ns_def split_dollar)

end
