(* ===== verification/Tx_Ops.thy ===== *)
theory Tx_Ops
  imports Privacy_DB Messages
begin

text \<open>
  The write set of a transaction as operations on keys and its application to the updates of a block
  (\<^verbatim>\<open>core/ledger/kvledger/txmgmt/validation/tx_ops.go\<close> and \<open>applyWriteSet\<close> of \<^verbatim>\<open>types.go\<close>).  The flags of a key
  are an 8-bit number that every write adds to.  The lemmas give the effect on the state as seen through
  the updates: a write replaces the value and keeps the metadata, a metadata write keeps the value, a
  delete removes the key.
\<close>

unbundle bit_operations_syntax

section \<open>Read-write sets\<close>

record CollHashedRwSet =
  chr_CollectionName :: string
  chr_HashedRwSet :: HashedRWSet
  chr_PvtRwSetHash :: "bytes option"

record NsRwSet =
  nsr_NameSpace :: string
  nsr_KvRwSet :: KVRWSet
  nsr_CollHashedRwSets :: "CollHashedRwSet list"

type_synonym TxRwSet = "NsRwSet list"

definition IsKVWriteDelete :: "KVWrite \<Rightarrow> bool" where
  "IsKVWriteDelete kvWrite \<longleftrightarrow> kw_IsDelete kvWrite \<or> kw_Value kvWrite = []"

definition IsKVWriteHashDelete :: "bytes \<Rightarrow> KVWriteHash \<Rightarrow> bool" where
  "IsKVWriteHashDelete hashOfZeroLengthByteArray kvWriteHash \<longleftrightarrow>
     kwh_IsDelete kvWriteHash \<or> kwh_ValueHash kvWriteHash = [] \<or> hashOfZeroLengthByteArray = kwh_ValueHash kvWriteHash"

section \<open>Operations on keys\<close>

type_synonym compositeKey = "string \<times> string \<times> string"

record keyOps =
  ko_flag :: u8
  ko_value :: "bytes option"
  ko_metadata :: "bytes option"

type_synonym txOps = "compositeKey \<rightharpoonup> keyOps"

definition upsertVal :: u8 where "upsertVal = 1"
definition metadataUpdateFlag :: u8 where "metadataUpdateFlag = 2"
definition metadataDeleteFlag :: u8 where "metadataDeleteFlag = 4"
definition keyDelete :: u8 where "keyDelete = 8"

lemmas flag_defs = upsertVal_def metadataUpdateFlag_def metadataDeleteFlag_def keyDelete_def

definition getOrCreateKeyEntry :: "compositeKey \<Rightarrow> txOps \<Rightarrow> keyOps" where
  "getOrCreateKeyEntry k txops =
     (case txops k of None \<Rightarrow> \<lparr>ko_flag = 0, ko_value = None, ko_metadata = None\<rparr> | Some keyops \<Rightarrow> keyops)"

definition tx_upsert :: "compositeKey \<Rightarrow> bytes \<Rightarrow> txOps \<Rightarrow> txOps" where
  "tx_upsert k val txops =
     (let keyops = getOrCreateKeyEntry k txops
      in txops(k \<mapsto> keyops\<lparr>ko_flag := ko_flag keyops + upsertVal, ko_value := Some val\<rparr>))"

definition tx_delete :: "compositeKey \<Rightarrow> txOps \<Rightarrow> txOps" where
  "tx_delete k txops =
     (let keyops = getOrCreateKeyEntry k txops in txops(k \<mapsto> keyops\<lparr>ko_flag := ko_flag keyops + keyDelete\<rparr>))"

definition tx_metadataUpdate :: "compositeKey \<Rightarrow> bytes \<Rightarrow> txOps \<Rightarrow> txOps" where
  "tx_metadataUpdate k metadata txops =
     (let keyops = getOrCreateKeyEntry k txops
      in txops(k \<mapsto> keyops\<lparr>ko_flag := ko_flag keyops + metadataUpdateFlag, ko_metadata := Some metadata\<rparr>))"

definition tx_metadataDelete :: "compositeKey \<Rightarrow> txOps \<Rightarrow> txOps" where
  "tx_metadataDelete k txops =
     (let keyops = getOrCreateKeyEntry k txops
      in txops(k \<mapsto> keyops\<lparr>ko_flag := ko_flag keyops + metadataDeleteFlag\<rparr>))"

definition isDelete :: "keyOps \<Rightarrow> bool" where
  "isDelete keyops \<longleftrightarrow> ko_flag keyops AND keyDelete = keyDelete"

definition isUpsertAndMetadataUpdate :: "keyOps \<Rightarrow> bool" where
  "isUpsertAndMetadataUpdate keyops \<longleftrightarrow>
     (if ko_flag keyops AND upsertVal = upsertVal
      then ko_flag keyops AND metadataUpdateFlag = metadataUpdateFlag \<or>
           ko_flag keyops AND metadataDeleteFlag = metadataDeleteFlag
      else False)"

definition isOnlyUpsert :: "keyOps \<Rightarrow> bool" where
  "isOnlyUpsert keyops \<longleftrightarrow> ko_flag keyops OR upsertVal = upsertVal"

definition applyKVWrite :: "string \<Rightarrow> string \<Rightarrow> KVWrite \<Rightarrow> txOps \<Rightarrow> txOps" where
  "applyKVWrite ns coll kvWrite txops =
     (if IsKVWriteDelete kvWrite then tx_delete (ns, coll, kw_Key kvWrite) txops
      else tx_upsert (ns, coll, kw_Key kvWrite) (kw_Value kvWrite) txops)"

text \<open>\<open>statemetadata.Serialize\<close>, which marshals the entries, is an argument.\<close>

definition applyMetadata ::
  "(KVMetadataEntry list \<Rightarrow> string + bytes) \<Rightarrow> string \<Rightarrow> string \<Rightarrow> KVMetadataWrite \<Rightarrow> txOps \<Rightarrow> string + txOps" where
  "applyMetadata Serialize ns coll metadataWrite txops =
     (case mw_Entries metadataWrite of
        None \<Rightarrow> Inr (tx_metadataDelete (ns, coll, mw_Key metadataWrite) txops)
      | Some entries \<Rightarrow>
          (case Serialize entries of
             Inl e \<Rightarrow> Inl e
           | Inr metadataBytes \<Rightarrow> Inr (tx_metadataUpdate (ns, coll, mw_Key metadataWrite) metadataBytes txops)))"

definition hashed_write :: "bytes \<Rightarrow> KVWriteHash \<Rightarrow> KVWrite" where
  "hashed_write zeroHash w =
     \<lparr>kw_Key = kwh_KeyHash w, kw_IsDelete = IsKVWriteHashDelete zeroHash w, kw_Value = kwh_ValueHash w\<rparr>"

definition hashed_metadata :: "KVMetadataWriteHash \<Rightarrow> KVMetadataWrite" where
  "hashed_metadata w = \<lparr>mw_Key = mwh_KeyHash w, mw_Entries = mwh_Entries w\<rparr>"

definition apply_coll ::
  "(KVMetadataEntry list \<Rightarrow> string + bytes) \<Rightarrow> bytes \<Rightarrow> string \<Rightarrow> CollHashedRwSet \<Rightarrow> txOps \<Rightarrow> string + txOps" where
  "apply_coll Serialize zeroHash ns collHashRWset txops =
     (let coll = chr_CollectionName collHashRWset
      in fold_err (applyMetadata Serialize ns coll) (map hashed_metadata (hrw_MetadataWrites (chr_HashedRwSet collHashRWset)))
           (fold (applyKVWrite ns coll) (map (hashed_write zeroHash) (hrw_HashedWrites (chr_HashedRwSet collHashRWset))) txops))"

definition apply_ns ::
  "(KVMetadataEntry list \<Rightarrow> string + bytes) \<Rightarrow> bytes \<Rightarrow> NsRwSet \<Rightarrow> txOps \<Rightarrow> string + txOps" where
  "apply_ns Serialize zeroHash nsRWSet txops =
     (let ns = nsr_NameSpace nsRWSet
      in case fold_err (applyMetadata Serialize ns '''') (rw_MetadataWrites (nsr_KvRwSet nsRWSet))
                (fold (applyKVWrite ns '''') (rw_Writes (nsr_KvRwSet nsRWSet)) txops) of
           Inl e \<Rightarrow> Inl e
         | Inr txops \<Rightarrow> fold_err (apply_coll Serialize zeroHash ns) (nsr_CollHashedRwSets nsRWSet) txops)"

definition applyTxRwset ::
  "(KVMetadataEntry list \<Rightarrow> string + bytes) \<Rightarrow> bytes \<Rightarrow> TxRwSet \<Rightarrow> txOps \<Rightarrow> string + txOps" where
  "applyTxRwset Serialize zeroHash rwset txops = fold_err (apply_ns Serialize zeroHash) rwset txops"

section \<open>Merging with the latest state\<close>

record publicAndHashUpdates =
  ph_public :: UpdateBatch
  ph_hash :: UpdateMap

definition newPubAndHashUpdates :: publicAndHashUpdates where
  "newPubAndHashUpdates = \<lparr>ph_public = NewUpdateBatch, ph_hash = fmempty\<rparr>"

definition retrieveLatestState :: "compositeKey \<Rightarrow> publicAndHashUpdates \<Rightarrow> DB \<Rightarrow> string + VersionedValue option" where
  "retrieveLatestState = (\<lambda>(ns, coll, key) precedingUpdates db.
     if coll = '''' then
       (case ub_Get (ph_public precedingUpdates) ns key of
          Some vv \<Rightarrow> Inr (Some vv)
        | None \<Rightarrow> vd_GetState (pd_db db) ns key)
     else
       (case um_Get (ph_hash precedingUpdates) ns coll key of
          Some vv \<Rightarrow> Inr (Some vv)
        | None \<Rightarrow> GetValueHash db ns coll key))"

definition retrieveLatestMetadata :: "compositeKey \<Rightarrow> publicAndHashUpdates \<Rightarrow> DB \<Rightarrow> string + bytes option" where
  "retrieveLatestMetadata = (\<lambda>(ns, coll, key) precedingUpdates db.
     if coll = '''' then
       (case ub_Get (ph_public precedingUpdates) ns key of
          Some vv \<Rightarrow> Inr (vv_Metadata vv)
        | None \<Rightarrow> GetStateMetadata db ns key)
     else
       (case um_Get (ph_hash precedingUpdates) ns coll key of
          Some vv \<Rightarrow> Inr (vv_Metadata vv)
        | None \<Rightarrow> GetPrivateDataMetadataByHash db ns coll key))"

definition prepare_key :: "publicAndHashUpdates \<Rightarrow> DB \<Rightarrow> compositeKey \<Rightarrow> txOps \<Rightarrow> string + txOps" where
  "prepare_key precedingUpdates db ck txops =
     (case txops ck of
        None \<Rightarrow> Inr txops
      | Some keyop \<Rightarrow>
          if isDelete keyop \<or> isUpsertAndMetadataUpdate keyop then Inr txops
          else if isOnlyUpsert keyop then
            (case retrieveLatestMetadata ck precedingUpdates db of
               Inl e \<Rightarrow> Inl e
             | Inr latestMetadata \<Rightarrow> Inr (txops(ck \<mapsto> keyop\<lparr>ko_metadata := latestMetadata\<rparr>)))
          else
            (case retrieveLatestState ck precedingUpdates db of
               Inl e \<Rightarrow> Inl e
             | Inr (Some latestVal) \<Rightarrow> Inr (txops(ck \<mapsto> keyop\<lparr>ko_value := vv_Value latestVal\<rparr>))
             | Inr None \<Rightarrow> Inr (txops(ck := None))))"

text \<open>The two loops over the map of operations visit its keys in orders \<open>ord\<close> and \<open>ord'\<close>.\<close>

definition prepareTxOps ::
  "(KVMetadataEntry list \<Rightarrow> string + bytes) \<Rightarrow> bytes \<Rightarrow> compositeKey list \<Rightarrow> TxRwSet \<Rightarrow> publicAndHashUpdates \<Rightarrow> DB \<Rightarrow> string + txOps" where
  "prepareTxOps Serialize zeroHash ord rwset precedingUpdates db =
     (case applyTxRwset Serialize zeroHash rwset Map.empty of
        Inl e \<Rightarrow> Inl e
      | Inr txops \<Rightarrow> fold_err (prepare_key precedingUpdates db) ord txops)"

definition apply_key :: "Height \<Rightarrow> txOps \<Rightarrow> compositeKey \<Rightarrow> publicAndHashUpdates \<Rightarrow> publicAndHashUpdates go" where
  "apply_key txHeight txops = (\<lambda>(ns, coll, key) u.
     case txops (ns, coll, key) of
       None \<Rightarrow> Return u
     | Some keyops \<Rightarrow>
         if coll = '''' then
           (if isDelete keyops then Return (u\<lparr>ph_public := ub_Delete ns key (Some txHeight) (ph_public u)\<rparr>)
            else go_bind (ub_PutValAndMetadata ns key (ko_value keyops) (ko_metadata keyops) (Some txHeight) (ph_public u))
                   (\<lambda>b. Return (u\<lparr>ph_public := b\<rparr>)))
         else
           (if isDelete keyops then Return (u\<lparr>ph_hash := um_Delete ns coll key (Some txHeight) (ph_hash u)\<rparr>)
            else go_bind (um_PutValAndMetadata ns coll key (ko_value keyops) (ko_metadata keyops) (Some txHeight) (ph_hash u))
                   (\<lambda>b. Return (u\<lparr>ph_hash := b\<rparr>))))"

definition applyWriteSet ::
  "(KVMetadataEntry list \<Rightarrow> string + bytes) \<Rightarrow> bytes \<Rightarrow> compositeKey list \<Rightarrow> compositeKey list \<Rightarrow>
     TxRwSet \<Rightarrow> Height \<Rightarrow> DB \<Rightarrow> bool \<Rightarrow> publicAndHashUpdates \<Rightarrow> publicAndHashUpdates res" where
  "applyWriteSet Serialize zeroHash ord ord' txRWSet txHeight db containsPostOrderWrites u =
     (let u = u\<lparr>ph_public := (ph_public u)\<lparr>ub_ContainsPostOrderWrites :=
                 ub_ContainsPostOrderWrites (ph_public u) \<or> containsPostOrderWrites\<rparr>\<rparr>
      in res_bind (lift_err (prepareTxOps Serialize zeroHash ord txRWSet u db)) (\<lambda>txops.
           fold_res (\<lambda>ck u. lift_go (apply_key txHeight txops ck u)) ord' u))"

section \<open>The operations of a write set\<close>

datatype op = KvOp compositeKey "bytes option" | MdOp compositeKey "bytes option"

fun op_apply :: "op \<Rightarrow> txOps \<Rightarrow> txOps" where
  "op_apply (KvOp ck None) = tx_delete ck"
| "op_apply (KvOp ck (Some v)) = tx_upsert ck v"
| "op_apply (MdOp ck None) = tx_metadataDelete ck"
| "op_apply (MdOp ck (Some md)) = tx_metadataUpdate ck md"

definition kv_op :: "string \<Rightarrow> string \<Rightarrow> KVWrite \<Rightarrow> op" where
  "kv_op ns coll w = KvOp (ns, coll, kw_Key w) (if IsKVWriteDelete w then None else Some (kw_Value w))"

definition md_op :: "(KVMetadataEntry list \<Rightarrow> bytes) \<Rightarrow> string \<Rightarrow> string \<Rightarrow> KVMetadataWrite \<Rightarrow> op" where
  "md_op Ser ns coll w = MdOp (ns, coll, mw_Key w) (map_option Ser (mw_Entries w))"

definition coll_ops :: "(KVMetadataEntry list \<Rightarrow> bytes) \<Rightarrow> bytes \<Rightarrow> string \<Rightarrow> CollHashedRwSet \<Rightarrow> op list" where
  "coll_ops Ser zeroHash ns c =
     map (kv_op ns (chr_CollectionName c)) (map (hashed_write zeroHash) (hrw_HashedWrites (chr_HashedRwSet c))) @
     map (md_op Ser ns (chr_CollectionName c)) (map hashed_metadata (hrw_MetadataWrites (chr_HashedRwSet c)))"

definition ns_ops :: "(KVMetadataEntry list \<Rightarrow> bytes) \<Rightarrow> bytes \<Rightarrow> NsRwSet \<Rightarrow> op list" where
  "ns_ops Ser zeroHash n =
     map (kv_op (nsr_NameSpace n) '''') (rw_Writes (nsr_KvRwSet n)) @
     map (md_op Ser (nsr_NameSpace n) '''') (rw_MetadataWrites (nsr_KvRwSet n)) @
     concat (map (coll_ops Ser zeroHash (nsr_NameSpace n)) (nsr_CollHashedRwSets n))"

definition tx_ops :: "(KVMetadataEntry list \<Rightarrow> bytes) \<Rightarrow> bytes \<Rightarrow> TxRwSet \<Rightarrow> op list" where
  "tx_ops Ser zeroHash rwset = concat (map (ns_ops Ser zeroHash) rwset)"

definition total_md :: "(KVMetadataEntry list \<Rightarrow> string + bytes) \<Rightarrow> (KVMetadataEntry list \<Rightarrow> bytes) \<Rightarrow> bool" where
  "total_md Serialize Ser \<longleftrightarrow> (\<forall>es. Serialize es = Inr (Ser es))"

lemma fold_kv: "fold (applyKVWrite ns coll) ws t = fold op_apply (map (kv_op ns coll) ws) t"
  by (induction ws arbitrary: t) (simp_all add: applyKVWrite_def kv_op_def)

lemma fold_md:
  "total_md Serialize Ser \<Longrightarrow>
     fold_err (applyMetadata Serialize ns coll) ws t = Inr (fold op_apply (map (md_op Ser ns coll) ws) t)"
  by (induction ws arbitrary: t) (simp_all add: applyMetadata_def md_op_def total_md_def split: option.split)

lemma fold_err_concat:
  "(\<And>x t. x \<in> set xs \<Longrightarrow> f x t = Inr (fold g (h x) t)) \<Longrightarrow> fold_err f xs t = Inr (fold g (concat (map h xs)) t)"
  by (induction xs arbitrary: t) simp_all

lemma applyTxRwset_ops:
  assumes "total_md Serialize Ser"
  shows "applyTxRwset Serialize zeroHash rwset t = Inr (fold op_apply (tx_ops Ser zeroHash rwset) t)"
proof -
  have coll: "apply_coll Serialize zeroHash ns c t = Inr (fold op_apply (coll_ops Ser zeroHash ns c) t)" for ns c t
    unfolding apply_coll_def Let_def fold_kv fold_md [OF assms] coll_ops_def by simp
  have "apply_ns Serialize zeroHash n t = Inr (fold op_apply (ns_ops Ser zeroHash n) t)" for n t
    unfolding apply_ns_def Let_def fold_kv fold_md [OF assms] sum.case
    by (subst fold_err_concat [where h = "coll_ops Ser zeroHash (nsr_NameSpace n)" and g = op_apply])
      (simp_all add: coll ns_ops_def)
  then show ?thesis unfolding applyTxRwset_def tx_ops_def by (rule fold_err_concat)
qed

text \<open>The write and the metadata write a list of operations has for a key.\<close>

definition kv_writes :: "op list \<Rightarrow> (compositeKey \<times> bytes option) list" where
  "kv_writes ops = List.map_filter (\<lambda>x. case x of KvOp ck v \<Rightarrow> Some (ck, v) | _ \<Rightarrow> None) ops"

definition md_writes :: "op list \<Rightarrow> (compositeKey \<times> bytes option) list" where
  "md_writes ops = List.map_filter (\<lambda>x. case x of MdOp ck v \<Rightarrow> Some (ck, v) | _ \<Rightarrow> None) ops"

lemma writes_simps [simp]:
  "kv_writes [] = []" "md_writes [] = []"
  "kv_writes (KvOp ck v # ops) = (ck, v) # kv_writes ops" "kv_writes (MdOp ck v # ops) = kv_writes ops"
  "md_writes (KvOp ck v # ops) = md_writes ops" "md_writes (MdOp ck v # ops) = (ck, v) # md_writes ops"
  by (simp_all add: kv_writes_def md_writes_def map_filter_simps)

text \<open>
  A write set as the simulator builds it: at most one write and at most one metadata write for a key.
\<close>

definition wf_ops :: "op list \<Rightarrow> bool" where
  "wf_ops ops \<longleftrightarrow> distinct (map fst (kv_writes ops)) \<and> distinct (map fst (md_writes ops))"

definition op_keys :: "op list \<Rightarrow> compositeKey set" where
  "op_keys ops = set (map fst (kv_writes ops)) \<union> set (map fst (md_writes ops))"

definition entry :: "bytes option option \<Rightarrow> bytes option option \<Rightarrow> keyOps option" where
  "entry w m =
     (if w = None \<and> m = None then None
      else Some \<lparr>ko_flag = (case w of None \<Rightarrow> 0 | Some None \<Rightarrow> 8 | Some (Some _) \<Rightarrow> 1) +
                            (case m of None \<Rightarrow> 0 | Some None \<Rightarrow> 4 | Some (Some _) \<Rightarrow> 2),
                 ko_value = (case w of Some (Some v) \<Rightarrow> Some v | _ \<Rightarrow> None),
                 ko_metadata = (case m of Some (Some md) \<Rightarrow> Some md | _ \<Rightarrow> None)\<rparr>)"

lemma op_apply_kv: "t c = entry None m \<Longrightarrow> op_apply (KvOp c v) t = t(c := entry (Some v) m)"
  by (cases v; cases m; simp add: tx_delete_def tx_upsert_def getOrCreateKeyEntry_def entry_def Let_def flag_defs add.commute)

lemma op_apply_md: "t c = entry w None \<Longrightarrow> op_apply (MdOp c v) t = t(c := entry w (Some v))"
  by (cases v; cases w; simp add: tx_metadataDelete_def tx_metadataUpdate_def getOrCreateKeyEntry_def entry_def Let_def flag_defs)

lemma fold_op_apply:
  "wf_ops ops \<Longrightarrow> t = (\<lambda>ck. entry (W ck) (M ck)) \<Longrightarrow>
     \<forall>ck \<in> set (map fst (kv_writes ops)). W ck = None \<Longrightarrow> \<forall>ck \<in> set (map fst (md_writes ops)). M ck = None \<Longrightarrow>
     fold op_apply ops t ck =
       entry (case map_of (kv_writes ops) ck of None \<Rightarrow> W ck | Some w \<Rightarrow> Some w)
             (case map_of (md_writes ops) ck of None \<Rightarrow> M ck | Some m \<Rightarrow> Some m)"
proof (induction ops arbitrary: t W M)
  case Nil
  then show ?case by simp
next
  case (Cons x ops)
  show ?case
  proof (cases x)
    case (KvOp c v)
    have c: "W c = None" using Cons.prems(3) KvOp by simp
    have step: "op_apply x t = (\<lambda>c'. entry ((W(c \<mapsto> v)) c') (M c'))"
      unfolding KvOp by (subst op_apply_kv [where m = "M c"], simp add: Cons.prems(2) c, rule ext) (simp add: Cons.prems(2))
    have wf: "wf_ops ops" "c \<notin> set (map fst (kv_writes ops))" using Cons.prems(1) KvOp by (auto simp: wf_ops_def)
    then have none: "map_of (kv_writes ops) c = None" by (simp add: map_of_eq_None_iff)
    have "fold op_apply (x # ops) t ck = fold op_apply ops (op_apply x t) ck" by simp
    also have "\<dots> = entry (case map_of (kv_writes ops) ck of None \<Rightarrow> (W(c \<mapsto> v)) ck | Some w \<Rightarrow> Some w)
             (case map_of (md_writes ops) ck of None \<Rightarrow> M ck | Some m \<Rightarrow> Some m)"
      by (rule Cons.IH [OF wf(1) step]) (use Cons.prems(3,4) KvOp wf(2) in auto)
    finally show ?thesis using KvOp none by (simp split: option.split)
  next
    case (MdOp c v)
    have c: "M c = None" using Cons.prems(4) MdOp by simp
    have step: "op_apply x t = (\<lambda>c'. entry (W c') ((M(c \<mapsto> v)) c'))"
      unfolding MdOp by (subst op_apply_md [where w = "W c"], simp add: Cons.prems(2) c, rule ext) (simp add: Cons.prems(2))
    have wf: "wf_ops ops" "c \<notin> set (map fst (md_writes ops))" using Cons.prems(1) MdOp by (auto simp: wf_ops_def)
    then have none: "map_of (md_writes ops) c = None" by (simp add: map_of_eq_None_iff)
    have "fold op_apply (x # ops) t ck = fold op_apply ops (op_apply x t) ck" by simp
    also have "\<dots> = entry (case map_of (kv_writes ops) ck of None \<Rightarrow> W ck | Some w \<Rightarrow> Some w)
             (case map_of (md_writes ops) ck of None \<Rightarrow> (M(c \<mapsto> v)) ck | Some m \<Rightarrow> Some m)"
      by (rule Cons.IH [OF wf(1) step]) (use Cons.prems(3,4) MdOp wf(2) in auto)
    finally show ?thesis using MdOp none by (simp split: option.split)
  qed
qed

lemma txops_entry:
  assumes "wf_ops ops"
  shows "fold op_apply ops Map.empty ck = entry (map_of (kv_writes ops) ck) (map_of (md_writes ops) ck)"
proof -
  have "fold op_apply ops Map.empty ck =
       entry (case map_of (kv_writes ops) ck of None \<Rightarrow> None | Some w \<Rightarrow> Some w)
             (case map_of (md_writes ops) ck of None \<Rightarrow> None | Some m \<Rightarrow> Some m)"
    by (rule fold_op_apply [OF assms, where W = "\<lambda>_. None" and M = "\<lambda>_. None"]) (simp_all add: entry_def)
  then show ?thesis by (simp split: option.splits)
qed

lemma entry_kinds:
  "entry w m = Some k \<Longrightarrow> isDelete k \<longleftrightarrow> w = Some None"
  "entry w m = Some k \<Longrightarrow> \<not> isDelete k \<Longrightarrow> isUpsertAndMetadataUpdate k \<longleftrightarrow> w \<noteq> None \<and> m \<noteq> None"
  "entry w m = Some k \<Longrightarrow> \<not> isDelete k \<Longrightarrow> isOnlyUpsert k \<longleftrightarrow> w \<noteq> None \<and> m = None"
  by (auto simp: entry_def isDelete_def isUpsertAndMetadataUpdate_def isOnlyUpsert_def flag_defs split: option.splits if_splits)

section \<open>The effect on the state\<close>

fun ns_of :: "compositeKey \<Rightarrow> string" where
  "ns_of (ns, coll, key) = (if coll = '''' then ns else deriveHashedDataNs ns coll)"

text \<open>The keys the specification speaks about: of chaincodes without a dollar sign in their names.\<close>

definition valid_key :: "(string \<Rightarrow> bool) \<Rightarrow> compositeKey \<Rightarrow> bool" where
  "valid_key valid_ns ck \<longleftrightarrow> valid_ns (ns_of ck) \<and> plain_ns (fst ck)"

definition committed :: "(string \<Rightarrow> nsUpdates) \<Rightarrow> DB \<Rightarrow> compositeKey \<Rightarrow> VersionedValue option" where
  "committed content db = (\<lambda>(ns, coll, key).
     if coll = '''' then fmlookup (content ns) key
     else fmlookup (content (deriveHashedDataNs ns coll)) (key_str db key))"

definition pending :: "publicAndHashUpdates \<Rightarrow> compositeKey \<Rightarrow> VersionedValue option" where
  "pending u = (\<lambda>(ns, coll, key). if coll = '''' then ub_Get (ph_public u) ns key else um_Get (ph_hash u) ns coll key)"

text \<open>The state a transaction of the block sees: the committed one under the updates so far.\<close>

definition latest :: "(string \<Rightarrow> nsUpdates) \<Rightarrow> DB \<Rightarrow> publicAndHashUpdates \<Rightarrow> compositeKey \<Rightarrow> VersionedValue option" where
  "latest content db u ck =
     (case pending u ck of
        None \<Rightarrow> committed content db ck
      | Some vv \<Rightarrow> if IsDelete vv then None else Some vv)"

text \<open>What a write \<open>w\<close> and a metadata write \<open>m\<close> make of the entry \<open>s\<close> of a key.\<close>

definition effect ::
  "Height \<Rightarrow> bytes option option \<Rightarrow> bytes option option \<Rightarrow> VersionedValue option \<Rightarrow> VersionedValue option" where
  "effect h w m s =
     (case w of
        Some None \<Rightarrow> None
      | Some (Some v) \<Rightarrow>
          Some \<lparr>vv_Value = Some v,
                vv_Metadata = (case m of Some md \<Rightarrow> md | None \<Rightarrow> (case s of None \<Rightarrow> None | Some vv \<Rightarrow> vv_Metadata vv)),
                vv_Version = Some h\<rparr>
      | None \<Rightarrow>
          (case m of
             None \<Rightarrow> s
           | Some md \<Rightarrow> map_option (\<lambda>vv. \<lparr>vv_Value = vv_Value vv, vv_Metadata = md, vv_Version = Some h\<rparr>) s))"

section \<open>Applying the operations to the updates\<close>

fun pu_set :: "compositeKey \<Rightarrow> VersionedValue \<Rightarrow> publicAndHashUpdates \<Rightarrow> publicAndHashUpdates" where
  "pu_set (ns, coll, key) vv u =
     (if coll = '''' then u\<lparr>ph_public := ub_Update ns key vv (ph_public u)\<rparr>
      else u\<lparr>ph_hash := um_Update ns coll key vv (ph_hash u)\<rparr>)"

lemma pending_set: "pending (pu_set ck vv u) = (pending u)(ck \<mapsto> vv)"
  by (rule ext) (cases ck rule: ns_of.cases; auto simp: pending_def ub_Get_Update um_Get_Update split: if_splits)

definition change :: "Height \<Rightarrow> keyOps \<Rightarrow> VersionedValue" where
  "change h k =
     (if isDelete k then \<lparr>vv_Value = None, vv_Metadata = None, vv_Version = Some h\<rparr>
      else \<lparr>vv_Value = ko_value k, vv_Metadata = ko_metadata k, vv_Version = Some h\<rparr>)"

definition writable :: "txOps \<Rightarrow> compositeKey \<Rightarrow> bool" where
  "writable t ck \<longleftrightarrow> (\<forall>k. t ck = Some k \<longrightarrow> isDelete k \<or> ko_value k \<noteq> None)"

lemma apply_key_eq:
  "apply_key h t ck u =
     (if writable t ck then Return (case t ck of None \<Rightarrow> u | Some k \<Rightarrow> pu_set ck (change h k) u) else Panic)"
  by (cases ck rule: ns_of.cases)
    (auto simp: apply_key_def writable_def change_def ub_Delete_def um_Delete_eq ub_Put_Some um_Put_Some
      ub_PutValAndMetadata_def um_PutValAndMetadata_def um_Update_def split: option.split)

lemma apply_all:
  "\<forall>ck \<in> set ord. writable t ck \<Longrightarrow>
     \<exists>u'. fold_res (\<lambda>ck u. lift_go (apply_key h t ck u)) ord u = ret u' \<and>
       pending u' = (\<lambda>ck. if ck \<in> set ord \<and> t ck \<noteq> None then Some (change h (the (t ck))) else pending u ck)"
proof (induction ord arbitrary: u)
  case (Cons c ord)
  obtain u' where u': "fold_res (\<lambda>ck u. lift_go (apply_key h t ck u)) ord
        (case t c of None \<Rightarrow> u | Some k \<Rightarrow> pu_set c (change h k) u) = ret u'"
    "pending u' = (\<lambda>ck. if ck \<in> set ord \<and> t ck \<noteq> None then Some (change h (the (t ck)))
       else pending (case t c of None \<Rightarrow> u | Some k \<Rightarrow> pu_set c (change h k) u) ck)"
    using Cons by fastforce
  have "pending u' ck = (if ck \<in> set (c # ord) \<and> t ck \<noteq> None then Some (change h (the (t ck))) else pending u ck)" for ck
    unfolding u'(2) by (auto simp: pending_set split: option.split)
  then show ?case using u'(1) Cons.prems by (simp add: apply_key_eq res_simps fun_eq_iff del: split_paired_All)
qed simp

lemma apply_all_panics:
  "c \<in> set ord \<Longrightarrow> \<not> writable t c \<Longrightarrow> fold_res (\<lambda>ck u. lift_go (apply_key h t ck u)) ord u = Panic"
  by (induction ord arbitrary: u) (auto simp: apply_key_eq res_simps)

text \<open>The delete markers among the updates carry no metadata.\<close>

definition wf_updates :: "publicAndHashUpdates \<Rightarrow> bool" where
  "wf_updates u \<longleftrightarrow> (\<forall>ck vv. pending u ck = Some vv \<longrightarrow> IsDelete vv \<longrightarrow> vv_Metadata vv = None)"

definition revives :: "publicAndHashUpdates \<Rightarrow> compositeKey \<Rightarrow> bytes option option \<Rightarrow> bytes option option \<Rightarrow> bool" where
  "revives u ck w m \<longleftrightarrow> w = None \<and> m \<noteq> None \<and> (case pending u ck of None \<Rightarrow> False | Some vv \<Rightarrow> IsDelete vv)"

text \<open>What is pending after the operations was pending before, or one of them has made it so.\<close>

definition touched :: "publicAndHashUpdates \<Rightarrow> op list \<Rightarrow> publicAndHashUpdates \<Rightarrow> bool" where
  "touched u ops u' \<longleftrightarrow> (\<forall>ck vv. pending u' ck = Some vv \<longrightarrow>
     pending u ck = Some vv \<or> ck \<in> op_keys ops \<and> (IsDelete vv \<longrightarrow> map_of (kv_writes ops) ck = Some None))"

text \<open>The keys a list of operations writes to: metadata of a key that does not exist is not written.\<close>

definition writes_to :: "op list \<Rightarrow> (compositeKey \<Rightarrow> VersionedValue option) \<Rightarrow> compositeKey set" where
  "writes_to ops st = {ck \<in> op_keys ops. map_of (kv_writes ops) ck \<noteq> None \<or> st ck \<noteq> None}"

text \<open>The metadata hint is sound: a namespace that never used metadata has none.\<close>

locale privacy_db = versioned_db "pd_db db" content valid_ns for db :: DB and content valid_ns +
  assumes hint_public: "valid_ns ns \<Longrightarrow> \<not> metadataEverUsedFor (pd_metadataHint db) ns \<Longrightarrow>
      fmlookup (content ns) key = Some vv \<Longrightarrow> vv_Metadata vv = None"
    and hint_hashed: "plain_ns ns \<Longrightarrow> valid_ns (deriveHashedDataNs ns coll) \<Longrightarrow> \<not> metadataEverUsedFor (pd_metadataHint db) ns \<Longrightarrow>
      fmlookup (content (deriveHashedDataNs ns coll)) key = Some vv \<Longrightarrow> vv_Metadata vv = None"
begin

lemma retrieveLatestState_eq:
  "valid_key valid_ns ck \<Longrightarrow>
     retrieveLatestState ck u db = Inr (case pending u ck of None \<Rightarrow> committed content db ck | Some vv \<Rightarrow> Some vv)"
  by (cases ck rule: ns_of.cases)
    (auto simp: valid_key_def retrieveLatestState_def pending_def committed_def GetState GetValueHash_def split: option.split)

lemma retrieveLatestMetadata_eq:
  assumes "valid_key valid_ns ck"
  shows "retrieveLatestMetadata ck u db =
     Inr (case (case pending u ck of None \<Rightarrow> committed content db ck | Some vv \<Rightarrow> Some vv) of None \<Rightarrow> None | Some vv \<Rightarrow> vv_Metadata vv)"
proof (cases ck rule: ns_of.cases)
  case (1 ns coll key)
  have "GetStateMetadata db ns key = Inr (case fmlookup (content ns) key of None \<Rightarrow> None | Some vv \<Rightarrow> vv_Metadata vv)"
    if "valid_ns ns"
    using hint_public [OF that, of key] by (auto simp: GetStateMetadata_def GetState [OF that] split: option.split)
  moreover have "GetPrivateDataMetadataByHash db ns coll key =
      Inr (case fmlookup (content (deriveHashedDataNs ns coll)) (key_str db key) of None \<Rightarrow> None | Some vv \<Rightarrow> vv_Metadata vv)"
    if "valid_ns (deriveHashedDataNs ns coll)" "plain_ns ns"
    using hint_hashed [OF that(2,1), of "key_str db key"]
    by (auto simp: GetPrivateDataMetadataByHash_def GetValueHash_def GetState [OF that(1)] split: option.split)
  ultimately show ?thesis using assms 1
    by (auto simp: valid_key_def retrieveLatestMetadata_def pending_def committed_def split: option.split)
qed

definition prepared :: "publicAndHashUpdates \<Rightarrow> compositeKey \<Rightarrow> keyOps \<Rightarrow> keyOps option" where
  "prepared u ck k =
     (let s = case pending u ck of None \<Rightarrow> committed content db ck | Some vv \<Rightarrow> Some vv
      in if isDelete k \<or> isUpsertAndMetadataUpdate k then Some k
         else if isOnlyUpsert k then Some (k\<lparr>ko_metadata := (case s of None \<Rightarrow> None | Some vv \<Rightarrow> vv_Metadata vv)\<rparr>)
         else map_option (\<lambda>vv. k\<lparr>ko_value := vv_Value vv\<rparr>) s)"

definition plan :: "publicAndHashUpdates \<Rightarrow> op list \<Rightarrow> txOps" where
  "plan u ops = (\<lambda>ck. case entry (map_of (kv_writes ops) ck) (map_of (md_writes ops) ck) of None \<Rightarrow> None | Some k \<Rightarrow> prepared u ck k)"

lemma prepare_key_eq:
  "valid_key valid_ns ck \<Longrightarrow>
     prepare_key u db ck t = Inr (t(ck := (case t ck of None \<Rightarrow> None | Some k \<Rightarrow> prepared u ck k)))"
  by (auto simp: prepare_key_def prepared_def retrieveLatestState_eq retrieveLatestMetadata_eq Let_def
      fun_upd_idem split: option.split)

lemma prepare_all:
  "distinct ord \<Longrightarrow> \<forall>ck \<in> set ord. valid_key valid_ns ck \<Longrightarrow>
     fold_err (prepare_key u db) ord t =
       Inr (\<lambda>ck. if ck \<in> set ord then (case t ck of None \<Rightarrow> None | Some k \<Rightarrow> prepared u ck k) else t ck)"
proof (induction ord arbitrary: t)
  case (Cons c ord)
  then show ?case by (auto simp: prepare_key_eq fun_eq_iff)
qed simp

lemma applyWriteSet_eq:
  fixes Ser zeroHash txRWSet u post
  defines "ops \<equiv> tx_ops Ser zeroHash txRWSet"
    and "u0 \<equiv> u\<lparr>ph_public := (ph_public u)\<lparr>ub_ContainsPostOrderWrites := ub_ContainsPostOrderWrites (ph_public u) \<or> post\<rparr>\<rparr>"
  assumes "total_md Serialize Ser" "wf_ops ops" "distinct ord" "set ord = op_keys ops" "\<forall>ck \<in> op_keys ops. valid_key valid_ns ck"
  shows "applyWriteSet Serialize zeroHash ord ord' txRWSet h db post u =
    fold_res (\<lambda>ck b. lift_go (apply_key h (plan u ops) ck b)) ord' u0"
proof -
  have p: "pending u0 = pending u" by (simp add: u0_def pending_def fun_eq_iff)
  have pr: "prepared u0 = prepared u" by (simp add: prepared_def p fun_eq_iff)
  have none: "entry (map_of (kv_writes ops) ck) (map_of (md_writes ops) ck) = None" if "ck \<notin> set ord" for ck
    using that assms(6) by (simp add: entry_def op_keys_def map_of_eq_None_iff)
  have "prepareTxOps Serialize zeroHash ord txRWSet u0 db = Inr (plan u ops)"
    unfolding prepareTxOps_def applyTxRwset_ops [OF assms(3)] ops_def [symmetric] sum.case plan_def
    by (subst prepare_all [where u = u0, unfolded pr])
      (use assms(5-7) none in \<open>auto simp: txops_entry [OF assms(4)] fun_eq_iff simp del: split_paired_All\<close>)
  then show ?thesis by (simp add: applyWriteSet_def Let_def u0_def [symmetric])
qed

text \<open>
  A metadata write alone takes over the value of the key; on a key that an earlier transaction of the block
  deleted, the latest entry is the delete marker, whose value is nil.
\<close>

lemma prepared_change:
  assumes e: "entry w m = Some k" and u: "wf_updates u" and valid: "valid_key valid_ns ck"
    and ok: "\<not> revives u ck w m"
  shows "(case prepared u ck k of None \<Rightarrow> latest content db u ck
          | Some k' \<Rightarrow> if IsDelete (change h k') then None else Some (change h k')) = effect h w m (latest content db u ck)"
    and "prepared u ck k = Some k' \<Longrightarrow> isDelete k' \<or> ko_value k' \<noteq> None"
    and "prepared u ck k = Some k' \<Longrightarrow> IsDelete (change h k') \<Longrightarrow> vv_Metadata (change h k') = None"
proof -
  have "pending u ck = Some vv \<Longrightarrow> vv_Value vv = None \<Longrightarrow> vv_Metadata vv = None" for vv
    using u by (simp add: wf_updates_def IsDelete_def del: split_paired_All)
  moreover have "committed content db ck = Some vv \<Longrightarrow> vv_Value vv \<noteq> None" for vv
    using valid live by (cases ck rule: ns_of.cases) (auto simp: valid_key_def committed_def split: if_splits)
  moreover note entry_kinds [OF e]
  ultimately show "(case prepared u ck k of None \<Rightarrow> latest content db u ck
          | Some k' \<Rightarrow> if IsDelete (change h k') then None else Some (change h k')) = effect h w m (latest content db u ck)"
    and "prepared u ck k = Some k' \<Longrightarrow> isDelete k' \<or> ko_value k' \<noteq> None"
    and "prepared u ck k = Some k' \<Longrightarrow> IsDelete (change h k') \<Longrightarrow> vv_Metadata (change h k') = None"
    using ok e
    by (auto simp: prepared_def latest_def effect_def change_def IsDelete_def revives_def entry_def isDelete_def
        Let_def split: option.splits if_splits)
qed

lemma plan_Some:
  assumes "plan u ops ck = Some k"
  shows "ck \<in> op_keys ops"
    and "\<exists>k0. entry (map_of (kv_writes ops) ck) (map_of (md_writes ops) ck) = Some k0 \<and> prepared u ck k0 = Some k"
proof -
  show "ck \<in> op_keys ops"
    using assms by (cases "ck \<in> op_keys ops") (auto simp: plan_def op_keys_def entry_def map_of_eq_None_iff)
  show "\<exists>k0. entry (map_of (kv_writes ops) ck) (map_of (md_writes ops) ck) = Some k0 \<and> prepared u ck k0 = Some k"
    using assms by (auto simp: plan_def split: option.splits)
qed

lemma plan_wf:
  assumes valid: "\<forall>ck \<in> op_keys ops. valid_key valid_ns ck" and u: "wf_updates u"
    and ok: "\<forall>ck. \<not> revives u ck (map_of (kv_writes ops) ck) (map_of (md_writes ops) ck)"
    and u': "pending u' = (\<lambda>ck. if plan u ops ck \<noteq> None then Some (change h (the (plan u ops ck))) else pending u ck)"
  shows "wf_updates u'"
  unfolding wf_updates_def
proof (intro allI impI)
  fix ck vv assume a: "pending u' ck = Some vv" "IsDelete vv"
  show "vv_Metadata vv = None"
  proof (cases "plan u ops ck")
    case None
    then show ?thesis using a u by (simp add: u' wf_updates_def del: split_paired_All)
  next
    case (Some k')
    from plan_Some [OF Some] obtain k0 where e: "ck \<in> op_keys ops" "prepared u ck k0 = Some k'"
      "entry (map_of (kv_writes ops) ck) (map_of (md_writes ops) ck) = Some k0" by blast
    have "vv = change h k'" using a Some by (simp add: u')
    then show ?thesis using a(2) prepared_change(3) [OF e(3) u valid [rule_format, OF e(1)] ok [rule_format] e(2)] by simp
  qed
qed

lemma plan_touched:
  assumes valid: "\<forall>ck \<in> op_keys ops. valid_key valid_ns ck" and u: "wf_updates u"
    and ok: "\<forall>ck. \<not> revives u ck (map_of (kv_writes ops) ck) (map_of (md_writes ops) ck)"
    and u': "pending u' = (\<lambda>ck. if plan u ops ck \<noteq> None then Some (change h (the (plan u ops ck))) else pending u ck)"
  shows "touched u ops u'"
  unfolding touched_def
proof (intro allI impI)
  fix ck vv assume a: "pending u' ck = Some vv"
  show "pending u ck = Some vv \<or> ck \<in> op_keys ops \<and> (IsDelete vv \<longrightarrow> map_of (kv_writes ops) ck = Some None)"
  proof (cases "plan u ops ck")
    case None
    then show ?thesis using a by (simp add: u')
  next
    case (Some k')
    from plan_Some [OF Some] obtain k0 where e: "ck \<in> op_keys ops" "prepared u ck k0 = Some k'"
      "entry (map_of (kv_writes ops) ck) (map_of (md_writes ops) ck) = Some k0" by blast
    have "isDelete k' \<Longrightarrow> isDelete k0"
      using e(2) by (auto simp: prepared_def isDelete_def Let_def split: if_splits)
    then have "isDelete k' \<Longrightarrow> map_of (kv_writes ops) ck = Some None" using entry_kinds(1) [OF e(3)] by simp
    moreover have "IsDelete vv \<Longrightarrow> isDelete k'"
      using a Some prepared_change(2) [OF e(3) u valid [rule_format, OF e(1)] ok [rule_format] e(2)]
      by (auto simp: u' change_def IsDelete_def split: if_splits)
    ultimately show ?thesis using e(1) by blast
  qed
qed

lemma plan_None_iff:
  assumes "\<not> revives u ck (map_of (kv_writes ops) ck) (map_of (md_writes ops) ck)"
  shows "plan u ops ck \<noteq> None \<longleftrightarrow> ck \<in> writes_to ops (latest content db u)"
proof (cases "entry (map_of (kv_writes ops) ck) (map_of (md_writes ops) ck)")
  case None
  then show ?thesis
    by (auto simp: plan_def writes_to_def op_keys_def entry_def map_of_eq_None_iff split: if_splits)
next
  case (Some k)
  have key: "ck \<in> op_keys ops"
    using Some by (auto simp: op_keys_def entry_def map_of_eq_None_iff split: if_splits)
  have kind: "map_of (kv_writes ops) ck \<noteq> None \<or> map_of (md_writes ops) ck \<noteq> None"
    using Some by (auto simp: entry_def split: if_splits)
  show ?thesis
  proof (cases "map_of (kv_writes ops) ck")
    case None
    then have "\<not> isDelete k" "\<not> isUpsertAndMetadataUpdate k" "\<not> isOnlyUpsert k" using entry_kinds [OF Some] by auto
    then show ?thesis using Some None kind key assms
      by (auto simp: plan_def prepared_def writes_to_def latest_def revives_def split: option.splits)
  next
    case (Some w)
    then have "isDelete k \<or> isUpsertAndMetadataUpdate k \<or> isOnlyUpsert k"
      using entry_kinds [OF \<open>entry _ _ = Some k\<close>] by (cases "map_of (md_writes ops) ck") auto
    then show ?thesis using Some \<open>entry _ _ = Some k\<close> key
      by (auto simp: plan_def prepared_def writes_to_def Let_def)
  qed
qed

lemma plan_latest:
  assumes valid: "\<forall>ck \<in> op_keys ops. valid_key valid_ns ck" and u: "wf_updates u"
    and ok: "\<forall>ck. \<not> revives u ck (map_of (kv_writes ops) ck) (map_of (md_writes ops) ck)"
    and u': "pending u' = (\<lambda>ck. if plan u ops ck \<noteq> None then Some (change h (the (plan u ops ck))) else pending u ck)"
  shows "latest content db u' ck =
      effect h (map_of (kv_writes ops) ck) (map_of (md_writes ops) ck) (latest content db u ck)"
proof (cases "entry (map_of (kv_writes ops) ck) (map_of (md_writes ops) ck)")
  case None
  then show ?thesis by (auto simp: u' plan_def latest_def entry_def effect_def split: if_splits)
next
  case (Some k0)
  then have "ck \<in> op_keys ops" by (auto simp: op_keys_def entry_def map_of_eq_None_iff split: if_splits)
  with valid have "valid_key valid_ns ck" by simp
  from prepared_change(1) [OF Some u this ok [rule_format], of h, symmetric] show ?thesis
    using Some by (auto simp: u' plan_def latest_def split: option.splits)
qed

theorem applyWriteSet_effect:
  fixes Ser zeroHash txRWSet u post
  defines "ops \<equiv> tx_ops Ser zeroHash txRWSet"
  assumes md: "total_md Serialize Ser" and wf: "wf_ops ops"
    and ord: "distinct ord" "set ord = op_keys ops" "set ord' = op_keys ops"
    and valid: "\<forall>ck \<in> op_keys ops. valid_key valid_ns ck" and u: "wf_updates u"
    and ok: "\<forall>ck. \<not> revives u ck (map_of (kv_writes ops) ck) (map_of (md_writes ops) ck)"
  shows "\<exists>u'. applyWriteSet Serialize zeroHash ord ord' txRWSet h db post u = ret u' \<and> wf_updates u' \<and> touched u ops u' \<and>
     (\<forall>ck. pending u' ck \<noteq> None \<longleftrightarrow> pending u ck \<noteq> None \<or> ck \<in> writes_to ops (latest content db u)) \<and>
     (\<forall>ck. latest content db u' ck = effect h (map_of (kv_writes ops) ck) (map_of (md_writes ops) ck) (latest content db u ck))"
proof -
  have p: "pending (u\<lparr>ph_public := (ph_public u)\<lparr>ub_ContainsPostOrderWrites := b\<rparr>\<rparr>) = pending u" for b
    by (simp add: pending_def fun_eq_iff)
  have "\<forall>ck \<in> set ord'. writable (plan u ops) ck"
    unfolding writable_def using plan_Some prepared_change(2) [OF _ u _ ok [rule_format]] valid by blast
  from apply_all [OF this, of h "u\<lparr>ph_public := (ph_public u)\<lparr>ub_ContainsPostOrderWrites :=
      ub_ContainsPostOrderWrites (ph_public u) \<or> post\<rparr>\<rparr>"]
  obtain u' where ret: "applyWriteSet Serialize zeroHash ord ord' txRWSet h db post u = ret u'"
    and p': "pending u' = (\<lambda>ck. if ck \<in> set ord' \<and> plan u ops ck \<noteq> None then Some (change h (the (plan u ops ck))) else pending u ck)"
    unfolding p applyWriteSet_eq [OF md wf [unfolded ops_def] ord(1) ord(2) [unfolded ops_def] valid [unfolded ops_def],
      folded ops_def] by blast
  have u': "pending u' = (\<lambda>ck. if plan u ops ck \<noteq> None then Some (change h (the (plan u ops ck))) else pending u ck)"
    unfolding p' using plan_Some(1) [of u ops] ord(3) by (auto simp: fun_eq_iff)
  have "pending u' ck \<noteq> None \<longleftrightarrow> pending u ck \<noteq> None \<or> ck \<in> writes_to ops (latest content db u)" for ck
    unfolding u' plan_None_iff [OF ok [rule_format], symmetric] by simp
  then show ?thesis using ret plan_wf [OF valid u ok u'] plan_touched [OF valid u ok u'] plan_latest [OF valid u ok u'] by blast
qed

text \<open>A metadata write alone on a key deleted earlier in the block brings the validator down.\<close>

theorem applyWriteSet_panics:
  fixes Ser zeroHash txRWSet u post
  defines "ops \<equiv> tx_ops Ser zeroHash txRWSet"
  assumes "total_md Serialize Ser" "wf_ops ops" "distinct ord" "set ord = op_keys ops" "set ord' = op_keys ops"
    and "\<forall>ck \<in> op_keys ops. valid_key valid_ns ck"
    and r: "revives u ck (map_of (kv_writes ops) ck) (map_of (md_writes ops) ck)"
  shows "applyWriteSet Serialize zeroHash ord ord' txRWSet h db post u = Panic"
proof -
  obtain vv m where v: "map_of (kv_writes ops) ck = None" "map_of (md_writes ops) ck = Some m"
    "pending u ck = Some vv" "vv_Value vv = None"
    using r by (auto simp: revives_def IsDelete_def split: option.splits)
  then obtain k where k: "entry None (Some m) = Some k" by (simp add: entry_def)
  then have "plan u ops ck = Some (k\<lparr>ko_value := None\<rparr>)" "\<not> isDelete k"
    using v entry_kinds [OF k] by (auto simp: plan_def prepared_def)
  then have "\<not> writable (plan u ops) ck" by (auto simp: writable_def isDelete_def)
  moreover have "ck \<in> set ord'" using v(2) assms(6) by (auto simp: op_keys_def dest: map_of_SomeD intro: image_eqI [where x = "(ck, m)"])
  ultimately show ?thesis
    unfolding applyWriteSet_eq [OF assms(2,3,4,5,7) [unfolded ops_def]] by (intro apply_all_panics) (simp_all add: ops_def)
qed

end

text \<open>
  The flags of a key are added up: two writes of one key in a write set look like one metadata write, and
  the later value is replaced by the latest one of the state.
\<close>

theorem duplicate_upserts:
  "isOnlyUpsert (the (fold op_apply [KvOp ck (Some v), KvOp ck (Some v')] Map.empty ck)) = False"
  "isUpsertAndMetadataUpdate (the (fold op_apply [KvOp ck (Some v), KvOp ck (Some v')] Map.empty ck)) = False"
  by (simp_all add: tx_upsert_def getOrCreateKeyEntry_def isOnlyUpsert_def isUpsertAndMetadataUpdate_def flag_defs)

end
