(* ===== verification/Level_State.thy ===== *)
theory Level_State
  imports Level_DB Privacy_DB Tx_Ops
begin

text \<open>
  The state database on LevelDB
  (\<^verbatim>\<open>core/ledger/kvledger/txmgmt/statedb/stateleveldb/stateleveldb.go\<close>, \<^verbatim>\<open>value_encoding.go\<close>).  A key of a
  namespace is stored under \<open>'d' + namespace + 0 + key\<close>, the height of the last block under \<open>'s'\<close>.  The
  lemmas show that the database is a map of namespaces to maps of keys (it meets the contract
  \<open>versioned_db\<close>), that applying a batch changes this map as the batch says, and that a snapshot of it can
  be imported again.  The protobuf message of a value is third-party code: its marshalling is an argument.
\<close>

section \<open>Values\<close>

record DBValue =
  dv_Version :: "bytes option"
  dv_Value :: "bytes option"
  dv_Metadata :: "bytes option"

record dbvalue_proto =
  pb_Marshal :: "DBValue \<Rightarrow> string + bytes"
  pb_Unmarshal :: "bytes \<Rightarrow> string + DBValue"

definition height_ToBytes :: "Height option \<Rightarrow> bytes go" where
  "height_ToBytes h = (case h of None \<Rightarrow> Panic | Some h \<Rightarrow> ToBytes h)"

definition encodeValue :: "dbvalue_proto \<Rightarrow> VersionedValue \<Rightarrow> bytes res" where
  "encodeValue pb v =
     res_bind (lift_go (height_ToBytes (vv_Version v))) (\<lambda>ver.
       lift_err (pb_Marshal pb \<lparr>dv_Version = Some ver, dv_Value = vv_Value v, dv_Metadata = vv_Metadata v\<rparr>))"

text \<open>The text of the error for a version that cannot be decoded is left out.\<close>

definition decodeValue :: "dbvalue_proto \<Rightarrow> bytes \<Rightarrow> string + VersionedValue" where
  "decodeValue pb encodedValue =
     (case pb_Unmarshal pb encodedValue of
        Inl e \<Rightarrow> Inl e
      | Inr dbValue \<Rightarrow>
          (case NewHeightFromBytes (case dv_Version dbValue of None \<Rightarrow> [] | Some b \<Rightarrow> b) of
             Inl e \<Rightarrow> Inl ''version''
           | Inr (ver, _) \<Rightarrow>
               Inr \<lparr>vv_Value = (case dv_Value dbValue of None \<Rightarrow> Some [] | Some val \<Rightarrow> Some val),
                    vv_Metadata = dv_Metadata dbValue, vv_Version = Some ver\<rparr>))"

section \<open>Keys\<close>

definition encodeDataKey :: "string \<Rightarrow> string \<Rightarrow> bytes" where
  "encodeDataKey ns key = ''d'' @ ns @ [NUL] @ key"

definition decodeDataKey :: "bytes \<Rightarrow> (string \<times> string) go" where
  "decodeDataKey encodedDataKey =
     (case split_nul encodedDataKey of
        (_ # ns, Some key) \<Rightarrow> Return (ns, key)
      | _ \<Rightarrow> Panic)"

definition dataKeyStarterForNextNamespace :: "string \<Rightarrow> bytes" where
  "dataKeyStarterForNextNamespace ns = ''d'' @ ns @ [SOH]"

abbreviation savePointKey :: bytes where "savePointKey \<equiv> ''s''"
abbreviation dataKeyPrefix :: bytes where "dataKeyPrefix \<equiv> ''d''"
abbreviation dataKeyStopper :: bytes where "dataKeyStopper \<equiv> ''e''"

section \<open>Reading\<close>

record ('s, 'c) versionedDB =
  ls_ld :: "('s, 'c) leveldb"
  ls_pb :: dbvalue_proto
  ls_dbName :: string

definition ls_GetState :: "('s, 'c) versionedDB \<Rightarrow> 's \<Rightarrow> string \<Rightarrow> string \<Rightarrow> string + VersionedValue option" where
  "ls_GetState vdb s namespace key =
     (case h_Get (ls_ld vdb) (ls_dbName vdb) s (encodeDataKey namespace key) of
        Inl e \<Rightarrow> Inl e
      | Inr None \<Rightarrow> Inr None
      | Inr (Some dbVal) \<Rightarrow> (case decodeValue (ls_pb vdb) dbVal of Inl e \<Rightarrow> Inl e | Inr vv \<Rightarrow> Inr (Some vv)))"

definition ls_GetVersion :: "('s, 'c) versionedDB \<Rightarrow> 's \<Rightarrow> string \<Rightarrow> string \<Rightarrow> string + Height option" where
  "ls_GetVersion vdb s namespace key =
     (case ls_GetState vdb s namespace key of
        Inl e \<Rightarrow> Inl e
      | Inr None \<Rightarrow> Inr None
      | Inr (Some versionedValue) \<Rightarrow> Inr (vv_Version versionedValue))"

fun GetStateMultipleKeys :: "('s, 'c) versionedDB \<Rightarrow> 's \<Rightarrow> string \<Rightarrow> string list \<Rightarrow> string + VersionedValue option list" where
  "GetStateMultipleKeys vdb s namespace [] = Inr []"
| "GetStateMultipleKeys vdb s namespace (key # keys) =
     (case ls_GetState vdb s namespace key of
        Inl e \<Rightarrow> Inl e
      | Inr val \<Rightarrow> (case GetStateMultipleKeys vdb s namespace keys of Inl e \<Rightarrow> Inl e | Inr vals \<Rightarrow> Inr (val # vals)))"

record 'c kvScanner =
  ks_namespace :: string
  ks_dbItr :: 'c
  ks_requestedLimit :: int
  ks_totalRecordsReturned :: int

definition newKVScanner :: "string \<Rightarrow> 'c \<Rightarrow> int \<Rightarrow> 'c kvScanner" where
  "newKVScanner namespace dbItr requestedLimit =
     \<lparr>ks_namespace = namespace, ks_dbItr = dbItr, ks_requestedLimit = requestedLimit, ks_totalRecordsReturned = 0\<rparr>"

definition kvScanner_Next :: "('s, 'c) versionedDB \<Rightarrow> 'c kvScanner \<Rightarrow> (VersionedKV option \<times> 'c kvScanner) res" where
  "kvScanner_Next vdb scanner =
     (if ks_requestedLimit scanner > 0 \<and> ks_totalRecordsReturned scanner \<ge> ks_requestedLimit scanner then ret (None, scanner)
      else case it_Next (ls_ld vdb) (ks_dbItr scanner) of
             (False, itr) \<Rightarrow> ret (None, scanner\<lparr>ks_dbItr := itr\<rparr>)
           | (True, itr) \<Rightarrow>
               res_bind (lift_go (h_itr_Key (ls_ld vdb) itr)) (\<lambda>dbKey.
               res_bind (lift_go (decodeDataKey dbKey)) (\<lambda>(_, key).
               res_bind (lift_err (decodeValue (ls_pb vdb) (it_Value (ls_ld vdb) itr))) (\<lambda>vv.
                 ret (Some \<lparr>vk_Namespace = ks_namespace scanner, vk_Key = key, vk_Val = vv\<rparr>,
                      scanner\<lparr>ks_dbItr := itr, ks_totalRecordsReturned := ks_totalRecordsReturned scanner + 1\<rparr>)))))"

definition GetBookmarkAndClose :: "('s, 'c) versionedDB \<Rightarrow> 'c kvScanner \<Rightarrow> string go" where
  "GetBookmarkAndClose vdb scanner =
     (case it_Next (ls_ld vdb) (ks_dbItr scanner) of
        (False, itr) \<Rightarrow> Return ''''
      | (True, itr) \<Rightarrow>
          go_bind (h_itr_Key (ls_ld vdb) itr) (\<lambda>dbKey. go_bind (decodeDataKey dbKey) (\<lambda>(_, key). Return key)))"

definition GetStateRangeScanIteratorWithPagination ::
  "('s, 'c) versionedDB \<Rightarrow> 's \<Rightarrow> string \<Rightarrow> string \<Rightarrow> string \<Rightarrow> int \<Rightarrow> string + 'c kvScanner" where
  "GetStateRangeScanIteratorWithPagination vdb s namespace startKey endKey pageSize =
     (let dataStartKey = encodeDataKey namespace startKey;
          dataEndKey = encodeDataKey namespace endKey;
          dataEndKey = (if endKey = '''' then dataEndKey[length dataEndKey - 1 := SOH] else dataEndKey)
      in case h_GetIterator (ls_ld vdb) (ls_dbName vdb) s (Some dataStartKey) (Some dataEndKey) of
           Inl e \<Rightarrow> Inl e
         | Inr dbItr \<Rightarrow> Inr (newKVScanner namespace dbItr pageSize))"

definition GetStateRangeScanIterator ::
  "('s, 'c) versionedDB \<Rightarrow> 's \<Rightarrow> string \<Rightarrow> string \<Rightarrow> string \<Rightarrow> string + 'c kvScanner" where
  "GetStateRangeScanIterator vdb s namespace startKey endKey =
     GetStateRangeScanIteratorWithPagination vdb s namespace startKey endKey 0"

section \<open>Writing\<close>

definition apply_update :: "dbvalue_proto \<Rightarrow> UpdateBatch \<Rightarrow> string \<times> string \<Rightarrow> lvUpdateBatch \<Rightarrow> lvUpdateBatch res" where
  "apply_update pb batch = (\<lambda>(ns, k) dbBatch.
     case ub_Get batch ns k of
       None \<Rightarrow> ret dbBatch
     | Some vv \<Rightarrow>
         let dataKey = encodeDataKey ns k
         in if vv_Value vv = None then ret (lv_Delete dataKey dbBatch)
            else res_bind (encodeValue pb vv) (\<lambda>encodedVal. lift_go (lv_Put dataKey (Some encodedVal) dbBatch)))"

text \<open>
  The keys of the batch are visited in the order \<open>ord\<close>.  A batch that cannot be written leaves the store
  as it was.
\<close>

definition ls_ApplyUpdates ::
  "('s, 'c) versionedDB \<Rightarrow> visit \<Rightarrow> UpdateBatch \<Rightarrow> Height option \<Rightarrow> 's \<Rightarrow> 's res" where
  "ls_ApplyUpdates vdb ord batch height s =
     res_bind (fold_res (apply_update (ls_pb vdb) batch) ord (h_NewUpdateBatch (ls_dbName vdb))) (\<lambda>dbBatch.
     res_bind (case height of
                 None \<Rightarrow> ret dbBatch
               | Some h \<Rightarrow> lift_go (go_bind (ToBytes h) (\<lambda>b. lv_Put savePointKey (Some b) dbBatch))) (\<lambda>dbBatch.
       case h_WriteBatch (ls_ld vdb) dbBatch s of (Some e, _) \<Rightarrow> err e | (None, s') \<Rightarrow> ret s'))"

definition GetLatestSavePoint :: "('s, 'c) versionedDB \<Rightarrow> 's \<Rightarrow> string + Height option" where
  "GetLatestSavePoint vdb s =
     (case h_Get (ls_ld vdb) (ls_dbName vdb) s savePointKey of
        Inl e \<Rightarrow> Inl e
      | Inr None \<Rightarrow> Inr None
      | Inr (Some versionBytes) \<Rightarrow>
          (case NewHeightFromBytes versionBytes of Inl e \<Rightarrow> Inl ''version'' | Inr (ver, _) \<Rightarrow> Inr (Some ver)))"

section \<open>Snapshots\<close>

partial_function (option) fullDBScanner_Next ::
  "('s, 'c) versionedDB \<Rightarrow> (string \<Rightarrow> bool) \<Rightarrow> 'c \<Rightarrow> ((VersionedKV option \<times> 'c) res) option" where
  "fullDBScanner_Next vdb toSkip dbItr =
     (let (more, itr) = it_Next (ls_ld vdb) dbItr
      in if \<not> more then Some (case it_Error (ls_ld vdb) itr of Some e \<Rightarrow> err e | None \<Rightarrow> ret (None, itr))
         else case go_bind (h_itr_Key (ls_ld vdb) itr) decodeDataKey of
                Panic \<Rightarrow> Some Panic
              | Return (ns, key) \<Rightarrow>
                  (case decodeValue (ls_pb vdb) (it_Value (ls_ld vdb) itr) of
                     Inl e \<Rightarrow> Some (err e)
                   | Inr versionedVal \<Rightarrow>
                       if \<not> toSkip ns then Some (ret (Some \<lparr>vk_Namespace = ns, vk_Key = key, vk_Val = versionedVal\<rparr>, itr))
                       else
                         let (_, itr) = h_itr_Seek (ls_ld vdb) (ls_dbName vdb) (dataKeyStarterForNextNamespace ns) itr;
                             (_, itr) = it_Prev (ls_ld vdb) itr
                         in fullDBScanner_Next vdb toSkip itr))"

definition newFullDBScanner :: "('s, 'c) versionedDB \<Rightarrow> 's \<Rightarrow> string + 'c" where
  "newFullDBScanner vdb s = h_GetIterator (ls_ld vdb) (ls_dbName vdb) s (Some dataKeyPrefix) (Some dataKeyStopper)"

definition maxDataImportBatchSize :: nat where "maxDataImportBatchSize = 4 * 1024 * 1024"

text \<open>
  The snapshot is seen as the list of its entries and the error reading it ends with, if any; the result
  has the state of the store also when an error is returned.
\<close>

fun import_loop ::
  "('s, 'c) versionedDB \<Rightarrow> Height \<Rightarrow> VersionedKV list \<Rightarrow> string option \<Rightarrow> nat \<Rightarrow> lvUpdateBatch \<Rightarrow> 's \<Rightarrow> (string option \<times> 's) go" where
  "import_loop vdb savepoint [] e batchSize dbBatch s =
     (case e of
        Some e \<Rightarrow> Return (Some e, s)
      | None \<Rightarrow>
          go_bind (ToBytes savepoint) (\<lambda>b. go_bind (lv_Put savePointKey (Some b) dbBatch) (\<lambda>dbBatch.
            Return (h_WriteBatch (ls_ld vdb) dbBatch s))))"
| "import_loop vdb savepoint (versionedKV # kvs) e batchSize dbBatch s =
     (let dbKey = encodeDataKey (vk_Namespace versionedKV) (vk_Key versionedKV)
      in case encodeValue (ls_pb vdb) (vk_Val versionedKV) of
           Panic \<Rightarrow> Panic
         | Return (Inl e) \<Rightarrow> Return (Some e, s)
         | Return (Inr dbValue) \<Rightarrow>
             let batchSize = batchSize + length dbKey + length dbValue
             in go_bind (lv_Put dbKey (Some dbValue) dbBatch) (\<lambda>dbBatch.
                  if batchSize \<ge> maxDataImportBatchSize
                  then (case h_WriteBatch (ls_ld vdb) dbBatch s of
                          (Some e, s) \<Rightarrow> Return (Some e, s)
                        | (None, s) \<Rightarrow> import_loop vdb savepoint kvs e 0 (lv_Reset dbBatch) s)
                  else import_loop vdb savepoint kvs e batchSize dbBatch s))"

definition importState :: "('s, 'c) versionedDB \<Rightarrow> scan option \<Rightarrow> Height \<Rightarrow> 's \<Rightarrow> (string option \<times> 's) go" where
  "importState vdb itr savepoint s =
     (case itr of
        None \<Rightarrow> go_bind (ToBytes savepoint) (\<lambda>b. Return (h_Put (ls_ld vdb) (ls_dbName vdb) savePointKey b s))
      | Some itr \<Rightarrow> import_loop vdb savepoint (sc_items itr) (sc_error itr) 0 (h_NewUpdateBatch (ls_dbName vdb)) s)"

section \<open>The database as a contract\<close>

text \<open>A scanner read to its end.\<close>

partial_function (option) scan_all :: "('s, 'c) versionedDB \<Rightarrow> 'c kvScanner \<Rightarrow> scan res option" where
  "scan_all vdb scanner =
     (case kvScanner_Next vdb scanner of
        Panic \<Rightarrow> Some Panic
      | Return (Inl e) \<Rightarrow> Some (ret \<lparr>sc_items = [], sc_error = Some e\<rparr>)
      | Return (Inr (None, _)) \<Rightarrow> Some (ret \<lparr>sc_items = [], sc_error = None\<rparr>)
      | Return (Inr (Some kv, scanner)) \<Rightarrow>
          Option.bind (scan_all vdb scanner) (\<lambda>r. Some (res_bind r (\<lambda>sc. ret (sc\<lparr>sc_items := kv # sc_items sc\<rparr>)))))"

definition scan_of :: "('s, 'c) versionedDB \<Rightarrow> string + 'c kvScanner \<Rightarrow> string + scan" where
  "scan_of vdb r =
     (case r of
        Inl e \<Rightarrow> Inl e
      | Inr scanner \<Rightarrow> (case scan_all vdb scanner of Some (Return r) \<Rightarrow> r | _ \<Rightarrow> Inl ''panic''))"

definition as_VersionedDB :: "('s, 'c) versionedDB \<Rightarrow> 's \<Rightarrow> VersionedDB" where
  "as_VersionedDB vdb s =
     \<lparr>vd_GetState = ls_GetState vdb s, vd_GetVersion = ls_GetVersion vdb s,
      vd_GetStateMultipleKeys = GetStateMultipleKeys vdb s,
      vd_Scan = (\<lambda>ns startKey endKey. scan_of vdb (GetStateRangeScanIterator vdb s ns startKey endKey)),
      vd_ScanPage = (\<lambda>ns startKey endKey pageSize.
        scan_of vdb (GetStateRangeScanIteratorWithPagination vdb s ns startKey endKey pageSize)),
      vd_ExecuteQuery = (\<lambda>ns query page.
        Inl (if page = None then ''ExecuteQuery not supported for leveldb'' else ''ExecuteQueryWithMetadata not supported for leveldb'')),
      vd_ValidateKeyValue = (\<lambda>key value. None),
      vd_BytesKeySupported = True, vd_LoadCommittedVersions = None\<rparr>"

section \<open>Values and keys round trip\<close>

definition unset_empty :: "bytes option \<Rightarrow> bytes option" where
  "unset_empty b = (if b = Some [] then None else b)"

text \<open>What protobuf promises: marshalling does not fail, and an empty field comes back as unset.\<close>

definition dbvalue_codec :: "dbvalue_proto \<Rightarrow> (DBValue \<Rightarrow> bytes) \<Rightarrow> bool" where
  "dbvalue_codec pb M \<longleftrightarrow>
     (\<forall>d. pb_Marshal pb d = Inr (M d) \<and>
       pb_Unmarshal pb (M d) =
         Inr \<lparr>dv_Version = unset_empty (dv_Version d), dv_Value = unset_empty (dv_Value d), dv_Metadata = unset_empty (dv_Metadata d)\<rparr>)"

definition stored :: "VersionedValue \<Rightarrow> VersionedValue" where
  "stored vv = vv\<lparr>vv_Metadata := unset_empty (vv_Metadata vv)\<rparr>"

definition enc_val :: "(DBValue \<Rightarrow> bytes) \<Rightarrow> VersionedValue \<Rightarrow> bytes" where
  "enc_val M vv =
     M \<lparr>dv_Version = Some (case vv_Version vv of None \<Rightarrow> [] | Some h \<Rightarrow> enc (BlockNum h) @ enc (TxNum h)),
        dv_Value = vv_Value vv, dv_Metadata = vv_Metadata vv\<rparr>"

lemma encodeValue_eq: "dbvalue_codec pb M \<Longrightarrow> vv_Version vv \<noteq> None \<Longrightarrow> encodeValue pb vv = ret (enc_val M vv)"
  by (auto simp: encodeValue_def height_ToBytes_def ToBytes_eq dbvalue_codec_def enc_val_def)

lemma NewHeightFromBytes_enc:
  "NewHeightFromBytes (enc (BlockNum h) @ enc (TxNum h)) = Inr (h, length (enc (BlockNum h) @ enc (TxNum h)))"
  using Decode_enc [of "BlockNum h" "enc (TxNum h)"] Decode_enc [of "TxNum h" "[]"]
  by (simp add: NewHeightFromBytes_def)

lemma enc_ne: "enc n \<noteq> []"
  by (simp add: enc_def)

lemma decodeValue_enc:
  "dbvalue_codec pb M \<Longrightarrow> vv_Version vv \<noteq> None \<Longrightarrow> vv_Value vv \<noteq> None \<Longrightarrow> decodeValue pb (enc_val M vv) = Inr (stored vv)"
  using enc_ne
  by (auto simp: decodeValue_def dbvalue_codec_def enc_val_def stored_def unset_empty_def NewHeightFromBytes_enc)

lemma decodeDataKey_encode: "NUL \<notin> set ns \<Longrightarrow> decodeDataKey (encodeDataKey ns key) = Return (ns, key)"
  using split_nul_append [of "CHR ''d'' # ns" key] by (simp add: decodeDataKey_def encodeDataKey_def)

lemma encodeDataKey_inj:
  "NUL \<notin> set ns \<Longrightarrow> NUL \<notin> set ns' \<Longrightarrow> encodeDataKey ns k = encodeDataKey ns' k' \<longleftrightarrow> ns = ns' \<and> k = k'"
  by (metis decodeDataKey_encode go.inject prod.inject)

lemma encodeDataKey_append: "encodeDataKey ns k = encodeDataKey ns [] @ k"
  by (simp add: encodeDataKey_def)

lemma constructLevelKey_append: "constructLevelKey n (a @ b) = constructLevelKey n a @ b"
  by (simp add: constructLevelKey_def)

section \<open>What the database holds\<close>

text \<open>The keys of a namespace start with this prefix.\<close>

definition ns_prefix :: "string \<Rightarrow> string \<Rightarrow> bytes" where
  "ns_prefix dbName ns = constructLevelKey dbName (encodeDataKey ns [])"

definition dec :: "dbvalue_proto \<Rightarrow> bytes \<Rightarrow> VersionedValue option" where
  "dec pb b = (case decodeValue pb b of Inl _ \<Rightarrow> None | Inr vv \<Rightarrow> Some vv)"

definition ns_content :: "dbvalue_proto \<Rightarrow> string \<Rightarrow> (bytes, bytes) fmap \<Rightarrow> string \<Rightarrow> nsUpdates" where
  "ns_content pb dbName m ns =
     fmap_of_list (List.map_filter (\<lambda>(k, b).
       if prefix (ns_prefix dbName ns) k then map_option (\<lambda>vv. (drop (length (ns_prefix dbName ns)) k, vv)) (dec pb b) else None)
       (sorted_list_of_fmap m))"

lemma map_of_map_filter_prefix:
  "distinct (map fst xs) \<Longrightarrow>
     map_of (List.map_filter (\<lambda>(k, b). if prefix P k then map_option (\<lambda>vv. (drop (length P) k, vv)) (f b) else None) xs) key =
       Option.bind (map_of xs (P @ key)) f"
proof (induction xs)
  case (Cons x xs)
  obtain k b where x: "x = (k, b)" by fastforce
  have none: "map_of xs k = None" using Cons.prems x by (simp add: map_of_eq_None_iff)
  show ?case
  proof (cases "prefix P k")
    case True
    then obtain r where r: "k = P @ r" by (auto simp: prefix_def)
    show ?thesis using Cons x r none by (cases "f b") (auto simp: map_filter_simps)
  next
    case False
    then have "k \<noteq> P @ key" by auto
    then show ?thesis using Cons x False by (auto simp: map_filter_simps)
  qed
qed (simp add: map_filter_simps)

lemma distinct_sorted_list_of_fmap: "distinct (map fst (sorted_list_of_fmap m))"
  by (simp add: sorted_list_of_fmap_def comp_def sorted_list_of_fset.rep_eq)

lemma ns_content_lookup:
  "fmlookup (ns_content pb dbName m ns) key = Option.bind (fmlookup m (constructLevelKey dbName (encodeDataKey ns key))) (dec pb)"
proof -
  have "constructLevelKey dbName (encodeDataKey ns key) = ns_prefix dbName ns @ key"
    by (simp add: ns_prefix_def constructLevelKey_def encodeDataKey_def)
  then show ?thesis
    by (simp add: ns_content_def fmlookup_of_list map_of_map_filter_prefix [OF distinct_sorted_list_of_fmap])
qed

text \<open>Every data key is one of a namespace, and every value can be decoded.\<close>

definition store_ok :: "dbvalue_proto \<Rightarrow> string \<Rightarrow> (bytes, bytes) fmap \<Rightarrow> bool" where
  "store_ok pb dbName m \<longleftrightarrow>
     (\<forall>x b. fmlookup m (constructLevelKey dbName (''d'' @ x)) = Some b \<longrightarrow>
        (\<exists>ns key. NUL \<notin> set ns \<and> x = ns @ [NUL] @ key) \<and> dec pb b \<noteq> None)"

lemma store_okD:
  "store_ok pb dbName m \<Longrightarrow> fmlookup m (ns_prefix dbName ns @ key) = Some b \<Longrightarrow> \<exists>vv. dec pb b = Some vv"
  unfolding store_ok_def ns_prefix_def encodeDataKey_def
  by (metis append.assoc append_Nil2 constructLevelKey_append option.exhaust)

lemma content_key_iff:
  "store_ok pb dbName m \<Longrightarrow> key |\<in>| fmdom (ns_content pb dbName m ns) \<longleftrightarrow> ns_prefix dbName ns @ key |\<in>| fmdom m"
  using store_okD [of pb dbName m ns key]
  by (auto simp: fmlookup_dom_iff ns_content_lookup bind_eq_Some_conv ns_prefix_def constructLevelKey_def encodeDataKey_def)

lemma level_range_entries: "level_range m a b = map (\<lambda>k. (k, the (fmlookup m k))) (map fst (level_range m a b))"
proof -
  have "(fst x, the (fmlookup m (fst x))) = x" if "x \<in> set (level_range m a b)" for x
    using that set_level_range [of "fst x" "snd x" m a b] by (simp add: prod_eq_iff)
  then show ?thesis by (simp add: comp_def map_idI)
qed

lemma level_range_sorted: "sorted_wrt (<) (map fst (level_range m a b))"
proof -
  have "sorted_wrt (<) (map fst (sorted_list_of_fmap m))"
    by (simp add: sorted_list_of_fmap_def comp_def sorted_list_of_fset.rep_eq)
  then show ?thesis unfolding level_range_def sorted_wrt_map by (rule sorted_wrt_filter)
qed

text \<open>The range of the store that a range of a namespace corresponds to.\<close>

definition ns_limit :: "string \<Rightarrow> string \<Rightarrow> string \<Rightarrow> bytes" where
  "ns_limit dbName ns endKey =
     (if endKey = '''' then constructLevelKey dbName (''d'' @ ns @ [SOH]) else ns_prefix dbName ns @ endKey)"

lemma key_range_ns:
  "key_range (Some (ns_prefix dbName ns @ a)) (Some (ns_limit dbName ns b)) k \<longleftrightarrow>
     (\<exists>r. k = ns_prefix dbName ns @ r \<and> in_range a b r)"
proof (cases "b = ''''")
  case True
  then show ?thesis
    using prefix_range_open [of "dbName @ [NUL] @ ''d'' @ ns" a k]
    by (simp add: key_range_def ns_limit_def ns_prefix_def constructLevelKey_def encodeDataKey_def in_range_def)
next
  case False
  then show ?thesis
    using prefix_range_bounded [of "ns_prefix dbName ns" a k b] by (simp add: key_range_def ns_limit_def in_range_def)
qed

lemma level_range_ns:
  assumes "store_ok pb dbName m"
  shows "level_range m (Some (ns_prefix dbName ns @ a)) (Some (ns_limit dbName ns b)) =
    map (\<lambda>k. (ns_prefix dbName ns @ k, the (fmlookup m (ns_prefix dbName ns @ k))))
      (filter (in_range a b) (GetSortedKeys (ns_content pb dbName m ns)))"
proof -
  let ?P = "ns_prefix dbName ns" and ?ks = "filter (in_range a b) (GetSortedKeys (ns_content pb dbName m ns))"
  let ?L = "level_range m (Some (?P @ a)) (Some (ns_limit dbName ns b))"
  have "sorted_wrt (<) ?ks"
    using GetSortedKeys_props(1,2) [of "ns_content pb dbName m ns"] by (intro sorted_wrt_filter) (simp add: strict_sorted_iff)
  then have "sorted_wrt (<) (map ((@) ?P) ?ks)" unfolding sorted_wrt_map by simp
  moreover have "set (map fst ?L) = set (map ((@) ?P) ?ks)"
    unfolding set_level_range_keys key_range_ns
    using content_key_iff [OF assms, of _ ns] by (auto simp: GetSortedKeys_props fmlookup_dom_iff)
  ultimately have "map fst ?L = map ((@) ?P) ?ks" by (intro strict_sorted_equal level_range_sorted)
  then show ?thesis using level_range_entries [of m "Some (?P @ a)" "Some (ns_limit dbName ns b)"] by simp
qed

section \<open>The database meets its contract\<close>

locale level_state = level_store ld items view
  for ld :: "('s, 'c) leveldb" and items :: "'s \<Rightarrow> (bytes, bytes) fmap" and view :: "'c \<Rightarrow> (bytes \<times> bytes) list \<times> nat" +
  fixes pb :: dbvalue_proto and M :: "DBValue \<Rightarrow> bytes" and dbName :: string
  assumes codec: "dbvalue_codec pb M" and dbName: "NUL \<notin> set dbName"
begin

abbreviation vdb :: "('s, 'c) versionedDB" where "vdb \<equiv> \<lparr>ls_ld = ld, ls_pb = pb, ls_dbName = dbName\<rparr>"

abbreviation holds :: "'s \<Rightarrow> string \<Rightarrow> nsUpdates" where "holds s \<equiv> ns_content pb dbName (items s)"

lemma GetState_eq:
  assumes "store_ok pb dbName (items s)"
  shows "ls_GetState vdb s ns key = Inr (fmlookup (holds s ns) key)"
proof -
  have key: "constructLevelKey dbName (encodeDataKey ns key) = ns_prefix dbName ns @ key"
    by (simp add: ns_prefix_def constructLevelKey_def encodeDataKey_def)
  show ?thesis
  proof (cases "fmlookup (items s) (ns_prefix dbName ns @ key)")
    case None
    then show ?thesis by (simp add: ls_GetState_def h_Get_def DB_Get_eq key ns_content_lookup)
  next
    case (Some b)
    then obtain vv where "dec pb b = Some vv" using store_okD [OF assms] by blast
    then show ?thesis using Some
      by (auto simp: ls_GetState_def h_Get_def DB_Get_eq key ns_content_lookup dec_def split: sum.splits)
  qed
qed

lemma GetVersion_eq:
  "store_ok pb dbName (items s) \<Longrightarrow> ls_GetVersion vdb s ns key = Inr (version_of (fmlookup (holds s ns) key))"
  by (simp add: ls_GetVersion_def GetState_eq version_of_def split: option.split)

lemma holds_live: "fmlookup (holds s ns) key = Some vv \<Longrightarrow> vv_Value vv \<noteq> None \<and> vv_Version vv \<noteq> None"
  by (auto simp: ns_content_lookup bind_eq_Some_conv dec_def decodeValue_def split: sum.splits option.splits)

lemma iterator_rest:
  assumes "b \<noteq> ''''"
  shows "\<exists>itr. h_GetIterator ld dbName s (Some a) (Some b) = Inr itr \<and>
    rest itr = level_range (items s) (Some (constructLevelKey dbName a)) (Some (constructLevelKey dbName b))"
  by (simp add: h_GetIterator_def Let_def Error DB_GetIterator_def rest_NewIterator)

lemma kvScanner_Next_Cons:
  assumes "rest (ks_dbItr sc) = (ns_prefix dbName ns @ k, b) # r" "NUL \<notin> set ns" "dec pb b = Some vv" "ks_requestedLimit sc = 0"
  shows "\<exists>itr. rest itr = r \<and> kvScanner_Next vdb sc =
    ret (Some \<lparr>vk_Namespace = ks_namespace sc, vk_Key = k, vk_Val = vv\<rparr>,
         sc\<lparr>ks_dbItr := itr, ks_totalRecordsReturned := ks_totalRecordsReturned sc + 1\<rparr>)"
proof -
  obtain itr where itr: "it_Next ld (ks_dbItr sc) = (True, itr)" "it_Key ld itr = ns_prefix dbName ns @ k"
    "it_Value ld itr = b" "rest itr = r" using Next_Cons [OF assms(1)] by blast
  have "h_itr_Key ld itr = Return (encodeDataKey ns k)"
    using retrieveAppKey_construct [OF dbName, of "encodeDataKey ns k"] itr(2)
    by (simp add: h_itr_Key_def ns_prefix_def constructLevelKey_def encodeDataKey_def)
  moreover have "decodeValue pb b = Inr vv" using assms(3) by (auto simp: dec_def split: sum.splits)
  ultimately show ?thesis using itr assms(4) decodeDataKey_encode [OF assms(2), of k]
    by (intro exI [of _ itr]) (simp add: kvScanner_Next_def)
qed

lemma scan_all_eq:
  assumes ns: "NUL \<notin> set ns"
  shows "rest (ks_dbItr sc) = map (\<lambda>k. (ns_prefix dbName ns @ k, v k)) ks \<Longrightarrow> \<forall>k \<in> set ks. dec pb (v k) = Some (vv k) \<Longrightarrow>
    ks_requestedLimit sc = 0 \<Longrightarrow> ks_namespace sc = ns \<Longrightarrow>
    scan_all vdb sc = Some (ret \<lparr>sc_items = map (\<lambda>k. \<lparr>vk_Namespace = ns, vk_Key = k, vk_Val = vv k\<rparr>) ks, sc_error = None\<rparr>)"
proof (induction ks arbitrary: sc)
  case Nil
  then obtain itr where "it_Next ld (ks_dbItr sc) = (False, itr)" using Next_Nil by fastforce
  then have "kvScanner_Next vdb sc = Return (Inr (None, sc\<lparr>ks_dbItr := itr\<rparr>))"
    using Nil.prems(3) by (simp add: kvScanner_Next_def ret_def)
  then show ?case by (subst scan_all.simps) simp
next
  case (Cons k ks)
  obtain itr where itr: "rest itr = map (\<lambda>k. (ns_prefix dbName ns @ k, v k)) ks" "kvScanner_Next vdb sc =
    ret (Some \<lparr>vk_Namespace = ks_namespace sc, vk_Key = k, vk_Val = vv k\<rparr>,
         sc\<lparr>ks_dbItr := itr, ks_totalRecordsReturned := ks_totalRecordsReturned sc + 1\<rparr>)"
    using kvScanner_Next_Cons [of sc ns k "v k" _ "vv k"] Cons.prems ns by auto
  then show ?case using Cons.IH [of "sc\<lparr>ks_dbItr := itr, ks_totalRecordsReturned := ks_totalRecordsReturned sc + 1\<rparr>"] Cons.prems
    by (subst scan_all.simps) (simp add: ret_def)
qed

lemma Scan_eq:
  assumes ok: "store_ok pb dbName (items s)" and ns: "NUL \<notin> set ns"
  shows "vd_Scan (as_VersionedDB vdb s) ns a b = Inr \<lparr>sc_items = ns_range ns (holds s ns) a b, sc_error = None\<rparr>"
proof -
  let ?stop = "if b = '''' then (encodeDataKey ns b)[length (encodeDataKey ns b) - 1 := SOH] else encodeDataKey ns b"
  let ?v = "\<lambda>k. the (fmlookup (items s) (ns_prefix dbName ns @ k))" and ?vv = "\<lambda>k. the (fmlookup (holds s ns) k)"
  let ?ks = "filter (in_range a b) (GetSortedKeys (holds s ns))"
  have keys: "constructLevelKey dbName (encodeDataKey ns a) = ns_prefix dbName ns @ a" "constructLevelKey dbName ?stop = ns_limit dbName ns b"
    by (simp_all add: ns_prefix_def ns_limit_def constructLevelKey_def encodeDataKey_def list_update_append)
  have "?stop \<noteq> ''''" by (simp add: encodeDataKey_def)
  from iterator_rest [OF this, of s "encodeDataKey ns a"] obtain itr where
    itr: "h_GetIterator ld dbName s (Some (encodeDataKey ns a)) (Some ?stop) = Inr itr"
      "rest itr = level_range (items s) (Some (ns_prefix dbName ns @ a)) (Some (ns_limit dbName ns b))"
    unfolding keys by blast
  have val: "dec pb (?v k) = Some (?vv k)" if "k \<in> set ?ks" for k
  proof -
    have "ns_prefix dbName ns @ k |\<in>| fmdom (items s)"
      using that content_key_iff [OF ok, of k ns] by (simp add: GetSortedKeys_props)
    then obtain b where b: "fmlookup (items s) (ns_prefix dbName ns @ k) = Some b" by (auto simp: fmlookup_dom_iff)
    moreover obtain vv where "dec pb b = Some vv" using store_okD [OF ok b] by blast
    moreover have "constructLevelKey dbName (encodeDataKey ns k) = ns_prefix dbName ns @ k"
      by (simp add: ns_prefix_def constructLevelKey_def encodeDataKey_def)
    ultimately show ?thesis by (simp add: ns_content_lookup)
  qed
  have "scan_all vdb (newKVScanner ns itr 0) =
      Some (ret \<lparr>sc_items = map (\<lambda>k. \<lparr>vk_Namespace = ns, vk_Key = k, vk_Val = ?vv k\<rparr>) ?ks, sc_error = None\<rparr>)"
    by (rule scan_all_eq [OF ns, where v = ?v]) (use itr(2) level_range_ns [OF ok] val in \<open>simp_all add: newKVScanner_def\<close>)
  then show ?thesis using itr(1)
    by (simp add: as_VersionedDB_def scan_of_def GetStateRangeScanIterator_def GetStateRangeScanIteratorWithPagination_def Let_def
        ns_range_def kv_item_def ret_def)
qed

end

text \<open>The database in a state whose entries are well-formed.\<close>

locale level_state_at = level_state ld items view pb M dbName
  for ld :: "('s, 'c) leveldb" and items :: "'s \<Rightarrow> (bytes, bytes) fmap" and view :: "'c \<Rightarrow> (bytes \<times> bytes) list \<times> nat"
    and pb M dbName +
  fixes s :: 's
  assumes store_ok: "store_ok pb dbName (items s)"

sublocale level_state_at \<subseteq> versioned_db "as_VersionedDB vdb s" "holds s" "\<lambda>ns. NUL \<notin> set ns"
proof
  show "vd_GetState (as_VersionedDB vdb s) ns key = Inr (fmlookup (holds s ns) key)" for ns key
    using GetState_eq [OF store_ok] by (simp add: as_VersionedDB_def)
  show "vd_GetVersion (as_VersionedDB vdb s) ns key = Inr (version_of (fmlookup (holds s ns) key))" for ns key
    using GetVersion_eq [OF store_ok] by (simp add: as_VersionedDB_def)
  have "GetStateMultipleKeys vdb s ns keys = Inr (map (fmlookup (holds s ns)) keys)" for ns keys
    by (induction keys) (simp_all add: GetState_eq [OF store_ok])
  then show "vd_GetStateMultipleKeys (as_VersionedDB vdb s) ns keys = Inr (map (fmlookup (holds s ns)) keys)" for ns keys
    by (simp add: as_VersionedDB_def)
qed (use Scan_eq [OF store_ok] holds_live in auto)

text \<open>
  The database of a channel on it: the hint has every namespace with metadata.
\<close>

definition hint_sound :: "metadataHint \<Rightarrow> (string \<Rightarrow> nsUpdates) \<Rightarrow> bool" where
  "hint_sound hint content \<longleftrightarrow>
     (\<forall>ns key vv. NUL \<notin> set ns \<longrightarrow> \<not> metadataEverUsedFor hint ns \<longrightarrow>
        fmlookup (content ns) key = Some vv \<longrightarrow> vv_Metadata vv = None) \<and>
     (\<forall>ns coll key vv. plain_ns ns \<longrightarrow> NUL \<notin> set (deriveHashedDataNs ns coll) \<longrightarrow> \<not> metadataEverUsedFor hint ns \<longrightarrow>
        fmlookup (content (deriveHashedDataNs ns coll)) key = Some vv \<longrightarrow> vv_Metadata vv = None)"

locale level_privacy = level_state_at ld items view pb M dbName s
  for ld :: "('s, 'c) leveldb" and items :: "'s \<Rightarrow> (bytes, bytes) fmap" and view :: "'c \<Rightarrow> (bytes \<times> bytes) list \<times> nat"
    and pb M dbName s +
  fixes hint :: metadataHint
  assumes hint: "hint_sound hint (ns_content pb dbName (items s))"

sublocale level_privacy \<subseteq> ch: privacy_db "\<lparr>pd_db = as_VersionedDB vdb s, pd_metadataHint = hint\<rparr>" "holds s" "\<lambda>ns. NUL \<notin> set ns"
proof
  fix ns key vv
  assume "NUL \<notin> set ns" "\<not> metadataEverUsedFor (pd_metadataHint \<lparr>pd_db = as_VersionedDB vdb s, pd_metadataHint = hint\<rparr>) ns"
    "fmlookup (holds s ns) key = Some vv"
  then show "vv_Metadata vv = None" using hint unfolding hint_sound_def by auto
next
  fix ns coll key vv
  assume "plain_ns ns" "NUL \<notin> set (deriveHashedDataNs ns coll)" "\<not> metadataEverUsedFor (pd_metadataHint \<lparr>pd_db = as_VersionedDB vdb s, pd_metadataHint = hint\<rparr>) ns"
    "fmlookup (holds s (deriveHashedDataNs ns coll)) key = Some vv"
  then show "vv_Metadata vv = None" using hint unfolding hint_sound_def by auto
qed (use GetState GetVersion GetStateMultipleKeys Scan live in auto)

section \<open>Applying a batch\<close>

interpretation store: keyed_batch "\<lambda>k v m. case v of None \<Rightarrow> fmdrop k m | Some b \<Rightarrow> fmupd k b m" "\<lambda>m k. Some (fmlookup m k)"
  by unfold_locales (simp split: option.split)

definition data_key :: "string \<Rightarrow> string \<times> string \<Rightarrow> bytes" where
  "data_key dbName = (\<lambda>(ns, k). constructLevelKey dbName (encodeDataKey ns k))"

definition entry_of :: "(DBValue \<Rightarrow> bytes) \<Rightarrow> UpdateBatch \<Rightarrow> string \<times> string \<Rightarrow> bytes option option" where
  "entry_of M batch = (\<lambda>(ns, k). map_option (\<lambda>vv. if IsDelete vv then None else Some (enc_val M vv)) (ub_Get batch ns k))"

text \<open>Every value of the batch has a version, and the namespaces have no zero byte in their names.\<close>

definition batch_ok :: "UpdateBatch \<Rightarrow> bool" where
  "batch_ok batch \<longleftrightarrow> (\<forall>ns k vv. ub_Get batch ns k = Some vv \<longrightarrow> NUL \<notin> set ns \<and> (IsDelete vv \<or> vv_Version vv \<noteq> None))"

lemma apply_updates_eq:
  assumes "dbvalue_codec pb M" "batch_ok batch"
  shows "\<exists>b'. fold_res (apply_update pb batch) ord b = ret b' \<and> lv_dbName b' = lv_dbName b \<and>
    (\<forall>m. fold batch_step (lv_leveldbBatch b') m =
       store.write_mapped (data_key (lv_dbName b)) (entry_of M batch) ord (fold batch_step (lv_leveldbBatch b) m))"
proof (induction ord arbitrary: b)
  case Nil
  then show ?case by (simp add: store.write_mapped_def)
next
  case (Cons x ord)
  obtain ns k where x: "x = (ns, k)" by fastforce
  obtain b1 where b1: "apply_update pb batch x b = ret b1" "lv_dbName b1 = lv_dbName b"
    "\<forall>m. fold batch_step (lv_leveldbBatch b1) m = store.write_mapped (data_key (lv_dbName b)) (entry_of M batch) [x]
      (fold batch_step (lv_leveldbBatch b) m)"
  proof (cases "ub_Get batch ns k")
    case None
    then show ?thesis using that [of b] x by (simp add: apply_update_def entry_of_def store.write_mapped_def)
  next
    case (Some vv)
    show ?thesis
    proof (cases "vv_Value vv")
      case None
      then show ?thesis using that [of "lv_Delete (encodeDataKey ns k) b"] x Some
        by (simp add: apply_update_def entry_of_def store.write_mapped_def lv_Delete_def Let_def IsDelete_def data_key_def)
    next
      case (Some v)
      then have "encodeValue pb vv = ret (enc_val M vv)"
        using assms(2) \<open>ub_Get batch ns k = Some vv\<close> by (intro encodeValue_eq assms(1)) (fastforce simp: batch_ok_def IsDelete_def)
      then show ?thesis using that x Some \<open>ub_Get batch ns k = Some vv\<close>
        by (simp add: apply_update_def entry_of_def store.write_mapped_def lv_Put_def Let_def IsDelete_def data_key_def)
    qed
  qed
  from Cons.IH [of b1] obtain b' where "fold_res (apply_update pb batch) ord b1 = ret b'" "lv_dbName b' = lv_dbName b1"
    "\<forall>m. fold batch_step (lv_leveldbBatch b') m =
       store.write_mapped (data_key (lv_dbName b1)) (entry_of M batch) ord (fold batch_step (lv_leveldbBatch b1) m)" by blast
  then show ?case using b1 by (simp add: store.write_mapped_def)
qed

text \<open>The store after the batch and the save point have been written.\<close>

definition save :: "string \<Rightarrow> Height option \<Rightarrow> (bytes, bytes) fmap \<Rightarrow> (bytes, bytes) fmap" where
  "save dbName height m =
     (case height of
        None \<Rightarrow> m
      | Some h \<Rightarrow> fmupd (constructLevelKey dbName savePointKey) (enc (BlockNum h) @ enc (TxNum h)) m)"

context level_state
begin

lemma ApplyUpdates_items:
  assumes "writes_succeed ld" "batch_ok batch"
  shows "\<exists>s'. ls_ApplyUpdates vdb ord batch height s = ret s' \<and>
    items s' = save dbName height (store.write_mapped (data_key dbName) (entry_of M batch) ord (items s))"
proof -
  obtain b where b: "fold_res (apply_update pb batch) ord (h_NewUpdateBatch dbName) = ret b" "lv_dbName b = dbName"
    "\<forall>m. fold batch_step (lv_leveldbBatch b) m = store.write_mapped (data_key dbName) (entry_of M batch) ord m"
    using apply_updates_eq [OF codec assms(2), of ord "h_NewUpdateBatch dbName"] by (auto simp: h_NewUpdateBatch_def)
  obtain b' where b': "(case height of None \<Rightarrow> ret b | Some h \<Rightarrow> lift_go (go_bind (ToBytes h) (\<lambda>x. lv_Put savePointKey (Some x) b))) = ret b'"
    "fold batch_step (lv_leveldbBatch b') m = save dbName height (fold batch_step (lv_leveldbBatch b) m)" for m
    using b(2) by (cases height) (auto simp: save_def ToBytes_eq lv_Put_def Let_def)
  have "\<exists>s'. h_WriteBatch ld b' s = (None, s') \<and> items s' = fold batch_step (lv_leveldbBatch b') (items s)"
  proof (cases "lv_leveldbBatch b' = []")
    case False
    obtain s' where "ld_Write ld (lv_leveldbBatch b') s = Inr s'" using assms(1) unfolding writes_succeed_def by blast
    then show ?thesis using False Write by (simp add: h_WriteBatch_def DB_WriteBatch_def)
  qed (simp add: h_WriteBatch_def)
  then show ?thesis using b b' by (auto simp: ls_ApplyUpdates_def)
qed

end

lemma data_key_inj: "NUL \<notin> set ns \<Longrightarrow> NUL \<notin> set ns' \<Longrightarrow> data_key dbName (ns, k) = data_key dbName (ns', k') \<longleftrightarrow> ns = ns' \<and> k = k'"
  using encodeDataKey_inj [of ns ns' k k'] by (simp add: data_key_def constructLevelKey_def)

lemma visits_inj:
  assumes "visits ord batch" "batch_ok batch"
  shows "inj_on (data_key dbName) (set ord)"
proof (rule inj_onI)
  fix x y assume a: "x \<in> set ord" "y \<in> set ord" "data_key dbName x = data_key dbName y"
  then have "NUL \<notin> set (fst x)" "NUL \<notin> set (fst y)" using assms by (auto simp: visits_def batch_ok_def)
  then show "x = y" using a(3) data_key_inj [of "fst x" "fst y" dbName "snd x" "snd y"] by (simp add: prod_eq_iff)
qed

text \<open>What the store has under a key afterwards.\<close>

lemma written_lookup:
  assumes "visits ord batch" "batch_ok batch"
  shows "NUL \<notin> set ns \<Longrightarrow> fmlookup (store.write_mapped (data_key dbName) (entry_of M batch) ord m) (data_key dbName (ns, k)) =
      (case entry_of M batch (ns, k) of None \<Rightarrow> fmlookup m (data_key dbName (ns, k)) | Some v \<Rightarrow> v)"
    and "(\<And>ns k. NUL \<notin> set ns \<Longrightarrow> x \<noteq> data_key dbName (ns, k)) \<Longrightarrow>
      fmlookup (store.write_mapped (data_key dbName) (entry_of M batch) ord m) x = fmlookup m x"
proof -
  assume ns: "NUL \<notin> set ns"
  show "fmlookup (store.write_mapped (data_key dbName) (entry_of M batch) ord m) (data_key dbName (ns, k)) =
      (case entry_of M batch (ns, k) of None \<Rightarrow> fmlookup m (data_key dbName (ns, k)) | Some v \<Rightarrow> v)"
  proof (cases "entry_of M batch (ns, k)")
    case None
    have "data_key dbName j \<noteq> data_key dbName (ns, k)" if "j \<in> set ord" "entry_of M batch j \<noteq> None" for j
    proof -
      have "NUL \<notin> set (fst j)" using that(1) assms by (auto simp: visits_def batch_ok_def)
      then show ?thesis using that(2) None ns data_key_inj [of "fst j" ns dbName "snd j" k] by auto
    qed
    then show ?thesis using store.get_write_mapped_other [of ord "entry_of M batch" "data_key dbName"] None by simp
  next
    case (Some v)
    then have "(ns, k) \<in> set ord" using assms(1) by (auto simp: visits_def entry_of_def)
    then show ?thesis using store.get_write_mapped [OF visits_inj [OF assms], of "(ns, k)" "entry_of M batch" v] Some by simp
  qed
next
  assume x: "\<And>ns k. NUL \<notin> set ns \<Longrightarrow> x \<noteq> data_key dbName (ns, k)"
  have "data_key dbName j \<noteq> x" if "j \<in> set ord" for j
  proof -
    have "NUL \<notin> set (fst j)" using that assms by (auto simp: visits_def batch_ok_def)
    then show ?thesis using x [of "fst j" "snd j"] by auto
  qed
  then show "fmlookup (store.write_mapped (data_key dbName) (entry_of M batch) ord m) x = fmlookup m x"
    using store.get_write_mapped_other [of ord "entry_of M batch" "data_key dbName" x m] by simp
qed

context level_state
begin

lemma data_key_not_save: "data_key dbName (ns, k) \<noteq> constructLevelKey dbName savePointKey"
  by (simp add: data_key_def constructLevelKey_def encodeDataKey_def)

lemma save_lookup: "x \<noteq> constructLevelKey dbName savePointKey \<Longrightarrow> fmlookup (save dbName height m) x = fmlookup m x"
  by (simp add: save_def split: option.split)

lemma dec_enc: "batch_ok batch \<Longrightarrow> ub_Get batch ns k = Some vv \<Longrightarrow> \<not> IsDelete vv \<Longrightarrow> dec pb (enc_val M vv) = Some (stored vv)"
  using decodeValue_enc [OF codec, of vv] by (fastforce simp: dec_def batch_ok_def IsDelete_def)

lemma ApplyUpdates_holds:
  assumes v: "visits ord batch" "batch_ok batch" and ns: "NUL \<notin> set ns"
    and s': "items s' = save dbName height (store.write_mapped (data_key dbName) (entry_of M batch) ord (items s))"
  shows "fmlookup (holds s' ns) k =
    (case ub_Get batch ns k of None \<Rightarrow> fmlookup (holds s ns) k | Some vv \<Rightarrow> if IsDelete vv then None else Some (stored vv))"
proof -
  have "fmlookup (items s') (data_key dbName (ns, k)) =
      (case entry_of M batch (ns, k) of None \<Rightarrow> fmlookup (items s) (data_key dbName (ns, k)) | Some v \<Rightarrow> v)"
    unfolding s' save_lookup [OF data_key_not_save] by (rule written_lookup(1) [OF v ns])
  then show ?thesis using dec_enc [OF v(2), of ns k]
    by (auto simp: ns_content_lookup data_key_def entry_of_def split: option.split)
qed

lemma ApplyUpdates_store_ok:
  assumes v: "visits ord batch" "batch_ok batch" and ok: "store_ok pb dbName (items s)"
    and s': "items s' = save dbName height (store.write_mapped (data_key dbName) (entry_of M batch) ord (items s))"
  shows "store_ok pb dbName (items s')"
  unfolding store_ok_def
proof (intro allI impI)
  fix x b assume b: "fmlookup (items s') (constructLevelKey dbName (''d'' @ x)) = Some b"
  show "(\<exists>ns key. NUL \<notin> set ns \<and> x = ns @ [NUL] @ key) \<and> dec pb b \<noteq> None"
  proof (cases "\<exists>ns key. NUL \<notin> set ns \<and> x = ns @ [NUL] @ key")
    case True
    then obtain ns key where x: "NUL \<notin> set ns" "x = ns @ [NUL] @ key" by blast
    then have "constructLevelKey dbName (''d'' @ x) = constructLevelKey dbName (encodeDataKey ns key)" by (simp add: encodeDataKey_def)
    then have "fmlookup (holds s' ns) key = dec pb b" using b by (simp add: ns_content_lookup)
    moreover have "fmlookup (holds s' ns) key \<noteq> None"
    proof (cases "ub_Get batch ns key")
      case None
      have "fmlookup (items s) (ns_prefix dbName ns @ key) = Some b"
        using b written_lookup(1) [OF v x(1), of dbName M "items s" key] None data_key_not_save [of ns key]
        by (simp add: s' save_lookup data_key_def entry_of_def x(2) ns_prefix_def constructLevelKey_def encodeDataKey_def)
      then show ?thesis using store_okD [OF ok] calculation ApplyUpdates_holds [OF v x(1) s', of key] None
        by (auto simp: ns_content_lookup ns_prefix_def constructLevelKey_def encodeDataKey_def)
    next
      case (Some vv)
      have "\<not> IsDelete vv"
        using b written_lookup(1) [OF v x(1), of dbName M "items s" key] Some data_key_not_save [of ns key]
        by (auto simp: s' save_lookup data_key_def entry_of_def x(2) constructLevelKey_def encodeDataKey_def split: if_splits)
      then show ?thesis using ApplyUpdates_holds [OF v x(1) s', of key] Some by simp
    qed
    ultimately show ?thesis using True by auto
  next
    case False
    then have "constructLevelKey dbName (''d'' @ x) \<noteq> data_key dbName (ns, k)" if "NUL \<notin> set ns" for ns k
      using that by (auto simp: data_key_def constructLevelKey_def encodeDataKey_def)
    then have "fmlookup (items s) (constructLevelKey dbName (''d'' @ x)) = Some b"
      using b written_lookup(2) [OF v, of "constructLevelKey dbName (''d'' @ x)" dbName M "items s"]
      by (simp add: s' save_lookup constructLevelKey_def)
    then show ?thesis using ok unfolding store_ok_def by blast
  qed
qed

end

context level_state
begin

lemma GetLatestSavePoint_eq:
  assumes v: "visits ord batch" "batch_ok batch"
    and s': "items s' = save dbName height (store.write_mapped (data_key dbName) (entry_of M batch) ord (items s))"
  shows "GetLatestSavePoint vdb s' = (case height of None \<Rightarrow> GetLatestSavePoint vdb s | Some h \<Rightarrow> Inr (Some h))"
proof -
  have "fmlookup (store.write_mapped (data_key dbName) (entry_of M batch) ord (items s)) (constructLevelKey dbName savePointKey) =
      fmlookup (items s) (constructLevelKey dbName savePointKey)"
    by (rule written_lookup(2) [OF v]) (metis data_key_not_save)
  then show ?thesis
    by (simp add: GetLatestSavePoint_def h_Get_def DB_Get_eq s' save_def NewHeightFromBytes_enc split: option.split)
qed

theorem ApplyUpdates_refined:
  assumes "writes_succeed ld" "store_ok pb dbName (items s)" "visits ord batch" "batch_ok batch"
  shows "\<exists>s'. ls_ApplyUpdates vdb ord batch height s = ret s' \<and> store_ok pb dbName (items s') \<and>
    (\<forall>ns k. NUL \<notin> set ns \<longrightarrow> fmlookup (holds s' ns) k =
       (case ub_Get batch ns k of None \<Rightarrow> fmlookup (holds s ns) k | Some vv \<Rightarrow> if IsDelete vv then None else Some (stored vv))) \<and>
    GetLatestSavePoint vdb s' = (case height of None \<Rightarrow> GetLatestSavePoint vdb s | Some h \<Rightarrow> Inr (Some h))"
proof -
  obtain s' where s': "ls_ApplyUpdates vdb ord batch height s = ret s'"
    "items s' = save dbName height (store.write_mapped (data_key dbName) (entry_of M batch) ord (items s))"
    using ApplyUpdates_items [OF assms(1,4)] by blast
  show ?thesis
    using s'(1) ApplyUpdates_store_ok [OF assms(3,4,2) s'(2)] ApplyUpdates_holds [OF assms(3,4) _ s'(2)]
      GetLatestSavePoint_eq [OF assms(3,4) s'(2)] by blast
qed

end

section \<open>Concrete marshalling\<close>

text \<open>A marshalling of values that keeps the promise: every byte is announced, and zero bytes end the fields.\<close>

fun put_bytes :: "bytes \<Rightarrow> bytes" where
  "put_bytes [] = [NUL]"
| "put_bytes (c # cs) = SOH # c # put_bytes cs"

fun get_bytes :: "bytes \<Rightarrow> (bytes \<times> bytes) option" where
  "get_bytes (t # cs) =
     (if t = NUL then Some ([], cs)
      else case cs of [] \<Rightarrow> None | c # cs \<Rightarrow> map_option (\<lambda>(b, r). (c # b, r)) (get_bytes cs))"
| "get_bytes [] = None"

lemma get_put_bytes: "get_bytes (put_bytes b @ r) = Some (b, r)"
  by (induction b) simp_all

definition field :: "bytes option \<Rightarrow> bytes" where
  "field b = put_bytes (case b of None \<Rightarrow> [] | Some b \<Rightarrow> b)"

definition plain_proto :: dbvalue_proto where
  "plain_proto =
     \<lparr>pb_Marshal = (\<lambda>d. Inr (field (dv_Version d) @ field (dv_Value d) @ field (dv_Metadata d))),
      pb_Unmarshal = (\<lambda>bs.
        case get_bytes bs of
          None \<Rightarrow> Inl ''eof''
        | Some (ver, bs) \<Rightarrow> (case get_bytes bs of
            None \<Rightarrow> Inl ''eof''
          | Some (val, bs) \<Rightarrow> (case get_bytes bs of
              None \<Rightarrow> Inl ''eof''
            | Some (md, _) \<Rightarrow>
                Inr \<lparr>dv_Version = unset_empty (Some ver), dv_Value = unset_empty (Some val), dv_Metadata = unset_empty (Some md)\<rparr>)))\<rparr>"

lemma plain_codec: "dbvalue_codec plain_proto (\<lambda>d. field (dv_Version d) @ field (dv_Value d) @ field (dv_Metadata d))"
  using get_put_bytes [of _ "[]"]
  by (auto simp: dbvalue_codec_def plain_proto_def field_def get_put_bytes unset_empty_def split: option.split)

abbreviation plain_M :: "DBValue \<Rightarrow> bytes" where
  "plain_M \<equiv> \<lambda>d. field (dv_Version d) @ field (dv_Value d) @ field (dv_Metadata d)"

text \<open>The database of a new channel.\<close>

interpretation fresh: level_privacy mem_leveldb "\<lambda>s. s" "\<lambda>c. c" plain_proto plain_M "''ch''" fmempty "\<lparr>mh_cache = \<lambda>_. False\<rparr>"
proof
  show "store_ok plain_proto ''ch'' fmempty" by (simp add: store_ok_def)
  show "hint_sound \<lparr>mh_cache = \<lambda>_. False\<rparr> (ns_content plain_proto ''ch'' fmempty)"
    by (simp add: hint_sound_def ns_content_lookup)
qed (simp_all add: plain_codec)

end
