(* ===== verification/Snapshot.thy ===== *)
theory Snapshot
  imports Level_State
begin

text \<open>
  Exporting the state of a channel and importing it again: the full scan of the state database, which
  jumps over the namespaces to be left out, and the import in batches (\<open>fullDBScanner\<close> and \<open>importState\<close> of
  \<^verbatim>\<open>stateleveldb.go\<close>).  The lemmas show that the scan ends and returns the entries of the other namespaces,
  and that a database that imports them holds the same state.
\<close>

section \<open>Reading a scanner to its end\<close>

partial_function (option) full_scan :: "('s, 'c) versionedDB \<Rightarrow> (string \<Rightarrow> bool) \<Rightarrow> 'c \<Rightarrow> scan res option" where
  "full_scan vdb toSkip itr =
     Option.bind (fullDBScanner_Next vdb toSkip itr) (\<lambda>r.
       case r of
         Panic \<Rightarrow> Some Panic
       | Return (Inl e) \<Rightarrow> Some (ret \<lparr>sc_items = [], sc_error = Some e\<rparr>)
       | Return (Inr (None, _)) \<Rightarrow> Some (ret \<lparr>sc_items = [], sc_error = None\<rparr>)
       | Return (Inr (Some kv, itr)) \<Rightarrow>
           Option.bind (full_scan vdb toSkip itr) (\<lambda>r. Some (res_bind r (\<lambda>sc. ret (sc\<lparr>sc_items := kv # sc_items sc\<rparr>)))))"

definition export :: "('s, 'c) versionedDB \<Rightarrow> (string \<Rightarrow> bool) \<Rightarrow> 's \<Rightarrow> scan res option" where
  "export vdb toSkip s =
     (case newFullDBScanner vdb s of Inl e \<Rightarrow> Some (err e) | Inr itr \<Rightarrow> full_scan vdb toSkip itr)"

section \<open>The entries of a scan\<close>

text \<open>An entry of the store as an entry of the state.\<close>

definition kv_of :: "dbvalue_proto \<Rightarrow> string \<Rightarrow> bytes \<times> bytes \<Rightarrow> VersionedKV" where
  "kv_of pb dbName x =
     (case go_bind (retrieveAppKey (fst x)) decodeDataKey of
        Return (ns, key) \<Rightarrow> \<lparr>vk_Namespace = ns, vk_Key = key, vk_Val = the (dec pb (snd x))\<rparr>
      | Panic \<Rightarrow> \<lparr>vk_Namespace = '''', vk_Key = '''', vk_Val = \<lparr>vv_Value = None, vv_Metadata = None, vv_Version = None\<rparr>\<rparr>)"

definition data_entry :: "dbvalue_proto \<Rightarrow> string \<Rightarrow> bytes \<times> bytes \<Rightarrow> bool" where
  "data_entry pb dbName x \<longleftrightarrow> (\<exists>ns key. NUL \<notin> set ns \<and> fst x = data_key dbName (ns, key)) \<and> dec pb (snd x) \<noteq> None"

lemma kv_of_data:
  assumes "NUL \<notin> set dbName" "NUL \<notin> set ns"
  shows "go_bind (retrieveAppKey (data_key dbName (ns, key))) decodeDataKey = Return (ns, key)"
    and "kv_of pb dbName (data_key dbName (ns, key), b) = \<lparr>vk_Namespace = ns, vk_Key = key, vk_Val = the (dec pb b)\<rparr>"
proof -
  show "go_bind (retrieveAppKey (data_key dbName (ns, key))) decodeDataKey = Return (ns, key)"
    using assms by (simp add: data_key_def retrieveAppKey_construct decodeDataKey_encode)
  then show "kv_of pb dbName (data_key dbName (ns, key), b) = \<lparr>vk_Namespace = ns, vk_Key = key, vk_Val = the (dec pb b)\<rparr>"
    by (simp add: kv_of_def)
qed

text \<open>What lies between a key of a namespace and the start of the next namespace belongs to the namespace.\<close>

lemma next_ns_same:
  assumes "data_key dbName (ns, key) \<le> x" "x < constructLevelKey dbName (dataKeyStarterForNextNamespace ns)"
  shows "\<exists>key'. x = data_key dbName (ns, key')"
  using prefix_range_open [of "dbName @ [NUL] @ ''d'' @ ns" key x] assms
  by (auto simp: data_key_def constructLevelKey_def encodeDataKey_def dataKeyStarterForNextNamespace_def)

lemma ns_before_next: "data_key dbName (ns, key) < constructLevelKey dbName (dataKeyStarterForNextNamespace ns)"
proof -
  have "dbName @ NUL # CHR ''d'' # ns @ NUL # key < dbName @ NUL # CHR ''d'' # ns @ [SOH]"
    using append_less_iff [of "dbName @ NUL # CHR ''d'' # ns" "NUL # key" "[SOH]"] by (simp del: append_less_iff)
  then show ?thesis by (simp add: data_key_def constructLevelKey_def encodeDataKey_def dataKeyStarterForNextNamespace_def)
qed

text \<open>Jumping to the next namespace passes over entries of this one only.\<close>

lemma jump_rest:
  fixes K :: bytes
  assumes sorted: "sorted_wrt (<) (map fst xs)" and p: "p < length xs" and K: "fst (xs ! p) < K"
  shows "dropWhile (\<lambda>x. fst x < K) xs = dropWhile (\<lambda>x. fst x < K) (drop (Suc p) xs)"
proof -
  have "fst x < K" if x: "x \<in> set (take (Suc p) xs)" for x
  proof -
    obtain i where i: "i \<le> p" "x = xs ! i" using x p by (auto simp: in_set_conv_nth less_Suc_eq_le)
    have "i < p \<Longrightarrow> fst (xs ! i) < fst (xs ! p)" using sorted p by (simp add: sorted_wrt_map sorted_wrt_iff_nth_less)
    then have "i = p \<or> fst (xs ! i) < fst (xs ! p)" using i(1) by linarith
    then show ?thesis using i K by auto
  qed
  then show ?thesis using dropWhile_append2 [of "take (Suc p) xs" "\<lambda>x. fst x < K" "drop (Suc p) xs"] by simp
qed

lemma drop_takeWhile: "drop (length (takeWhile P xs)) xs = dropWhile P xs"
  by (induction xs) auto

lemma filter_dropWhile: "(\<forall>x \<in> set (takeWhile P xs). \<not> Q x) \<Longrightarrow> filter Q (dropWhile P xs) = filter Q xs"
  by (induction xs) auto

section \<open>The scan returns every entry that is not skipped\<close>

definition kept :: "dbvalue_proto \<Rightarrow> string \<Rightarrow> (string \<Rightarrow> bool) \<Rightarrow> bytes \<times> bytes \<Rightarrow> bool" where
  "kept pb dbName toSkip x \<longleftrightarrow> \<not> toSkip (vk_Namespace (kv_of pb dbName x))"

context level_state
begin

lemma full_Next_step:
  assumes c: "view c = (xs, p)" and p: "p < length xs" and sorted: "sorted_wrt (<) (map fst xs)" and data: "data_entry pb dbName (xs ! p)"
  shows "if kept pb dbName toSkip (xs ! p)
    then \<exists>c'. fullDBScanner_Next vdb toSkip c = Some (ret (Some (kv_of pb dbName (xs ! p)), c')) \<and> view c' = (xs, Suc p)
    else \<exists>c' q. fullDBScanner_Next vdb toSkip c = fullDBScanner_Next vdb toSkip c' \<and> view c' = (xs, q) \<and> p < q \<and>
           filter (kept pb dbName toSkip) (drop q xs) = filter (kept pb dbName toSkip) (drop (Suc p) xs)"
proof -
  obtain ns key b where x: "xs ! p = (data_key dbName (ns, key), b)" "NUL \<notin> set ns" "dec pb b \<noteq> None"
    using data by (cases "xs ! p") (auto simp: data_entry_def)
  then obtain vv where vv: "decodeValue pb b = Inr vv" "dec pb b = Some vv" by (auto simp: dec_def split: sum.splits)
  obtain c1 where c1: "it_Next ld c = (True, c1)" "view c1 = (xs, Suc p)" using Next [OF c] p by (auto simp: min_def)
  have entry: "it_Key ld c1 = data_key dbName (ns, key)" "it_Value ld c1 = b" using Entry [OF c1(2)] p x(1) by simp_all
  note key = kv_of_data(1) [OF dbName x(2), of key] kv_of_data(2) [OF dbName x(2), of pb key]
  show ?thesis
  proof (cases "toSkip ns")
    case False
    then have "fullDBScanner_Next vdb toSkip c = Some (ret (Some (kv_of pb dbName (xs ! p)), c1))"
      by (subst fullDBScanner_Next.simps) (simp add: c1 entry key h_itr_Key_def vv x(1))
    then show ?thesis using False c1(2) key(2) x(1) by (simp add: kept_def)
  next
    case True
    let ?K = "constructLevelKey dbName (dataKeyStarterForNextNamespace ns)"
    let ?q = "length (takeWhile (\<lambda>x. fst x < ?K) xs)"
    obtain b2 c2 where c2: "it_Seek ld ?K c1 = (b2, c2)" "view c2 = (xs, ?q + 1)" using Seek [OF c1(2)] by blast
    obtain b3 c3 where c3: "it_Prev ld c2 = (b3, c3)" "view c3 = (xs, ?q)" using Prev [OF c2(2)] by auto
    have next_eq: "fullDBScanner_Next vdb toSkip c = fullDBScanner_Next vdb toSkip c3"
      by (subst fullDBScanner_Next.simps) (simp add: c1 entry key h_itr_Key_def vv True h_itr_Seek_def c2(1) c3(1))
    have rest: "drop ?q xs = dropWhile (\<lambda>x. fst x < ?K) (drop (Suc p) xs)"
      unfolding drop_takeWhile using jump_rest [OF sorted p, of ?K] ns_before_next x(1) by simp
    have "length (drop ?q xs) \<le> length (drop (Suc p) xs)" unfolding rest by (rule length_dropWhile_le)
    then have "p < ?q" using p length_takeWhile_le [of "\<lambda>x. fst x < ?K" xs] by simp
    moreover have "\<not> kept pb dbName toSkip y" if y: "y \<in> set (takeWhile (\<lambda>x. fst x < ?K) (drop (Suc p) xs))" for y
    proof -
      obtain i where i: "i < length (drop (Suc p) xs)" "y = drop (Suc p) xs ! i"
        using set_takeWhileD [OF y] by (auto simp: in_set_conv_nth)
      then have "Suc p + i < length xs" "y = xs ! (Suc p + i)" by simp_all
      then have less: "fst (xs ! p) < fst y" using sorted by (simp add: sorted_wrt_map sorted_wrt_iff_nth_less)
      have "fst y < ?K" using set_takeWhileD [OF y] by simp
      then obtain key' where "fst y = data_key dbName (ns, key')" using next_ns_same [of dbName ns key "fst y"] less [THEN less_imp_le] x(1) by auto
      then have "kv_of pb dbName y = \<lparr>vk_Namespace = ns, vk_Key = key', vk_Val = the (dec pb (snd y))\<rparr>"
        using kv_of_data(2) [OF dbName x(2), of pb key' "snd y"] by (metis prod.collapse)
      then show ?thesis using True by (simp add: kept_def)
    qed
    ultimately have "filter (kept pb dbName toSkip) (drop ?q xs) = filter (kept pb dbName toSkip) (drop (Suc p) xs)"
      unfolding rest by (intro filter_dropWhile) blast
    then show ?thesis using True next_eq c3(2) \<open>p < ?q\<close> key(2) x(1) by (auto simp: kept_def)
  qed
qed

end

context level_state
begin

lemma full_Next_eq:
  assumes sorted: "sorted_wrt (<) (map fst xs)" and data: "\<forall>x \<in> set xs. data_entry pb dbName x"
  shows "view c = (xs, p) \<Longrightarrow>
    case filter (kept pb dbName toSkip) (drop p xs) of
      [] \<Rightarrow> \<exists>c'. fullDBScanner_Next vdb toSkip c = Some (ret (None, c'))
    | x # ys \<Rightarrow> \<exists>c' q. fullDBScanner_Next vdb toSkip c = Some (ret (Some (kv_of pb dbName x), c')) \<and> view c' = (xs, q) \<and>
        filter (kept pb dbName toSkip) (drop q xs) = ys"
proof (induction "length xs - p" arbitrary: c p rule: less_induct)
  case less
  show ?case
  proof (cases "p < length xs")
    case False
    then obtain c' where "it_Next ld c = (False, c')" using Next [OF less.prems] by auto
    then have "fullDBScanner_Next vdb toSkip c = Some (ret (None, c'))"
      by (subst fullDBScanner_Next.simps) (simp add: Error)
    then show ?thesis using False by simp
  next
    case True
    have d: "drop p xs = xs ! p # drop (Suc p) xs" using True by (rule Cons_nth_drop_Suc [symmetric])
    have "data_entry pb dbName (xs ! p)" using data True by simp
    note step = full_Next_step [OF less.prems True sorted this, of toSkip]
    show ?thesis
    proof (cases "kept pb dbName toSkip (xs ! p)")
      case True
      then show ?thesis using step d by auto
    next
      case False
      then obtain c' q where c': "fullDBScanner_Next vdb toSkip c = fullDBScanner_Next vdb toSkip c'" "view c' = (xs, q)" "p < q"
        "filter (kept pb dbName toSkip) (drop q xs) = filter (kept pb dbName toSkip) (drop (Suc p) xs)" using step by auto
      have "length xs - q < length xs - p" using c'(3) True by simp
      from less.hyps [OF this c'(2)] show ?thesis unfolding c'(1) using c'(4) False d by simp
    qed
  qed
qed

lemma full_scan_eq:
  assumes sorted: "sorted_wrt (<) (map fst xs)" and data: "\<forall>x \<in> set xs. data_entry pb dbName x"
  shows "view c = (xs, p) \<Longrightarrow>
    full_scan vdb toSkip c =
      Some (ret \<lparr>sc_items = map (kv_of pb dbName) (filter (kept pb dbName toSkip) (drop p xs)), sc_error = None\<rparr>)"
proof (induction "filter (kept pb dbName toSkip) (drop p xs)" arbitrary: c p)
  case Nil
  then obtain c' where "fullDBScanner_Next vdb toSkip c = Some (ret (None, c'))"
    using full_Next_eq [OF sorted data Nil.prems, of toSkip] by (auto split: list.splits)
  then show ?case using Nil.hyps by (subst full_scan.simps) (simp add: ret_def flip: Nil.hyps)
next
  case (Cons x ys)
  then obtain c' q where c': "fullDBScanner_Next vdb toSkip c = Some (ret (Some (kv_of pb dbName x), c'))" "view c' = (xs, q)"
    "filter (kept pb dbName toSkip) (drop q xs) = ys"
    using full_Next_eq [OF sorted data Cons.prems, of toSkip] by (auto simp flip: Cons.hyps(2))
  show ?case
    using c'(1) Cons.hyps(1) [OF c'(3) [symmetric] c'(2)] c'(3)
    by (subst full_scan.simps) (simp add: ret_def flip: Cons.hyps(2))
qed

lemma data_range:
  assumes "store_ok pb dbName (items s)"
    "x \<in> set (level_range (items s) (Some (constructLevelKey dbName ''d'')) (Some (constructLevelKey dbName ''e'')))"
  shows "data_entry pb dbName x"
proof -
  obtain k b where x: "x = (k, b)" by fastforce
  have "key_range (Some (constructLevelKey dbName ''d'')) (Some (constructLevelKey dbName ''e'')) k" "fmlookup (items s) k = Some b"
    using assms(2) x by (simp_all add: set_level_range)
  moreover from this(1) obtain r where r: "k = constructLevelKey dbName r" "''d'' \<le> r" "r < ''e''"
    using prefix_range_bounded [of "dbName @ [NUL]" "''d''" k "''e''"] by (auto simp: key_range_def constructLevelKey_def)
  moreover from r(2,3) obtain y where "r = ''d'' @ y" by (cases r) (auto simp: less_char_def less_eq_char_def)
  ultimately show ?thesis using assms(1) x
    by (auto simp: store_ok_def data_entry_def data_key_def encodeDataKey_def) blast+
qed

end

section \<open>Importing\<close>

definition import_puts :: "string \<Rightarrow> (DBValue \<Rightarrow> bytes) \<Rightarrow> VersionedKV list \<Rightarrow> (bytes, bytes) fmap \<Rightarrow> (bytes, bytes) fmap" where
  "import_puts dbName M kvs = fold (\<lambda>kv. fmupd (data_key dbName (vk_Namespace kv, vk_Key kv)) (enc_val M (vk_Val kv))) kvs"

context level_state
begin

lemma import_loop_eq:
  assumes w: "writes_succeed ld"
  shows "\<forall>kv \<in> set kvs. vv_Version (vk_Val kv) \<noteq> None \<Longrightarrow> lv_dbName b = dbName \<Longrightarrow>
    \<exists>s'. import_loop vdb h kvs None n b s = Return (None, s') \<and>
      items s' = save dbName (Some h) (import_puts dbName M kvs (fold batch_step (lv_leveldbBatch b) (items s)))"
proof (induction kvs arbitrary: n b s)
  case Nil
  obtain s' where s': "ld_Write ld (lv_leveldbBatch b @ [BPut (constructLevelKey dbName savePointKey) (enc (BlockNum h) @ enc (TxNum h))]) s = Inr s'"
    using w unfolding writes_succeed_def by blast
  then show ?case using Nil(2) Write [OF s']
    by (simp add: ToBytes_eq lv_Put_def h_WriteBatch_def DB_WriteBatch_def save_def import_puts_def Let_def)
next
  case (Cons kv kvs)
  let ?k = "data_key dbName (vk_Namespace kv, vk_Key kv)" and ?v = "enc_val M (vk_Val kv)"
  let ?key = "encodeDataKey (vk_Namespace kv) (vk_Key kv)"
  obtain b1 where b1: "lv_Put ?key (Some ?v) b = Return b1" "lv_leveldbBatch b1 = lv_leveldbBatch b @ [BPut ?k ?v]" "lv_dbName b1 = dbName"
    using Cons.prems(2) by (simp add: lv_Put_def data_key_def Let_def)
  have e: "encodeValue pb (vk_Val kv) = Return (Inr ?v)"
    using encodeValue_eq [OF codec, of "vk_Val kv"] Cons.prems(1) by (simp add: ret_def)
  show ?case
  proof (cases "n + length ?key + length ?v \<ge> maxDataImportBatchSize")
    case True
    obtain s1 where s1: "ld_Write ld (lv_leveldbBatch b1) s = Inr s1" using w unfolding writes_succeed_def by blast
    then have wb: "h_WriteBatch ld b1 s = (None, s1)" using b1(2) by (simp add: h_WriteBatch_def DB_WriteBatch_def)
    have "import_loop vdb h (kv # kvs) None n b s = import_loop vdb h kvs None 0 (lv_Reset b1) s1"
      using True e b1 wb by (simp add: Let_def)
    then show ?thesis using Cons.IH [of "lv_Reset b1" 0 s1] Cons.prems(1) b1 Write [OF s1]
      by (simp add: lv_Reset_def import_puts_def)
  next
    case False
    then have "import_loop vdb h (kv # kvs) None n b s = import_loop vdb h kvs None (n + length ?key + length ?v) b1 s"
      using e b1 by (simp add: Let_def)
    then show ?thesis using Cons.IH [OF _ b1(3), of "n + length ?key + length ?v" s] Cons.prems(1) b1(2)
      by (simp add: import_puts_def)
  qed
qed

end

lemma import_puts_other:
  "\<forall>kv \<in> set kvs. data_key dbName (vk_Namespace kv, vk_Key kv) \<noteq> x \<Longrightarrow> fmlookup (import_puts dbName M kvs m) x = fmlookup m x"
  by (induction kvs arbitrary: m) (auto simp: import_puts_def)

lemma import_puts_lookup:
  "distinct (map (\<lambda>kv. data_key dbName (vk_Namespace kv, vk_Key kv)) kvs) \<Longrightarrow> kv \<in> set kvs \<Longrightarrow>
     fmlookup (import_puts dbName M kvs m) (data_key dbName (vk_Namespace kv, vk_Key kv)) = Some (enc_val M (vk_Val kv))"
proof (induction kvs arbitrary: m)
  case (Cons x kvs)
  show ?case
  proof (cases "kv \<in> set kvs")
    case True
    then show ?thesis using Cons by (simp add: import_puts_def)
  next
    case False
    then have "kv = x" using Cons.prems(2) by simp
    moreover have "\<forall>y \<in> set kvs. data_key dbName (vk_Namespace y, vk_Key y) \<noteq> data_key dbName (vk_Namespace x, vk_Key x)"
      using Cons.prems(1) by (simp add: image_iff) metis
    ultimately show ?thesis
      using import_puts_other [of kvs dbName _ M "fmupd (data_key dbName (vk_Namespace x, vk_Key x)) (enc_val M (vk_Val x)) m"]
      by (simp add: import_puts_def)
  qed
qed simp

section \<open>A snapshot holds the state\<close>

text \<open>
  A list of entries is the state \<open>content\<close> of the namespaces that are not skipped: it has every entry once.
\<close>

definition snapshot_of :: "(string \<Rightarrow> nsUpdates) \<Rightarrow> (string \<Rightarrow> bool) \<Rightarrow> VersionedKV list \<Rightarrow> bool" where
  "snapshot_of content toSkip kvs \<longleftrightarrow>
     distinct (map (\<lambda>kv. (vk_Namespace kv, vk_Key kv)) kvs) \<and>
     (\<forall>kv. kv \<in> set kvs \<longleftrightarrow> NUL \<notin> set (vk_Namespace kv) \<and> \<not> toSkip (vk_Namespace kv) \<and>
        fmlookup (content (vk_Namespace kv)) (vk_Key kv) = Some (vk_Val kv))"

lemma snapshot_distinct:
  assumes "snapshot_of content toSkip kvs"
  shows "distinct (map (\<lambda>kv. data_key dbName (vk_Namespace kv, vk_Key kv)) kvs)"
proof -
  have "inj_on (data_key dbName) ((\<lambda>kv. (vk_Namespace kv, vk_Key kv)) ` set kvs)"
    using assms data_key_inj unfolding snapshot_of_def by (auto intro!: inj_onI)
  then show ?thesis using assms distinct_map [of "data_key dbName" "map (\<lambda>kv. (vk_Namespace kv, vk_Key kv)) kvs"]
    unfolding snapshot_of_def by (simp add: comp_def)
qed

lemma snapshot_absent:
  assumes "snapshot_of content toSkip kvs" "NUL \<notin> set ns" "\<not> (\<exists>kv \<in> set kvs. vk_Namespace kv = ns \<and> vk_Key kv = k)"
  shows "toSkip ns \<or> fmlookup (content ns) k = None"
proof (rule ccontr)
  assume "\<not> (toSkip ns \<or> fmlookup (content ns) k = None)"
  then obtain vv where "\<not> toSkip ns" "fmlookup (content ns) k = Some vv" by auto
  then have "\<lparr>vk_Namespace = ns, vk_Key = k, vk_Val = vv\<rparr> \<in> set kvs" using assms(1,2) unfolding snapshot_of_def by simp
  then show False using assms(3) by force
qed

context level_state
begin

lemma data_key_range: "key_range (Some (constructLevelKey dbName ''d'')) (Some (constructLevelKey dbName ''e'')) (data_key dbName (ns, key))"
  by (simp add: key_range_def data_key_def constructLevelKey_def encodeDataKey_def less_char_def)

lemma data_entry_kv:
  assumes "data_entry pb dbName x"
  shows "NUL \<notin> set (vk_Namespace (kv_of pb dbName x))"
    and "fst x = data_key dbName (vk_Namespace (kv_of pb dbName x), vk_Key (kv_of pb dbName x))"
    and "dec pb (snd x) = Some (vk_Val (kv_of pb dbName x))"
proof -
  obtain ns key b where x: "x = (data_key dbName (ns, key), b)" "NUL \<notin> set ns" "dec pb b \<noteq> None"
    using assms by (cases x) (auto simp: data_entry_def)
  show "NUL \<notin> set (vk_Namespace (kv_of pb dbName x))" "dec pb (snd x) = Some (vk_Val (kv_of pb dbName x))"
    "fst x = data_key dbName (vk_Namespace (kv_of pb dbName x), vk_Key (kv_of pb dbName x))"
    using x(2,3) kv_of_data(2) [OF dbName x(2), of pb key b] by (auto simp: x(1))
qed

lemma scanned_mem:
  fixes s kv
  defines "xs \<equiv> level_range (items s) (Some (constructLevelKey dbName ''d'')) (Some (constructLevelKey dbName ''e''))"
  assumes data: "\<forall>x \<in> set xs. data_entry pb dbName x"
  shows "kv \<in> set (map (kv_of pb dbName) (filter (kept pb dbName toSkip) xs)) \<longleftrightarrow>
    NUL \<notin> set (vk_Namespace kv) \<and> \<not> toSkip (vk_Namespace kv) \<and> fmlookup (holds s (vk_Namespace kv)) (vk_Key kv) = Some (vk_Val kv)"
proof
  assume "kv \<in> set (map (kv_of pb dbName) (filter (kept pb dbName toSkip) xs))"
  then obtain x where x: "x \<in> set xs" "kept pb dbName toSkip x" "kv = kv_of pb dbName x" by auto
  note e = data_entry_kv [OF data [rule_format, OF x(1)]]
  have "fmlookup (items s) (fst x) = Some (snd x)" using x(1) set_level_range [of "fst x" "snd x"] by (simp add: xs_def)
  then show "NUL \<notin> set (vk_Namespace kv) \<and> \<not> toSkip (vk_Namespace kv) \<and> fmlookup (holds s (vk_Namespace kv)) (vk_Key kv) = Some (vk_Val kv)"
    using e x(2,3) by (simp add: kept_def ns_content_lookup data_key_def)
next
  assume kv: "NUL \<notin> set (vk_Namespace kv) \<and> \<not> toSkip (vk_Namespace kv) \<and> fmlookup (holds s (vk_Namespace kv)) (vk_Key kv) = Some (vk_Val kv)"
  then obtain b where b: "fmlookup (items s) (data_key dbName (vk_Namespace kv, vk_Key kv)) = Some b" "dec pb b = Some (vk_Val kv)"
    by (auto simp: ns_content_lookup data_key_def bind_eq_Some_conv)
  let ?x = "(data_key dbName (vk_Namespace kv, vk_Key kv), b)"
  have "kv_of pb dbName ?x = kv" using kv kv_of_data(2) [OF dbName, of "vk_Namespace kv" pb "vk_Key kv" b] b(2) by simp
  moreover have "?x \<in> set xs" using b(1) data_key_range by (simp add: xs_def set_level_range)
  ultimately show "kv \<in> set (map (kv_of pb dbName) (filter (kept pb dbName toSkip) xs))"
    using kv by (auto simp: kept_def intro!: image_eqI [where x = ?x])
qed

lemma export_eq:
  assumes ok: "store_ok pb dbName (items s)"
  shows "\<exists>kvs. export vdb toSkip s = Some (ret \<lparr>sc_items = kvs, sc_error = None\<rparr>) \<and> snapshot_of (holds s) toSkip kvs"
proof -
  let ?xs = "level_range (items s) (Some (constructLevelKey dbName ''d'')) (Some (constructLevelKey dbName ''e''))"
  let ?kvs = "map (kv_of pb dbName) (filter (kept pb dbName toSkip) ?xs)"
  have data: "\<forall>x \<in> set ?xs. data_entry pb dbName x" using data_range [OF ok] by blast
  have "newFullDBScanner vdb s = Inr (ld_NewIterator ld s (Some (constructLevelKey dbName ''d'')) (Some (constructLevelKey dbName ''e'')))"
    by (simp add: newFullDBScanner_def h_GetIterator_def Let_def Error DB_GetIterator_def)
  then have ex: "export vdb toSkip s = Some (ret \<lparr>sc_items = ?kvs, sc_error = None\<rparr>)"
    using full_scan_eq [OF level_range_sorted data NewIterator] by (simp add: export_def)
  have "distinct (map fst ?xs)" using level_range_sorted [of "items s"] strict_sorted_iff by blast
  then have "distinct (map fst (filter (kept pb dbName toSkip) ?xs))" by (rule distinct_map_filter)
  moreover have "map fst (filter (kept pb dbName toSkip) ?xs) = map (\<lambda>kv. data_key dbName (vk_Namespace kv, vk_Key kv)) ?kvs"
    using data_entry_kv(2) data by auto
  ultimately have "distinct (map (data_key dbName) (map (\<lambda>kv. (vk_Namespace kv, vk_Key kv)) ?kvs))" by (simp add: comp_def)
  then have "distinct (map (\<lambda>kv. (vk_Namespace kv, vk_Key kv)) ?kvs)"
    unfolding distinct_map [of "data_key dbName"] by (rule conjunct1)
  then show ?thesis using ex scanned_mem [OF data] unfolding snapshot_of_def by blast
qed

lemma import_holds:
  assumes w: "writes_succeed ld" and empty: "\<And>k. h_Get ld dbName t k = Inr None"
    and snap: "snapshot_of content toSkip kvs" and ver: "\<forall>ns k vv. fmlookup (content ns) k = Some vv \<longrightarrow> vv_Value vv \<noteq> None \<and> vv_Version vv \<noteq> None"
  shows "\<exists>t'. importState vdb (Some \<lparr>sc_items = kvs, sc_error = None\<rparr>) h t = Return (None, t') \<and>
    (\<forall>ns k. NUL \<notin> set ns \<longrightarrow> fmlookup (holds t' ns) k = (if toSkip ns then None else map_option stored (fmlookup (content ns) k))) \<and>
    GetLatestSavePoint vdb t' = Inr (Some h)"
proof -
  have kvs: "NUL \<notin> set (vk_Namespace kv)" "vv_Value (vk_Val kv) \<noteq> None" "vv_Version (vk_Val kv) \<noteq> None" if "kv \<in> set kvs" for kv
    using that snap ver unfolding snapshot_of_def by blast+
  then have v: "\<forall>kv \<in> set kvs. vv_Version (vk_Val kv) \<noteq> None" by blast
  obtain t' where t': "importState vdb (Some \<lparr>sc_items = kvs, sc_error = None\<rparr>) h t = Return (None, t')"
    "items t' = save dbName (Some h) (import_puts dbName M kvs (items t))"
    using import_loop_eq [OF w v, of "h_NewUpdateBatch dbName" h 0 t] by (auto simp: importState_def h_NewUpdateBatch_def)
  note dist = snapshot_distinct [OF snap, of dbName]
  have "fmlookup (holds t' ns) k = (if toSkip ns then None else map_option stored (fmlookup (content ns) k))" if ns: "NUL \<notin> set ns" for ns k
  proof (cases "\<exists>kv \<in> set kvs. vk_Namespace kv = ns \<and> vk_Key kv = k")
    case True
    then obtain kv where kv: "kv \<in> set kvs" "vk_Namespace kv = ns" "vk_Key kv = k" by blast
    have "fmlookup (items t') (data_key dbName (ns, k)) = Some (enc_val M (vk_Val kv))"
      using import_puts_lookup [OF dist kv(1)] kv(2,3) by (simp add: t'(2) save_lookup data_key_not_save)
    moreover have "dec pb (enc_val M (vk_Val kv)) = Some (stored (vk_Val kv))"
      using decodeValue_enc [OF codec] kvs(2,3) [OF kv(1)] by (simp add: dec_def)
    moreover have "\<not> toSkip ns" "fmlookup (content ns) k = Some (vk_Val kv)" using snap kv unfolding snapshot_of_def by blast+
    ultimately show ?thesis by (simp add: ns_content_lookup data_key_def)
  next
    case False
    have "\<forall>kv \<in> set kvs. data_key dbName (vk_Namespace kv, vk_Key kv) \<noteq> data_key dbName (ns, k)"
      using False kvs(1) data_key_inj [OF _ ns] by blast
    then have "fmlookup (items t') (data_key dbName (ns, k)) = fmlookup (items t) (data_key dbName (ns, k))"
      using import_puts_other by (simp add: t'(2) save_lookup data_key_not_save)
    also have "\<dots> = None" using empty [of "encodeDataKey ns k"] by (simp add: h_Get_def DB_Get_eq data_key_def)
    finally have "fmlookup (holds t' ns) k = None" by (simp add: ns_content_lookup data_key_def)
    then show ?thesis using snapshot_absent [OF snap ns False] by auto
  qed
  moreover have "GetLatestSavePoint vdb t' = Inr (Some h)"
    by (simp add: GetLatestSavePoint_def h_Get_def DB_Get_eq t'(2) save_def NewHeightFromBytes_enc)
  ultimately show ?thesis using t'(1) by blast
qed

end

text \<open>C39: a snapshot can be imported again.  The full scan of the state database of a channel returns, without
  an error and in finitely many steps, a list of entries; a database without data that imports the list, in
  batches, holds afterwards the same entries in every namespace that the scan did not skip, nothing in the
  namespaces it skipped, and the given save point.  Empty metadata comes back as no metadata.  The two
  databases may live in different stores under different names; names of channels and namespaces contain no
  zero byte.
\<close>

theorem snapshot_roundtrip:
  assumes src: "level_state ld items view pb M dbName" "store_ok pb dbName (items s)"
    and dst: "level_state ld' items' view' pb' M' dbName'" "writes_succeed ld'" "\<And>k. h_Get ld' dbName' t k = Inr None"
  shows "\<exists>sc t'. export \<lparr>ls_ld = ld, ls_pb = pb, ls_dbName = dbName\<rparr> toSkip s = Some (ret sc) \<and>
    importState \<lparr>ls_ld = ld', ls_pb = pb', ls_dbName = dbName'\<rparr> (Some sc) h t = Return (None, t') \<and>
    (\<forall>ns k. NUL \<notin> set ns \<longrightarrow> fmlookup (ns_content pb' dbName' (items' t') ns) k =
       (if toSkip ns then None else map_option stored (fmlookup (ns_content pb dbName (items s) ns) k))) \<and>
    GetLatestSavePoint \<lparr>ls_ld = ld', ls_pb = pb', ls_dbName = dbName'\<rparr> t' = Inr (Some h)"
proof -
  obtain kvs where kvs: "export \<lparr>ls_ld = ld, ls_pb = pb, ls_dbName = dbName\<rparr> toSkip s = Some (ret \<lparr>sc_items = kvs, sc_error = None\<rparr>)"
    "snapshot_of (ns_content pb dbName (items s)) toSkip kvs"
    using level_state.export_eq [OF src] by blast
  have live: "\<forall>ns k vv. fmlookup (ns_content pb dbName (items s) ns) k = Some vv \<longrightarrow> vv_Value vv \<noteq> None \<and> vv_Version vv \<noteq> None"
    using level_state.holds_live [OF src(1)] by blast
  show ?thesis using kvs(1) level_state.import_holds [OF dst kvs(2) live, where h = h] by blast
qed

definition sample_store :: "(bytes, bytes) fmap" where
  "sample_store = fmap_of_list [(data_key ''ch'' (''cc'', ''k''),
     enc_val plain_M \<lparr>vv_Value = Some ''v'', vv_Metadata = None, vv_Version = Some (Height 1 0)\<rparr>)]"

lemma sample_store_ok: "store_ok plain_proto ''ch'' sample_store"
proof -
  have "dec plain_proto (enc_val plain_M \<lparr>vv_Value = Some ''v'', vv_Metadata = None, vv_Version = Some (Height 1 0)\<rparr>) \<noteq> None"
    using decodeValue_enc [OF plain_codec, of "\<lparr>vv_Value = Some ''v'', vv_Metadata = None, vv_Version = Some (Height 1 0)\<rparr>"]
    by (simp add: dec_def)
  then show ?thesis unfolding store_ok_def
    by (intro allI impI conjI exI [of _ "''cc''"] exI [of _ "''k''"])
      (simp_all add: sample_store_def fmlookup_of_list data_key_def constructLevelKey_def encodeDataKey_def split: if_splits)
qed

theorem snapshot_roundtrip_witness:
  "\<exists>sc t'. export \<lparr>ls_ld = mem_leveldb, ls_pb = plain_proto, ls_dbName = ''ch''\<rparr> (\<lambda>_. False) sample_store = Some (ret sc) \<and>
     importState \<lparr>ls_ld = mem_leveldb, ls_pb = plain_proto, ls_dbName = ''ch''\<rparr> (Some sc) (Height 1 0) fmempty = Return (None, t') \<and>
     fmlookup (ns_content plain_proto ''ch'' t' ''cc'') ''k'' =
       Some \<lparr>vv_Value = Some ''v'', vv_Metadata = None, vv_Version = Some (Height 1 0)\<rparr>"
proof -
  have "fmlookup (ns_content plain_proto ''ch'' sample_store ''cc'') ''k'' =
      Some \<lparr>vv_Value = Some ''v'', vv_Metadata = None, vv_Version = Some (Height 1 0)\<rparr>"
    using decodeValue_enc [OF plain_codec, of "\<lparr>vv_Value = Some ''v'', vv_Metadata = None, vv_Version = Some (Height 1 0)\<rparr>"]
    by (simp add: sample_store_def ns_content_lookup fmlookup_of_list data_key_def dec_def stored_def unset_empty_def)
  note entry = this
  have empty: "h_Get mem_leveldb ''ch'' fmempty k = Inr None" for k by (simp add: h_Get_def mem.DB_Get_eq)
  obtain sc t' where
    e: "export \<lparr>ls_ld = mem_leveldb, ls_pb = plain_proto, ls_dbName = ''ch''\<rparr> (\<lambda>_. False) sample_store = Some (ret sc)"
    and i: "importState \<lparr>ls_ld = mem_leveldb, ls_pb = plain_proto, ls_dbName = ''ch''\<rparr> (Some sc) (Height 1 0) fmempty = Return (None, t')"
    and h: "\<forall>ns k. NUL \<notin> set ns \<longrightarrow> fmlookup (ns_content plain_proto ''ch'' t' ns) k =
       (if False then None else map_option stored (fmlookup (ns_content plain_proto ''ch'' sample_store ns) k))"
    using snapshot_roundtrip [OF fresh.level_state_axioms sample_store_ok fresh.level_state_axioms mem_writes empty,
      of "\<lambda>_. False" "Height 1 0"] by (elim exE conjE) (rule that)
  have "fmlookup (ns_content plain_proto ''ch'' t' ''cc'') ''k'' =
       map_option stored (fmlookup (ns_content plain_proto ''ch'' sample_store ''cc'') ''k'')"
    using h [rule_format, of "''cc''" "''k''"] by simp
  then show ?thesis using e i unfolding entry by (intro exI conjI) (simp_all add: stored_def unset_empty_def)
qed

end
