(* ===== verification/Range_Query.thy ===== *)
theory Range_Query
  imports Versioned_DB Messages
begin

text \<open>
  Range queries of a transaction checked against the latest state: the iterator that combines the
  database with the updates of the preceding transactions
  (\<^verbatim>\<open>core/ledger/kvledger/txmgmt/validation/combined_iterator.go\<close>) and the validator that compares its
  results with the reads recorded in the transaction (\<^verbatim>\<open>rangequery_validator.go\<close>).  An iterator is seen
  through the list of the results it has still to return (locale \<open>results_iterator\<close>); the combined
  iterator returns the live entries of the database overlaid with the updates, in the order of the keys.
\<close>

section \<open>The combined iterator\<close>

record combinedIterator =
  ci_ns :: string
  ci_db :: VersionedDB
  ci_updates :: UpdateBatch
  ci_endKey :: string
  ci_includeEndKey :: bool
  ci_dbItr :: scan
  ci_updatesItr :: nsIterator
  ci_dbItem :: "VersionedKV option"
  ci_updatesItem :: "VersionedKV option"
  ci_endKeyServed :: bool

definition newCombinedIterator ::
  "VersionedDB \<Rightarrow> UpdateBatch \<Rightarrow> string \<Rightarrow> string \<Rightarrow> string \<Rightarrow> bool \<Rightarrow> combinedIterator res" where
  "newCombinedIterator db updates ns startKey endKey includeEndKey =
     res_bind (lift_err (vd_Scan db ns startKey endKey)) (\<lambda>dbItr.
     res_bind (lift_err (scan_Next dbItr)) (\<lambda>(dbItem, dbItr).
     res_bind (lift_go (nsIterator_Next (newNsIterator ns startKey endKey updates))) (\<lambda>(updatesItem, updatesItr).
     ret \<lparr>ci_ns = ns, ci_db = db, ci_updates = updates, ci_endKey = endKey, ci_includeEndKey = includeEndKey,
          ci_dbItr = dbItr, ci_updatesItr = updatesItr, ci_dbItem = dbItem, ci_updatesItem = updatesItem,
          ci_endKeyServed = False\<rparr>)))"

definition compareKeys :: "VersionedKV option \<Rightarrow> VersionedKV option \<Rightarrow> int" where
  "compareKeys item1 item2 =
     (case item1 of
        None \<Rightarrow> (case item2 of None \<Rightarrow> 0 | Some _ \<Rightarrow> 1)
      | Some a \<Rightarrow>
          (case item2 of
             None \<Rightarrow> - 1
           | Some b \<Rightarrow> if vk_Key a < vk_Key b then - 1 else if vk_Key a = vk_Key b then 0 else 1))"

definition serveEndKeyIfNeeded :: "combinedIterator \<Rightarrow> (VersionedKV option \<times> combinedIterator) res" where
  "serveEndKeyIfNeeded itr =
     (if \<not> ci_includeEndKey itr \<or> ci_endKeyServed itr then ret (None, itr)
      else res_bind
        (case ub_Get (ci_updates itr) (ci_ns itr) (ci_endKey itr) of
           Some vv \<Rightarrow> ret (Some vv)
         | None \<Rightarrow> lift_err (vd_GetState (ci_db itr) (ci_ns itr) (ci_endKey itr)))
        (\<lambda>vv.
          let itr = itr\<lparr>ci_endKeyServed := True\<rparr>
          in case vv of
               None \<Rightarrow> ret (None, itr)
             | Some vv \<Rightarrow>
                 let vkv = \<lparr>vk_Namespace = ci_ns itr, vk_Key = ci_endKey itr,
                            vk_Val = \<lparr>vv_Value = vv_Value vv, vv_Metadata = None, vv_Version = vv_Version vv\<rparr>\<rparr>
                 in if IsDelete (vk_Val vkv) then ret (None, itr) else ret (Some vkv, itr)))"

definition moveDBItr :: "combinedIterator \<Rightarrow> combinedIterator res" where
  "moveDBItr itr =
     res_bind (lift_err (scan_Next (ci_dbItr itr))) (\<lambda>(item, dbItr).
       ret (itr\<lparr>ci_dbItem := item, ci_dbItr := dbItr\<rparr>))"

definition moveUpdatesItr :: "combinedIterator \<Rightarrow> combinedIterator res" where
  "moveUpdatesItr itr =
     res_bind (lift_go (nsIterator_Next (ci_updatesItr itr))) (\<lambda>(item, updatesItr).
       ret (itr\<lparr>ci_updatesItem := item, ci_updatesItr := updatesItr\<rparr>))"

text \<open>The number of items the two iterators can still give: every turn of \<open>Next\<close> uses one up.\<close>

definition ci_left :: "combinedIterator \<Rightarrow> nat" where
  "ci_left itr =
     (if ci_dbItem itr = None then 0 else Suc (length (sc_items (ci_dbItr itr)))) +
     (if ci_updatesItem itr = None then 0
      else Suc (ni_lastIndex (ci_updatesItr itr) - ni_nextIndex (ci_updatesItr itr)))"

lemma moveDBItr_left:
  "moveDBItr itr = Return (Inr itr1) \<Longrightarrow> ci_dbItem itr \<noteq> None \<Longrightarrow>
     ci_left itr1 < ci_left itr \<and> ci_updatesItem itr1 = ci_updatesItem itr \<and> ci_updatesItr itr1 = ci_updatesItr itr"
  by (auto simp: moveDBItr_def ci_left_def ret_def lift_err_def split: list.splits option.splits)

lemma moveUpdatesItr_left:
  "moveUpdatesItr itr = Return (Inr itr1) \<Longrightarrow> ci_updatesItem itr \<noteq> None \<Longrightarrow> ci_left itr1 < ci_left itr"
  by (cases "ni_nextIndex (ci_updatesItr itr) < length (ni_sortedKeys (ci_updatesItr itr))")
    (auto simp: moveUpdatesItr_def ci_left_def ret_def lift_go_def nsIterator_Next_def split: if_splits option.splits)

function (sequential) combined_Next :: "combinedIterator \<Rightarrow> (VersionedKV option \<times> combinedIterator) res" where
  "combined_Next itr =
     (if ci_dbItem itr = None \<and> ci_updatesItem itr = None then serveEndKeyIfNeeded itr
      else
        let compResult = compareKeys (ci_dbItem itr) (ci_updatesItem itr);
            selectedItem = (if compResult = - 1 then ci_dbItem itr else ci_updatesItem itr)
        in res_bind (if compResult \<le> 0 then moveDBItr itr else ret itr) (\<lambda>itr1.
           res_bind (if compResult \<ge> 0 then moveUpdatesItr itr1 else ret itr1) (\<lambda>itr2.
             case selectedItem of
               None \<Rightarrow> Panic
             | Some item \<Rightarrow> if IsDelete (vk_Val item) then combined_Next itr2 else ret (Some item, itr2))))"
  by pat_completeness auto

termination
proof (relation "measure ci_left")
  fix itr comp sel itr1 itr2 item
  assume a: "\<not> (ci_dbItem itr = None \<and> ci_updatesItem itr = None)"
    and c: "comp = compareKeys (ci_dbItem itr) (ci_updatesItem itr)"
    and m: "(if comp \<le> 0 then moveDBItr itr else ret itr) = Return (Inr itr1)"
      "(if comp \<ge> 0 then moveUpdatesItr itr1 else ret itr1) = Return (Inr itr2)"
  show "(itr2, itr) \<in> measure ci_left"
    using a c m moveDBItr_left [of itr itr1] moveUpdatesItr_left [of itr1 itr2]
    by (auto simp: compareKeys_def ret_def split: if_splits option.splits)
qed simp

declare combined_Next.simps [simp del]

section \<open>Iterators as lists\<close>

locale results_iterator =
  fixes "next" :: "'i \<Rightarrow> (VersionedKV option \<times> 'i) res" and rest :: "'i \<Rightarrow> VersionedKV list" and ok :: "'i \<Rightarrow> bool"
  assumes next_rest: "ok i \<Longrightarrow>
    \<exists>i'. ok i' \<and> next i = ret (case rest i of [] \<Rightarrow> None | x # _ \<Rightarrow> Some x, i') \<and> rest i' = tl (rest i)"

interpretation ns_itr: results_iterator "\<lambda>i. lift_go (nsIterator_Next i)" itr_rest itr_wf
proof
  fix i assume "itr_wf i"
  from nsIterator_Next_rest [OF this]
  show "\<exists>i'. itr_wf i' \<and> lift_go (nsIterator_Next i) = ret (case itr_rest i of [] \<Rightarrow> None | x # _ \<Rightarrow> Some x, i') \<and>
      itr_rest i' = tl (itr_rest i)" by auto
qed

text \<open>Live entries of two lists ordered by key; where both have a key, the second one counts.\<close>

fun overlay :: "VersionedKV list \<Rightarrow> VersionedKV list \<Rightarrow> VersionedKV list" where
  "overlay [] us = filter (\<lambda>x. \<not> IsDelete (vk_Val x)) us"
| "overlay (d # ds) [] = filter (\<lambda>x. \<not> IsDelete (vk_Val x)) (d # ds)"
| "overlay (d # ds) (u # us) =
     (if vk_Key d < vk_Key u then (if IsDelete (vk_Val d) then overlay ds (u # us) else d # overlay ds (u # us))
      else if vk_Key d = vk_Key u then (if IsDelete (vk_Val u) then overlay ds us else u # overlay ds us)
      else (if IsDelete (vk_Val u) then overlay (d # ds) us else u # overlay (d # ds) us))"

lemma overlay_Nil2: "overlay ds [] = filter (\<lambda>x. \<not> IsDelete (vk_Val x)) ds"
  by (cases ds) simp_all

definition db_items :: "combinedIterator \<Rightarrow> VersionedKV list" where
  "db_items itr = (case ci_dbItem itr of None \<Rightarrow> [] | Some d \<Rightarrow> d # sc_items (ci_dbItr itr))"

definition upd_items :: "combinedIterator \<Rightarrow> VersionedKV list" where
  "upd_items itr = (case ci_updatesItem itr of None \<Rightarrow> [] | Some u \<Rightarrow> u # itr_rest (ci_updatesItr itr))"

text \<open>The entry of one key of the database overlaid with a batch, as the end key is served.\<close>

definition end_entry :: "VersionedDB \<Rightarrow> UpdateBatch \<Rightarrow> string \<Rightarrow> string \<Rightarrow> VersionedKV list" where
  "end_entry db updates ns key =
     (case (case ub_Get updates ns key of
              Some vv \<Rightarrow> Some vv
            | None \<Rightarrow> (case vd_GetState db ns key of Inl _ \<Rightarrow> None | Inr v \<Rightarrow> v)) of
        None \<Rightarrow> []
      | Some vv \<Rightarrow>
          if IsDelete vv then []
          else [\<lparr>vk_Namespace = ns, vk_Key = key,
                 vk_Val = \<lparr>vv_Value = vv_Value vv, vv_Metadata = None, vv_Version = vv_Version vv\<rparr>\<rparr>])"

definition ci_end :: "combinedIterator \<Rightarrow> VersionedKV list" where
  "ci_end itr =
     (if ci_includeEndKey itr \<and> \<not> ci_endKeyServed itr
      then end_entry (ci_db itr) (ci_updates itr) (ci_ns itr) (ci_endKey itr) else [])"

definition ci_rest :: "combinedIterator \<Rightarrow> VersionedKV list" where
  "ci_rest itr = overlay (db_items itr) (upd_items itr) @ ci_end itr"

definition ci_ok :: "combinedIterator \<Rightarrow> bool" where
  "ci_ok itr \<longleftrightarrow> itr_wf (ci_updatesItr itr) \<and> sc_error (ci_dbItr itr) = None \<and>
     (ci_dbItem itr = None \<longrightarrow> sc_items (ci_dbItr itr) = []) \<and>
     (ci_updatesItem itr = None \<longrightarrow> itr_rest (ci_updatesItr itr) = []) \<and>
     (\<exists>v. vd_GetState (ci_db itr) (ci_ns itr) (ci_endKey itr) = Inr v)"

lemma moveDBItr_ok:
  "ci_ok itr \<Longrightarrow> \<exists>itr1. moveDBItr itr = ret itr1 \<and> ci_ok itr1 \<and> ci_end itr1 = ci_end itr \<and>
     (ci_dbItem itr \<noteq> None \<longrightarrow> db_items itr1 = tl (db_items itr)) \<and> upd_items itr1 = upd_items itr \<and>
     ci_updatesItem itr1 = ci_updatesItem itr"
  by (cases "sc_items (ci_dbItr itr)")
    (auto simp: ci_ok_def moveDBItr_def db_items_def upd_items_def ci_end_def split: option.split)

lemma moveUpdatesItr_ok:
  assumes "ci_ok itr"
  shows "\<exists>itr1. moveUpdatesItr itr = ret itr1 \<and> ci_ok itr1 \<and> ci_end itr1 = ci_end itr \<and>
     (ci_updatesItem itr \<noteq> None \<longrightarrow> upd_items itr1 = tl (upd_items itr)) \<and> db_items itr1 = db_items itr"
proof -
  have "itr_wf (ci_updatesItr itr)" using assms by (simp add: ci_ok_def)
  from ns_itr.next_rest [OF this] obtain i' where i': "itr_wf i'" "itr_rest i' = tl (itr_rest (ci_updatesItr itr))"
    "lift_go (nsIterator_Next (ci_updatesItr itr)) =
       ret (case itr_rest (ci_updatesItr itr) of [] \<Rightarrow> None | x # _ \<Rightarrow> Some x, i')"
    by blast
  show ?thesis using assms i'
    by (cases "itr_rest (ci_updatesItr itr)")
      (auto simp: ci_ok_def moveUpdatesItr_def db_items_def upd_items_def ci_end_def split: option.split)
qed

lemma items_Nil_iff: "db_items itr = [] \<longleftrightarrow> ci_dbItem itr = None" "upd_items itr = [] \<longleftrightarrow> ci_updatesItem itr = None"
  by (simp_all add: db_items_def upd_items_def split: option.split)

lemma serveEndKey_rest:
  assumes "ci_ok itr" "db_items itr = []" "upd_items itr = []"
  shows "\<exists>itr'. ci_ok itr' \<and> serveEndKeyIfNeeded itr = ret (case ci_rest itr of [] \<Rightarrow> None | x # _ \<Rightarrow> Some x, itr') \<and>
     ci_rest itr' = tl (ci_rest itr)"
proof -
  let ?itr' = "if ci_includeEndKey itr then itr\<lparr>ci_endKeyServed := True\<rparr> else itr"
  have "ci_ok ?itr'" "ci_rest ?itr' = []"
    using assms unfolding items_Nil_iff by (auto simp: ci_ok_def ci_rest_def ci_end_def db_items_def upd_items_def)
  moreover have "serveEndKeyIfNeeded itr = ret (case ci_end itr of [] \<Rightarrow> None | x # _ \<Rightarrow> Some x, ?itr')"
    using assms(1)
    by (auto simp: serveEndKeyIfNeeded_def ci_end_def end_entry_def ci_ok_def Let_def IsDelete_def split: option.split)
  moreover have "tl (ci_end itr) = []" by (simp add: ci_end_def end_entry_def split: option.split)
  ultimately show ?thesis using assms(2,3) by (auto simp: ci_rest_def)
qed

lemma combined_Next_step:
  assumes ok: "ci_ok itr" and ne: "\<not> (ci_dbItem itr = None \<and> ci_updatesItem itr = None)"
  obtains item itr2 where "ci_ok itr2" "ci_left itr2 < ci_left itr" "ci_end itr2 = ci_end itr"
    "combined_Next itr = (if IsDelete (vk_Val item) then combined_Next itr2 else ret (Some item, itr2))"
    "overlay (db_items itr) (upd_items itr) =
       (if IsDelete (vk_Val item) then [] else [item]) @ overlay (db_items itr2) (upd_items itr2)"
proof -
  let ?c = "compareKeys (ci_dbItem itr) (ci_updatesItem itr)"
  let ?sel = "if ?c = - 1 then ci_dbItem itr else ci_updatesItem itr"
  have c: "?c = - 1 \<or> ?c = 0 \<or> ?c = 1" by (simp add: compareKeys_def split: option.split)
  obtain itr1 where i1: "(if ?c \<le> 0 then moveDBItr itr else ret itr) = ret itr1" "ci_ok itr1" "ci_end itr1 = ci_end itr"
    "upd_items itr1 = upd_items itr" "ci_updatesItem itr1 = ci_updatesItem itr"
    "?c \<le> 0 \<and> ci_dbItem itr \<noteq> None \<longrightarrow> db_items itr1 = tl (db_items itr)" "\<not> ?c \<le> 0 \<longrightarrow> itr1 = itr"
    using moveDBItr_ok [OF ok] ok by (cases "?c \<le> 0") auto
  obtain itr2 where i2: "(if ?c \<ge> 0 then moveUpdatesItr itr1 else ret itr1) = ret itr2" "ci_ok itr2" "ci_end itr2 = ci_end itr1"
    "db_items itr2 = db_items itr1" "?c \<ge> 0 \<and> ci_updatesItem itr1 \<noteq> None \<longrightarrow> upd_items itr2 = tl (upd_items itr1)"
    "\<not> ?c \<ge> 0 \<longrightarrow> itr2 = itr1"
    using moveUpdatesItr_ok [OF i1(2)] i1(2) by (cases "?c \<ge> 0") auto
  have left: "ci_left itr2 < ci_left itr"
    using i1(1) i2(1) ne c moveDBItr_left [of itr itr1] moveUpdatesItr_left [of itr1 itr2] i1(5,7)
    by (auto simp: compareKeys_def ret_def split: if_splits option.splits)
  have "\<exists>item. ?sel = Some item"
    using ne by (cases "ci_dbItem itr"; cases "ci_updatesItem itr") (simp_all add: compareKeys_def)
  then obtain item where item: "?sel = Some item" by blast
  have eq: "combined_Next itr = (if IsDelete (vk_Val item) then combined_Next itr2 else ret (Some item, itr2))"
    unfolding combined_Next.simps [of itr] if_not_P [OF ne] Let_def i1(1) res_bind_simps i2(1) item option.case ..
  have "overlay (db_items itr) (upd_items itr) =
       (if IsDelete (vk_Val item) then [] else [item]) @ overlay (db_items itr2) (upd_items itr2)"
    using item i1(4-) i2(4-) ne
    by (cases "ci_dbItem itr"; cases "ci_updatesItem itr")
      (auto simp: compareKeys_def db_items_def upd_items_def overlay_Nil2 split: if_splits)
  then show ?thesis using that i2(2) left i1(3) i2(3) eq by auto
qed

lemma combined_Next_rest:
  "ci_ok itr \<Longrightarrow> \<exists>itr'. ci_ok itr' \<and>
     combined_Next itr = ret (case ci_rest itr of [] \<Rightarrow> None | x # _ \<Rightarrow> Some x, itr') \<and> ci_rest itr' = tl (ci_rest itr)"
proof (induction itr rule: measure_induct_rule [of ci_left])
  case (less itr)
  show ?case
  proof (cases "ci_dbItem itr = None \<and> ci_updatesItem itr = None")
    case True
    then show ?thesis using serveEndKey_rest [OF less.prems]
      by (subst combined_Next.simps) (simp add: items_Nil_iff)
  next
    case False
    obtain item itr2 where i: "ci_ok itr2" "ci_left itr2 < ci_left itr" "ci_end itr2 = ci_end itr"
      "combined_Next itr = (if IsDelete (vk_Val item) then combined_Next itr2 else ret (Some item, itr2))"
      "overlay (db_items itr) (upd_items itr) =
       (if IsDelete (vk_Val item) then [] else [item]) @ overlay (db_items itr2) (upd_items itr2)"
      by (rule combined_Next_step [OF less.prems False])
    have rest: "ci_rest itr = (if IsDelete (vk_Val item) then [] else [item]) @ ci_rest itr2"
      using i(3,5) by (simp add: ci_rest_def)
    show ?thesis
    proof (cases "IsDelete (vk_Val item)")
      case True
      then show ?thesis using less.IH [OF i(2,1)] i(4) rest by simp
    next
      case False
      then show ?thesis using i(1,4) rest by auto
    qed
  qed
qed

interpretation combined: results_iterator combined_Next ci_rest ci_ok
  by unfold_locales (rule combined_Next_rest)

section \<open>What the combined iterator returns\<close>

text \<open>The entries of a namespace once the updates are applied: deletions removed.\<close>

definition overlaid :: "nsUpdates \<Rightarrow> nsUpdates \<Rightarrow> nsUpdates" where
  "overlaid m upd = fmfilter (\<lambda>k. case fmlookup (m ++\<^sub>f upd) k of None \<Rightarrow> False | Some vv \<Rightarrow> \<not> IsDelete vv) (m ++\<^sub>f upd)"

lemma overlaid_lookup:
  "fmlookup (overlaid m upd) k =
     (case (case fmlookup upd k of None \<Rightarrow> fmlookup m k | Some vv \<Rightarrow> Some vv) of
        None \<Rightarrow> None | Some vv \<Rightarrow> if IsDelete vv then None else Some vv)"
  by (auto simp: overlaid_def fmlookup_dom_iff split: option.split)

lemma set_overlay:
  "sorted_wrt (\<lambda>x y. vk_Key x < vk_Key y) ds \<Longrightarrow> sorted_wrt (\<lambda>x y. vk_Key x < vk_Key y) us \<Longrightarrow>
     set (overlay ds us) = {x. \<not> IsDelete (vk_Val x) \<and> (x \<in> set us \<or> x \<in> set ds \<and> vk_Key x \<notin> vk_Key ` set us)}"
proof (induction ds us rule: overlay.induct)
  case (3 d ds u us)
  show ?case
  proof (cases "vk_Key d" "vk_Key u" rule: linorder_cases)
    case less
    have "vk_Key d \<notin> vk_Key ` set (u # us)" using less "3.prems"(2) by fastforce
    then show ?thesis using less "3.IH"(1,2) "3.prems" by (cases "IsDelete (vk_Val d)") auto
  next
    case equal
    have "vk_Key u \<notin> vk_Key ` set ds" using equal "3.prems"(1) by fastforce
    then show ?thesis using equal "3.IH"(3,4) "3.prems" by (cases "IsDelete (vk_Val u)") auto
  next
    case greater
    have "vk_Key u \<notin> vk_Key ` set (d # ds)" using greater "3.prems"(1) by fastforce
    then show ?thesis using greater "3.IH"(5,6) "3.prems" by (cases "IsDelete (vk_Val u)") auto
  qed
qed auto

lemma sorted_overlay:
  "sorted_wrt (\<lambda>x y. vk_Key x < vk_Key y) ds \<Longrightarrow> sorted_wrt (\<lambda>x y. vk_Key x < vk_Key y) us \<Longrightarrow>
     sorted_wrt (\<lambda>x y. vk_Key x < vk_Key y) (overlay ds us)"
proof (induction ds us rule: overlay.induct)
  case (3 d ds u us)
  have sub: "set (overlay ds (u # us)) \<subseteq> set ds \<union> set (u # us)" "set (overlay ds us) \<subseteq> set ds \<union> set us"
    "set (overlay (d # ds) us) \<subseteq> set (d # ds) \<union> set us"
    using "3.prems" by (simp_all add: set_overlay) auto
  show ?case
    using 3 sub by (cases "vk_Key d" "vk_Key u" rule: linorder_cases) (auto dest!: subsetD)
qed (simp_all add: sorted_wrt_filter)

text \<open>
  The results of a range query on a state: the entries of the range in the order of the keys and, when
  the caller had stopped before the end, the entry of the last key it saw.
\<close>

definition range_results :: "string \<Rightarrow> nsUpdates \<Rightarrow> string \<Rightarrow> string \<Rightarrow> bool \<Rightarrow> VersionedKV list" where
  "range_results ns m startKey endKey includeEndKey =
     ns_range ns m startKey endKey @
     (if includeEndKey then
        (case fmlookup m endKey of
           None \<Rightarrow> []
         | Some vv \<Rightarrow> [\<lparr>vk_Namespace = ns, vk_Key = endKey,
                         vk_Val = \<lparr>vv_Value = vv_Value vv, vv_Metadata = None, vv_Version = vv_Version vv\<rparr>\<rparr>])
      else [])"

lemma kv_item_simps [simp]:
  "vk_Key (kv_item ns m k) = k" "vk_Namespace (kv_item ns m k) = ns" "vk_Val (kv_item ns m k) = the (fmlookup m k)"
  by (simp_all add: kv_item_def)

lemma overlay_ns_range:
  "overlay (ns_range ns m a b) (ns_range ns upd a b) = ns_range ns (overlaid m upd) a b"
proof (rule sorted_wrt_key_unique)
  show "sorted_wrt (\<lambda>x y. vk_Key x < vk_Key y) (overlay (ns_range ns m a b) (ns_range ns upd a b))"
    by (rule sorted_overlay) (rule ns_range_sorted)+
  show "sorted_wrt (\<lambda>x y. vk_Key x < vk_Key y) (ns_range ns (overlaid m upd) a b)" by (rule ns_range_sorted)
  have in_keys: "vk_Key x \<in> vk_Key ` set (ns_range ns upd a b) \<longleftrightarrow>
      in_range a b (vk_Key x) \<and> fmlookup upd (vk_Key x) \<noteq> None" for x
  proof -
    have "vk_Key x \<in> vk_Key ` set (ns_range ns upd a b) \<longleftrightarrow> vk_Key x \<in> set (map vk_Key (ns_range ns upd a b))" by simp
    also have "\<dots> \<longleftrightarrow> in_range a b (vk_Key x) \<and> fmlookup upd (vk_Key x) \<noteq> None"
      unfolding ns_range_keys by (auto simp: GetSortedKeys_props fmlookup_dom_iff)
    finally show ?thesis .
  qed
  show "set (overlay (ns_range ns m a b) (ns_range ns upd a b)) = set (ns_range ns (overlaid m upd) a b)"
  proof (rule set_eqI)
    fix x
    obtain n k v where x: "x = \<lparr>vk_Namespace = n, vk_Key = k, vk_Val = v\<rparr>" by (cases x) auto
    show "x \<in> set (overlay (ns_range ns m a b) (ns_range ns upd a b)) \<longleftrightarrow> x \<in> set (ns_range ns (overlaid m upd) a b)"
      unfolding set_overlay [OF ns_range_sorted ns_range_sorted] mem_Collect_eq in_keys set_ns_range overlaid_lookup
      by (cases "fmlookup upd (vk_Key x)"; cases "fmlookup m (vk_Key x)")
        (auto simp: x kv_item_def overlaid_lookup split: if_splits)
  qed
qed

context versioned_db
begin

lemma newCombinedIterator_rest:
  assumes "valid_ns ns"
  shows "\<exists>itr. newCombinedIterator db updates ns a b includeEndKey = ret itr \<and> ci_ok itr \<and>
    ci_rest itr = range_results ns (overlaid (content ns) (getOrCreateNsUpdates ns updates)) a b includeEndKey"
proof -
  let ?m = "content ns" and ?u = "getOrCreateNsUpdates ns updates"
  from ns_itr.next_rest [OF newNsIterator_wf, of ns a b updates] obtain i where
    i: "itr_wf i" "itr_rest i = tl (batch_range updates ns a b)"
      "lift_go (nsIterator_Next (newNsIterator ns a b updates)) =
         ret (case batch_range updates ns a b of [] \<Rightarrow> None | x # _ \<Rightarrow> Some x, i)"
    by (auto simp: newNsIterator_rest)
  let ?sc = "\<lparr>sc_items = tl (ns_range ns ?m a b), sc_error = None\<rparr>"
  let ?itr = "\<lparr>ci_ns = ns, ci_db = db, ci_updates = updates, ci_endKey = b, ci_includeEndKey = includeEndKey,
     ci_dbItr = ?sc, ci_updatesItr = i,
     ci_dbItem = (case ns_range ns ?m a b of [] \<Rightarrow> None | x # _ \<Rightarrow> Some x),
     ci_updatesItem = (case batch_range updates ns a b of [] \<Rightarrow> None | x # _ \<Rightarrow> Some x), ci_endKeyServed = False\<rparr>"
  have new: "newCombinedIterator db updates ns a b includeEndKey = ret ?itr"
    using Scan [OF assms, of a b] i(3) by (cases "ns_range ns ?m a b") (simp_all add: newCombinedIterator_def)
  have ok: "ci_ok ?itr"
    using i(1,2) GetState [OF assms, of b]
    by (cases "ns_range ns ?m a b"; cases "batch_range updates ns a b") (simp_all add: ci_ok_def)
  have items: "db_items ?itr = ns_range ns ?m a b" "upd_items ?itr = ns_range ns ?u a b"
    using i(2) by (simp_all add: db_items_def upd_items_def batch_range_ns_range split: list.split)
  have get: "ub_Get updates ns k = fmlookup ?u k" for k
    by (simp add: ub_Get_def getOrCreateNsUpdates_def split: option.split)
  have "ci_end ?itr = (if includeEndKey then
        (case fmlookup (overlaid ?m ?u) b of None \<Rightarrow> []
         | Some vv \<Rightarrow> [\<lparr>vk_Namespace = ns, vk_Key = b,
                         vk_Val = \<lparr>vv_Value = vv_Value vv, vv_Metadata = None, vv_Version = vv_Version vv\<rparr>\<rparr>]) else [])"
    using GetState [OF assms, of b]
    by (simp add: ci_end_def end_entry_def get overlaid_lookup split: option.split)
  then have "ci_rest ?itr = range_results ns (overlaid ?m ?u) a b includeEndKey"
    by (simp add: ci_rest_def items overlay_ns_range range_results_def)
  then show ?thesis using new ok by blast
qed

end

section \<open>Comparing the results with the recorded reads\<close>

definition convertToVersionHeight :: "ProtoVersion option \<Rightarrow> Height go" where
  "convertToVersionHeight v =
     (case v of None \<Rightarrow> Panic | Some v \<Rightarrow> Return (Height (pv_BlockNum v) (pv_TxNum v)))"

fun compare_results :: "KVRead list \<Rightarrow> VersionedKV option \<Rightarrow> combinedIterator \<Rightarrow> bool res" where
  "compare_results [] result itr = ret (result = None)"
| "compare_results (kvRead # rqResults) result itr =
     (case result of
        None \<Rightarrow> ret False
      | Some r \<Rightarrow>
          if vk_Key r \<noteq> kr_Key kvRead then ret False
          else res_bind (lift_go (convertToVersionHeight (kr_Version kvRead))) (\<lambda>ver.
            if \<not> AreSame (vv_Version (vk_Val r)) (Some ver) then ret False
            else res_bind (combined_Next itr) (\<lambda>(result, itr). compare_results rqResults result itr)))"

definition GetKvReads :: "reads_info \<Rightarrow> KVRead list" where
  "GetKvReads info = (case info of RawReads rs \<Rightarrow> rs | _ \<Rightarrow> [])"

definition results_validate :: "RangeQueryInfo \<Rightarrow> combinedIterator \<Rightarrow> bool res" where
  "results_validate rqInfo itr =
     res_bind (combined_Next itr) (\<lambda>(result, itr).
       compare_results (GetKvReads (rq_ReadsInfo rqInfo)) result itr)"

text \<open>A recorded read and a result as key and version.\<close>

definition read_entry :: "KVRead \<Rightarrow> string \<times> Height option" where
  "read_entry r = (kr_Key r, map_option (\<lambda>v. Height (pv_BlockNum v) (pv_TxNum v)) (kr_Version r))"

definition result_entry :: "VersionedKV \<Rightarrow> string \<times> Height option" where
  "result_entry x = (vk_Key x, vv_Version (vk_Val x))"

lemma compare_results_correct:
  "ci_ok itr \<Longrightarrow> \<forall>r \<in> set reads. kr_Version r \<noteq> None \<Longrightarrow> (case result of None \<Rightarrow> ci_rest itr = [] | Some _ \<Rightarrow> True) \<Longrightarrow>
     compare_results reads result itr =
       ret (map read_entry reads = map result_entry (case result of None \<Rightarrow> [] | Some x \<Rightarrow> x # ci_rest itr))"
proof (induction reads arbitrary: result itr)
  case Nil
  then show ?case by (simp split: option.split)
next
  case (Cons r reads)
  show ?case
  proof (cases result)
    case None
    then show ?thesis by simp
  next
    case (Some x)
    obtain v where v: "kr_Version r = Some v" using Cons.prems(2) by auto
    from combined.next_rest [OF Cons.prems(1)] obtain itr' where n: "ci_ok itr'" "ci_rest itr' = tl (ci_rest itr)"
      "combined_Next itr = ret (case ci_rest itr of [] \<Rightarrow> None | x # _ \<Rightarrow> Some x, itr')" by blast
    have "compare_results reads (case ci_rest itr of [] \<Rightarrow> None | x # _ \<Rightarrow> Some x) itr' =
        ret (map read_entry reads = map result_entry (ci_rest itr))"
      using Cons.IH [OF n(1), of "case ci_rest itr of [] \<Rightarrow> None | x # _ \<Rightarrow> Some x"] Cons.prems(2) n(2)
      by (cases "ci_rest itr") simp_all
    moreover have "read_entry r = result_entry x \<longleftrightarrow>
        vk_Key x = kr_Key r \<and> vv_Version (vk_Val x) = Some (Height (pv_BlockNum v) (pv_TxNum v))"
      using v by (auto simp: read_entry_def result_entry_def)
    ultimately show ?thesis using Some v n(3) by (simp add: convertToVersionHeight_def AreSame_iff)
  qed
qed

lemma results_validate_correct:
  assumes "ci_ok itr" "\<forall>r \<in> set (GetKvReads (rq_ReadsInfo q)). kr_Version r \<noteq> None"
  shows "results_validate q itr =
    ret (map read_entry (GetKvReads (rq_ReadsInfo q)) = map result_entry (ci_rest itr))"
proof -
  from combined.next_rest [OF assms(1)] obtain itr' where n: "ci_ok itr'" "ci_rest itr' = tl (ci_rest itr)"
    "combined_Next itr = ret (case ci_rest itr of [] \<Rightarrow> None | x # _ \<Rightarrow> Some x, itr')" by blast
  show ?thesis
    using compare_results_correct [OF n(1) assms(2), of "case ci_rest itr of [] \<Rightarrow> None | x # _ \<Rightarrow> Some x"] n(2,3)
    by (cases "ci_rest itr") (simp_all add: results_validate_def)
qed

end
