(* ===== verification/Merkle.thy ===== *)
theory Merkle
  imports Range_Query
begin

text \<open>
  Summaries of the results of a range query as a Merkle tree
  (\<^verbatim>\<open>core/ledger/kvledger/txmgmt/rwsetutil/query_results_helper.go\<close>) and the validator that rebuilds the
  tree from the latest results and compares it as it grows (\<open>rangeQueryHashValidator\<close> of
  \<^verbatim>\<open>validation/rangequery_validator.go\<close>).  The hash function and the serialisation of reads are arguments.
  The tree is built incrementally; the lemmas give its closed form, level by level, and show that
  comparing early gives the same answer as comparing the complete summaries, except in one case, in
  which the validator indexes past the end of a slice.
\<close>

type_synonym HashFunc = "bytes \<Rightarrow> string + bytes"

section \<open>The tree\<close>

text \<open>
  A level that is missing from the Go map reads as an empty slice, so the map is a total function.
\<close>

record merkleTree =
  mt_tree :: "nat \<Rightarrow> bytes list"
  mt_maxLevel :: nat
  mt_maxDegree :: u32

definition newMerkleTree :: "u32 \<Rightarrow> string + merkleTree" where
  "newMerkleTree maxDegree =
     (if maxDegree < 2 then Inl ''maxDegree should not be less than 2 in the merkle tree''
      else Inr \<lparr>mt_tree = (\<lambda>_. []), mt_maxLevel = 1, mt_maxDegree = maxDegree\<rparr>)"

definition computeCombinedHash :: "HashFunc \<Rightarrow> bytes list \<Rightarrow> string + bytes" where
  "computeCombinedHash hashFunc hashes = hashFunc (concat hashes)"

text \<open>
  The loop of \<open>update\<close>, which climbs one level per turn.  It is given as many turns as there are levels,
  and one more; a loop that needed more would not return (it is shown below that none does).
\<close>

fun merkle_climb :: "HashFunc \<Rightarrow> nat \<Rightarrow> nat \<Rightarrow> merkleTree \<Rightarrow> merkleTree res" where
  "merkle_climb hashFunc 0 currentLevel m = Panic"
| "merkle_climb hashFunc (Suc turns) currentLevel m =
     (let currentLevelHashes = mt_tree m currentLevel
      in if (of_nat (length currentLevelHashes) :: u32) \<le> mt_maxDegree m then ret m
         else res_bind (lift_err (computeCombinedHash hashFunc currentLevelHashes)) (\<lambda>nextLevelHash.
           let nextLevel = currentLevel + 1
           in merkle_climb hashFunc turns nextLevel
                (m\<lparr>mt_tree := (mt_tree m)(currentLevel := [], nextLevel := mt_tree m nextLevel @ [nextLevelHash]),
                   mt_maxLevel := (if nextLevel > mt_maxLevel m then nextLevel else mt_maxLevel m)\<rparr>)))"

definition merkle_update :: "HashFunc \<Rightarrow> bytes \<Rightarrow> merkleTree \<Rightarrow> merkleTree res" where
  "merkle_update hashFunc nextLeafLevelHash m =
     merkle_climb hashFunc (mt_maxLevel m + 1) 1
       (m\<lparr>mt_tree := (mt_tree m)(1 := mt_tree m 1 @ [nextLeafLevelHash])\<rparr>)"

function (sequential) merkle_finish :: "HashFunc \<Rightarrow> nat \<Rightarrow> merkleTree \<Rightarrow> merkleTree res" where
  "merkle_finish hashFunc currentLevel m =
     (if currentLevel < mt_maxLevel m then
        (case mt_tree m currentLevel of
           [] \<Rightarrow> merkle_finish hashFunc (currentLevel + 1) m
         | h # hs \<Rightarrow>
             res_bind (if hs = [] then ret h else lift_err (computeCombinedHash hashFunc (h # hs))) (\<lambda>h.
               merkle_finish hashFunc (currentLevel + 1)
                 (m\<lparr>mt_tree := (mt_tree m)(currentLevel := [], currentLevel + 1 := mt_tree m (currentLevel + 1) @ [h])\<rparr>)))
      else ret m)"
  by pat_completeness auto

termination
  by (relation "measure (\<lambda>(hashFunc, currentLevel, m). mt_maxLevel m - currentLevel)") auto

declare merkle_finish.simps [simp del]

definition merkle_done :: "HashFunc \<Rightarrow> merkleTree \<Rightarrow> merkleTree res" where
  "merkle_done hashFunc m =
     res_bind (merkle_finish hashFunc 1 m) (\<lambda>m.
       let finalHashes = mt_tree m (mt_maxLevel m)
       in if (of_nat (length finalHashes) :: u32) > mt_maxDegree m then
            res_bind (lift_err (computeCombinedHash hashFunc finalHashes)) (\<lambda>combinedHash.
              ret (m\<lparr>mt_tree := (mt_tree m)(mt_maxLevel m := [], mt_maxLevel m + 1 := [combinedHash]),
                     mt_maxLevel := mt_maxLevel m + 1\<rparr>))
          else ret m)"

definition getSummery :: "merkleTree \<Rightarrow> QueryReadsMerkleSummary" where
  "getSummery m = \<lparr>ms_MaxDegree = mt_maxDegree m, ms_MaxLevel = of_nat (mt_maxLevel m),
     ms_MaxLevelHashes = mt_tree m (mt_maxLevel m)\<rparr>"

definition merkle_isEmpty :: "merkleTree \<Rightarrow> bool" where
  "merkle_isEmpty m \<longleftrightarrow> mt_maxLevel m = 1 \<and> mt_tree m (mt_maxLevel m) = []"

section \<open>The results helper\<close>

record RangeQueryResultsHelper =
  rh_pendingResults :: "KVRead list"
  rh_mt :: merkleTree
  rh_maxDegree :: u32
  rh_hashingEnabled :: bool

text \<open>
  With hashing switched off the tree is nil and never used; the model then holds an empty one.
\<close>

definition NewRangeQueryResultsHelper :: "bool \<Rightarrow> u32 \<Rightarrow> string + RangeQueryResultsHelper" where
  "NewRangeQueryResultsHelper enableHashing maxDegree =
     (if enableHashing then
        (case newMerkleTree maxDegree of
           Inl e \<Rightarrow> Inl e
         | Inr t \<Rightarrow> Inr \<lparr>rh_pendingResults = [], rh_mt = t, rh_maxDegree = maxDegree, rh_hashingEnabled = True\<rparr>)
      else Inr \<lparr>rh_pendingResults = [], rh_mt = \<lparr>mt_tree = (\<lambda>_. []), mt_maxLevel = 1, mt_maxDegree = maxDegree\<rparr>,
                rh_maxDegree = maxDegree, rh_hashingEnabled = False\<rparr>)"

definition processPendingResults ::
  "HashFunc \<Rightarrow> (KVRead list \<Rightarrow> string + bytes) \<Rightarrow> RangeQueryResultsHelper \<Rightarrow> RangeQueryResultsHelper res" where
  "processPendingResults hashFunc serializeKVReads helper =
     res_bind (lift_err (serializeKVReads (rh_pendingResults helper))) (\<lambda>b.
     res_bind (lift_err (hashFunc b)) (\<lambda>hash.
     res_bind (merkle_update hashFunc hash (rh_mt helper)) (\<lambda>t.
       ret (helper\<lparr>rh_pendingResults := [], rh_mt := t\<rparr>))))"

definition AddResult ::
  "HashFunc \<Rightarrow> (KVRead list \<Rightarrow> string + bytes) \<Rightarrow> KVRead \<Rightarrow> RangeQueryResultsHelper \<Rightarrow> RangeQueryResultsHelper res" where
  "AddResult hashFunc serializeKVReads kvRead helper =
     (let helper = helper\<lparr>rh_pendingResults := rh_pendingResults helper @ [kvRead]\<rparr>
      in if rh_hashingEnabled helper \<and> (of_nat (length (rh_pendingResults helper)) :: u32) > rh_maxDegree helper
         then processPendingResults hashFunc serializeKVReads helper else ret helper)"

definition Done ::
  "HashFunc \<Rightarrow> (KVRead list \<Rightarrow> string + bytes) \<Rightarrow> RangeQueryResultsHelper \<Rightarrow>
     (KVRead list \<times> QueryReadsMerkleSummary option) res" where
  "Done hashFunc serializeKVReads helper =
     (if \<not> rh_hashingEnabled helper \<or> merkle_isEmpty (rh_mt helper) then ret (rh_pendingResults helper, None)
      else
        res_bind (if rh_pendingResults helper \<noteq> [] then processPendingResults hashFunc serializeKVReads helper else ret helper)
          (\<lambda>helper. res_bind (merkle_done hashFunc (rh_mt helper)) (\<lambda>t.
             ret (rh_pendingResults helper, Some (getSummery t)))))"

definition GetMerkleSummary :: "RangeQueryResultsHelper \<Rightarrow> QueryReadsMerkleSummary option" where
  "GetMerkleSummary helper = (if \<not> rh_hashingEnabled helper then None else Some (getSummery (rh_mt helper)))"

section \<open>The validator\<close>

definition newProtoVersion :: "Height option \<Rightarrow> ProtoVersion option" where
  "newProtoVersion height =
     (case height of None \<Rightarrow> None | Some h \<Rightarrow> Some \<lparr>pv_BlockNum = BlockNum h, pv_TxNum = TxNum h\<rparr>)"

definition NewKVRead :: "string \<Rightarrow> Height option \<Rightarrow> KVRead" where
  "NewKVRead key ver = \<lparr>kr_Key = key, kr_Version = newProtoVersion ver\<rparr>"

definition merkleSummariesEqual :: "QueryReadsMerkleSummary \<Rightarrow> QueryReadsMerkleSummary option \<Rightarrow> bool" where
  "merkleSummariesEqual ms anotherMS =
     (case anotherMS of
        None \<Rightarrow> False
      | Some a \<Rightarrow>
          if ms_MaxDegree ms \<noteq> ms_MaxDegree a \<or> ms_MaxLevel ms \<noteq> ms_MaxLevel a \<or>
             length (ms_MaxLevelHashes ms) \<noteq> length (ms_MaxLevelHashes a) then False
          else list_all2 (=) (ms_MaxLevelHashes ms) (ms_MaxLevelHashes a))"

lemma combined_Next_uses_up:
  "combined_Next itr = Return (Inr (Some x, itr')) \<Longrightarrow>
     ci_left itr' + (if ci_endKeyServed itr' then 0 else 1) < ci_left itr + (if ci_endKeyServed itr then 0 else 1)"
proof (induction itr rule: measure_induct_rule [of ci_left])
  case (less itr)
  show ?case
  proof (cases "ci_dbItem itr = None \<and> ci_updatesItem itr = None")
    case True
    then have "serveEndKeyIfNeeded itr = Return (Inr (Some x, itr'))" using less.prems by (simp add: combined_Next.simps)
    then show ?thesis
      by (auto simp: serveEndKeyIfNeeded_def ret_def Let_def ci_left_def res_bind_def split: if_splits go.splits sum.splits option.splits)
  next
    case False
    let ?c = "compareKeys (ci_dbItem itr) (ci_updatesItem itr)"
    let ?sel = "if ?c = - 1 then ci_dbItem itr else ci_updatesItem itr"
    from less.prems obtain itr1 itr2 item where i: "(if ?c \<le> 0 then moveDBItr itr else ret itr) = ret itr1"
      "(if ?c \<ge> 0 then moveUpdatesItr itr1 else ret itr1) = ret itr2" "?sel = Some item"
      "(if IsDelete (vk_Val item) then combined_Next itr2 else ret (Some item, itr2)) = ret (Some x, itr')"
      unfolding combined_Next.simps [of itr] if_not_P [OF False] Let_def ret_def [symmetric]
      by (auto simp: res_bind_ret_iff split: option.splits)
    have served: "ci_endKeyServed itr1 = ci_endKeyServed itr" "ci_endKeyServed itr2 = ci_endKeyServed itr1"
      using i(1,2) by (auto simp: moveDBItr_def moveUpdatesItr_def res_bind_ret_iff split: if_splits)
    have left: "ci_left itr2 < ci_left itr"
      using i(1,2) False moveDBItr_left [of itr itr1] moveUpdatesItr_left [of itr1 itr2]
      by (auto simp: compareKeys_def ret_def split: if_splits option.splits)
    show ?thesis
    proof (cases "IsDelete (vk_Val item)")
      case True
      then have "combined_Next itr2 = Return (Inr (Some x, itr'))" using i(4) by (simp add: ret_def)
      then show ?thesis using less.IH [OF left] served left by simp
    next
      case False
      then show ?thesis using i(4) served left by auto
    qed
  qed
qed

function (sequential) hash_loop ::
  "HashFunc \<Rightarrow> (KVRead list \<Rightarrow> string + bytes) \<Rightarrow> QueryReadsMerkleSummary \<Rightarrow> nat \<Rightarrow> RangeQueryResultsHelper \<Rightarrow>
     combinedIterator \<Rightarrow> bool res" where
  "hash_loop hashFunc ser inMerkle matched helper itr =
     res_bind (combined_Next itr) (\<lambda>(result, itr).
       case result of
         None \<Rightarrow>
           res_bind (Done hashFunc ser helper) (\<lambda>(_, merkle). ret (merkleSummariesEqual inMerkle merkle))
       | Some r \<Rightarrow>
           res_bind (AddResult hashFunc ser (NewKVRead (vk_Key r) (vv_Version (vk_Val r))) helper) (\<lambda>helper.
             case GetMerkleSummary helper of
               None \<Rightarrow> Panic
             | Some merkle \<Rightarrow>
                 if ms_MaxLevel merkle < ms_MaxLevel inMerkle then hash_loop hashFunc ser inMerkle matched helper itr
                 else if matched = length (ms_MaxLevelHashes merkle) then hash_loop hashFunc ser inMerkle matched helper itr
                 else if length (ms_MaxLevelHashes merkle) > length (ms_MaxLevelHashes inMerkle) then ret False
                 else
                   res_bind (lift_go (go_index (ms_MaxLevelHashes merkle) matched)) (\<lambda>h.
                   res_bind (lift_go (go_index (ms_MaxLevelHashes inMerkle) matched)) (\<lambda>h'.
                     if h \<noteq> h' then ret False else hash_loop hashFunc ser inMerkle (matched + 1) helper itr))))"
  by pat_completeness auto

termination
  by (relation "measure (\<lambda>(hashFunc, ser, inMerkle, matched, helper, itr). ci_left itr + (if ci_endKeyServed itr then 0 else 1))")
    (auto dest!: combined_Next_uses_up)

declare hash_loop.simps [simp del]

definition hash_validate ::
  "HashFunc \<Rightarrow> (KVRead list \<Rightarrow> string + bytes) \<Rightarrow> QueryReadsMerkleSummary \<Rightarrow> combinedIterator \<Rightarrow> bool res" where
  "hash_validate hashFunc ser inMerkle itr =
     res_bind (lift_err (NewRangeQueryResultsHelper True (ms_MaxDegree inMerkle))) (\<lambda>helper.
       hash_loop hashFunc ser inMerkle 0 helper itr)"

section \<open>The closed form of a summary\<close>

text \<open>
  The hash of a group of nodes; a group of one node is passed on as it is.
\<close>

definition comb :: "(bytes \<Rightarrow> bytes) \<Rightarrow> bytes list \<Rightarrow> bytes" where
  "comb H g = (case g of [x] \<Rightarrow> x | _ \<Rightarrow> H (concat g))"

function chunks :: "nat \<Rightarrow> 'a list \<Rightarrow> 'a list list" where
  "chunks n xs = (if xs = [] \<or> n = 0 then [] else take n xs # chunks n (drop n xs))"
  by pat_completeness auto

termination
  by (relation "measure (\<lambda>(n, xs). length xs)") auto

declare chunks.simps [simp del]

lemma chunks_Nil [simp]: "chunks n [] = []"
  by (simp add: chunks.simps)

lemma length_chunks_le: "length (chunks n xs) \<le> length xs"
proof (induction n xs rule: chunks.induct)
  case (1 n xs)
  show ?case
  proof (cases "xs = [] \<or> n = 0")
    case False
    then have "length (drop n xs) < length xs" by auto
    moreover have "length (chunks n xs) = Suc (length (chunks n (drop n xs)))" using False chunks.simps [of n xs] by simp
    ultimately show ?thesis using 1 [OF False] by linarith
  qed (auto simp: chunks.simps)
qed

lemma length_chunks_less: "2 \<le> n \<Longrightarrow> 2 \<le> length xs \<Longrightarrow> length (chunks n xs) < length xs"
  using length_chunks_le [of n "drop n xs"] by (subst chunks.simps) auto

text \<open>
  Level by level: as long as a level has more than \<open>D\<close> nodes, its nodes are combined in groups of
  \<open>D + 1\<close>.
\<close>

function summarise :: "nat \<Rightarrow> (bytes \<Rightarrow> bytes) \<Rightarrow> nat \<Rightarrow> bytes list \<Rightarrow> nat \<times> bytes list" where
  "summarise D H n xs =
     (if length xs \<le> D \<or> D = 0 then (n, xs) else summarise D H (n + 1) (map (comb H) (chunks (D + 1) xs)))"
  by pat_completeness auto

termination
  by (relation "measure (\<lambda>(D, H, n, xs). length xs)") (auto intro: length_chunks_less)

declare summarise.simps [simp del]

text \<open>Adding a leaf to the levels of a tree, and completing the tree.\<close>

fun inc :: "nat \<Rightarrow> (bytes \<Rightarrow> bytes) \<Rightarrow> bytes \<Rightarrow> bytes list list \<Rightarrow> bytes list list" where
  "inc D H x [] = [[x]]"
| "inc D H x (l # ls) = (if length l < D then (l @ [x]) # ls else [] # inc D H (H (concat (l @ [x]))) ls)"

definition levels :: "nat \<Rightarrow> (bytes \<Rightarrow> bytes) \<Rightarrow> bytes list \<Rightarrow> bytes list list" where
  "levels D H xs = foldl (\<lambda>L x. inc D H x L) [[]] xs"

fun fin :: "nat \<Rightarrow> (bytes \<Rightarrow> bytes) \<Rightarrow> nat \<Rightarrow> bytes list list \<Rightarrow> nat \<times> bytes list" where
  "fin D H n [] = (n, [])"
| "fin D H n [l] = (if length l > D then (n + 1, [H (concat l)]) else (n, l))"
| "fin D H n (l # l2 # ls) = fin D H (n + 1) ((l2 @ (if l = [] then [] else [comb H l])) # ls)"

lemma levels_simps [simp]:
  "levels D H [] = [[]]"
  "levels D H (xs @ [x]) = inc D H x (levels D H xs)"
  by (simp_all add: levels_def)

text \<open>Cutting a sequence that grows at its end into full groups and a rest.\<close>

definition add_group :: "nat \<Rightarrow> 'a \<Rightarrow> 'a list list \<times> 'a list \<Rightarrow> 'a list list \<times> 'a list" where
  "add_group D x s = (if length (snd s) < D then (fst s, snd s @ [x]) else (fst s @ [snd s @ [x]], []))"

definition cut_groups :: "nat \<Rightarrow> 'a list \<Rightarrow> 'a list list \<times> 'a list" where
  "cut_groups D xs = foldl (\<lambda>s x. add_group D x s) ([], []) xs"

lemma cut_simps [simp]:
  "cut_groups D [] = ([], [])"
  "cut_groups D (xs @ [x]) = add_group D x (cut_groups D xs)"
  by (simp_all add: cut_groups_def)

lemma cut_props:
  "concat (fst (cut_groups D xs)) @ snd (cut_groups D xs) = xs"
  "\<forall>g \<in> set (fst (cut_groups D xs)). length g = D + 1"
  "length (snd (cut_groups D xs)) \<le> D"
  by (induction xs rule: rev_induct) (auto simp: add_group_def simp flip: append_assoc)

lemma chunks_groups:
  "\<forall>g \<in> set gs. length g = n \<Longrightarrow> 0 < n \<Longrightarrow> length r < n \<Longrightarrow>
     chunks n (concat gs @ r) = gs @ (if r = [] then [] else [r])"
proof (induction gs)
  case Nil
  then show ?case by (subst chunks.simps) auto
next
  case (Cons g gs)
  then have "g \<noteq> []" by auto
  then show ?case using Cons by (subst chunks.simps) auto
qed

lemma chunks_cut: "chunks (D + 1) xs = fst (cut_groups D xs) @ (if snd (cut_groups D xs) = [] then [] else [snd (cut_groups D xs)])"
  using chunks_groups [of "fst (cut_groups D xs)" "D + 1" "snd (cut_groups D xs)"] cut_props [of D xs] by simp

lemma cut_short: "length xs \<le> D \<Longrightarrow> cut_groups D xs = ([], xs)"
  by (induction xs rule: rev_induct) (simp_all add: add_group_def)

lemma cut_Nil_iff: "fst (cut_groups D xs) = [] \<longleftrightarrow> length xs \<le> D"
proof
  assume "fst (cut_groups D xs) = []"
  then show "length xs \<le> D" using cut_props(1,3) [of D xs] by simp
qed (simp add: cut_short)

lemma levels_cut:
  assumes "1 \<le> D"
  shows "levels D H xs =
    snd (cut_groups D xs) # (if fst (cut_groups D xs) = [] then [] else levels D H (map (\<lambda>g. H (concat g)) (fst (cut_groups D xs))))"
proof (induction xs rule: rev_induct)
  case (snoc x xs)
  have one: "levels D H [y] = [[y]]" for y using assms levels_simps(2) [of D H "[]" y] by simp
  show ?case
  proof (cases "length (snd (cut_groups D xs)) < D")
    case True
    then show ?thesis using snoc by (simp add: add_group_def)
  next
    case False
    then show ?thesis using snoc one assms by (simp add: add_group_def)
  qed
qed simp

lemma fin_Nil_head: "L \<noteq> [] \<Longrightarrow> fin D H n ([] # L) = fin D H (n + 1) L"
  by (cases L) simp_all

lemma inc_ne [simp]: "inc D H x L \<noteq> []"
  by (cases L) simp_all

lemma fin_inc: "length l \<le> D \<Longrightarrow> 1 \<le> D \<Longrightarrow> \<forall>k \<in> set ls. length k \<le> D \<Longrightarrow>
    fin D H n (inc D H x (l # ls)) = fin D H n ((l @ [x]) # ls)"
proof (induction ls arbitrary: l n x)
  case Nil
  then show ?case by simp
next
  case (Cons k ls)
  show ?case
  proof (cases "length l < D")
    case False
    let ?h = "H (concat (l @ [x]))"
    have "comb H (l @ [x]) = ?h" using False Cons.prems(2) by (cases l) (simp_all add: comb_def split: list.split)
    moreover have "fin D H n ([] # inc D H ?h (k # ls)) = fin D H (n + 1) (inc D H ?h (k # ls))"
      by (rule fin_Nil_head) (rule inc_ne)
    ultimately show ?thesis using False Cons.IH [of k "n + 1" ?h] Cons.prems by simp
  qed simp
qed

lemma inc_bounded: "1 \<le> D \<Longrightarrow> \<forall>l \<in> set L. length l \<le> D \<Longrightarrow> \<forall>l \<in> set (inc D H x L). length l \<le> D"
  by (induction D H x L rule: inc.induct) (auto split: if_splits)

lemma levels_bounded: "1 \<le> D \<Longrightarrow> \<forall>l \<in> set (levels D H xs). length l \<le> D"
proof (induction xs rule: rev_induct)
  case (snoc x xs)
  then show ?case unfolding levels_simps by (intro inc_bounded)
qed simp

lemma levels_ne [simp]: "levels D H xs \<noteq> []"
  by (induction xs rule: rev_induct) simp_all

text \<open>Completing the levels that adding the leaves one by one has built gives the closed form.\<close>

lemma fin_levels:
  assumes D: "1 \<le> D"
  shows "fin D H n (levels D H xs) = summarise D H n xs"
proof (induction xs arbitrary: n rule: length_induct)
  case (1 xs)
  show ?case
  proof (cases "length xs \<le> D")
    case True
    then show ?thesis using levels_cut [OF D, of H xs] by (simp add: cut_short summarise.simps)
  next
    case False
    let ?gs = "fst (cut_groups D xs)" and ?r = "snd (cut_groups D xs)"
    let ?ys = "map (\<lambda>g. H (concat g)) ?gs"
    obtain k ks where k: "levels D H ?ys = k # ks" using levels_ne by (cases "levels D H ?ys") auto
    have L: "levels D H xs = ?r # k # ks"
      using levels_cut [OF D, of H xs] False k by (simp add: cut_Nil_iff)
    have comb_gs: "map (comb H) ?gs = ?ys"
      using cut_props(2) [of D xs] D by (intro map_cong) (auto simp: comb_def split: list.split)
    let ?next = "map (comb H) (chunks (D + 1) xs)"
    have next_eq: "?next = ?ys @ (if ?r = [] then [] else [comb H ?r])"
      unfolding chunks_cut by (simp add: comb_gs)
    have len: "length ?next < length xs" using False D by (simp add: length_chunks_less)
    have "\<forall>l \<in> set (k # ks). length l \<le> D" using levels_bounded [OF D, of H ?ys] k by simp
    then have "fin D H n (levels D H xs) = fin D H (n + 1) (levels D H ?next)"
      using fin_inc [of k D ks H "n + 1" "comb H ?r"] D k L next_eq by (cases "?r = []") simp_all
    also have "\<dots> = summarise D H (n + 1) ?next" using 1 len by blast
    finally show ?thesis using False D by (simp add: summarise.simps [of D H n xs])
  qed
qed

section \<open>The incremental tree builds the closed form\<close>

definition total_hash :: "HashFunc \<Rightarrow> (bytes \<Rightarrow> bytes) \<Rightarrow> bool" where
  "total_hash hashFunc H \<longleftrightarrow> (\<forall>b. hashFunc b = Inr (H b))"

text \<open>
  The bounds under which the widths of the code's integers do not matter: the degree is at least two,
  as \<open>newMerkleTree\<close> demands, and one more fits in 32 bits.
\<close>

definition mt_ok :: "nat \<Rightarrow> merkleTree \<Rightarrow> bool" where
  "mt_ok D m \<longleftrightarrow> 2 \<le> D \<and> D + 1 < 2 ^ 32 \<and> unat (mt_maxDegree m) = D \<and> 1 \<le> mt_maxLevel m \<and>
     (\<forall>l. length (mt_tree m l) \<le> D) \<and> (\<forall>l > mt_maxLevel m. mt_tree m l = [])"

definition mt_levels :: "merkleTree \<Rightarrow> bytes list list" where
  "mt_levels m = map (mt_tree m) [1..<Suc (mt_maxLevel m)]"

lemma of_nat_le_u32: "n < 2 ^ 32 \<Longrightarrow> (of_nat n :: u32) \<le> d \<longleftrightarrow> n \<le> unat d"
  by (simp add: word_le_nat_alt unat_of_nat take_bit_nat_eq_self)

lemma merkle_climb_levels:
  assumes hash: "total_hash hashFunc H" and D: "2 \<le> D" "D + 1 < 2 ^ 32"
  shows "unat (mt_maxDegree m) = D \<Longrightarrow> 1 \<le> c \<Longrightarrow> c \<le> mt_maxLevel m \<Longrightarrow> mt_tree m c = l @ [x] \<Longrightarrow> length l \<le> D \<Longrightarrow>
     \<forall>k. k \<noteq> c \<longrightarrow> length (mt_tree m k) \<le> D \<Longrightarrow> \<forall>k > mt_maxLevel m. mt_tree m k = [] \<Longrightarrow>
     mt_maxLevel m - c + (if length l < D then 1 else 2) \<le> turns \<Longrightarrow>
     \<exists>m'. merkle_climb hashFunc turns c m = ret m' \<and> mt_ok D m' \<and> mt_maxDegree m' = mt_maxDegree m \<and> c \<le> mt_maxLevel m' \<and>
       map (mt_tree m') [c..<Suc (mt_maxLevel m')] = inc D H x (l # map (mt_tree m) [Suc c..<Suc (mt_maxLevel m)]) \<and>
       (\<forall>k < c. mt_tree m' k = mt_tree m k)"
proof (induction turns arbitrary: c m l x)
  case 0
  then show ?case by (simp split: if_splits)
next
  case (Suc turns)
  let ?L = "mt_maxLevel m"
  show ?case
  proof (cases "length l < D")
    case True
    have "(of_nat (length (mt_tree m c)) :: u32) \<le> mt_maxDegree m"
      using True D Suc.prems(1,4) by (subst of_nat_le_u32) simp_all
    then have "merkle_climb hashFunc (Suc turns) c m = ret m" by (simp add: Let_def)
    moreover have "length (mt_tree m k) \<le> D" for k
      using Suc.prems(4,6) True by (cases "k = c") auto
    then have "mt_ok D m" using D Suc.prems(1,2,3,7) by (auto simp: mt_ok_def)
    moreover have "map (mt_tree m) [c..<Suc ?L] = (l @ [x]) # map (mt_tree m) [Suc c..<Suc ?L]"
      using Suc.prems(3,4) by (subst upt_conv_Cons) simp_all
    ultimately show ?thesis using True Suc.prems(3) by auto
  next
    case False
    then have len: "length l = D" using Suc.prems(5) by simp
    let ?h = "H (concat (l @ [x]))"
    let ?m = "m\<lparr>mt_tree := (mt_tree m)(c := [], c + 1 := mt_tree m (c + 1) @ [?h]),
                mt_maxLevel := (if c + 1 > ?L then c + 1 else ?L)\<rparr>"
    have "\<not> (of_nat (length (mt_tree m c)) :: u32) \<le> mt_maxDegree m"
      using len D Suc.prems(1,4) by (subst of_nat_le_u32) simp_all
    then have climb: "merkle_climb hashFunc (Suc turns) c m = merkle_climb hashFunc turns (c + 1) ?m"
      using hash Suc.prems(4) by (simp add: Let_def computeCombinedHash_def total_hash_def)
    have "\<exists>m'. merkle_climb hashFunc turns (c + 1) ?m = ret m' \<and> mt_ok D m' \<and> mt_maxDegree m' = mt_maxDegree ?m \<and> c + 1 \<le> mt_maxLevel m' \<and>
        map (mt_tree m') [c + 1..<Suc (mt_maxLevel m')] =
          inc D H ?h (mt_tree m (c + 1) # map (mt_tree ?m) [Suc (c + 1)..<Suc (mt_maxLevel ?m)]) \<and>
        (\<forall>k < c + 1. mt_tree m' k = mt_tree ?m k)"
    proof (rule Suc.IH)
      show "mt_maxLevel ?m - (c + 1) + (if length (mt_tree m (c + 1)) < D then 1 else 2) \<le> turns"
        using Suc.prems(3,7,8) False D by (cases "c = ?L") auto
      show "\<forall>k. k \<noteq> c + 1 \<longrightarrow> length (mt_tree ?m k) \<le> D" using Suc.prems(6) D by auto
      show "\<forall>k > mt_maxLevel ?m. mt_tree ?m k = []" using Suc.prems(7) by auto
    qed (use Suc.prems(1,6) in auto)
    then obtain m' where m': "merkle_climb hashFunc turns (c + 1) ?m = ret m'" "mt_ok D m'" "mt_maxDegree m' = mt_maxDegree m"
        "c + 1 \<le> mt_maxLevel m'" "\<forall>k < c + 1. mt_tree m' k = mt_tree ?m k"
        "map (mt_tree m') [c + 1..<Suc (mt_maxLevel m')] =
          inc D H ?h (mt_tree m (c + 1) # map (mt_tree ?m) [Suc (c + 1)..<Suc (mt_maxLevel ?m)])" by auto
    have tail: "inc D H ?h (mt_tree m (c + 1) # map (mt_tree ?m) [Suc (c + 1)..<Suc (mt_maxLevel ?m)]) =
        inc D H ?h (map (mt_tree m) [Suc c..<Suc ?L])"
    proof (cases "c = ?L")
      case True
      then show ?thesis using Suc.prems(7) D by simp
    next
      case False
      then have "[Suc c..<Suc ?L] = Suc c # [Suc (Suc c)..<Suc ?L]" using Suc.prems(3) by (subst upt_conv_Cons) simp_all
      then show ?thesis using False Suc.prems(3) by (auto simp: intro!: arg_cong [where f = "inc D H ?h"])
    qed
    have "map (mt_tree m') [c..<Suc (mt_maxLevel m')] = [] # map (mt_tree m') [c + 1..<Suc (mt_maxLevel m')]"
      using m'(4,5) by (subst upt_conv_Cons) simp_all
    then show ?thesis using m' tail climb False by auto
  qed
qed

lemma merkle_update_levels:
  assumes "total_hash hashFunc H" "mt_ok D m"
  shows "\<exists>m'. merkle_update hashFunc x m = ret m' \<and> mt_ok D m' \<and> mt_maxDegree m' = mt_maxDegree m \<and>
    mt_levels m' = inc D H x (mt_levels m)"
proof -
  let ?m = "m\<lparr>mt_tree := (mt_tree m)(1 := mt_tree m 1 @ [x])\<rparr>"
  have ok: "2 \<le> D" "D + 1 < 2 ^ 32" "unat (mt_maxDegree m) = D" "1 \<le> mt_maxLevel m" "\<forall>l. length (mt_tree m l) \<le> D"
    "\<forall>l > mt_maxLevel m. mt_tree m l = []" using assms(2) by (simp_all add: mt_ok_def)
  have climb: "\<exists>m'. merkle_climb hashFunc (mt_maxLevel m + 1) 1 ?m = ret m' \<and> mt_ok D m' \<and> mt_maxDegree m' = mt_maxDegree ?m \<and>
       1 \<le> mt_maxLevel m' \<and>
       map (mt_tree m') [1..<Suc (mt_maxLevel m')] = inc D H x (mt_tree m 1 # map (mt_tree ?m) [Suc 1..<Suc (mt_maxLevel ?m)]) \<and>
       (\<forall>k < 1. mt_tree m' k = mt_tree ?m k)"
    by (rule merkle_climb_levels [OF assms(1) ok(1,2)]) (use ok in auto)
  have lv: "mt_levels m = mt_tree m 1 # map (mt_tree ?m) [Suc 1..<Suc (mt_maxLevel ?m)]"
    using ok(4) unfolding mt_levels_def by (subst upt_conv_Cons) auto
  from climb obtain m' where m': "merkle_climb hashFunc (mt_maxLevel m + 1) 1 ?m = ret m'" "mt_ok D m'"
    "mt_maxDegree m' = mt_maxDegree ?m"
    "map (mt_tree m') [1..<Suc (mt_maxLevel m')] = inc D H x (mt_tree m 1 # map (mt_tree ?m) [Suc 1..<Suc (mt_maxLevel ?m)])"
    by (elim exE conjE)
  show ?thesis
  proof (intro exI conjI)
    show "merkle_update hashFunc x m = ret m'" unfolding merkle_update_def by (rule m'(1))
    show "mt_ok D m'" by (rule m'(2))
    show "mt_maxDegree m' = mt_maxDegree m" using m'(3) by simp
    show "mt_levels m' = inc D H x (mt_levels m)" unfolding lv mt_levels_def [of m'] by (rule m'(4))
  qed
qed

lemma merkle_finish_levels:
  assumes hash: "total_hash hashFunc H"
  shows "c \<le> mt_maxLevel m \<Longrightarrow> length (mt_tree m c) \<le> D + 1 \<Longrightarrow> \<forall>k > c. length (mt_tree m k) \<le> D \<Longrightarrow>
    \<exists>m'. merkle_finish hashFunc c m = ret m' \<and> mt_maxLevel m' = mt_maxLevel m \<and> mt_maxDegree m' = mt_maxDegree m \<and>
      length (mt_tree m' (mt_maxLevel m)) \<le> D + 1 \<and>
      fin D H n (map (mt_tree m) [c..<Suc (mt_maxLevel m)]) =
        (if length (mt_tree m' (mt_maxLevel m)) > D
         then (n + (mt_maxLevel m - c) + 1, [H (concat (mt_tree m' (mt_maxLevel m)))])
         else (n + (mt_maxLevel m - c), mt_tree m' (mt_maxLevel m)))"
proof (induction "mt_maxLevel m - c" arbitrary: c m n)
  case 0
  then have "c = mt_maxLevel m" by simp
  then show ?case using "0.prems" by (auto simp: merkle_finish.simps)
next
  case (Suc j)
  let ?L = "mt_maxLevel m"
  have c: "c < ?L" "j = ?L - (c + 1)" using Suc.hyps(2) by simp_all
  let ?l = "mt_tree m c"
  let ?carry = "if ?l = [] then [] else [comb H ?l]"
  let ?m = "m\<lparr>mt_tree := (mt_tree m)(c := [], c + 1 := mt_tree m (c + 1) @ ?carry)\<rparr>"
  have fin: "merkle_finish hashFunc c m = merkle_finish hashFunc (c + 1) ?m"
  proof (cases ?l)
    case Nil
    moreover have "?m = m" using Nil by (auto simp: fun_upd_idem)
    ultimately show ?thesis using c(1) by (simp add: merkle_finish.simps [of hashFunc c])
  next
    case (Cons h hs)
    then show ?thesis using c(1) hash
      by (simp add: merkle_finish.simps [of hashFunc c] comb_def computeCombinedHash_def total_hash_def split: list.split)
  qed
  have IH: "\<exists>m'. merkle_finish hashFunc (c + 1) ?m = ret m' \<and> mt_maxLevel m' = mt_maxLevel ?m \<and> mt_maxDegree m' = mt_maxDegree ?m \<and>
      length (mt_tree m' (mt_maxLevel ?m)) \<le> D + 1 \<and>
      fin D H (n + 1) (map (mt_tree ?m) [c + 1..<Suc (mt_maxLevel ?m)]) =
        (if length (mt_tree m' (mt_maxLevel ?m)) > D
         then ((n + 1) + (mt_maxLevel ?m - (c + 1)) + 1, [H (concat (mt_tree m' (mt_maxLevel ?m)))])
         else ((n + 1) + (mt_maxLevel ?m - (c + 1)), mt_tree m' (mt_maxLevel ?m)))"
    by (rule Suc.hyps(1)) (use c Suc.prems(3) in auto)
  have step: "fin D H n (map (mt_tree m) [c..<Suc ?L]) = fin D H (n + 1) (map (mt_tree ?m) [c + 1..<Suc ?L])"
  proof -
    have "[c..<Suc ?L] = c # (c + 1) # [Suc (c + 1)..<Suc ?L]" using c(1) by (simp add: upt_conv_Cons)
    moreover have "[c + 1..<Suc ?L] = (c + 1) # [Suc (c + 1)..<Suc ?L]" using c(1) by (simp add: upt_conv_Cons)
    ultimately show ?thesis by simp
  qed
  have eqs: "n + 1 + (?L - (c + 1)) = n + (?L - c)" "mt_maxLevel ?m = ?L" "mt_maxDegree ?m = mt_maxDegree m" using c(1) by simp_all
  show ?case unfolding fin step by (rule IH [unfolded eqs])
qed

lemma merkle_done_levels:
  assumes hash: "total_hash hashFunc H" and ok: "mt_ok D m"
  shows "\<exists>m'. merkle_done hashFunc m = ret m' \<and> mt_maxDegree m' = mt_maxDegree m \<and>
    (mt_maxLevel m', mt_tree m' (mt_maxLevel m')) = fin D H 1 (mt_levels m)"
proof -
  have D: "D + 1 < 2 ^ 32" "unat (mt_maxDegree m) = D" "1 \<le> mt_maxLevel m" "\<forall>l. length (mt_tree m l) \<le> D"
    using ok by (simp_all add: mt_ok_def)
  have "length (mt_tree m 1) \<le> D + 1" "\<forall>k > 1. length (mt_tree m k) \<le> D" using D(4) by (simp_all add: le_SucI)
  from merkle_finish_levels [OF hash D(3) this, of 1] obtain m' where m': "merkle_finish hashFunc 1 m = ret m'"
    "mt_maxLevel m' = mt_maxLevel m" "mt_maxDegree m' = mt_maxDegree m" "length (mt_tree m' (mt_maxLevel m)) \<le> D + 1"
    "fin D H 1 (mt_levels m) = (if length (mt_tree m' (mt_maxLevel m)) > D
         then (mt_maxLevel m + 1, [H (concat (mt_tree m' (mt_maxLevel m)))]) else (mt_maxLevel m, mt_tree m' (mt_maxLevel m)))"
    using D(3) unfolding mt_levels_def by auto
  have "(of_nat (length (mt_tree m' (mt_maxLevel m))) :: u32) > mt_maxDegree m \<longleftrightarrow> length (mt_tree m' (mt_maxLevel m)) > D"
    using of_nat_le_u32 [of "length (mt_tree m' (mt_maxLevel m))" "mt_maxDegree m"] m'(4) D(1,2) by (simp add: not_le [symmetric])
  then show ?thesis using m' hash by (simp add: merkle_done_def Let_def computeCombinedHash_def total_hash_def)
qed

section \<open>The summary of a sequence of results\<close>

definition total_ser :: "(KVRead list \<Rightarrow> string + bytes) \<Rightarrow> (KVRead list \<Rightarrow> bytes) \<Rightarrow> bool" where
  "total_ser ser S \<longleftrightarrow> (\<forall>rs. ser rs = Inr (S rs))"

definition summary_of ::
  "u32 \<Rightarrow> (bytes \<Rightarrow> bytes) \<Rightarrow> (KVRead list \<Rightarrow> bytes) \<Rightarrow> KVRead list \<Rightarrow> QueryReadsMerkleSummary" where
  "summary_of d H S rs =
     (case summarise (unat d) H 1 (map (\<lambda>g. H (S g)) (chunks (unat d + 1) rs)) of
        (maxLevel, hashes) \<Rightarrow> \<lparr>ms_MaxDegree = d, ms_MaxLevel = of_nat maxLevel, ms_MaxLevelHashes = hashes\<rparr>)"

definition leaves :: "nat \<Rightarrow> (bytes \<Rightarrow> bytes) \<Rightarrow> (KVRead list \<Rightarrow> bytes) \<Rightarrow> KVRead list \<Rightarrow> bytes list" where
  "leaves D H S rs = map (\<lambda>g. H (S g)) (fst (cut_groups D rs))"

text \<open>The state of a helper that has been given the results \<open>rs\<close>.\<close>

definition helper_at ::
  "u32 \<Rightarrow> (bytes \<Rightarrow> bytes) \<Rightarrow> (KVRead list \<Rightarrow> bytes) \<Rightarrow> KVRead list \<Rightarrow> RangeQueryResultsHelper \<Rightarrow> bool" where
  "helper_at d H S rs helper \<longleftrightarrow> rh_hashingEnabled helper \<and> rh_maxDegree helper = d \<and>
     rh_pendingResults helper = snd (cut_groups (unat d) rs) \<and> mt_ok (unat d) (rh_mt helper) \<and>
     mt_maxDegree (rh_mt helper) = d \<and> mt_levels (rh_mt helper) = levels (unat d) H (leaves (unat d) H S rs)"

lemma NewHelper_at:
  assumes "2 \<le> d" "unat d + 1 < 2 ^ 32"
  shows "\<exists>helper. NewRangeQueryResultsHelper True d = Inr helper \<and> helper_at d H S [] helper"
proof -
  have "2 \<le> unat d" using assms(1) by (simp add: word_le_nat_alt)
  then show ?thesis using assms
    by (auto simp: NewRangeQueryResultsHelper_def newMerkleTree_def helper_at_def mt_ok_def mt_levels_def leaves_def)
qed

lemma processPending_at:
  assumes "total_hash hashFunc H" "total_ser ser S" "mt_ok D (rh_mt helper)"
  shows "\<exists>t. processPendingResults hashFunc ser helper = ret (helper\<lparr>rh_pendingResults := [], rh_mt := t\<rparr>) \<and>
    mt_ok D t \<and> mt_maxDegree t = mt_maxDegree (rh_mt helper) \<and>
    mt_levels t = inc D H (H (S (rh_pendingResults helper))) (mt_levels (rh_mt helper))"
  using merkle_update_levels [OF assms(1,3), of "H (S (rh_pendingResults helper))"] assms(1,2)
  by (auto simp: processPendingResults_def total_hash_def total_ser_def)

lemma AddResult_at:
  assumes hs: "total_hash hashFunc H" "total_ser ser S" and at: "helper_at d H S rs helper"
  shows "\<exists>helper'. AddResult hashFunc ser x helper = ret helper' \<and> helper_at d H S (rs @ [x]) helper'"
proof -
  let ?h = "helper\<lparr>rh_pendingResults := rh_pendingResults helper @ [x]\<rparr>"
  let ?r = "snd (cut_groups (unat d) rs)"
  have D: "unat d + 1 < 2 ^ 32" "length ?r \<le> unat d" using at cut_props(3) by (simp_all add: helper_at_def mt_ok_def)
  have cond: "(of_nat (length (?r @ [x])) :: u32) > d \<longleftrightarrow> \<not> length ?r < unat d"
    using of_nat_le_u32 [of "length (?r @ [x])" d] D by (simp add: not_le [symmetric] del: of_nat_Suc) linarith
  show ?thesis
  proof (cases "length ?r < unat d")
    case True
    then have "AddResult hashFunc ser x helper = ret ?h" using at cond by (simp add: AddResult_def helper_at_def Let_def)
    then show ?thesis using at True by (auto simp: helper_at_def leaves_def add_group_def)
  next
    case False
    have "mt_ok (unat d) (rh_mt ?h)" using at by (simp add: helper_at_def)
    from processPending_at [OF hs this] obtain t where
      t: "processPendingResults hashFunc ser ?h = ret (?h\<lparr>rh_pendingResults := [], rh_mt := t\<rparr>)" "mt_ok (unat d) t"
        "mt_maxDegree t = d" "mt_levels t = inc (unat d) H (H (S (?r @ [x]))) (levels (unat d) H (leaves (unat d) H S rs))"
      using at by (auto simp: helper_at_def)
    have "AddResult hashFunc ser x helper = ret (?h\<lparr>rh_pendingResults := [], rh_mt := t\<rparr>)"
      using t(1) at cond False by (simp add: AddResult_def helper_at_def Let_def)
    moreover have "helper_at d H S (rs @ [x]) (?h\<lparr>rh_pendingResults := [], rh_mt := t\<rparr>)"
      using at t(2-4) False by (simp add: helper_at_def leaves_def add_group_def)
    ultimately show ?thesis by blast
  qed
qed

lemma isEmpty_levels: "1 \<le> mt_maxLevel m \<Longrightarrow> merkle_isEmpty m \<longleftrightarrow> mt_levels m = [[]]"
proof -
  assume L: "1 \<le> mt_maxLevel m"
  have "length (mt_levels m) = mt_maxLevel m" by (simp add: mt_levels_def del: upt_Suc)
  then have "mt_levels m = [[]] \<Longrightarrow> mt_maxLevel m = 1" by simp
  then show ?thesis using L by (auto simp: merkle_isEmpty_def mt_levels_def)
qed

lemma levels_empty_iff: "1 \<le> D \<Longrightarrow> levels D H xs = [[]] \<longleftrightarrow> xs = []"
proof
  assume D: "1 \<le> D" and e: "levels D H xs = [[]]"
  then have "snd (cut_groups D xs) = []" "fst (cut_groups D xs) = []"
    using levels_cut [OF D, of H xs] by (auto split: if_splits)
  then show "xs = []" using cut_props(1) [of D xs] by simp
qed simp

lemma Done_at:
  assumes hs: "total_hash hashFunc H" "total_ser ser S" and at: "helper_at d H S rs helper"
  shows "Done hashFunc ser helper =
    ret (if length rs \<le> unat d then (rs, None) else ([], Some (summary_of d H S rs)))"
proof -
  let ?D = "unat d" and ?gs = "fst (cut_groups (unat d) rs)" and ?r = "snd (cut_groups (unat d) rs)"
  have D: "1 \<le> ?D" and ok: "mt_ok ?D (rh_mt helper)" "mt_maxDegree (rh_mt helper) = d"
    and lv: "mt_levels (rh_mt helper) = levels ?D H (leaves ?D H S rs)"
    using at by (auto simp: helper_at_def mt_ok_def)
  have empty: "merkle_isEmpty (rh_mt helper) \<longleftrightarrow> length rs \<le> ?D"
    using ok(1) isEmpty_levels [of "rh_mt helper"] levels_empty_iff [OF D] lv
    by (simp add: mt_ok_def leaves_def cut_Nil_iff)
  show ?thesis
  proof (cases "length rs \<le> ?D")
    case True
    then show ?thesis using empty at by (simp add: Done_def helper_at_def cut_short)
  next
    case False
    have all: "map (\<lambda>g. H (S g)) (chunks (?D + 1) rs) = leaves ?D H S rs @ (if ?r = [] then [] else [H (S ?r)])"
      unfolding chunks_cut leaves_def by simp
    obtain t where t: "(if rh_pendingResults helper \<noteq> [] then processPendingResults hashFunc ser helper else ret helper) =
        ret (helper\<lparr>rh_pendingResults := [], rh_mt := t\<rparr>)" "mt_ok ?D t" "mt_maxDegree t = d"
        "mt_levels t = levels ?D H (map (\<lambda>g. H (S g)) (chunks (?D + 1) rs))"
    proof (cases "?r = []")
      case True
      then have "rh_pendingResults helper = []" using at by (simp add: helper_at_def)
      moreover from this have "helper = helper\<lparr>rh_pendingResults := [], rh_mt := rh_mt helper\<rparr>" by simp
      ultimately show ?thesis using that [of "rh_mt helper"] ok lv all True by simp
    next
      case False
      have p: "rh_pendingResults helper = ?r" using at by (simp add: helper_at_def)
      from processPending_at [OF hs ok(1)] obtain t where
        "processPendingResults hashFunc ser helper = ret (helper\<lparr>rh_pendingResults := [], rh_mt := t\<rparr>)" "mt_ok ?D t"
        "mt_maxDegree t = d" "mt_levels t = inc ?D H (H (S ?r)) (mt_levels (rh_mt helper))"
        using ok(2) p by auto
      then show ?thesis using that [of t] all False lv p by simp
    qed
    from merkle_done_levels [OF hs(1) t(2)] obtain m' where m': "merkle_done hashFunc t = ret m'" "mt_maxDegree m' = d"
      "(mt_maxLevel m', mt_tree m' (mt_maxLevel m')) = summarise ?D H 1 (map (\<lambda>g. H (S g)) (chunks (?D + 1) rs))"
      using t(3,4) fin_levels [OF D] by auto
    have "getSummery m' = summary_of d H S rs"
      using m'(2) unfolding summary_of_def m'(3) [symmetric] by (simp add: getSummery_def)
    then show ?thesis using t(1) m'(1) empty False at by (simp add: Done_def helper_at_def)
  qed
qed

section \<open>Comparing while the tree grows\<close>

text \<open>The loop of the validator as a loop over the results it is given.\<close>

definition tree_at :: "u32 \<Rightarrow> (bytes \<Rightarrow> bytes) \<Rightarrow> (KVRead list \<Rightarrow> bytes) \<Rightarrow> KVRead list \<Rightarrow> bytes list list" where
  "tree_at d H S rs = levels (unat d) H (leaves (unat d) H S rs)"

definition final_summary ::
  "u32 \<Rightarrow> (bytes \<Rightarrow> bytes) \<Rightarrow> (KVRead list \<Rightarrow> bytes) \<Rightarrow> KVRead list \<Rightarrow> QueryReadsMerkleSummary option" where
  "final_summary d H S rs = (if length rs \<le> unat d then None else Some (summary_of d H S rs))"

fun compare_loop ::
  "u32 \<Rightarrow> (bytes \<Rightarrow> bytes) \<Rightarrow> (KVRead list \<Rightarrow> bytes) \<Rightarrow> QueryReadsMerkleSummary \<Rightarrow> nat \<Rightarrow> KVRead list \<Rightarrow> KVRead list \<Rightarrow> bool res" where
  "compare_loop d H S inM k rs [] = ret (merkleSummariesEqual inM (final_summary d H S rs))"
| "compare_loop d H S inM k rs (x # xs) =
     (let t = tree_at d H S (rs @ [x]); hs = last t
      in if (of_nat (length t) :: u32) < ms_MaxLevel inM then compare_loop d H S inM k (rs @ [x]) xs
         else if k = length hs then compare_loop d H S inM k (rs @ [x]) xs
         else if length hs > length (ms_MaxLevelHashes inM) then ret False
         else if length hs \<le> k then Panic
         else if hs ! k \<noteq> ms_MaxLevelHashes inM ! k then ret False
         else compare_loop d H S inM (k + 1) (rs @ [x]) xs)"

definition to_read :: "VersionedKV \<Rightarrow> KVRead" where
  "to_read x = NewKVRead (vk_Key x) (vv_Version (vk_Val x))"

lemma helper_summary:
  assumes "helper_at d H S rs helper"
  shows "GetMerkleSummary helper = Some \<lparr>ms_MaxDegree = d, ms_MaxLevel = of_nat (length (tree_at d H S rs)),
    ms_MaxLevelHashes = last (tree_at d H S rs)\<rparr>"
proof -
  let ?m = "rh_mt helper"
  have lv: "mt_levels ?m = tree_at d H S rs" and L: "1 \<le> mt_maxLevel ?m"
    using assms by (simp_all add: helper_at_def tree_at_def mt_ok_def)
  have "length (mt_levels ?m) = mt_maxLevel ?m" "last (mt_levels ?m) = mt_tree ?m (mt_maxLevel ?m)"
    using L by (simp_all add: mt_levels_def)
  then show ?thesis using assms lv by (simp add: GetMerkleSummary_def getSummery_def helper_at_def)
qed

lemma hash_loop_compare:
  assumes hs: "total_hash hashFunc H" "total_ser ser S"
  shows "ci_ok itr \<Longrightarrow> helper_at d H S rs helper \<Longrightarrow>
    hash_loop hashFunc ser inM k helper itr = compare_loop d H S inM k rs (map to_read (ci_rest itr))"
proof (induction "ci_rest itr" arbitrary: itr helper k rs)
  case Nil
  from combined.next_rest [OF Nil.prems(1)] obtain itr' where "combined_Next itr = ret (None, itr')"
    using Nil.hyps [symmetric] by auto
  then show ?case using Nil.hyps [symmetric] Done_at [OF hs Nil.prems(2)]
    by (simp add: hash_loop.simps [of hashFunc] final_summary_def)
next
  case (Cons x xs)
  from combined.next_rest [OF Cons.prems(1)] obtain itr' where n: "combined_Next itr = ret (Some x, itr')" "ci_ok itr'"
    "ci_rest itr' = xs" using Cons.hyps(2) [symmetric] by auto
  from AddResult_at [OF hs Cons.prems(2)] obtain helper' where
    h: "AddResult hashFunc ser (to_read x) helper = ret helper'" "helper_at d H S (rs @ [to_read x]) helper'" by blast
  have IH: "hash_loop hashFunc ser inM j helper' itr' = compare_loop d H S inM j (rs @ [to_read x]) (map to_read xs)" for j
    using Cons.hyps(1) [OF n(3) [symmetric] n(2) h(2)] n(3) by simp
  have eq: "hash_loop hashFunc ser inM k helper itr =
      (let t = tree_at d H S (rs @ [to_read x]); hs = last t
       in if (of_nat (length t) :: u32) < ms_MaxLevel inM then hash_loop hashFunc ser inM k helper' itr'
         else if k = length hs then hash_loop hashFunc ser inM k helper' itr'
         else if length hs > length (ms_MaxLevelHashes inM) then ret False
         else if length hs \<le> k then Panic
         else if hs ! k \<noteq> ms_MaxLevelHashes inM ! k then ret False
         else hash_loop hashFunc ser inM (k + 1) helper' itr')"
    using n(1) h(1) helper_summary [OF h(2)] unfolding to_read_def
    by (simp add: hash_loop.simps [of hashFunc ser inM k helper] Let_def not_le)
  show ?case unfolding eq Cons.hyps(2) [symmetric] IH by (simp add: Let_def)
qed

lemma inc_grows:
  "L \<noteq> [] \<Longrightarrow> length (inc D H x L) = length L \<and> (last (inc D H x L) = last L \<or> (\<exists>y. last (inc D H x L) = last L @ [y])) \<or>
     length (inc D H x L) = length L + 1 \<and> D \<le> length (last L) \<and> (\<exists>y. last (inc D H x L) = [y])"
proof (induction D H x L rule: inc.induct)
  case (2 D H x l ls)
  show ?case
  proof (cases "length l < D")
    case True
    then show ?thesis by (cases ls) auto
  next
    case False
    let ?h = "H (concat (l @ [x]))"
    show ?thesis
    proof (cases "ls = []")
      case True
      then show ?thesis using False by simp
    next
      case ls: False
      then show ?thesis using "2.IH" [OF False ls] False by (cases "inc D H ?h ls = []") simp_all
    qed
  qed
qed simp

lemma fin_grows:
  "L \<noteq> [] \<Longrightarrow> fin D H n L = (lvl, hs) \<Longrightarrow>
     lvl + 1 = n + length L \<and> (\<exists>ys. hs = last L @ ys) \<or> lvl = n + length L"
proof (induction D H n L arbitrary: lvl hs rule: fin.induct)
  case (3 D H n l l2 ls)
  show ?case using "3.IH" [of lvl hs] "3.prems"(2) by (cases "ls = []") auto
qed (auto split: if_splits)

lemma levels_append_grows:
  "length (levels D H xs) \<le> length (levels D H (xs @ ys)) \<and>
     (length (levels D H (xs @ ys)) = length (levels D H xs) \<longrightarrow> (\<exists>zs. last (levels D H (xs @ ys)) = last (levels D H xs) @ zs))"
proof (induction ys rule: rev_induct)
  case (snoc y ys)
  have "levels D H (xs @ ys @ [y]) = inc D H y (levels D H (xs @ ys))"
    using levels_simps(2) [of D H "xs @ ys" y] by simp
  then show ?case using snoc inc_grows [of "levels D H (xs @ ys)" D H y] by auto
qed simp

lemma levels_length: "length (levels D H xs) \<le> length xs + 1"
proof (induction xs rule: rev_induct)
  case (snoc x xs)
  then show ?case using inc_grows [of "levels D H xs" D H x] by auto
qed simp

lemma leaves_append: "\<exists>ys. leaves D H S (rs @ xs) = leaves D H S rs @ ys"
proof (induction xs rule: rev_induct)
  case (snoc x xs)
  have "cut_groups D (rs @ xs @ [x]) = add_group D x (cut_groups D (rs @ xs))"
    using cut_simps(2) [of D "rs @ xs" x] by simp
  then show ?case using snoc by (auto simp: leaves_def add_group_def)
qed simp

lemma leaves_length: "length (leaves D H S rs) \<le> length rs"
  by (induction rs rule: rev_induct) (simp_all add: leaves_def add_group_def)

text \<open>
  The summary of all results is at least as high as the tree at any earlier point and, when it is not
  higher, its hashes extend those the tree had on its highest level.
\<close>

lemma final_extends:
  assumes d: "2 \<le> unat d" and len: "unat d < length (rs @ xs)" "length (rs @ xs) + 3 < 2 ^ 32"
  obtains lvl hashes where "summary_of d H S (rs @ xs) = \<lparr>ms_MaxDegree = d, ms_MaxLevel = of_nat lvl, ms_MaxLevelHashes = hashes\<rparr>"
    "length (tree_at d H S rs) \<le> lvl" "lvl < 2 ^ 32" "lvl = length (tree_at d H S rs) \<Longrightarrow> \<exists>ys. hashes = last (tree_at d H S rs) @ ys"
proof -
  let ?D = "unat d" and ?all = "map (\<lambda>g. H (S g)) (chunks (unat d + 1) (rs @ xs))"
  obtain ys where ys: "leaves ?D H S (rs @ xs) = leaves ?D H S rs @ ys" using leaves_append by blast
  obtain zs where zs: "?all = leaves ?D H S rs @ zs"
    unfolding chunks_cut using ys by (auto simp: leaves_def)
  obtain lvl hashes where f: "fin ?D H 1 (levels ?D H ?all) = (lvl, hashes)" by fastforce
  then have "summarise ?D H 1 ?all = (lvl, hashes)" using fin_levels [of ?D H 1 ?all] d by simp
  then have s: "summary_of d H S (rs @ xs) = \<lparr>ms_MaxDegree = d, ms_MaxLevel = of_nat lvl, ms_MaxLevelHashes = hashes\<rparr>"
    unfolding summary_of_def by simp
  have grow: "lvl = length (levels ?D H ?all) \<and> (\<exists>ys. hashes = last (levels ?D H ?all) @ ys) \<or> lvl = length (levels ?D H ?all) + 1"
    using fin_grows [OF levels_ne f] by auto
  have lv: "length (tree_at d H S rs) \<le> length (levels ?D H ?all)"
    "length (levels ?D H ?all) = length (tree_at d H S rs) \<longrightarrow> (\<exists>zs. last (levels ?D H ?all) = last (tree_at d H S rs) @ zs)"
    using levels_append_grows [of ?D H "leaves ?D H S rs" zs] unfolding zs tree_at_def by auto
  have "length ?all \<le> length (rs @ xs)" using length_chunks_le [of "?D + 1" "rs @ xs"] by simp
  then have "lvl < 2 ^ 32" using grow levels_length [of ?D H ?all] len(2) by linarith
  then show ?thesis using that [OF s] grow lv by fastforce
qed

lemma tree_step:
  assumes "2 \<le> unat d"
  shows "let t = tree_at d H S rs; t' = tree_at d H S (rs @ [x])
    in length t' = length t \<and> (last t' = last t \<or> (\<exists>y. last t' = last t @ [y])) \<or>
       length t' = length t + 1 \<and> unat d \<le> length (last t) \<and> (\<exists>y. last t' = [y])"
proof (cases "length (snd (cut_groups (unat d) rs)) < unat d")
  case True
  then show ?thesis by (simp add: tree_at_def leaves_def add_group_def)
next
  case False
  let ?h = "H (S (snd (cut_groups (unat d) rs) @ [x]))"
  have "tree_at d H S (rs @ [x]) = inc (unat d) H ?h (tree_at d H S rs)"
    using False by (simp add: tree_at_def leaves_def add_group_def)
  then show ?thesis using inc_grows [of "tree_at d H S rs" "unat d" H ?h] unfolding Let_def
    by (metis levels_ne tree_at_def)
qed

text \<open>
  What the loop maintains: below the level of the summary nothing has been compared; on that level all
  hashes have been, and agree.
\<close>

definition compared :: "QueryReadsMerkleSummary \<Rightarrow> nat \<Rightarrow> bytes list list \<Rightarrow> bool" where
  "compared inM k t \<longleftrightarrow>
     (let e = max 1 (unat (ms_MaxLevel inM))
      in length t < e \<and> k = 0 \<or>
         length t = e \<and> k = length (last t) \<and> (\<exists>ys. ms_MaxLevelHashes inM = last t @ ys))"

lemma unequal_summary:
  assumes d: "2 \<le> unat d" and len: "length (rs @ xs) + 3 < 2 ^ 32"
    and t: "length (tree_at d H S rs) = max 1 (unat (ms_MaxLevel inM))"
    and no: "\<nexists>ys. ms_MaxLevelHashes inM = last (tree_at d H S rs) @ ys"
  shows "\<not> merkleSummariesEqual inM (final_summary d H S (rs @ xs))"
proof (cases "length (rs @ xs) \<le> unat d")
  case True
  then show ?thesis by (simp add: final_summary_def merkleSummariesEqual_def)
next
  case False
  then obtain lvl hashes where f: "summary_of d H S (rs @ xs) = \<lparr>ms_MaxDegree = d, ms_MaxLevel = of_nat lvl, ms_MaxLevelHashes = hashes\<rparr>"
    "length (tree_at d H S rs) \<le> lvl" "lvl < 2 ^ 32" "lvl = length (tree_at d H S rs) \<Longrightarrow> \<exists>ys. hashes = last (tree_at d H S rs) @ ys"
    using final_extends [OF d _ len] by (metis not_le)
  have "ms_MaxLevelHashes inM \<noteq> hashes" if "ms_MaxLevel inM = of_nat lvl"
  proof -
    have "unat (ms_MaxLevel inM) = lvl" using that f(3) by (simp add: unat_of_nat take_bit_nat_eq_self)
    then have "lvl = length (tree_at d H S rs)" using t f(2) by simp
    then show ?thesis using f(4) no by auto
  qed
  then show ?thesis using False f(1) by (auto simp: final_summary_def merkleSummariesEqual_def list_all2_eq)
qed

lemma compare_loop_correct:
  assumes d: "2 \<le> unat d" and short: "length (ms_MaxLevelHashes inM) < unat d"
  shows "length (rs @ xs) + 3 < 2 ^ 32 \<Longrightarrow> compared inM k (tree_at d H S rs) \<Longrightarrow>
    compare_loop d H S inM k rs xs = ret (merkleSummariesEqual inM (final_summary d H S (rs @ xs)))"
proof (induction xs arbitrary: rs k)
  case (Cons x xs)
  let ?t = "tree_at d H S rs" and ?t' = "tree_at d H S (rs @ [x])" and ?e = "max 1 (unat (ms_MaxLevel inM))"
  have step: "length ?t' = length ?t \<and> (last ?t' = last ?t \<or> (\<exists>y. last ?t' = last ?t @ [y])) \<or>
       length ?t' = length ?t + 1 \<and> unat d \<le> length (last ?t) \<and> (\<exists>y. last ?t' = [y])"
    using tree_step [OF d, of H S rs x] by (simp add: Let_def)
  have IH: "compare_loop d H S inM j (rs @ [x]) xs = ret (merkleSummariesEqual inM (final_summary d H S (rs @ x # xs)))"
    if "compared inM j ?t'" for j using Cons.IH [of "rs @ [x]" j] Cons.prems(1) that by simp
  have "length ?t' \<le> length (rs @ [x]) + 1"
    using levels_length [of "unat d" H "leaves (unat d) H S (rs @ [x])"] leaves_length [of "unat d" H S "rs @ [x]"]
    by (simp add: tree_at_def)
  then have lvl: "(of_nat (length ?t') :: u32) < ms_MaxLevel inM \<longleftrightarrow> length ?t' < unat (ms_MaxLevel inM)"
    using Cons.prems(1) by (simp add: word_less_nat_alt unat_of_nat take_bit_nat_eq_self)
  have pos: "1 \<le> length ?t'" using levels_ne by (simp add: tree_at_def Suc_le_eq)
  have le: "length ?t' \<le> ?e"
    using Cons.prems(2) step short by (auto simp: compared_def Let_def)
  show ?case
  proof (cases "length ?t' < unat (ms_MaxLevel inM)")
    case True
    then have "k = 0" using Cons.prems(2) step by (auto simp: compared_def Let_def)
    then have "compared inM k ?t'" using True by (simp add: compared_def Let_def)
    then show ?thesis using IH lvl True by (simp add: Let_def)
  next
    case False
    then have e: "length ?t' = ?e" using le pos by simp
    have prev: "(\<exists>ys. ms_MaxLevelHashes inM = take k (last ?t') @ ys) \<and> (k = length (last ?t') \<or> k + 1 = length (last ?t'))"
    proof (cases "length ?t' = length ?t")
      case True
      then have "k = length (last ?t)" "\<exists>ys. ms_MaxLevelHashes inM = last ?t @ ys"
        using Cons.prems(2) e by (simp_all add: compared_def Let_def)
      moreover have "last ?t' = last ?t \<or> (\<exists>y. last ?t' = last ?t @ [y])" using step True by auto
      ultimately show ?thesis by auto
    next
      case False
      then have "k = 0" "\<exists>y. last ?t' = [y]" using Cons.prems(2) e step by (auto simp: compared_def Let_def)
      then show ?thesis by auto
    qed
    then obtain ys where ys: "ms_MaxLevelHashes inM = take k (last ?t') @ ys" by blast
    have bad: "\<not> merkleSummariesEqual inM (final_summary d H S (rs @ x # xs))"
      if "\<nexists>ys. ms_MaxLevelHashes inM = last ?t' @ ys"
      using unequal_summary [OF d _ e that, of xs] Cons.prems(1) by simp
    have ok: "compared inM (length (last ?t')) ?t'" if "\<exists>ys. ms_MaxLevelHashes inM = last ?t' @ ys"
      using that e by (simp add: compared_def Let_def)
    show ?thesis
    proof (cases "k = length (last ?t')")
      case True
      then have "compared inM k ?t'" using ok ys by auto
      then show ?thesis using IH lvl False True by (simp add: Let_def)
    next
      case k: False
      then have k1: "length (last ?t') = Suc k" using prev by auto
      have iff: "(\<exists>ys. ms_MaxLevelHashes inM = last ?t' @ ys) \<longleftrightarrow>
          length (last ?t') \<le> length (ms_MaxLevelHashes inM) \<and> last ?t' ! k = ms_MaxLevelHashes inM ! k"
      proof -
        have l: "last ?t' = take k (last ?t') @ [last ?t' ! k]" using k1 by (metis lessI take_Suc_conv_app_nth take_all order_refl)
        show ?thesis unfolding ys using k1 by (subst l, cases ys) (auto simp: nth_append)
      qed
      show ?thesis using lvl False k k1 iff bad ok IH [of "k + 1"] by (auto simp: Let_def)
    qed
  qed
qed simp

section \<open>What the validator decides\<close>

lemma hash_validate_eq:
  assumes hs: "total_hash hashFunc H" "total_ser ser S" and ok: "ci_ok itr"
    and d: "2 \<le> ms_MaxDegree inM" "unat (ms_MaxDegree inM) + 1 < 2 ^ 32"
    and short: "length (ms_MaxLevelHashes inM) < unat (ms_MaxDegree inM)"
    and len: "length (ci_rest itr) + 3 < 2 ^ 32"
  shows "hash_validate hashFunc ser inM itr =
    ret (merkleSummariesEqual inM (final_summary (ms_MaxDegree inM) H S (map to_read (ci_rest itr))))"
proof -
  let ?d = "ms_MaxDegree inM"
  have d2: "2 \<le> unat ?d" using d(1) by (simp add: word_le_nat_alt)
  obtain helper where h: "NewRangeQueryResultsHelper True ?d = Inr helper" "helper_at ?d H S [] helper"
    using NewHelper_at [OF d] by blast
  have "compared inM 0 (tree_at ?d H S [])" by (auto simp: compared_def Let_def tree_at_def leaves_def)
  then show ?thesis
    using h(1) hash_loop_compare [OF hs ok h(2)] compare_loop_correct [OF d2 short, of "[]"] len
    by (simp add: hash_validate_def)
qed

text \<open>C36: comparing the hashes while the tree grows gives the same answer as building the complete summary
  of the latest results and comparing it with the recorded one: the validator returns true exactly when
  the two summaries are equal.  The summary of the results is its closed form: the results in groups of
  \<open>maxDegree + 1\<close>, hashed, and level by level the hashes again, until at most \<open>maxDegree\<close> are left.  It
  holds for every recorded summary with fewer than \<open>maxDegree\<close> hashes, when hashing and serialising do
  not fail and the number of results fits in 32 bits.
\<close>

theorem hash_validate_correct:
  assumes hs: "total_hash hashFunc H" "total_ser ser S" and ok: "ci_ok itr"
    and d: "2 \<le> ms_MaxDegree inM" "unat (ms_MaxDegree inM) + 1 < 2 ^ 32"
    and short: "length (ms_MaxLevelHashes inM) < unat (ms_MaxDegree inM)"
    and len: "length (ci_rest itr) + 3 < 2 ^ 32"
  shows "hash_validate hashFunc ser inM itr =
    ret (merkleSummariesEqual inM (final_summary (ms_MaxDegree inM) H S (map to_read (ci_rest itr))))"
  by (rule hash_validate_eq [OF assms])

text \<open>An iterator over a list of results of the database.\<close>

definition list_itr :: "VersionedKV list \<Rightarrow> combinedIterator" where
  "list_itr xs = \<lparr>ci_ns = ''cc'',
     ci_db = \<lparr>vd_GetState = \<lambda>_ _. Inr None, vd_GetVersion = \<lambda>_ _. Inr None,
              vd_GetStateMultipleKeys = \<lambda>_ ks. Inr (map (\<lambda>_. None) ks), vd_Scan = \<lambda>_ _ _. Inr \<lparr>sc_items = [], sc_error = None\<rparr>,
              vd_ScanPage = \<lambda>_ _ _ _. Inr \<lparr>sc_items = [], sc_error = None\<rparr>, vd_ExecuteQuery = \<lambda>_ _ _. Inl ''none'',
              vd_ValidateKeyValue = \<lambda>_ _. None, vd_BytesKeySupported = True,
              vd_LoadCommittedVersions = None\<rparr>,
     ci_updates = NewUpdateBatch, ci_endKey = ''z'', ci_includeEndKey = False,
     ci_dbItr = \<lparr>sc_items = tl xs, sc_error = None\<rparr>, ci_updatesItr = newNsIterator ''cc'' '''' '''' NewUpdateBatch,
     ci_dbItem = (case xs of [] \<Rightarrow> None | x # _ \<Rightarrow> Some x), ci_updatesItem = None, ci_endKeyServed = False\<rparr>"

lemma list_itr_ok: "ci_ok (list_itr xs)"
  by (auto simp: ci_ok_def list_itr_def newNsIterator_wf newNsIterator_rest batch_range_def NewUpdateBatch_def split: list.split)

lemma list_itr_rest: "\<forall>x \<in> set xs. \<not> IsDelete (vk_Val x) \<Longrightarrow> ci_rest (list_itr xs) = xs"
  by (cases xs) (simp_all add: ci_rest_def db_items_def upd_items_def ci_end_def list_itr_def filter_id_conv)

definition sample_kv :: "string \<Rightarrow> VersionedKV" where
  "sample_kv k = \<lparr>vk_Namespace = ''cc'', vk_Key = k,
     vk_Val = \<lparr>vv_Value = Some ''v'', vv_Metadata = None, vv_Version = Some (Height 1 0)\<rparr>\<rparr>"

theorem hash_validate_correct_witness:
  "hash_validate Inr (\<lambda>rs. Inr (concat (map kr_Key rs))) \<lparr>ms_MaxDegree = 2, ms_MaxLevel = 1, ms_MaxLevelHashes = [''abc'']\<rparr>
     (list_itr [sample_kv ''a'', sample_kv ''b'', sample_kv ''c'']) = ret True"
proof -
  let ?xs = "[sample_kv ''a'', sample_kv ''b'', sample_kv ''c'']"
  have rest: "ci_rest (list_itr ?xs) = ?xs" by (rule list_itr_rest) (simp add: sample_kv_def IsDelete_def)
  have "merkleSummariesEqual \<lparr>ms_MaxDegree = 2, ms_MaxLevel = 1, ms_MaxLevelHashes = [''abc'']\<rparr>
      (final_summary 2 id (\<lambda>rs. concat (map kr_Key rs)) (map to_read ?xs))"
    by (simp add: final_summary_def summary_of_def summarise.simps chunks.simps merkleSummariesEqual_def to_read_def
        NewKVRead_def sample_kv_def)
  then show ?thesis
    using hash_validate_correct [of Inr id "\<lambda>rs. Inr (concat (map kr_Key rs))" "\<lambda>rs. concat (map kr_Key rs)" "list_itr ?xs"
        "\<lparr>ms_MaxDegree = 2, ms_MaxLevel = 1, ms_MaxLevelHashes = [''abc'']\<rparr>"]
    by (simp add: rest list_itr_ok total_hash_def total_ser_def)
qed

subsection \<open>Where it crashes\<close>

lemma cut_length: "length xs = (D + 1) * length (fst (cut_groups D xs)) + length (snd (cut_groups D xs))"
proof (induction xs rule: rev_induct)
  case (snoc x xs)
  then show ?case using cut_props(3) [of D xs] by (auto simp: add_group_def)
qed simp

lemma quotient_unique:
  fixes n :: nat
  assumes "r < n" "r' < n" "n * q + r = n * q' + r'"
  shows "q = q'"
proof -
  have "(n * a + b) div n = a" if "b < n" for a b using that by simp
  then show ?thesis using assms by metis
qed

lemma leaves_count:
  assumes "length rs = (D + 1) * q + r" "r < D + 1"
  shows "length (leaves D H S rs) = q"
proof -
  have "length (snd (cut_groups D rs)) < D + 1" using cut_props(3) [of D rs] by simp
  then have "length (fst (cut_groups D rs)) = q"
    using quotient_unique [OF _ assms(2), of "length (snd (cut_groups D rs))" "length (fst (cut_groups D rs))" q]
      cut_length [of rs D] assms(1) by simp
  then show ?thesis by (simp add: leaves_def)
qed

lemma tree_at_small: "1 \<le> unat d \<Longrightarrow> length (leaves (unat d) H S rs) \<le> unat d \<Longrightarrow> tree_at d H S rs = [leaves (unat d) H S rs]"
  by (simp add: tree_at_def levels_cut cut_short)

lemma leaves_snoc:
  "leaves D H S (rs @ [x]) = leaves D H S rs \<or> (\<exists>h. leaves D H S (rs @ [x]) = leaves D H S rs @ [h])"
  by (auto simp: leaves_def add_group_def)

lemma compare_loop_skip:
  assumes d: "2 \<le> unat d" and one: "ms_MaxLevel inM = 1"
  shows "length (leaves (unat d) H S (rs @ ys)) \<le> unat d \<Longrightarrow> \<exists>zs. ms_MaxLevelHashes inM = leaves (unat d) H S (rs @ ys) @ zs \<Longrightarrow>
    compare_loop d H S inM (length (leaves (unat d) H S rs)) rs (ys @ xs) =
      compare_loop d H S inM (length (leaves (unat d) H S (rs @ ys))) (rs @ ys) xs"
proof (induction ys arbitrary: rs)
  case (Cons y ys)
  let ?l = "leaves (unat d) H S"
  obtain zs where zs: "ms_MaxLevelHashes inM = ?l (rs @ y # ys) @ zs" using Cons.prems(2) by blast
  obtain us where us: "?l (rs @ y # ys) = ?l (rs @ [y]) @ us" using leaves_append [of "unat d" H S "rs @ [y]" ys] by auto
  have t: "tree_at d H S (rs @ [y]) = [?l (rs @ [y])]"
    by (rule tree_at_small) (use d Cons.prems(1) us in auto)
  have IH: "compare_loop d H S inM (length (?l (rs @ [y]))) (rs @ [y]) (ys @ xs) =
      compare_loop d H S inM (length (?l (rs @ y # ys))) (rs @ y # ys) xs"
    using Cons.IH [of "rs @ [y]"] Cons.prems by simp
  show ?case
  proof (cases "?l (rs @ [y]) = ?l rs")
    case True
    then show ?thesis using IH t one by simp
  next
    case False
    then obtain h where h: "?l (rs @ [y]) = ?l rs @ [h]" using leaves_snoc [of "unat d" H S rs y] by auto
    then show ?thesis using IH t one zs us by (simp add: nth_append)
  qed
qed simp

text \<open>C37: a recorded summary of exactly \<open>maxDegree\<close> hashes on the first level, of
  \<open>maxDegree * (maxDegree + 1)\<close> results, makes the validator panic as soon as the range has
  \<open>maxDegree + 1\<close> more results after them: the tree then moves up a level, where it has a single hash,
  and the validator indexes that level with the number of hashes it had matched below.
\<close>

theorem hash_validate_panics:
  assumes hs: "total_hash hashFunc H" "total_ser ser S" and ok: "ci_ok itr"
    and d: "2 \<le> d" "unat d + 1 < 2 ^ 32"
    and rs: "length rs = unat d * (unat d + 1)" and extra: "unat d < length extra"
    and itr: "map to_read (ci_rest itr) = rs @ extra"
  shows "hash_validate hashFunc ser (summary_of d H S rs) itr = Panic"
proof -
  let ?D = "unat d" and ?l = "leaves (unat d) H S" and ?in = "summary_of d H S rs"
  have d2: "2 \<le> ?D" using d(1) by (simp add: word_le_nat_alt)
  have len: "length (?l rs) = ?D" by (rule leaves_count [where r = 0]) (use rs in simp_all)
  have "(?D + 1) * ?D + length (snd (cut_groups ?D rs)) = (?D + 1) * ?D"
    using cut_length [of rs ?D] len rs unfolding leaves_def length_map by (simp only: mult.commute)
  then have "snd (cut_groups ?D rs) = []" by (simp only: add_eq_self_zero length_0_conv [symmetric])
  then have "map (\<lambda>g. H (S g)) (chunks (?D + 1) rs) = ?l rs" unfolding chunks_cut leaves_def by simp
  moreover have "summarise ?D H 1 (?l rs) = (1, ?l rs)" using len by (subst summarise.simps) simp
  ultimately have inM: "?in = \<lparr>ms_MaxDegree = d, ms_MaxLevel = 1, ms_MaxLevelHashes = ?l rs\<rparr>"
    unfolding summary_of_def by simp
  obtain helper where h: "NewRangeQueryResultsHelper True d = Inr helper" "helper_at d H S [] helper"
    using NewHelper_at [OF d] by blast
  let ?pre = "rs @ take ?D extra" and ?x = "extra ! ?D"
  have cnt: "length (?l ?pre) = ?D" by (rule leaves_count [where r = ?D]) (use rs extra in simp_all)
  obtain us where "?l ?pre = ?l rs @ us" using leaves_append by blast
  then have pre: "?l ?pre = ?l rs" using cnt len by simp
  have split: "rs @ extra = ?pre @ ?x # drop (Suc ?D) extra" using extra by (simp add: Cons_nth_drop_Suc)
  have one: "ms_MaxLevel ?in = 1" and l0: "?l [] = []" by (simp_all add: inM leaves_def)
  have bound: "length (?l ([] @ ?pre)) \<le> ?D" and pfx: "\<exists>zs. ms_MaxLevelHashes ?in = ?l ([] @ ?pre) @ zs"
    using cnt pre inM by simp_all
  have skip: "compare_loop d H S ?in 0 [] (?pre @ ?x # drop (Suc ?D) extra) =
      compare_loop d H S ?in ?D ?pre (?x # drop (Suc ?D) extra)"
    using compare_loop_skip [OF d2 one bound pfx, of "?x # drop (Suc ?D) extra"] by (simp only: l0 list.size append_Nil cnt)
  have "length (?l (?pre @ [?x])) = ?D + 1" by (rule leaves_count [where r = 0]) (use rs extra in simp_all)
  then obtain g where g: "?l (?pre @ [?x]) = ?l ?pre @ [g]" using leaves_snoc [of ?D H S ?pre ?x] cnt by auto
  have "tree_at d H S ?pre = [?l ?pre]" using d2 cnt by (simp add: tree_at_small)
  then have t: "\<exists>y. tree_at d H S (?pre @ [?x]) = [[], [y]]" using g cnt by (simp add: tree_at_def)
  then have "compare_loop d H S ?in ?D ?pre (?x # drop (Suc ?D) extra) = Panic" using inM len d2 by auto
  then have "compare_loop d H S ?in 0 [] (map to_read (ci_rest itr)) = Panic" using skip itr split by simp
  then show ?thesis using h inM hash_loop_compare [OF hs ok h(2)] by (simp add: hash_validate_def)
qed

theorem hash_validate_panics_witness:
  "hash_validate Inr (\<lambda>rs. Inr (concat (map kr_Key rs)))
     (summary_of 2 id (\<lambda>rs. concat (map kr_Key rs))
        (map (to_read \<circ> sample_kv) [''a'', ''b'', ''c'', ''d'', ''e'', ''f'']))
     (list_itr (map sample_kv [''a'', ''b'', ''c'', ''d'', ''e'', ''f'', ''g'', ''h'', ''i''])) = Panic"
proof -
  let ?xs = "map sample_kv [''a'', ''b'', ''c'', ''d'', ''e'', ''f'', ''g'', ''h'', ''i'']"
  have rest: "ci_rest (list_itr ?xs) = ?xs" by (rule list_itr_rest) (simp add: sample_kv_def IsDelete_def)
  show ?thesis
    by (rule hash_validate_panics [where extra = "map (to_read \<circ> sample_kv) [''g'', ''h'', ''i'']"])
      (simp_all add: rest [simplified] list_itr_ok total_hash_def total_ser_def)
qed

end
