(* ===== verification/Mvcc.thy ===== *)
theory Mvcc
  imports Merkle Tx_Ops
begin

text \<open>
  The state-based validation of a block (\<^verbatim>\<open>core/ledger/kvledger/txmgmt/validation/validator.go\<close>): every
  transaction is checked against the committed state and the updates of the preceding valid
  transactions; the writes of a valid transaction join the updates.  The lemmas characterise each check
  by the latest state, and show that a validated block behaves as if its valid transactions had been
  executed one after the other.
\<close>

section \<open>Transactions and the loops of the checks\<close>

datatype TxValidationCode = VALID | MVCC_READ_CONFLICT | PHANTOM_READ_CONFLICT

record transaction =
  t_indexInBlock :: nat
  t_id :: string
  t_rwset :: TxRwSet
  t_validationCode :: TxValidationCode
  t_containsPostOrderWrites :: bool

record block =
  b_num :: u64
  b_txs :: "transaction list"

record validator =
  vr_db :: DB
  vr_hashFunc :: HashFunc

text \<open>
  What the checks use of other packages: the serialisation of reads and of metadata entries, and the
  hash of the empty string.
\<close>

record libs =
  lb_serializeKVReads :: "KVRead list \<Rightarrow> string + bytes"
  lb_Serialize :: "KVMetadataEntry list \<Rightarrow> string + bytes"
  lb_zeroHash :: bytes

fun all_res :: "('a \<Rightarrow> bool res) \<Rightarrow> 'a list \<Rightarrow> bool res" where
  "all_res f [] = ret True"
| "all_res f (x # xs) = res_bind (f x) (\<lambda>valid. if \<not> valid then ret valid else all_res f xs)"

lemma all_res_eq: "(\<And>x. x \<in> set xs \<Longrightarrow> f x = ret (P x)) \<Longrightarrow> all_res f xs = ret (\<forall>x \<in> set xs. P x)"
  by (induction xs) simp_all

definition NewVersion :: "ProtoVersion option \<Rightarrow> Height option" where
  "NewVersion protoVersion =
     (case protoVersion of None \<Rightarrow> None | Some v \<Rightarrow> Some (Height (pv_BlockNum v) (pv_TxNum v)))"

section \<open>Reads\<close>

definition validateKVRead :: "validator \<Rightarrow> string \<Rightarrow> UpdateBatch \<Rightarrow> KVRead \<Rightarrow> bool res" where
  "validateKVRead v ns updates kvRead =
     (let readVersion = NewVersion (kr_Version kvRead)
      in if ub_Exists updates ns (kr_Key kvRead) then ret False
         else res_bind (lift_err (vd_GetVersion (pd_db (vr_db v)) ns (kr_Key kvRead))) (\<lambda>committedVersion.
           if \<not> AreSame committedVersion readVersion then ret False else ret True))"

definition validateReadSet :: "validator \<Rightarrow> string \<Rightarrow> KVRead list \<Rightarrow> UpdateBatch \<Rightarrow> bool res" where
  "validateReadSet v ns kvReads updates = all_res (validateKVRead v ns updates) kvReads"

definition validateKVReadHash :: "validator \<Rightarrow> string \<Rightarrow> string \<Rightarrow> UpdateMap \<Rightarrow> KVReadHash \<Rightarrow> bool res" where
  "validateKVReadHash v ns coll updates kvReadHash =
     (let readHashVersion = NewVersion (krh_Version kvReadHash)
      in if um_Contains updates ns coll (krh_KeyHash kvReadHash) then ret False
         else res_bind (lift_err (GetKeyHashVersion (vr_db v) ns coll (krh_KeyHash kvReadHash))) (\<lambda>committedVersion.
           if \<not> AreSame committedVersion readHashVersion then ret False else ret True))"

definition validateCollHashedReadSet :: "validator \<Rightarrow> string \<Rightarrow> string \<Rightarrow> KVReadHash list \<Rightarrow> UpdateMap \<Rightarrow> bool res" where
  "validateCollHashedReadSet v ns coll kvReadHashes updates = all_res (validateKVReadHash v ns coll updates) kvReadHashes"

definition validateNsHashedReadSets :: "validator \<Rightarrow> string \<Rightarrow> CollHashedRwSet list \<Rightarrow> UpdateMap \<Rightarrow> bool res" where
  "validateNsHashedReadSets v ns collHashedRWSets updates =
     all_res (\<lambda>c. validateCollHashedReadSet v ns (chr_CollectionName c) (hrw_HashedReads (chr_HashedRwSet c)) updates)
       collHashedRWSets"

section \<open>Range queries\<close>

definition validateRangeQuery :: "libs \<Rightarrow> validator \<Rightarrow> string \<Rightarrow> UpdateBatch \<Rightarrow> RangeQueryInfo \<Rightarrow> bool res" where
  "validateRangeQuery lb v ns updates rangeQueryInfo =
     (let includeEndKey = \<not> rq_ItrExhausted rangeQueryInfo
      in res_bind (newCombinedIterator (pd_db (vr_db v)) updates ns (rq_StartKey rangeQueryInfo) (rq_EndKey rangeQueryInfo) includeEndKey)
           (\<lambda>combinedItr.
             case rq_ReadsInfo rangeQueryInfo of
               MerkleHashes summary \<Rightarrow> hash_validate (vr_hashFunc v) (lb_serializeKVReads lb) summary combinedItr
             | _ \<Rightarrow> results_validate rangeQueryInfo combinedItr))"

definition validateRangeQueries :: "libs \<Rightarrow> validator \<Rightarrow> string \<Rightarrow> RangeQueryInfo list \<Rightarrow> UpdateBatch \<Rightarrow> bool res" where
  "validateRangeQueries lb v ns rangeQueriesInfo updates = all_res (validateRangeQuery lb v ns updates) rangeQueriesInfo"

section \<open>Transactions\<close>

fun validateTx :: "libs \<Rightarrow> validator \<Rightarrow> TxRwSet \<Rightarrow> publicAndHashUpdates \<Rightarrow> TxValidationCode res" where
  "validateTx lb v [] updates = ret VALID"
| "validateTx lb v (nsRWSet # rest) updates =
     (let ns = nsr_NameSpace nsRWSet
      in res_bind (validateReadSet v ns (rw_Reads (nsr_KvRwSet nsRWSet)) (ph_public updates)) (\<lambda>valid.
           if \<not> valid then ret MVCC_READ_CONFLICT
           else res_bind (validateRangeQueries lb v ns (rw_RangeQueriesInfo (nsr_KvRwSet nsRWSet)) (ph_public updates)) (\<lambda>valid.
             if \<not> valid then ret PHANTOM_READ_CONFLICT
             else res_bind (validateNsHashedReadSets v ns (nsr_CollHashedRwSets nsRWSet) (ph_hash updates)) (\<lambda>valid.
               if \<not> valid then ret MVCC_READ_CONFLICT else validateTx lb v rest updates))))"

definition validateEndorserTX :: "libs \<Rightarrow> validator \<Rightarrow> TxRwSet \<Rightarrow> bool \<Rightarrow> publicAndHashUpdates \<Rightarrow> TxValidationCode res" where
  "validateEndorserTX lb v txRWSet doMVCCValidation updates =
     (if doMVCCValidation then validateTx lb v txRWSet updates else ret VALID)"

section \<open>Purges\<close>

record AppInitiatedPurgeUpdate =
  au_CompositeKey :: HashedCompositeKey
  au_Version :: Height

type_synonym pvtdataPurgeTracker = "HashedCompositeKey \<rightharpoonup> AppInitiatedPurgeUpdate"

definition purge_key :: "string \<Rightarrow> string \<Rightarrow> KVWriteHash \<Rightarrow> HashedCompositeKey" where
  "purge_key ns coll w = \<lparr>hck_Namespace = ns, hck_CollectionName = coll, hck_KeyHash = kwh_KeyHash w\<rparr>"

definition purge_update :: "TxRwSet \<Rightarrow> Height \<Rightarrow> pvtdataPurgeTracker \<Rightarrow> pvtdataPurgeTracker" where
  "purge_update rwset ver p =
     fold (\<lambda>n. fold (\<lambda>c. fold (\<lambda>w p.
         let ck = purge_key (nsr_NameSpace n) (chr_CollectionName c) w
         in if kwh_IsPurge w then p(ck \<mapsto> \<lparr>au_CompositeKey = ck, au_Version = ver\<rparr>) else p)
       (hrw_HashedWrites (chr_HashedRwSet c))) (nsr_CollHashedRwSets n)) rwset p"

text \<open>The purges as a list, in the order \<open>ord\<close> in which the map is visited.\<close>

definition getUpdates :: "HashedCompositeKey list \<Rightarrow> pvtdataPurgeTracker \<Rightarrow> AppInitiatedPurgeUpdate list" where
  "getUpdates ord p = List.map_filter p ord"

section \<open>Blocks\<close>

fun pub_keys :: "TxRwSet \<Rightarrow> CompositeKey list" where
  "pub_keys [] = []"
| "pub_keys (n # rwset) =
     map (\<lambda>r. \<lparr>ck_Namespace = nsr_NameSpace n, ck_Key = kr_Key r\<rparr>) (rw_Reads (nsr_KvRwSet n)) @ pub_keys rwset"

fun hashed_keys :: "TxRwSet \<Rightarrow> HashedCompositeKey list" where
  "hashed_keys [] = []"
| "hashed_keys (n # rwset) =
     concat (map (\<lambda>c. map (\<lambda>r. \<lparr>hck_Namespace = nsr_NameSpace n, hck_CollectionName = chr_CollectionName c, hck_KeyHash = krh_KeyHash r\<rparr>)
       (hrw_HashedReads (chr_HashedRwSet c))) (nsr_CollHashedRwSets n)) @ hashed_keys rwset"

text \<open>A key joins the list when it is not in the map of the keys seen so far.\<close>

definition collect :: "'a list \<Rightarrow> 'a list" where
  "collect ks = fold (\<lambda>k seen. if k \<in> set seen then seen else seen @ [k]) ks []"

definition preLoadCommittedVersionOfRSet :: "validator \<Rightarrow> block \<Rightarrow> string option" where
  "preLoadCommittedVersionOfRSet v blk =
     (let pubKeys = collect (concat (map (\<lambda>tx. pub_keys (t_rwset tx)) (b_txs blk)));
          hashedKeys = collect (concat (map (\<lambda>tx. hashed_keys (t_rwset tx)) (b_txs blk)))
      in if length pubKeys > 0 \<or> length hashedKeys > 0
         then LoadCommittedVersionsOfPubAndHashedKeys (vr_db v) pubKeys hashedKeys else None)"

type_synonym ords = "nat \<Rightarrow> compositeKey list \<times> compositeKey list"

definition validate_one ::
  "libs \<Rightarrow> validator \<Rightarrow> ords \<Rightarrow> u64 \<Rightarrow> bool \<Rightarrow> transaction \<Rightarrow> publicAndHashUpdates \<Rightarrow> pvtdataPurgeTracker \<Rightarrow>
     (transaction \<times> publicAndHashUpdates \<times> pvtdataPurgeTracker) res" where
  "validate_one lb v ords num doMVCCValidation tx updates purgeTracker =
     res_bind (validateEndorserTX lb v (t_rwset tx) doMVCCValidation updates) (\<lambda>validationCode.
       let tx' = tx\<lparr>t_validationCode := validationCode\<rparr>
       in if validationCode = VALID then
            let committingTxHeight = Height num (of_nat (t_indexInBlock tx));
                (ord, ord') = ords (t_indexInBlock tx)
            in res_bind (applyWriteSet (lb_Serialize lb) (lb_zeroHash lb) ord ord' (t_rwset tx) committingTxHeight (vr_db v)
                  (t_containsPostOrderWrites tx) updates) (\<lambda>updates'.
                 ret (tx', updates', purge_update (t_rwset tx) committingTxHeight purgeTracker))
          else ret (tx', updates, purgeTracker))"

fun validate_txs ::
  "libs \<Rightarrow> validator \<Rightarrow> ords \<Rightarrow> u64 \<Rightarrow> bool \<Rightarrow> transaction list \<Rightarrow> publicAndHashUpdates \<Rightarrow> pvtdataPurgeTracker \<Rightarrow>
     (transaction list \<times> publicAndHashUpdates \<times> pvtdataPurgeTracker) res" where
  "validate_txs lb v ords num doMVCCValidation [] updates purgeTracker = ret ([], updates, purgeTracker)"
| "validate_txs lb v ords num doMVCCValidation (tx # txs) updates purgeTracker =
     res_bind (validate_one lb v ords num doMVCCValidation tx updates purgeTracker) (\<lambda>(tx', updates', purgeTracker').
     res_bind (validate_txs lb v ords num doMVCCValidation txs updates' purgeTracker') (\<lambda>(txs', r).
       ret (tx' # txs', r)))"

definition validateAndPrepareBatch ::
  "libs \<Rightarrow> validator \<Rightarrow> ords \<Rightarrow> HashedCompositeKey list \<Rightarrow> block \<Rightarrow> bool \<Rightarrow>
     (block \<times> publicAndHashUpdates \<times> AppInitiatedPurgeUpdate list) res" where
  "validateAndPrepareBatch lb v ords pord blk doMVCCValidation =
     (case (if IsBulkOptimizable (vr_db v) then preLoadCommittedVersionOfRSet v blk else None) of
        Some e \<Rightarrow> err e
      | None \<Rightarrow>
          res_bind (validate_txs lb v ords (b_num blk) doMVCCValidation (b_txs blk) newPubAndHashUpdates Map.empty)
            (\<lambda>(txs, updates, purgeTracker). ret (blk\<lparr>b_txs := txs\<rparr>, updates, getUpdates pord purgeTracker)))"

section \<open>The specification\<close>

type_synonym state = "compositeKey \<Rightarrow> VersionedValue option"

text \<open>
  The recorded results of a range query are those of the state: the reads themselves, or their summary.
\<close>

definition query_matches :: "(bytes \<Rightarrow> bytes) \<Rightarrow> (KVRead list \<Rightarrow> bytes) \<Rightarrow> state \<Rightarrow> string \<Rightarrow> RangeQueryInfo \<Rightarrow> bool" where
  "query_matches H S st ns q \<longleftrightarrow>
     (\<exists>m. (\<forall>k. fmlookup m k = st (ns, '''', k)) \<and>
       (let results = range_results ns m (rq_StartKey q) (rq_EndKey q) (\<not> rq_ItrExhausted q)
        in case rq_ReadsInfo q of
             MerkleHashes s \<Rightarrow> merkleSummariesEqual s (final_summary (ms_MaxDegree s) H S (map to_read results))
           | info \<Rightarrow> map read_entry (GetKvReads info) = map result_entry results))"

text \<open>
  A transaction is current in a state when no key it has read is among the keys \<open>W\<close> written in the block,
  every version it has read is the version of the state, and so are the results of its range queries.
\<close>

definition ns_current :: "(bytes \<Rightarrow> bytes) \<Rightarrow> (KVRead list \<Rightarrow> bytes) \<Rightarrow> compositeKey set \<Rightarrow> state \<Rightarrow> NsRwSet \<Rightarrow> bool" where
  "ns_current H S W st n \<longleftrightarrow>
     (let ns = nsr_NameSpace n; current = (\<lambda>ck ver. ck \<notin> W \<and> version_of (st ck) = NewVersion ver)
      in (\<forall>r \<in> set (rw_Reads (nsr_KvRwSet n)). current (ns, '''', kr_Key r) (kr_Version r)) \<and>
         (\<forall>q \<in> set (rw_RangeQueriesInfo (nsr_KvRwSet n)). query_matches H S st ns q) \<and>
         (\<forall>c \<in> set (nsr_CollHashedRwSets n). \<forall>r \<in> set (hrw_HashedReads (chr_HashedRwSet c)).
            current (ns, chr_CollectionName c, krh_KeyHash r) (krh_Version r)))"

definition tx_current :: "(bytes \<Rightarrow> bytes) \<Rightarrow> (KVRead list \<Rightarrow> bytes) \<Rightarrow> compositeKey set \<Rightarrow> state \<Rightarrow> TxRwSet \<Rightarrow> bool" where
  "tx_current H S W st rwset \<longleftrightarrow> (\<forall>n \<in> set rwset. ns_current H S W st n)"

definition tx_write :: "Height \<Rightarrow> op list \<Rightarrow> state \<Rightarrow> state" where
  "tx_write h ops st = (\<lambda>ck. effect h (map_of (kv_writes ops) ck) (map_of (md_writes ops) ck) (st ck))"

text \<open>
  The serial execution of a block: the transactions one after the other, each marked valid exactly when
  it is current at its turn, and the state changed by the valid ones.
\<close>

inductive serial ::
  "(bytes \<Rightarrow> bytes) \<Rightarrow> (KVRead list \<Rightarrow> bytes) \<Rightarrow> (TxRwSet \<Rightarrow> op list) \<Rightarrow> u64 \<Rightarrow>
     compositeKey set \<Rightarrow> state \<Rightarrow> transaction list \<Rightarrow> state \<Rightarrow> bool"
  for H S ops num where
  serial_Nil: "serial H S ops num W st [] st"
| serial_valid:
    "t_validationCode tx = VALID \<Longrightarrow> tx_current H S W st (t_rwset tx) \<Longrightarrow>
     serial H S ops num (W \<union> writes_to (ops (t_rwset tx)) st)
       (tx_write (Height num (of_nat (t_indexInBlock tx))) (ops (t_rwset tx)) st) txs st' \<Longrightarrow>
     serial H S ops num W st (tx # txs) st'"
| serial_invalid:
    "t_validationCode tx \<noteq> VALID \<Longrightarrow> \<not> tx_current H S W st (t_rwset tx) \<Longrightarrow>
     serial H S ops num W st txs st' \<Longrightarrow> serial H S ops num W st (tx # txs) st'"

inductive_cases serial_ConsE: "serial H S ops num W st (tx # txs) st'"
inductive_simps serial_simps: "serial H S ops num W st [] st'" "serial H S ops num W st (tx # txs) st'"

text \<open>The codes and the final state of a serial execution are determined by the block.\<close>

lemma serial_deterministic:
  "serial H S ops num W st txs st' \<Longrightarrow> serial H S ops num W st txs' st'' \<Longrightarrow>
     map t_rwset txs = map t_rwset txs' \<Longrightarrow> map t_indexInBlock txs = map t_indexInBlock txs' \<Longrightarrow>
     st' = st'' \<and> map (\<lambda>tx. t_validationCode tx = VALID) txs = map (\<lambda>tx. t_validationCode tx = VALID) txs'"
proof (induction arbitrary: txs' rule: serial.induct)
  case (serial_valid tx W st txs st')
  then obtain tx' rest where "txs' = tx' # rest" by (cases txs') auto
  then show ?case using serial_valid by (auto elim!: serial_ConsE)
next
  case (serial_invalid tx W st txs st')
  then obtain tx' rest where "txs' = tx' # rest" by (cases txs') auto
  then show ?case using serial_invalid by (auto elim!: serial_ConsE)
qed (simp add: serial_simps)

section \<open>The blocks the specification speaks about\<close>

text \<open>
  Raw reads carry versions; a summary has a degree the tree accepts and fewer hashes than the degree.
\<close>

definition query_ok :: "RangeQueryInfo \<Rightarrow> bool" where
  "query_ok q \<longleftrightarrow>
     (case rq_ReadsInfo q of
        MerkleHashes s \<Rightarrow> 2 \<le> ms_MaxDegree s \<and> unat (ms_MaxDegree s) + 1 < 2 ^ 32 \<and> length (ms_MaxLevelHashes s) < unat (ms_MaxDegree s)
      | info \<Rightarrow> (\<forall>r \<in> set (GetKvReads info). kr_Version r \<noteq> None))"

definition ns_ok :: "(string \<Rightarrow> bool) \<Rightarrow> NsRwSet \<Rightarrow> bool" where
  "ns_ok valid_ns n \<longleftrightarrow> valid_ns (nsr_NameSpace n) \<and> plain_ns (nsr_NameSpace n) \<and> (\<forall>q \<in> set (rw_RangeQueriesInfo (nsr_KvRwSet n)). query_ok q) \<and>
     (\<forall>c \<in> set (nsr_CollHashedRwSets n).
        chr_CollectionName c \<noteq> '''' \<and> valid_ns (deriveHashedDataNs (nsr_NameSpace n) (chr_CollectionName c)))"

definition block_ops :: "(TxRwSet \<Rightarrow> op list) \<Rightarrow> transaction list \<Rightarrow> op list" where
  "block_ops ops txs = concat (map (\<lambda>tx. ops (t_rwset tx)) txs)"

text \<open>
  No transaction of the block deletes a key whose metadata another one writes on its own.
\<close>

definition keeps_metadata :: "op list \<Rightarrow> op list \<Rightarrow> bool" where
  "keeps_metadata B ops \<longleftrightarrow>
     (\<forall>ck \<in> set (map fst (md_writes ops)). KvOp ck None \<in> set B \<longrightarrow> ck \<in> set (map fst (kv_writes ops)))"

definition orders_keys :: "op list \<Rightarrow> compositeKey list \<times> compositeKey list \<Rightarrow> bool" where
  "orders_keys ops = (\<lambda>(ord, ord'). distinct ord \<and> set ord = op_keys ops \<and> set ord' = op_keys ops)"

definition tx_ok :: "(string \<Rightarrow> bool) \<Rightarrow> (TxRwSet \<Rightarrow> op list) \<Rightarrow> op list \<Rightarrow> ords \<Rightarrow> transaction \<Rightarrow> bool" where
  "tx_ok valid_ns ops B ords tx \<longleftrightarrow>
     (\<forall>n \<in> set (t_rwset tx). ns_ok valid_ns n) \<and> wf_ops (ops (t_rwset tx)) \<and> keeps_metadata B (ops (t_rwset tx)) \<and>
     orders_keys (ops (t_rwset tx)) (ords (t_indexInBlock tx)) \<and> set (ops (t_rwset tx)) \<subseteq> set B"

section \<open>What each check decides\<close>

lemma range_results_length: "length (range_results ns m a b e) \<le> card (fmdom' m) + 1"
proof -
  have "length (ns_range ns m a b) \<le> length (GetSortedKeys m)" by (simp add: ns_range_def)
  also have "\<dots> = card (fmdom' m)"
    by (simp add: GetSortedKeys_def sorted_list_of_fset.rep_eq fmdom'_alt_def)
  finally show ?thesis by (simp add: range_results_def split: option.split)
qed

context privacy_db
begin

lemma overlaid_latest:
  assumes "valid_ns ns"
  shows "fmlookup (overlaid (content ns) (getOrCreateNsUpdates ns (ph_public u))) k = latest content db u (ns, '''', k)"
proof -
  have "ub_Get (ph_public u) ns k = fmlookup (getOrCreateNsUpdates ns (ph_public u)) k"
    by (simp add: ub_Get_def getOrCreateNsUpdates_def split: option.split)
  then show ?thesis using live [OF assms, of k]
    by (auto simp: overlaid_lookup latest_def pending_def committed_def IsDelete_def split: option.split)
qed

lemma validateKVRead_eq:
  "valid_ns ns \<Longrightarrow> validateKVRead \<lparr>vr_db = db, vr_hashFunc = hf\<rparr> ns (ph_public u) r =
     ret (pending u (ns, '''', kr_Key r) = None \<and> version_of (latest content db u (ns, '''', kr_Key r)) = NewVersion (kr_Version r))"
  by (auto simp: validateKVRead_def pending_def latest_def committed_def GetVersion AreSame_iff ub_Exists_iff Let_def)

lemma validateKVReadHash_eq:
  "valid_ns (deriveHashedDataNs ns coll) \<Longrightarrow> coll \<noteq> '''' \<Longrightarrow>
     validateKVReadHash \<lparr>vr_db = db, vr_hashFunc = hf\<rparr> ns coll (ph_hash u) r =
     ret (pending u (ns, coll, krh_KeyHash r) = None \<and>
          version_of (latest content db u (ns, coll, krh_KeyHash r)) = NewVersion (krh_Version r))"
  by (auto simp: validateKVReadHash_def pending_def latest_def committed_def GetKeyHashVersion_def GetVersion AreSame_iff
      um_Contains_iff Let_def)

end

context privacy_db
begin

lemma query_matches_eq:
  assumes "valid_ns ns"
  shows "query_matches H S (latest content db u) ns q \<longleftrightarrow>
    (let results = range_results ns (overlaid (content ns) (getOrCreateNsUpdates ns (ph_public u)))
           (rq_StartKey q) (rq_EndKey q) (\<not> rq_ItrExhausted q)
     in case rq_ReadsInfo q of
          MerkleHashes s \<Rightarrow> merkleSummariesEqual s (final_summary (ms_MaxDegree s) H S (map to_read results))
        | info \<Rightarrow> map read_entry (GetKvReads info) = map result_entry results)"
proof -
  have "m = overlaid (content ns) (getOrCreateNsUpdates ns (ph_public u))"
    if "\<forall>k. fmlookup m k = latest content db u (ns, '''', k)" for m
    by (rule fmap_ext) (simp add: that overlaid_latest [OF assms])
  then have "(\<exists>m. (\<forall>k. fmlookup m k = latest content db u (ns, '''', k)) \<and> P m) \<longleftrightarrow>
      P (overlaid (content ns) (getOrCreateNsUpdates ns (ph_public u)))" for P
    using overlaid_latest [OF assms] by blast
  then show ?thesis unfolding query_matches_def .
qed

lemma validateRangeQuery_eq:
  assumes "valid_ns ns" "query_ok q" "total_hash hf H" "total_ser (lb_serializeKVReads lb) S"
    and size: "card (fmdom' (overlaid (content ns) (getOrCreateNsUpdates ns (ph_public u)))) + 4 < 2 ^ 32"
  shows "validateRangeQuery lb \<lparr>vr_db = db, vr_hashFunc = hf\<rparr> ns (ph_public u) q = ret (query_matches H S (latest content db u) ns q)"
proof -
  let ?res = "range_results ns (overlaid (content ns) (getOrCreateNsUpdates ns (ph_public u)))
           (rq_StartKey q) (rq_EndKey q) (\<not> rq_ItrExhausted q)"
  obtain itr where itr: "newCombinedIterator (pd_db db) (ph_public u) ns (rq_StartKey q) (rq_EndKey q) (\<not> rq_ItrExhausted q) = ret itr"
    "ci_ok itr" "ci_rest itr = ?res"
    using newCombinedIterator_rest [OF assms(1)] by blast
  have len: "length (ci_rest itr) + 3 < 2 ^ 32"
    using range_results_length [of ns "overlaid (content ns) (getOrCreateNsUpdates ns (ph_public u))"
        "rq_StartKey q" "rq_EndKey q" "\<not> rq_ItrExhausted q"] size itr(3) by simp
  show ?thesis
  proof (cases "rq_ReadsInfo q")
    case (MerkleHashes s)
    then have "hash_validate hf (lb_serializeKVReads lb) s itr =
        ret (merkleSummariesEqual s (final_summary (ms_MaxDegree s) H S (map to_read (ci_rest itr))))"
      using assms(2) by (intro hash_validate_eq [OF assms(3,4) itr(2) _ _ _ len]) (simp_all add: query_ok_def)
    then show ?thesis using MerkleHashes itr
      by (simp add: validateRangeQuery_def query_matches_eq [OF assms(1)])
  next
    case (RawReads rs)
    then have "results_validate q itr = ret (map read_entry rs = map result_entry (ci_rest itr))"
      using results_validate_correct [OF itr(2), of q] assms(2) by (simp add: query_ok_def GetKvReads_def)
    then show ?thesis using RawReads itr
      by (simp add: validateRangeQuery_def query_matches_eq [OF assms(1)] GetKvReads_def)
  next
    case NoReadsInfo
    then have "results_validate q itr = ret (map read_entry [] = map result_entry (ci_rest itr))"
      using results_validate_correct [OF itr(2), of q] by (simp add: GetKvReads_def)
    then show ?thesis using NoReadsInfo itr
      by (simp add: validateRangeQuery_def query_matches_eq [OF assms(1)] GetKvReads_def)
  qed
qed

text \<open>The reason of a conflict: the first check that fails.\<close>

lemma validateTx_eq:
  assumes hs: "total_hash hf H" "total_ser (lb_serializeKVReads lb) S"
    and size: "\<And>ns. valid_ns ns \<Longrightarrow> card (fmdom' (overlaid (content ns) (getOrCreateNsUpdates ns (ph_public u)))) + 4 < 2 ^ 32"
  shows "\<forall>n \<in> set rwset. ns_ok valid_ns n \<Longrightarrow>
    \<exists>code. validateTx lb \<lparr>vr_db = db, vr_hashFunc = hf\<rparr> rwset u = ret code \<and>
      (code = VALID \<longleftrightarrow> tx_current H S {ck. pending u ck \<noteq> None} (latest content db u) rwset)"
proof (induction rwset)
  case (Cons n rwset)
  let ?v = "\<lparr>vr_db = db, vr_hashFunc = hf\<rparr>" and ?ns = "nsr_NameSpace n" and ?st = "latest content db u"
  have n: "valid_ns ?ns" using Cons.prems by (simp add: ns_ok_def)
  have reads: "validateReadSet ?v ?ns (rw_Reads (nsr_KvRwSet n)) (ph_public u) = ret (\<forall>r \<in> set (rw_Reads (nsr_KvRwSet n)).
      pending u (?ns, '''', kr_Key r) = None \<and> version_of (?st (?ns, '''', kr_Key r)) = NewVersion (kr_Version r))"
    unfolding validateReadSet_def by (rule all_res_eq) (rule validateKVRead_eq [OF n])
  have queries: "validateRangeQueries lb ?v ?ns (rw_RangeQueriesInfo (nsr_KvRwSet n)) (ph_public u) =
      ret (\<forall>q \<in> set (rw_RangeQueriesInfo (nsr_KvRwSet n)). query_matches H S ?st ?ns q)"
    unfolding validateRangeQueries_def
    by (rule all_res_eq, rule validateRangeQuery_eq [OF n _ hs size [OF n]]) (use Cons.prems in \<open>simp add: ns_ok_def\<close>)
  have hashes: "validateNsHashedReadSets ?v ?ns (nsr_CollHashedRwSets n) (ph_hash u) =
      ret (\<forall>c \<in> set (nsr_CollHashedRwSets n). \<forall>r \<in> set (hrw_HashedReads (chr_HashedRwSet c)).
        pending u (?ns, chr_CollectionName c, krh_KeyHash r) = None \<and>
        version_of (?st (?ns, chr_CollectionName c, krh_KeyHash r)) = NewVersion (krh_Version r))"
    unfolding validateNsHashedReadSets_def validateCollHashedReadSet_def
    by (rule all_res_eq, rule all_res_eq, rule validateKVReadHash_eq) (use Cons.prems in \<open>auto simp: ns_ok_def\<close>)
  obtain code where "validateTx lb ?v rwset u = ret code"
    "code = VALID \<longleftrightarrow> tx_current H S {ck. pending u ck \<noteq> None} ?st rwset" using Cons by auto
  then show ?case
    by (simp add: Let_def reads queries hashes tx_current_def ns_current_def)
qed (simp add: tx_current_def)

end

section \<open>The block\<close>

fun op_key :: "op \<Rightarrow> compositeKey" where
  "op_key (KvOp ck v) = ck"
| "op_key (MdOp ck v) = ck"

lemma set_writes:
  "set (kv_writes ops) = {(ck, v). KvOp ck v \<in> set ops}" "set (md_writes ops) = {(ck, v). MdOp ck v \<in> set ops}"
proof -
  have "set (kv_writes ops) = {(ck, v). KvOp ck v \<in> set ops} \<and> set (md_writes ops) = {(ck, v). MdOp ck v \<in> set ops}"
  proof (induction ops)
    case (Cons x ops)
    then show ?case by (cases x) auto
  qed simp
  then show "set (kv_writes ops) = {(ck, v). KvOp ck v \<in> set ops}" "set (md_writes ops) = {(ck, v). MdOp ck v \<in> set ops}"
    by blast+
qed

lemma op_keys_eq: "op_keys ops = op_key ` set ops"
proof (induction ops)
  case (Cons x ops)
  then show ?case by (cases x) (simp_all add: op_keys_def)
qed (simp add: op_keys_def)

lemma op_keys_valid:
  assumes "\<forall>n \<in> set rwset. ns_ok valid_ns n" "ck \<in> op_keys (tx_ops Ser zeroHash rwset)"
  shows "valid_key valid_ns ck"
  using assms
  by (auto simp: op_keys_eq tx_ops_def ns_ops_def coll_ops_def kv_op_def md_op_def ns_ok_def valid_key_def)

text \<open>The updates hold only what the operations \<open>B\<close> of the block write.\<close>

definition upd_inv :: "op list \<Rightarrow> publicAndHashUpdates \<Rightarrow> bool" where
  "upd_inv B u \<longleftrightarrow> wf_updates u \<and>
     (\<forall>ck vv. pending u ck = Some vv \<longrightarrow> ck \<in> op_keys B \<and> (IsDelete vv \<longrightarrow> KvOp ck None \<in> set B))"

lemma upd_inv_new: "upd_inv B newPubAndHashUpdates"
  by (simp add: upd_inv_def wf_updates_def newPubAndHashUpdates_def pending_def NewUpdateBatch_def ub_Get_def um_Get_def)

lemma upd_inv_touched:
  assumes "upd_inv B u" "wf_updates u'" "touched u ops u'" "set ops \<subseteq> set B"
  shows "upd_inv B u'"
proof -
  have "ck \<in> op_keys B \<and> (IsDelete vv \<longrightarrow> KvOp ck None \<in> set B)" if p: "pending u' ck = Some vv" for ck vv
  proof -
    consider "pending u ck = Some vv" | "ck \<in> op_keys ops" "IsDelete vv \<longrightarrow> map_of (kv_writes ops) ck = Some None"
      using p assms(3) unfolding touched_def by blast
    then show ?thesis
    proof cases
      case 1
      then show ?thesis using assms(1) unfolding upd_inv_def by blast
    next
      case 2
      have "op_keys ops \<subseteq> op_keys B" using assms(4) by (auto simp: op_keys_eq)
      moreover have "KvOp ck None \<in> set ops" if "map_of (kv_writes ops) ck = Some None"
        using map_of_SomeD [OF that] by (simp add: set_writes)
      ultimately show ?thesis using 2 assms(4) by blast
    qed
  qed
  then show ?thesis using assms(2) unfolding upd_inv_def by blast
qed

lemma upd_inv_revives:
  assumes "upd_inv B u" "keeps_metadata B ops"
  shows "\<not> revives u ck (map_of (kv_writes ops) ck) (map_of (md_writes ops) ck)"
proof
  assume r: "revives u ck (map_of (kv_writes ops) ck) (map_of (md_writes ops) ck)"
  then obtain vv where "pending u ck = Some vv" "IsDelete vv" by (auto simp: revives_def split: option.splits)
  then have "KvOp ck None \<in> set B" using assms(1) unfolding upd_inv_def by blast
  then show False using r assms(2) by (auto simp: revives_def keeps_metadata_def map_of_eq_None_iff)
qed

lemma upd_inv_size:
  assumes "upd_inv B u"
  shows "card (fmdom' (overlaid c (getOrCreateNsUpdates ns (ph_public u)))) \<le> card (fmdom' c) + length B"
proof -
  let ?U = "getOrCreateNsUpdates ns (ph_public u)"
  have "fmdom' (overlaid c ?U) \<subseteq> fmdom' c \<union> fmdom' ?U"
    by (auto simp: overlaid_lookup fmlookup_dom'_iff split: option.splits if_splits)
  then have "card (fmdom' (overlaid c ?U)) \<le> card (fmdom' c \<union> fmdom' ?U)" by (intro card_mono) simp_all
  also have "\<dots> \<le> card (fmdom' c) + card (fmdom' ?U)" by (rule card_Un_le)
  also have "card (fmdom' ?U) \<le> card ((\<lambda>(_, _, k). k) ` op_key ` set B)"
  proof (rule card_mono)
    show "fmdom' ?U \<subseteq> (\<lambda>(_, _, k). k) ` op_key ` set B"
    proof
      fix k assume "k \<in> fmdom' ?U"
      then obtain vv where "pending u (ns, '''', k) = Some vv"
        by (auto simp: fmlookup_dom'_iff pending_def ub_Get_def getOrCreateNsUpdates_def split: option.splits)
      then have "(ns, '''', k) \<in> op_key ` set B" using assms unfolding upd_inv_def op_keys_eq by blast
      then show "k \<in> (\<lambda>(_, _, k). k) ` op_key ` set B" by force
    qed
  qed simp
  also have "\<dots> \<le> length B" by (meson card_image_le card_length finite_imageI finite_set le_trans)
  finally show ?thesis by simp
qed

text \<open>The transactions of a validated block differ from the given ones in their codes only.\<close>

definition marked :: "transaction list \<Rightarrow> transaction list \<Rightarrow> bool" where
  "marked txs txs' \<longleftrightarrow> list_all2 (\<lambda>tx tx'. \<exists>c. tx' = tx\<lparr>t_validationCode := c\<rparr>) txs txs'"

text \<open>
  What the theorem on blocks assumes of a block: its transactions are well-formed, and the number of keys
  it can leave in a namespace fits the counters of the summaries.
\<close>

definition block_ok ::
  "(string \<Rightarrow> nsUpdates) \<Rightarrow> (string \<Rightarrow> bool) \<Rightarrow> (TxRwSet \<Rightarrow> op list) \<Rightarrow> ords \<Rightarrow> op list \<Rightarrow> transaction list \<Rightarrow> bool" where
  "block_ok content valid_ns ops ords B txs \<longleftrightarrow>
     (\<forall>tx \<in> set txs. tx_ok valid_ns ops B ords tx) \<and>
     (\<forall>ns. valid_ns ns \<longrightarrow> card (fmdom' (content ns)) + length B + 4 < 2 ^ 32)"

context privacy_db
begin

lemma validate_one_serial:
  fixes Ser lb
  defines "ops \<equiv> tx_ops Ser (lb_zeroHash lb)"
  assumes hs: "total_hash hf H" "total_ser (lb_serializeKVReads lb) S" "total_md (lb_Serialize lb) Ser"
    and ok: "block_ok content valid_ns ops ords B (tx # txs)" and u: "upd_inv B u"
  obtains code u' p' where
    "validate_one lb \<lparr>vr_db = db, vr_hashFunc = hf\<rparr> ords num True tx u p = ret (tx\<lparr>t_validationCode := code\<rparr>, u', p')" "upd_inv B u'"
    "code = VALID \<longleftrightarrow> tx_current H S {ck. pending u ck \<noteq> None} (latest content db u) (t_rwset tx)"
    "code \<noteq> VALID \<Longrightarrow> u' = u"
    "code = VALID \<Longrightarrow> latest content db u' = tx_write (Height num (of_nat (t_indexInBlock tx))) (ops (t_rwset tx)) (latest content db u)"
    "code = VALID \<Longrightarrow> {ck. pending u' ck \<noteq> None} = {ck. pending u ck \<noteq> None} \<union> writes_to (ops (t_rwset tx)) (latest content db u)"
proof -
  have tx: "\<forall>n \<in> set (t_rwset tx). ns_ok valid_ns n" "wf_ops (ops (t_rwset tx))" "keeps_metadata B (ops (t_rwset tx))"
    "orders_keys (ops (t_rwset tx)) (ords (t_indexInBlock tx))" "set (ops (t_rwset tx)) \<subseteq> set B"
    using ok by (simp_all add: block_ok_def tx_ok_def)
  obtain ord ord' where ord: "ords (t_indexInBlock tx) = (ord, ord')" by fastforce
  have "card (fmdom' (overlaid (content ns) (getOrCreateNsUpdates ns (ph_public u)))) + 4 < 2 ^ 32" if "valid_ns ns" for ns
    using upd_inv_size [OF u, of "content ns" ns] ok that unfolding block_ok_def by fastforce
  from validateTx_eq [OF hs(1,2) this tx(1)] obtain code where
    code: "validateTx lb \<lparr>vr_db = db, vr_hashFunc = hf\<rparr> (t_rwset tx) u = ret code"
      "code = VALID \<longleftrightarrow> tx_current H S {ck. pending u ck \<noteq> None} (latest content db u) (t_rwset tx)" by blast
  show ?thesis
  proof (cases "code = VALID")
    case True
    let ?h = "Height num (of_nat (t_indexInBlock tx))"
    have keys: "\<forall>ck \<in> op_keys (ops (t_rwset tx)). valid_key valid_ns ck" using op_keys_valid [OF tx(1)] by (simp add: ops_def)
    have "wf_updates u" using u by (simp add: upd_inv_def)
    from applyWriteSet_effect [OF hs(3) tx(2) [unfolded ops_def] _ _ _ keys [unfolded ops_def] this, folded ops_def, of ord ord' ?h "t_containsPostOrderWrites tx"]
    obtain u' where u': "applyWriteSet (lb_Serialize lb) (lb_zeroHash lb) ord ord' (t_rwset tx) ?h db (t_containsPostOrderWrites tx) u = ret u'"
      "wf_updates u'" "touched u (ops (t_rwset tx)) u'"
      "\<forall>ck. pending u' ck \<noteq> None \<longleftrightarrow> pending u ck \<noteq> None \<or> ck \<in> writes_to (ops (t_rwset tx)) (latest content db u)"
      "\<forall>ck. latest content db u' ck = effect ?h (map_of (kv_writes (ops (t_rwset tx))) ck) (map_of (md_writes (ops (t_rwset tx))) ck) (latest content db u ck)"
      using upd_inv_revives [OF u tx(3)] tx(4) ord unfolding orders_keys_def by auto
    show ?thesis
      by (rule that [of code u' "purge_update (t_rwset tx) ?h p"])
        (use True code ord u' upd_inv_touched [OF u u'(2,3) tx(5)] in \<open>simp_all add: validate_one_def validateEndorserTX_def tx_write_def fun_eq_iff set_eq_iff\<close>)
  next
    case False
    show ?thesis
      by (rule that [of code u p]) (use False code u in \<open>simp_all add: validate_one_def validateEndorserTX_def Let_def\<close>)
  qed
qed

end

context privacy_db
begin

lemma validate_txs_serial:
  fixes Ser lb
  defines "ops \<equiv> tx_ops Ser (lb_zeroHash lb)"
  assumes hs: "total_hash hf H" "total_ser (lb_serializeKVReads lb) S" "total_md (lb_Serialize lb) Ser"
  shows "block_ok content valid_ns ops ords B txs \<Longrightarrow> upd_inv B u \<Longrightarrow>
    \<exists>txs' u' p'. validate_txs lb \<lparr>vr_db = db, vr_hashFunc = hf\<rparr> ords num True txs u p = ret (txs', u', p') \<and>
      upd_inv B u' \<and> marked txs txs' \<and>
      serial H S ops num {ck. pending u ck \<noteq> None} (latest content db u) txs' (latest content db u')"
proof (induction txs arbitrary: u p)
  case Nil
  then show ?case by (simp add: serial_Nil marked_def)
next
  case (Cons tx txs)
  from validate_one_serial [OF hs Cons.prems [unfolded ops_def], folded ops_def, of num p]
  obtain code u1 p1 where one:
    "validate_one lb \<lparr>vr_db = db, vr_hashFunc = hf\<rparr> ords num True tx u p = ret (tx\<lparr>t_validationCode := code\<rparr>, u1, p1)" "upd_inv B u1"
    "code = VALID \<longleftrightarrow> tx_current H S {ck. pending u ck \<noteq> None} (latest content db u) (t_rwset tx)"
    "code \<noteq> VALID \<longrightarrow> u1 = u"
    "code = VALID \<longrightarrow> latest content db u1 = tx_write (Height num (of_nat (t_indexInBlock tx))) (ops (t_rwset tx)) (latest content db u)"
    "code = VALID \<longrightarrow> {ck. pending u1 ck \<noteq> None} = {ck. pending u ck \<noteq> None} \<union> writes_to (ops (t_rwset tx)) (latest content db u)"
    by metis
  have "block_ok content valid_ns ops ords B txs" using Cons.prems(1) by (simp add: block_ok_def)
  from Cons.IH [OF this one(2), of p1] obtain txs' u' p' where
    rest: "validate_txs lb \<lparr>vr_db = db, vr_hashFunc = hf\<rparr> ords num True txs u1 p1 = ret (txs', u', p')" "upd_inv B u'"
      "marked txs txs'" "serial H S ops num {ck. pending u1 ck \<noteq> None} (latest content db u1) txs' (latest content db u')"
    by blast
  have "serial H S ops num {ck. pending u ck \<noteq> None} (latest content db u) (tx\<lparr>t_validationCode := code\<rparr> # txs') (latest content db u')"
  proof (cases "code = VALID")
    case True
    then show ?thesis using one rest(4) by (intro serial_valid) simp_all
  next
    case False
    then show ?thesis using one rest(4) by (intro serial_invalid) simp_all
  qed
  moreover have "marked (tx # txs) (tx\<lparr>t_validationCode := code\<rparr> # txs')" using rest(3) by (auto simp: marked_def)
  ultimately show ?case using one(1) rest(1,2) by simp
qed

theorem validateAndPrepareBatch_serial:
  fixes Ser lb
  defines "ops \<equiv> tx_ops Ser (lb_zeroHash lb)"
  assumes "total_hash hf H" "total_ser (lb_serializeKVReads lb) S" "total_md (lb_Serialize lb) Ser"
    and load: "IsBulkOptimizable db \<longrightarrow> preLoadCommittedVersionOfRSet \<lparr>vr_db = db, vr_hashFunc = hf\<rparr> blk = None"
    and ok: "block_ok content valid_ns ops ords (block_ops ops (b_txs blk)) (b_txs blk)"
  shows "\<exists>txs u purges. validateAndPrepareBatch lb \<lparr>vr_db = db, vr_hashFunc = hf\<rparr> ords pord blk True = ret (blk\<lparr>b_txs := txs\<rparr>, u, purges) \<and>
      upd_inv (block_ops ops (b_txs blk)) u \<and> marked (b_txs blk) txs \<and>
      serial H S ops (b_num blk) {} (committed content db) txs (latest content db u)"
proof -
  have new: "pending newPubAndHashUpdates = (\<lambda>_. None)"
    by (simp add: fun_eq_iff newPubAndHashUpdates_def pending_def NewUpdateBatch_def ub_Get_def um_Get_def)
  then have "latest content db newPubAndHashUpdates = committed content db" by (simp add: fun_eq_iff latest_def)
  with new show ?thesis
    using validate_txs_serial [OF assms(2-4) ok [unfolded ops_def] upd_inv_new, folded ops_def, of "b_num blk" Map.empty] load
    by (auto simp: validateAndPrepareBatch_def)
qed

end

end
