(* ===== verification/Rwset_Proto.thy ===== *)
theory Rwset_Proto
  imports Mvcc
begin

text \<open>
  Read-write sets and the protobuf messages that carry them
  (\<^verbatim>\<open>core/ledger/kvledger/txmgmt/rwsetutil/rwset_proto_util.go\<close>).  The marshalling of the messages is
  third-party code and an argument; \<open>rwset_faithful\<close> states what protobuf promises.  The lemmas show that
  a read-write set survives the way into bytes and back.
\<close>

section \<open>Private read-write sets\<close>

record CollPvtRwSet =
  cpr_CollectionName :: string
  cpr_KvRwSet :: KVRWSet

record NsPvtRwSet =
  npr_NameSpace :: string
  npr_CollPvtRwSets :: "CollPvtRwSet list"

type_synonym TxPvtRwSet = "NsPvtRwSet list"

record rwset_codec =
  m_KVRWSet :: "KVRWSet \<Rightarrow> string + bytes"
  u_KVRWSet :: "bytes \<Rightarrow> string + KVRWSet"
  m_HashedRWSet :: "HashedRWSet \<Rightarrow> string + bytes"
  u_HashedRWSet :: "bytes \<Rightarrow> string + HashedRWSet"
  m_TxReadWriteSet :: "NsReadWriteSet list \<Rightarrow> string + bytes"
  u_TxReadWriteSet :: "bytes \<Rightarrow> string + NsReadWriteSet list"
  m_TxPvtReadWriteSet :: "NsPvtReadWriteSet list \<Rightarrow> string + bytes"
  u_TxPvtReadWriteSet :: "bytes \<Rightarrow> string + NsPvtReadWriteSet list"

text \<open>\<open>for _, x := range xs { y, err := f(x); if err != nil { return err }; ys = append(ys, y) }\<close>.\<close>

fun map_err :: "('a \<Rightarrow> 'e + 'b) \<Rightarrow> 'a list \<Rightarrow> 'e + 'b list" where
  "map_err f [] = Inr []"
| "map_err f (x # xs) = (case f x of Inl e \<Rightarrow> Inl e | Inr y \<Rightarrow> (case map_err f xs of Inl e \<Rightarrow> Inl e | Inr ys \<Rightarrow> Inr (y # ys)))"

definition bind_err :: "'e + 'a \<Rightarrow> ('a \<Rightarrow> 'e + 'b) \<Rightarrow> 'e + 'b" where
  "bind_err r f = (case r of Inl e \<Rightarrow> Inl e | Inr x \<Rightarrow> f x)"

lemma bind_err_simps [simp]: "bind_err (Inl e) f = Inl e" "bind_err (Inr x) f = f x"
  by (simp_all add: bind_err_def)

section \<open>Public read-write sets\<close>

fun ns_getPvtDataHash :: "string \<Rightarrow> CollHashedRwSet list \<Rightarrow> bytes option" where
  "ns_getPvtDataHash coll [] = None"
| "ns_getPvtDataHash coll (c # cs) = (if chr_CollectionName c \<noteq> coll then ns_getPvtDataHash coll cs else chr_PvtRwSetHash c)"

fun GetPvtDataHash :: "TxRwSet \<Rightarrow> string \<Rightarrow> string \<Rightarrow> bytes option" where
  "GetPvtDataHash [] ns coll = None"
| "GetPvtDataHash (n # rest) ns coll =
     (if nsr_NameSpace n \<noteq> ns then GetPvtDataHash rest ns coll else ns_getPvtDataHash coll (nsr_CollHashedRwSets n))"

definition NumCollections :: "TxRwSet option \<Rightarrow> nat" where
  "NumCollections txRwSet =
     (case txRwSet of None \<Rightarrow> 0 | Some rwset \<Rightarrow> fold (\<lambda>n c. c + length (nsr_CollHashedRwSets n)) rwset 0)"

definition coll_toProtoMsg :: "rwset_codec \<Rightarrow> CollHashedRwSet \<Rightarrow> string + CollectionHashedReadWriteSet" where
  "coll_toProtoMsg cd c =
     bind_err (m_HashedRWSet cd (chr_HashedRwSet c)) (\<lambda>b.
       Inr \<lparr>ch_CollectionName = chr_CollectionName c, ch_HashedRwset = b, ch_PvtRwsetHash = chr_PvtRwSetHash c\<rparr>)"

definition collHashedRwSetFromProtoMsg :: "rwset_codec \<Rightarrow> CollectionHashedReadWriteSet \<Rightarrow> string + CollHashedRwSet" where
  "collHashedRwSetFromProtoMsg cd protoMsg =
     bind_err (u_HashedRWSet cd (ch_HashedRwset protoMsg)) (\<lambda>rw.
       Inr \<lparr>chr_CollectionName = ch_CollectionName protoMsg, chr_HashedRwSet = rw, chr_PvtRwSetHash = ch_PvtRwsetHash protoMsg\<rparr>)"

definition ns_toProtoMsg :: "rwset_codec \<Rightarrow> NsRwSet \<Rightarrow> string + NsReadWriteSet" where
  "ns_toProtoMsg cd nsRwSet =
     bind_err (m_KVRWSet cd (nsr_KvRwSet nsRwSet)) (\<lambda>b.
     bind_err (map_err (coll_toProtoMsg cd) (nsr_CollHashedRwSets nsRwSet)) (\<lambda>cs.
       Inr \<lparr>ns_Namespace = nsr_NameSpace nsRwSet, ns_Rwset = b, ns_CollectionHashedRwset = cs\<rparr>))"

definition nsRwSetFromProtoMsg :: "rwset_codec \<Rightarrow> NsReadWriteSet \<Rightarrow> string + NsRwSet" where
  "nsRwSetFromProtoMsg cd protoMsg =
     bind_err (u_KVRWSet cd (ns_Rwset protoMsg)) (\<lambda>rw.
     bind_err (map_err (collHashedRwSetFromProtoMsg cd) (ns_CollectionHashedRwset protoMsg)) (\<lambda>cs.
       Inr \<lparr>nsr_NameSpace = ns_Namespace protoMsg, nsr_KvRwSet = rw, nsr_CollHashedRwSets = cs\<rparr>))"

definition toProtoMsg :: "rwset_codec \<Rightarrow> TxRwSet \<Rightarrow> string + NsReadWriteSet list" where
  "toProtoMsg cd txRwSet = map_err (ns_toProtoMsg cd) txRwSet"

definition TxRwSetFromProtoMsg :: "rwset_codec \<Rightarrow> NsReadWriteSet list \<Rightarrow> string + TxRwSet" where
  "TxRwSetFromProtoMsg cd protoMsg = map_err (nsRwSetFromProtoMsg cd) protoMsg"

definition ToProtoBytes :: "rwset_codec \<Rightarrow> TxRwSet \<Rightarrow> string + bytes" where
  "ToProtoBytes cd txRwSet = bind_err (toProtoMsg cd txRwSet) (m_TxReadWriteSet cd)"

definition FromProtoBytes :: "rwset_codec \<Rightarrow> bytes \<Rightarrow> string + TxRwSet" where
  "FromProtoBytes cd protoBytes = bind_err (u_TxReadWriteSet cd protoBytes) (TxRwSetFromProtoMsg cd)"

section \<open>Private ones\<close>

definition coll_ToPvtProtoMsg :: "rwset_codec \<Rightarrow> CollPvtRwSet \<Rightarrow> string + CollectionPvtReadWriteSet" where
  "coll_ToPvtProtoMsg cd c =
     bind_err (m_KVRWSet cd (cpr_KvRwSet c)) (\<lambda>b. Inr \<lparr>cp_CollectionName = cpr_CollectionName c, cp_Rwset = b\<rparr>)"

definition CollPvtRwSetFromProtoMsg :: "rwset_codec \<Rightarrow> CollectionPvtReadWriteSet \<Rightarrow> string + CollPvtRwSet" where
  "CollPvtRwSetFromProtoMsg cd protoMsg =
     bind_err (u_KVRWSet cd (cp_Rwset protoMsg)) (\<lambda>rw.
       Inr \<lparr>cpr_CollectionName = cp_CollectionName protoMsg, cpr_KvRwSet = rw\<rparr>)"

definition ns_toPvtProtoMsg :: "rwset_codec \<Rightarrow> NsPvtRwSet \<Rightarrow> string + NsPvtReadWriteSet" where
  "ns_toPvtProtoMsg cd nsPvtRwSet =
     bind_err (map_err (coll_ToPvtProtoMsg cd) (npr_CollPvtRwSets nsPvtRwSet)) (\<lambda>cs.
       Inr \<lparr>np_Namespace = npr_NameSpace nsPvtRwSet, np_CollectionPvtRwset = cs\<rparr>)"

definition nsPvtRwSetFromProtoMsg :: "rwset_codec \<Rightarrow> NsPvtReadWriteSet \<Rightarrow> string + NsPvtRwSet" where
  "nsPvtRwSetFromProtoMsg cd protoMsg =
     bind_err (map_err (CollPvtRwSetFromProtoMsg cd) (np_CollectionPvtRwset protoMsg)) (\<lambda>cs.
       Inr \<lparr>npr_NameSpace = np_Namespace protoMsg, npr_CollPvtRwSets = cs\<rparr>)"

definition ToPvtProtoMsg :: "rwset_codec \<Rightarrow> TxPvtRwSet \<Rightarrow> string + NsPvtReadWriteSet list" where
  "ToPvtProtoMsg cd txPvtRwSet = map_err (ns_toPvtProtoMsg cd) txPvtRwSet"

definition TxPvtRwSetFromProtoMsg :: "rwset_codec \<Rightarrow> NsPvtReadWriteSet list \<Rightarrow> string + TxPvtRwSet" where
  "TxPvtRwSetFromProtoMsg cd protoMsg = map_err (nsPvtRwSetFromProtoMsg cd) protoMsg"

definition ToPvtProtoBytes :: "rwset_codec \<Rightarrow> TxPvtRwSet \<Rightarrow> string + bytes" where
  "ToPvtProtoBytes cd txPvtRwSet = bind_err (ToPvtProtoMsg cd txPvtRwSet) (m_TxPvtReadWriteSet cd)"

definition FromPvtProtoBytes :: "rwset_codec \<Rightarrow> bytes \<Rightarrow> string + TxPvtRwSet" where
  "FromPvtProtoBytes cd protoBytes = bind_err (u_TxPvtReadWriteSet cd protoBytes) (TxPvtRwSetFromProtoMsg cd)"

section \<open>Round trips\<close>

text \<open>
  Protobuf does not distinguish an empty field from one that is not set: a value with an empty list of
  metadata entries or an empty hash comes back with none.  A value without such fields comes back as it is.
\<close>

definition md_set :: "KVMetadataEntry list option \<Rightarrow> bool" where
  "md_set es \<longleftrightarrow> es \<noteq> Some []"

definition kv_normal :: "KVRWSet \<Rightarrow> bool" where
  "kv_normal rw \<longleftrightarrow> (\<forall>w \<in> set (rw_MetadataWrites rw). md_set (mw_Entries w))"

definition hashed_normal :: "HashedRWSet \<Rightarrow> bool" where
  "hashed_normal rw \<longleftrightarrow> (\<forall>w \<in> set (hrw_MetadataWrites rw). md_set (mwh_Entries w))"

definition ns_normal :: "NsRwSet \<Rightarrow> bool" where
  "ns_normal n \<longleftrightarrow> kv_normal (nsr_KvRwSet n) \<and>
     (\<forall>c \<in> set (nsr_CollHashedRwSets n). hashed_normal (chr_HashedRwSet c) \<and> chr_PvtRwSetHash c \<noteq> Some [])"

definition msg_normal :: "NsReadWriteSet \<Rightarrow> bool" where
  "msg_normal m \<longleftrightarrow> (\<forall>c \<in> set (ns_CollectionHashedRwset m). ch_PvtRwsetHash c \<noteq> Some [])"

definition carries :: "('a \<Rightarrow> string + bytes) \<Rightarrow> (bytes \<Rightarrow> string + 'a) \<Rightarrow> 'a \<Rightarrow> bool" where
  "carries m u x \<longleftrightarrow> (\<exists>b. m x = Inr b \<and> u b = Inr x)"

definition rwset_faithful :: "rwset_codec \<Rightarrow> bool" where
  "rwset_faithful cd \<longleftrightarrow>
     (\<forall>rw. kv_normal rw \<longrightarrow> carries (m_KVRWSet cd) (u_KVRWSet cd) rw) \<and>
     (\<forall>rw. hashed_normal rw \<longrightarrow> carries (m_HashedRWSet cd) (u_HashedRWSet cd) rw) \<and>
     (\<forall>ms. (\<forall>m \<in> set ms. msg_normal m) \<longrightarrow> carries (m_TxReadWriteSet cd) (u_TxReadWriteSet cd) ms) \<and>
     (\<forall>ms. carries (m_TxPvtReadWriteSet cd) (u_TxPvtReadWriteSet cd) ms)"

text \<open>A list goes over and comes back when each of its elements does.\<close>

lemma map_err_back:
  "(\<And>x. x \<in> set xs \<Longrightarrow> \<exists>y. f x = Inr y \<and> g y = Inr x \<and> P y) \<Longrightarrow>
     \<exists>ys. map_err f xs = Inr ys \<and> map_err g ys = Inr xs \<and> (\<forall>y \<in> set ys. P y)"
proof (induction xs)
  case (Cons x xs)
  obtain y where "f x = Inr y" "g y = Inr x" "P y" using Cons.prems by auto
  moreover obtain ys where "map_err f xs = Inr ys" "map_err g ys = Inr xs" "\<forall>y \<in> set ys. P y"
    using Cons by auto
  ultimately show ?case by (intro exI [of _ "y # ys"]) simp
qed simp

lemma coll_back:
  "rwset_faithful cd \<Longrightarrow> hashed_normal (chr_HashedRwSet c) \<Longrightarrow>
     \<exists>m. coll_toProtoMsg cd c = Inr m \<and> collHashedRwSetFromProtoMsg cd m = Inr c \<and> ch_PvtRwsetHash m = chr_PvtRwSetHash c"
  unfolding rwset_faithful_def carries_def coll_toProtoMsg_def collHashedRwSetFromProtoMsg_def by fastforce

lemma ns_back:
  assumes "rwset_faithful cd" "ns_normal n"
  shows "\<exists>m. ns_toProtoMsg cd n = Inr m \<and> nsRwSetFromProtoMsg cd m = Inr n \<and> msg_normal m"
proof -
  obtain b where b: "m_KVRWSet cd (nsr_KvRwSet n) = Inr b" "u_KVRWSet cd b = Inr (nsr_KvRwSet n)"
    using assms unfolding rwset_faithful_def carries_def ns_normal_def by blast
  have "\<exists>m. coll_toProtoMsg cd c = Inr m \<and> collHashedRwSetFromProtoMsg cd m = Inr c \<and> ch_PvtRwsetHash m \<noteq> Some []"
    if "c \<in> set (nsr_CollHashedRwSets n)" for c
    using coll_back [OF assms(1), of c] assms(2) that unfolding ns_normal_def by metis
  from map_err_back [OF this] obtain cs where "map_err (coll_toProtoMsg cd) (nsr_CollHashedRwSets n) = Inr cs"
    "map_err (collHashedRwSetFromProtoMsg cd) cs = Inr (nsr_CollHashedRwSets n)" "\<forall>c \<in> set cs. ch_PvtRwsetHash c \<noteq> Some []" by blast
  with b show ?thesis by (simp add: ns_toProtoMsg_def nsRwSetFromProtoMsg_def msg_normal_def)
qed

lemma toProtoMsg_back:
  assumes "rwset_faithful cd" "\<forall>n \<in> set rwset. ns_normal n"
  shows "\<exists>ms. toProtoMsg cd rwset = Inr ms \<and> TxRwSetFromProtoMsg cd ms = Inr rwset \<and> (\<forall>m \<in> set ms. msg_normal m)"
  unfolding toProtoMsg_def TxRwSetFromProtoMsg_def
  by (rule map_err_back) (use ns_back [OF assms(1)] assms(2) in blast)

lemma ToPvtProtoMsg_back:
  assumes "rwset_faithful cd" "\<forall>n \<in> set rwset. \<forall>c \<in> set (npr_CollPvtRwSets n). kv_normal (cpr_KvRwSet c)"
  shows "\<exists>ms. ToPvtProtoMsg cd rwset = Inr ms \<and> TxPvtRwSetFromProtoMsg cd ms = Inr rwset"
proof -
  have coll: "\<exists>m. coll_ToPvtProtoMsg cd c = Inr m \<and> CollPvtRwSetFromProtoMsg cd m = Inr c \<and> True" if "kv_normal (cpr_KvRwSet c)" for c
    using assms(1) that unfolding rwset_faithful_def carries_def coll_ToPvtProtoMsg_def CollPvtRwSetFromProtoMsg_def by fastforce
  have "\<exists>m. ns_toPvtProtoMsg cd n = Inr m \<and> nsPvtRwSetFromProtoMsg cd m = Inr n \<and> True" if "n \<in> set rwset" for n
  proof -
    have "\<exists>cs. map_err (coll_ToPvtProtoMsg cd) (npr_CollPvtRwSets n) = Inr cs \<and>
        map_err (CollPvtRwSetFromProtoMsg cd) cs = Inr (npr_CollPvtRwSets n) \<and> (\<forall>c \<in> set cs. True)"
      by (rule map_err_back) (use coll assms(2) that in blast)
    then show ?thesis by (auto simp: ns_toPvtProtoMsg_def nsPvtRwSetFromProtoMsg_def)
  qed
  from map_err_back [OF this] show ?thesis unfolding ToPvtProtoMsg_def TxPvtRwSetFromProtoMsg_def by blast
qed

end
