(* ===== verification/Rwset_Builder.thy ===== *)
theory Rwset_Builder
  imports Rwset_Proto
begin

text \<open>
  The builder that collects the reads and writes of a simulation
  (\<^verbatim>\<open>core/ledger/kvledger/txmgmt/rwsetutil/rwset_builder.go\<close>) and the read-write sets it builds.  A pointer to a
  builder inside a map is modelled by writing the changed builder back to the map.  The hash of keys and
  values (\<open>util.ComputeHash\<close>, SHA-256) is an argument \<open>CH\<close>.  The lemmas show that every builder keeps its
  entries under their own keys, and give the operations of the write set it builds: the last write of
  every key, once.
\<close>

section \<open>Builders\<close>

type_synonym rangeQueryKey = "string \<times> string \<times> bool"

record collHashRwBuilder =
  chb_collName :: string
  chb_readMap :: "(string, KVReadHash) fmap"
  chb_writeMap :: "(string, KVWriteHash) fmap"
  chb_metadataWriteMap :: "(string, KVMetadataWriteHash) fmap"
  chb_pvtDataHash :: "bytes option"

record nsPubRwBuilder =
  npb_namespace :: string
  npb_readMap :: "(string, KVRead) fmap"
  npb_writeMap :: "(string, KVWrite) fmap"
  npb_metadataWriteMap :: "(string, KVMetadataWrite) fmap"
  npb_rangeQueriesMap :: "(rangeQueryKey, RangeQueryInfo) fmap"
  npb_rangeQueriesKeys :: "rangeQueryKey list"
  npb_collHashRwBuilder :: "(string, collHashRwBuilder) fmap"

record collPvtRwBuilder =
  cpb_collectionName :: string
  cpb_writeMap :: "(string, KVWrite) fmap"
  cpb_metadataWriteMap :: "(string, KVMetadataWrite) fmap"

record nsPvtRwBuilder =
  nvb_namespace :: string
  nvb_collPvtRwBuilders :: "(string, collPvtRwBuilder) fmap"

record RWSetBuilder =
  wb_pubRwBuilderMap :: "(string, nsPubRwBuilder) fmap"
  wb_pvtRwBuilderMap :: "(string, nsPvtRwBuilder) fmap"

definition NewRWSetBuilder :: RWSetBuilder where
  "NewRWSetBuilder = \<lparr>wb_pubRwBuilderMap = fmempty, wb_pvtRwBuilderMap = fmempty\<rparr>"

definition newNsPubRwBuilder :: "string \<Rightarrow> nsPubRwBuilder" where
  "newNsPubRwBuilder namespace =
     \<lparr>npb_namespace = namespace, npb_readMap = fmempty, npb_writeMap = fmempty, npb_metadataWriteMap = fmempty,
      npb_rangeQueriesMap = fmempty, npb_rangeQueriesKeys = [], npb_collHashRwBuilder = fmempty\<rparr>"

definition newNsPvtRwBuilder :: "string \<Rightarrow> nsPvtRwBuilder" where
  "newNsPvtRwBuilder namespace = \<lparr>nvb_namespace = namespace, nvb_collPvtRwBuilders = fmempty\<rparr>"

definition newCollHashRwBuilder :: "string \<Rightarrow> collHashRwBuilder" where
  "newCollHashRwBuilder collName =
     \<lparr>chb_collName = collName, chb_readMap = fmempty, chb_writeMap = fmempty, chb_metadataWriteMap = fmempty, chb_pvtDataHash = None\<rparr>"

definition newCollPvtRwBuilder :: "string \<Rightarrow> collPvtRwBuilder" where
  "newCollPvtRwBuilder collName =
     \<lparr>cpb_collectionName = collName, cpb_writeMap = fmempty, cpb_metadataWriteMap = fmempty\<rparr>"

definition getOrCreateNsPubRwBuilder :: "string \<Rightarrow> RWSetBuilder \<Rightarrow> nsPubRwBuilder" where
  "getOrCreateNsPubRwBuilder ns b =
     (case fmlookup (wb_pubRwBuilderMap b) ns of None \<Rightarrow> newNsPubRwBuilder ns | Some n \<Rightarrow> n)"

definition getOrCreateNsPvtRwBuilder :: "string \<Rightarrow> RWSetBuilder \<Rightarrow> nsPvtRwBuilder" where
  "getOrCreateNsPvtRwBuilder ns b =
     (case fmlookup (wb_pvtRwBuilderMap b) ns of None \<Rightarrow> newNsPvtRwBuilder ns | Some n \<Rightarrow> n)"

definition getOrCreateCollHashedRwBuilder :: "string \<Rightarrow> string \<Rightarrow> RWSetBuilder \<Rightarrow> collHashRwBuilder" where
  "getOrCreateCollHashedRwBuilder ns coll b =
     (case fmlookup (npb_collHashRwBuilder (getOrCreateNsPubRwBuilder ns b)) coll of
        None \<Rightarrow> newCollHashRwBuilder coll | Some c \<Rightarrow> c)"

definition getOrCreateCollPvtRwBuilder :: "string \<Rightarrow> string \<Rightarrow> RWSetBuilder \<Rightarrow> collPvtRwBuilder" where
  "getOrCreateCollPvtRwBuilder ns coll b =
     (case fmlookup (nvb_collPvtRwBuilders (getOrCreateNsPvtRwBuilder ns b)) coll of
        None \<Rightarrow> newCollPvtRwBuilder coll | Some c \<Rightarrow> c)"

text \<open>A change made through the pointer to the builder of a namespace or of a collection.\<close>

definition on_ns :: "string \<Rightarrow> (nsPubRwBuilder \<Rightarrow> nsPubRwBuilder) \<Rightarrow> RWSetBuilder \<Rightarrow> RWSetBuilder" where
  "on_ns ns f b = b\<lparr>wb_pubRwBuilderMap := fmupd ns (f (getOrCreateNsPubRwBuilder ns b)) (wb_pubRwBuilderMap b)\<rparr>"

definition on_coll :: "string \<Rightarrow> string \<Rightarrow> (collHashRwBuilder \<Rightarrow> collHashRwBuilder) \<Rightarrow> RWSetBuilder \<Rightarrow> RWSetBuilder" where
  "on_coll ns coll f b =
     on_ns ns (\<lambda>n. n\<lparr>npb_collHashRwBuilder :=
       fmupd coll (f (getOrCreateCollHashedRwBuilder ns coll b)) (npb_collHashRwBuilder n)\<rparr>) b"

definition on_pvt :: "string \<Rightarrow> string \<Rightarrow> (collPvtRwBuilder \<Rightarrow> collPvtRwBuilder) \<Rightarrow> RWSetBuilder \<Rightarrow> RWSetBuilder" where
  "on_pvt ns coll f b =
     (let n = getOrCreateNsPvtRwBuilder ns b
      in b\<lparr>wb_pvtRwBuilderMap := fmupd ns (n\<lparr>nvb_collPvtRwBuilders :=
           fmupd coll (f (getOrCreateCollPvtRwBuilder ns coll b)) (nvb_collPvtRwBuilders n)\<rparr>) (wb_pvtRwBuilderMap b)\<rparr>)"

section \<open>Adding reads and writes\<close>

definition newKVWrite :: "string \<Rightarrow> bytes \<Rightarrow> KVWrite" where
  "newKVWrite key val = \<lparr>kw_Key = key, kw_IsDelete = (val = []), kw_Value = val\<rparr>"

definition newPvtKVReadHash :: "(bytes \<Rightarrow> bytes) \<Rightarrow> string \<Rightarrow> Height option \<Rightarrow> KVReadHash" where
  "newPvtKVReadHash CH key ver = \<lparr>krh_KeyHash = CH key, krh_Version = newProtoVersion ver\<rparr>"

definition newPvtKVWriteAndHash :: "(bytes \<Rightarrow> bytes) \<Rightarrow> string \<Rightarrow> bytes \<Rightarrow> KVWrite \<times> KVWriteHash" where
  "newPvtKVWriteAndHash CH key val =
     (let kvWrite = newKVWrite key val
      in (kvWrite, \<lparr>kwh_KeyHash = CH key, kwh_IsDelete = kw_IsDelete kvWrite,
                    kwh_ValueHash = (if \<not> kw_IsDelete kvWrite then CH val else []), kwh_IsPurge = False\<rparr>))"

definition metadata_entries :: "(string, bytes) fmap \<Rightarrow> KVMetadataEntry list option" where
  "metadata_entries m =
     (let names = GetSortedKeys m
      in if names = [] then None else Some (map (\<lambda>name. \<lparr>me_Name = name, me_Value = the (fmlookup m name)\<rparr>) names))"

definition mapToMetadataWrite :: "string \<Rightarrow> (string, bytes) fmap \<Rightarrow> KVMetadataWrite" where
  "mapToMetadataWrite key m = \<lparr>mw_Key = key, mw_Entries = metadata_entries m\<rparr>"

definition mapToMetadataWriteHash :: "(bytes \<Rightarrow> bytes) \<Rightarrow> string \<Rightarrow> (string, bytes) fmap \<Rightarrow> KVMetadataWriteHash" where
  "mapToMetadataWriteHash CH key m = \<lparr>mwh_KeyHash = CH key, mwh_Entries = metadata_entries m\<rparr>"

definition AddToReadSet :: "string \<Rightarrow> string \<Rightarrow> Height option \<Rightarrow> RWSetBuilder \<Rightarrow> RWSetBuilder" where
  "AddToReadSet ns key ver b = on_ns ns (\<lambda>n. n\<lparr>npb_readMap := fmupd key (NewKVRead key ver) (npb_readMap n)\<rparr>) b"

definition AddToWriteSet :: "string \<Rightarrow> string \<Rightarrow> bytes \<Rightarrow> RWSetBuilder \<Rightarrow> RWSetBuilder" where
  "AddToWriteSet ns key val b = on_ns ns (\<lambda>n. n\<lparr>npb_writeMap := fmupd key (newKVWrite key val) (npb_writeMap n)\<rparr>) b"

definition AddToMetadataWriteSet :: "string \<Rightarrow> string \<Rightarrow> (string, bytes) fmap \<Rightarrow> RWSetBuilder \<Rightarrow> RWSetBuilder" where
  "AddToMetadataWriteSet ns key metadata b =
     on_ns ns (\<lambda>n. n\<lparr>npb_metadataWriteMap := fmupd key (mapToMetadataWrite key metadata) (npb_metadataWriteMap n)\<rparr>) b"

definition AddToRangeQuerySet :: "string \<Rightarrow> RangeQueryInfo \<Rightarrow> RWSetBuilder \<Rightarrow> RWSetBuilder" where
  "AddToRangeQuerySet ns rqi b =
     on_ns ns (\<lambda>n.
       let key = (rq_StartKey rqi, rq_EndKey rqi, rq_ItrExhausted rqi)
       in case fmlookup (npb_rangeQueriesMap n) key of
            Some _ \<Rightarrow> n
          | None \<Rightarrow> n\<lparr>npb_rangeQueriesMap := fmupd key rqi (npb_rangeQueriesMap n),
                     npb_rangeQueriesKeys := npb_rangeQueriesKeys n @ [key]\<rparr>) b"

definition AddToHashedReadSet ::
  "(bytes \<Rightarrow> bytes) \<Rightarrow> string \<Rightarrow> string \<Rightarrow> string \<Rightarrow> Height option \<Rightarrow> RWSetBuilder \<Rightarrow> RWSetBuilder" where
  "AddToHashedReadSet CH ns coll key ver b =
     on_coll ns coll (\<lambda>c. c\<lparr>chb_readMap := fmupd key (newPvtKVReadHash CH key ver) (chb_readMap c)\<rparr>) b"

definition AddToPvtAndHashedWriteSet ::
  "(bytes \<Rightarrow> bytes) \<Rightarrow> string \<Rightarrow> string \<Rightarrow> string \<Rightarrow> bytes \<Rightarrow> RWSetBuilder \<Rightarrow> RWSetBuilder" where
  "AddToPvtAndHashedWriteSet CH ns coll key val b =
     (let (kvWrite, kvWriteHash) = newPvtKVWriteAndHash CH key val
      in on_coll ns coll (\<lambda>c. c\<lparr>chb_writeMap := fmupd key kvWriteHash (chb_writeMap c)\<rparr>)
           (on_pvt ns coll (\<lambda>c. c\<lparr>cpb_writeMap := fmupd key kvWrite (cpb_writeMap c)\<rparr>) b))"

definition AddToPvtAndHashedWriteSetForPurge ::
  "(bytes \<Rightarrow> bytes) \<Rightarrow> string \<Rightarrow> string \<Rightarrow> string \<Rightarrow> RWSetBuilder \<Rightarrow> RWSetBuilder" where
  "AddToPvtAndHashedWriteSetForPurge CH ns coll key b =
     (let (kvWrite, kvWriteHash) = newPvtKVWriteAndHash CH key [];
          kvWriteHash = kvWriteHash\<lparr>kwh_IsPurge := True\<rparr>
      in on_coll ns coll (\<lambda>c. c\<lparr>chb_writeMap := fmupd key kvWriteHash (chb_writeMap c)\<rparr>)
           (on_pvt ns coll (\<lambda>c. c\<lparr>cpb_writeMap := fmupd key kvWrite (cpb_writeMap c)\<rparr>) b))"

definition AddToHashedMetadataWriteSet ::
  "(bytes \<Rightarrow> bytes) \<Rightarrow> string \<Rightarrow> string \<Rightarrow> string \<Rightarrow> (string, bytes) fmap \<Rightarrow> RWSetBuilder \<Rightarrow> RWSetBuilder" where
  "AddToHashedMetadataWriteSet CH ns coll key metadata b =
     on_coll ns coll (\<lambda>c. c\<lparr>chb_metadataWriteMap := fmupd key (mapToMetadataWriteHash CH key metadata) (chb_metadataWriteMap c)\<rparr>)
       (on_pvt ns coll (\<lambda>c. c\<lparr>cpb_metadataWriteMap := fmupd key \<lparr>mw_Key = key, mw_Entries = None\<rparr> (cpb_metadataWriteMap c)\<rparr>) b)"

section \<open>Building\<close>

definition GetValuesBySortedKeys :: "(string, 'v) fmap \<Rightarrow> 'v list" where
  "GetValuesBySortedKeys m = map (\<lambda>k. the (fmlookup m k)) (GetSortedKeys m)"

definition collHash_build :: "collHashRwBuilder \<Rightarrow> CollHashedRwSet" where
  "collHash_build b =
     \<lparr>chr_CollectionName = chb_collName b,
      chr_HashedRwSet = \<lparr>hrw_HashedReads = GetValuesBySortedKeys (chb_readMap b),
                         hrw_HashedWrites = GetValuesBySortedKeys (chb_writeMap b),
                         hrw_MetadataWrites = GetValuesBySortedKeys (chb_metadataWriteMap b)\<rparr>,
      chr_PvtRwSetHash = chb_pvtDataHash b\<rparr>"

definition nsPub_build :: "nsPubRwBuilder \<Rightarrow> NsRwSet" where
  "nsPub_build b =
     \<lparr>nsr_NameSpace = npb_namespace b,
      nsr_KvRwSet = \<lparr>rw_Reads = GetValuesBySortedKeys (npb_readMap b),
                     rw_RangeQueriesInfo = map (\<lambda>key. the (fmlookup (npb_rangeQueriesMap b) key)) (npb_rangeQueriesKeys b),
                     rw_Writes = GetValuesBySortedKeys (npb_writeMap b),
                     rw_MetadataWrites = GetValuesBySortedKeys (npb_metadataWriteMap b)\<rparr>,
      nsr_CollHashedRwSets = map collHash_build (GetValuesBySortedKeys (npb_collHashRwBuilder b))\<rparr>"

definition collPvt_build :: "collPvtRwBuilder \<Rightarrow> CollPvtRwSet" where
  "collPvt_build b =
     \<lparr>cpr_CollectionName = cpb_collectionName b,
      cpr_KvRwSet = \<lparr>rw_Reads = [], rw_RangeQueriesInfo = [], rw_Writes = GetValuesBySortedKeys (cpb_writeMap b),
                     rw_MetadataWrites = GetValuesBySortedKeys (cpb_metadataWriteMap b)\<rparr>\<rparr>"

definition nsPvt_build :: "nsPvtRwBuilder \<Rightarrow> NsPvtRwSet" where
  "nsPvt_build b =
     \<lparr>npr_NameSpace = nvb_namespace b, npr_CollPvtRwSets = map collPvt_build (GetValuesBySortedKeys (nvb_collPvtRwBuilders b))\<rparr>"

definition GetTxReadWriteSet :: "RWSetBuilder \<Rightarrow> TxRwSet" where
  "GetTxReadWriteSet b = map nsPub_build (GetValuesBySortedKeys (wb_pubRwBuilderMap b))"

definition getTxPvtReadWriteSet :: "RWSetBuilder \<Rightarrow> TxPvtRwSet option" where
  "getTxPvtReadWriteSet b =
     (let nsPvtRwSets = map nsPvt_build (GetValuesBySortedKeys (wb_pvtRwBuilderMap b))
      in if nsPvtRwSets = [] then None else Some nsPvtRwSets)"

definition setPvtCollectionHash :: "(bytes \<Rightarrow> bytes) \<Rightarrow> string \<Rightarrow> string \<Rightarrow> bytes \<Rightarrow> RWSetBuilder \<Rightarrow> RWSetBuilder" where
  "setPvtCollectionHash CH ns coll pvtDataProto b =
     on_coll ns coll (\<lambda>c. c\<lparr>chb_pvtDataHash := Some (CH pvtDataProto)\<rparr>) b"

record SimulationResults =
  sr_Pub :: "NsReadWriteSet list"
  sr_Pvt :: "NsPvtReadWriteSet list option"
  sr_PrivateReads :: "(string \<times> string) set"
  sr_WritesetMetadata :: "string \<times> string \<times> string \<rightharpoonup> (string, bytes) fmap"

definition set_hashes :: "(bytes \<Rightarrow> bytes) \<Rightarrow> NsPvtReadWriteSet list \<Rightarrow> RWSetBuilder \<Rightarrow> RWSetBuilder" where
  "set_hashes CH msgs b =
     fold (\<lambda>n. fold (\<lambda>c. setPvtCollectionHash CH (np_Namespace n) (cp_CollectionName c) (cp_Rwset c)) (np_CollectionPvtRwset n)) msgs b"

definition builder_GetTxSimulationResults ::
  "rwset_codec \<Rightarrow> (bytes \<Rightarrow> bytes) \<Rightarrow> RWSetBuilder \<Rightarrow> string + SimulationResults \<times> RWSetBuilder" where
  "builder_GetTxSimulationResults cd CH b =
     bind_err (case getTxPvtReadWriteSet b of
                 None \<Rightarrow> Inr None
               | Some pvtData \<Rightarrow> bind_err (ToPvtProtoMsg cd pvtData) (\<lambda>m. Inr (Some m))) (\<lambda>pvtDataProto.
       let b = (case pvtDataProto of None \<Rightarrow> b | Some m \<Rightarrow> set_hashes CH m b)
       in bind_err (toProtoMsg cd (GetTxReadWriteSet b)) (\<lambda>pubDataProto.
            Inr (\<lparr>sr_Pub = pubDataProto, sr_Pvt = pvtDataProto, sr_PrivateReads = {}, sr_WritesetMetadata = Map.empty\<rparr>, b)))"

section \<open>What a builder holds\<close>

named_theorems builder_simps \<open>reading a builder after a change\<close>

lemma ns_on_ns [builder_simps]:
  "getOrCreateNsPubRwBuilder ns' (on_ns ns f b) =
     (if ns' = ns then f (getOrCreateNsPubRwBuilder ns b) else getOrCreateNsPubRwBuilder ns' b)"
  by (simp add: getOrCreateNsPubRwBuilder_def on_ns_def)

lemma ns_on_coll [builder_simps]:
  "getOrCreateNsPubRwBuilder ns' (on_coll ns coll f b) =
     (if ns' = ns then (getOrCreateNsPubRwBuilder ns b)\<lparr>npb_collHashRwBuilder :=
        fmupd coll (f (getOrCreateCollHashedRwBuilder ns coll b)) (npb_collHashRwBuilder (getOrCreateNsPubRwBuilder ns b))\<rparr>
      else getOrCreateNsPubRwBuilder ns' b)"
  by (simp add: on_coll_def ns_on_ns)

lemma ns_on_pvt [builder_simps]:
  "getOrCreateNsPubRwBuilder ns' (on_pvt ns coll f b) = getOrCreateNsPubRwBuilder ns' b"
  by (simp add: getOrCreateNsPubRwBuilder_def on_pvt_def Let_def)

lemma coll_on_pvt [builder_simps]:
  "getOrCreateCollHashedRwBuilder ns' coll' (on_pvt ns coll f b) = getOrCreateCollHashedRwBuilder ns' coll' b"
  by (simp add: getOrCreateCollHashedRwBuilder_def ns_on_pvt)

lemma coll_on_coll [builder_simps]:
  "getOrCreateCollHashedRwBuilder ns' coll' (on_coll ns coll f b) =
     (if ns' = ns \<and> coll' = coll then f (getOrCreateCollHashedRwBuilder ns coll b) else getOrCreateCollHashedRwBuilder ns' coll' b)"
  by (simp add: getOrCreateCollHashedRwBuilder_def ns_on_coll)

text \<open>The entry of a key: of the public state, and of a collection.\<close>

definition o_read :: "RWSetBuilder \<Rightarrow> string \<Rightarrow> string \<Rightarrow> KVRead option" where
  "o_read b ns = fmlookup (npb_readMap (getOrCreateNsPubRwBuilder ns b))"

definition o_write :: "RWSetBuilder \<Rightarrow> string \<Rightarrow> string \<Rightarrow> KVWrite option" where
  "o_write b ns = fmlookup (npb_writeMap (getOrCreateNsPubRwBuilder ns b))"

definition o_md :: "RWSetBuilder \<Rightarrow> string \<Rightarrow> string \<Rightarrow> KVMetadataWrite option" where
  "o_md b ns = fmlookup (npb_metadataWriteMap (getOrCreateNsPubRwBuilder ns b))"

definition o_query :: "RWSetBuilder \<Rightarrow> string \<Rightarrow> rangeQueryKey \<Rightarrow> RangeQueryInfo option" where
  "o_query b ns = fmlookup (npb_rangeQueriesMap (getOrCreateNsPubRwBuilder ns b))"

definition o_hread :: "RWSetBuilder \<Rightarrow> string \<Rightarrow> string \<Rightarrow> string \<Rightarrow> KVReadHash option" where
  "o_hread b ns coll = fmlookup (chb_readMap (getOrCreateCollHashedRwBuilder ns coll b))"

definition o_hwrite :: "RWSetBuilder \<Rightarrow> string \<Rightarrow> string \<Rightarrow> string \<Rightarrow> KVWriteHash option" where
  "o_hwrite b ns coll = fmlookup (chb_writeMap (getOrCreateCollHashedRwBuilder ns coll b))"

definition o_hmd :: "RWSetBuilder \<Rightarrow> string \<Rightarrow> string \<Rightarrow> string \<Rightarrow> KVMetadataWriteHash option" where
  "o_hmd b ns coll = fmlookup (chb_metadataWriteMap (getOrCreateCollHashedRwBuilder ns coll b))"

lemmas o_defs = o_read_def o_write_def o_md_def o_query_def o_hread_def o_hwrite_def o_hmd_def

text \<open>
  The invariant: an entry is kept under its own key, a builder under its own name; the list of range
  queries has the keys of their map once.
\<close>

definition kept :: "('v \<Rightarrow> 'k) \<Rightarrow> (string \<Rightarrow> 'k) \<Rightarrow> (string, 'v) fmap \<Rightarrow> bool" where
  "kept key f m \<longleftrightarrow> (\<forall>k v. fmlookup m k = Some v \<longrightarrow> key v = f k)"

lemma kept_empty [simp]: "kept key f fmempty"
  by (simp add: kept_def)

lemma kept_upd: "kept key f m \<Longrightarrow> key v = f k \<Longrightarrow> kept key f (fmupd k v m)"
  by (simp add: kept_def)

definition coll_inv :: "(bytes \<Rightarrow> bytes) \<Rightarrow> string \<Rightarrow> collHashRwBuilder \<Rightarrow> bool" where
  "coll_inv CH coll c \<longleftrightarrow> chb_collName c = coll \<and> kept krh_KeyHash CH (chb_readMap c) \<and>
     kept kwh_KeyHash CH (chb_writeMap c) \<and> kept mwh_KeyHash CH (chb_metadataWriteMap c) \<and>
     kept (\<lambda>w. md_set (mwh_Entries w)) (\<lambda>_. True) (chb_metadataWriteMap c) \<and> chb_pvtDataHash c \<noteq> Some []"

definition ns_inv :: "(bytes \<Rightarrow> bytes) \<Rightarrow> string \<Rightarrow> nsPubRwBuilder \<Rightarrow> bool" where
  "ns_inv CH ns n \<longleftrightarrow> npb_namespace n = ns \<and> kept kr_Key (\<lambda>k. k) (npb_readMap n) \<and> kept kw_Key (\<lambda>k. k) (npb_writeMap n) \<and>
     kept mw_Key (\<lambda>k. k) (npb_metadataWriteMap n) \<and> kept (\<lambda>w. md_set (mw_Entries w)) (\<lambda>_. True) (npb_metadataWriteMap n) \<and>
     distinct (npb_rangeQueriesKeys n) \<and> set (npb_rangeQueriesKeys n) = fmdom' (npb_rangeQueriesMap n) \<and>
     (\<forall>coll c. fmlookup (npb_collHashRwBuilder n) coll = Some c \<longrightarrow> coll_inv CH coll c)"

definition pvt_inv :: "string \<Rightarrow> collPvtRwBuilder \<Rightarrow> bool" where
  "pvt_inv coll c \<longleftrightarrow> cpb_collectionName c = coll \<and> kept (\<lambda>w. md_set (mw_Entries w)) (\<lambda>_. True) (cpb_metadataWriteMap c)"

definition builder_inv :: "(bytes \<Rightarrow> bytes) \<Rightarrow> RWSetBuilder \<Rightarrow> bool" where
  "builder_inv CH b \<longleftrightarrow> (\<forall>ns n. fmlookup (wb_pubRwBuilderMap b) ns = Some n \<longrightarrow> ns_inv CH ns n) \<and>
     (\<forall>ns n. fmlookup (wb_pvtRwBuilderMap b) ns = Some n \<longrightarrow> nvb_namespace n = ns \<and>
        (\<forall>coll c. fmlookup (nvb_collPvtRwBuilders n) coll = Some c \<longrightarrow> pvt_inv coll c))"

lemma md_set_entries: "md_set (metadata_entries m)" "md_set None"
  by (simp_all add: md_set_def metadata_entries_def Let_def)

lemma new_inv: "coll_inv CH coll (newCollHashRwBuilder coll)" "ns_inv CH ns (newNsPubRwBuilder ns)"
  by (simp_all add: coll_inv_def newCollHashRwBuilder_def ns_inv_def newNsPubRwBuilder_def)

lemma builder_inv_new: "builder_inv CH NewRWSetBuilder"
  by (simp add: builder_inv_def NewRWSetBuilder_def)

lemma getOrCreate_inv:
  "builder_inv CH b \<Longrightarrow> ns_inv CH ns (getOrCreateNsPubRwBuilder ns b)"
  "builder_inv CH b \<Longrightarrow> coll_inv CH coll (getOrCreateCollHashedRwBuilder ns coll b)"
proof -
  show "ns_inv CH ns (getOrCreateNsPubRwBuilder ns b)" if "builder_inv CH b"
    using that by (simp add: getOrCreateNsPubRwBuilder_def builder_inv_def new_inv split: option.split)
  then show "coll_inv CH coll (getOrCreateCollHashedRwBuilder ns coll b)" if "builder_inv CH b"
    using that by (simp add: getOrCreateCollHashedRwBuilder_def ns_inv_def new_inv split: option.split)
qed

lemma on_ns_inv: "builder_inv CH b \<Longrightarrow> (\<And>n. ns_inv CH ns n \<Longrightarrow> ns_inv CH ns (f n)) \<Longrightarrow> builder_inv CH (on_ns ns f b)"
  using getOrCreate_inv(1) [of CH b ns] by (simp add: builder_inv_def on_ns_def)

lemma on_coll_inv:
  assumes "builder_inv CH b" "\<And>c. coll_inv CH coll c \<Longrightarrow> coll_inv CH coll (f c)"
  shows "builder_inv CH (on_coll ns coll f b)"
  unfolding on_coll_def by (rule on_ns_inv [OF assms(1)]) (use assms getOrCreate_inv(2) in \<open>simp add: ns_inv_def\<close>)

lemma on_pvt_inv:
  assumes "builder_inv CH b" "\<And>c. pvt_inv coll c \<Longrightarrow> pvt_inv coll (f c)"
  shows "builder_inv CH (on_pvt ns coll f b)"
proof -
  have n: "fmlookup (nvb_collPvtRwBuilders (getOrCreateNsPvtRwBuilder ns b)) c = Some x \<Longrightarrow> pvt_inv c x" for c x
    using assms(1) by (auto simp: builder_inv_def getOrCreateNsPvtRwBuilder_def newNsPvtRwBuilder_def split: option.splits)
  have "pvt_inv coll (getOrCreateCollPvtRwBuilder ns coll b)"
    using n by (auto simp: getOrCreateCollPvtRwBuilder_def newCollPvtRwBuilder_def pvt_inv_def split: option.splits)
  moreover have "nvb_namespace (getOrCreateNsPvtRwBuilder ns b) = ns"
    using assms(1) by (auto simp: builder_inv_def getOrCreateNsPvtRwBuilder_def newNsPvtRwBuilder_def split: option.splits)
  ultimately show ?thesis using n assms by (auto simp: builder_inv_def on_pvt_def Let_def split: if_splits)
qed

lemmas builder_inv_intros = on_ns_inv on_coll_inv on_pvt_inv

lemma Add_inv:
  assumes "builder_inv CH b"
  shows "builder_inv CH (AddToReadSet ns key ver b)"
    "builder_inv CH (AddToWriteSet ns key val b)"
    "builder_inv CH (AddToMetadataWriteSet ns key md b)"
    "builder_inv CH (AddToRangeQuerySet ns q b)"
    "builder_inv CH (AddToHashedReadSet CH ns coll key ver b)"
    "builder_inv CH (AddToPvtAndHashedWriteSet CH ns coll key val b)"
    "builder_inv CH (AddToPvtAndHashedWriteSetForPurge CH ns coll key b)"
    "builder_inv CH (AddToHashedMetadataWriteSet CH ns coll key md b)"
    "(\<forall>x. CH x \<noteq> []) \<Longrightarrow> builder_inv CH (setPvtCollectionHash CH ns coll bs b)"
  unfolding AddToReadSet_def AddToWriteSet_def AddToMetadataWriteSet_def AddToRangeQuerySet_def AddToHashedReadSet_def
    AddToPvtAndHashedWriteSet_def AddToPvtAndHashedWriteSetForPurge_def AddToHashedMetadataWriteSet_def setPvtCollectionHash_def
    Let_def newPvtKVWriteAndHash_def prod.case
  by (intro builder_inv_intros assms; auto simp: ns_inv_def coll_inv_def pvt_inv_def kept_upd md_set_entries NewKVRead_def newKVWrite_def mapToMetadataWrite_def
      newPvtKVReadHash_def mapToMetadataWriteHash_def fmlookup_dom'_iff fmdom'_alt_def fmlookup_dom_iff split: option.splits)+

lemma set_hashes_inv:
  assumes "\<forall>x. CH x \<noteq> []"
  shows "builder_inv CH b \<Longrightarrow> builder_inv CH (set_hashes CH msgs b)"
proof -
  have coll: "builder_inv CH b \<Longrightarrow> builder_inv CH (fold (\<lambda>c. setPvtCollectionHash CH ns (cp_CollectionName c) (cp_Rwset c)) cs b)" for ns cs b
    by (induction cs arbitrary: b) (simp_all add: Add_inv(9) [OF _ assms])
  show "builder_inv CH b \<Longrightarrow> builder_inv CH (set_hashes CH msgs b)"
    unfolding set_hashes_def by (induction msgs arbitrary: b) (simp_all add: coll)
qed

section \<open>The write set that is built\<close>

lemma set_GetValuesBySortedKeys: "v \<in> set (GetValuesBySortedKeys m) \<longleftrightarrow> (\<exists>k. fmlookup m k = Some v)"
  by (force simp: GetValuesBySortedKeys_def GetSortedKeys_props fmlookup_dom_iff)

lemma image_GetValuesBySortedKeys: "y \<in> f ` set (GetValuesBySortedKeys m) \<longleftrightarrow> (\<exists>k v. fmlookup m k = Some v \<and> y = f v)"
  using set_GetValuesBySortedKeys [of _ m] by blast

lemma map_GetValuesBySortedKeys: "kept key f m \<Longrightarrow> map key (GetValuesBySortedKeys m) = map f (GetSortedKeys m)"
  by (auto simp: GetValuesBySortedKeys_def GetSortedKeys_props fmlookup_dom_iff kept_def)

lemma distinct_GetValuesBySortedKeys: "kept key f m \<Longrightarrow> inj_on f (fmdom' m) \<Longrightarrow> distinct (map key (GetValuesBySortedKeys m))"
  by (simp add: map_GetValuesBySortedKeys distinct_map GetSortedKeys_props fmdom'_alt_def)

lemma lookup_pub: "fmlookup (wb_pubRwBuilderMap b) ns = Some n \<Longrightarrow> getOrCreateNsPubRwBuilder ns b = n"
  by (simp add: getOrCreateNsPubRwBuilder_def)

lemma set_GetTxReadWriteSet:
  "n \<in> set (GetTxReadWriteSet b) \<longleftrightarrow>
     (\<exists>ns. fmlookup (wb_pubRwBuilderMap b) ns \<noteq> None \<and> n = nsPub_build (getOrCreateNsPubRwBuilder ns b))"
  unfolding GetTxReadWriteSet_def set_map image_GetValuesBySortedKeys using lookup_pub [of b] by fastforce

lemma set_colls:
  "c \<in> set (nsr_CollHashedRwSets (nsPub_build (getOrCreateNsPubRwBuilder ns b))) \<longleftrightarrow>
     (\<exists>coll. fmlookup (npb_collHashRwBuilder (getOrCreateNsPubRwBuilder ns b)) coll \<noteq> None \<and>
        c = collHash_build (getOrCreateCollHashedRwBuilder ns coll b))"
  unfolding nsPub_build_def NsRwSet.simps set_map image_GetValuesBySortedKeys getOrCreateCollHashedRwBuilder_def by force

lemma not_in_pub: "fmlookup (wb_pubRwBuilderMap b) ns = None \<Longrightarrow>
    o_read b ns k = None \<and> o_write b ns k = None \<and> o_md b ns k = None \<and> o_hread b ns coll k = None \<and>
    o_hwrite b ns coll k = None \<and> o_hmd b ns coll k = None"
  by (simp add: o_defs getOrCreateNsPubRwBuilder_def getOrCreateCollHashedRwBuilder_def newNsPubRwBuilder_def newCollHashRwBuilder_def)

lemma not_in_coll: "fmlookup (npb_collHashRwBuilder (getOrCreateNsPubRwBuilder ns b)) coll = None \<Longrightarrow>
    o_hread b ns coll k = None \<and> o_hwrite b ns coll k = None \<and> o_hmd b ns coll k = None"
  by (simp add: o_defs getOrCreateCollHashedRwBuilder_def newCollHashRwBuilder_def)

definition written :: "KVWrite \<Rightarrow> bytes option" where
  "written w = (if IsKVWriteDelete w then None else Some (kw_Value w))"

lemma kv_op_written: "kv_op ns coll w = KvOp (ns, coll, kw_Key w) (written w)"
  by (simp add: kv_op_def written_def)

text \<open>The writes of a builder: those of the public state and, under the hashes of the keys, of the collections.\<close>

definition holds_kv :: "(bytes \<Rightarrow> bytes) \<Rightarrow> bytes \<Rightarrow> RWSetBuilder \<Rightarrow> compositeKey \<Rightarrow> bytes option \<Rightarrow> bool" where
  "holds_kv CH zeroHash b = (\<lambda>(ns, coll, k) v.
     (coll = '''' \<and> (\<exists>w. o_write b ns k = Some w \<and> v = written w)) \<or>
     (\<exists>key w. o_hwrite b ns coll key = Some w \<and> k = CH key \<and> v = written (hashed_write zeroHash w)))"

definition holds_md :: "(bytes \<Rightarrow> bytes) \<Rightarrow> (KVMetadataEntry list \<Rightarrow> bytes) \<Rightarrow> RWSetBuilder \<Rightarrow> compositeKey \<Rightarrow> bytes option \<Rightarrow> bool" where
  "holds_md CH Ser b = (\<lambda>(ns, coll, k) v.
     (coll = '''' \<and> (\<exists>w. o_md b ns k = Some w \<and> v = map_option Ser (mw_Entries w))) \<or>
     (\<exists>key w. o_hmd b ns coll key = Some w \<and> k = CH key \<and> v = map_option Ser (mwh_Entries w)))"

lemma ns_builder_simps:
  "builder_inv CH b \<Longrightarrow> nsr_NameSpace (nsPub_build (getOrCreateNsPubRwBuilder ns b)) = ns"
  "builder_inv CH b \<Longrightarrow> chr_CollectionName (collHash_build (getOrCreateCollHashedRwBuilder ns coll b)) = coll"
  using getOrCreate_inv [of CH b] by (simp_all add: nsPub_build_def collHash_build_def ns_inv_def coll_inv_def)

lemma set_ns_ops:
  "x \<in> set (ns_ops Ser zeroHash n) \<longleftrightarrow>
     x \<in> kv_op (nsr_NameSpace n) '''' ` set (rw_Writes (nsr_KvRwSet n)) \<or>
     x \<in> md_op Ser (nsr_NameSpace n) '''' ` set (rw_MetadataWrites (nsr_KvRwSet n)) \<or>
     (\<exists>c \<in> set (nsr_CollHashedRwSets n).
        x \<in> kv_op (nsr_NameSpace n) (chr_CollectionName c) ` hashed_write zeroHash ` set (hrw_HashedWrites (chr_HashedRwSet c)) \<or>
        x \<in> md_op Ser (nsr_NameSpace n) (chr_CollectionName c) ` hashed_metadata ` set (hrw_MetadataWrites (chr_HashedRwSet c)))"
  by (simp add: ns_ops_def coll_ops_def image_image)

lemma op_names:
  "x \<in> kv_op ns coll ` A \<Longrightarrow> fst (op_key x) = ns \<and> fst (snd (op_key x)) = coll"
  "x \<in> md_op Ser ns coll ` B \<Longrightarrow> fst (op_key x) = ns \<and> fst (snd (op_key x)) = coll"
  "KvOp ck v \<notin> md_op Ser ns coll ` B"
  "MdOp ck v \<notin> kv_op ns coll ` A"
  by (auto simp: kv_op_def md_op_def)

text \<open>The operations on a key come from the builder of its namespace, and of its collection.\<close>

lemma in_tx_ops:
  assumes "builder_inv CH b" "op_key x = (ns, coll, k)"
  shows "x \<in> set (tx_ops Ser zeroHash (GetTxReadWriteSet b)) \<longleftrightarrow>
    fmlookup (wb_pubRwBuilderMap b) ns \<noteq> None \<and> (let n = nsPub_build (getOrCreateNsPubRwBuilder ns b) in
      x \<in> kv_op ns '''' ` set (rw_Writes (nsr_KvRwSet n)) \<or> x \<in> md_op Ser ns '''' ` set (rw_MetadataWrites (nsr_KvRwSet n)) \<or>
      fmlookup (npb_collHashRwBuilder (getOrCreateNsPubRwBuilder ns b)) coll \<noteq> None \<and>
      (let c = collHash_build (getOrCreateCollHashedRwBuilder ns coll b) in
        x \<in> kv_op ns coll ` hashed_write zeroHash ` set (hrw_HashedWrites (chr_HashedRwSet c)) \<or>
        x \<in> md_op Ser ns coll ` hashed_metadata ` set (hrw_MetadataWrites (chr_HashedRwSet c))))"
proof -
  define P where "P coll c \<longleftrightarrow> x \<in> kv_op ns coll ` hashed_write zeroHash ` set (hrw_HashedWrites (chr_HashedRwSet c)) \<or>
        x \<in> md_op Ser ns coll ` hashed_metadata ` set (hrw_MetadataWrites (chr_HashedRwSet c))" for coll and c :: CollHashedRwSet
  have ns: "nsr_NameSpace n = ns" if "x \<in> set (ns_ops Ser zeroHash n)" for n
    using that assms(2) unfolding set_ns_ops by (auto dest!: op_names(1,2))
  have coll: "coll' = coll" if "P coll' c" for coll' c
    using that op_names(1,2) [of x] assms(2) unfolding P_def by (metis fst_conv snd_conv)
  have 1: "x \<in> set (tx_ops Ser zeroHash (GetTxReadWriteSet b)) \<longleftrightarrow>
      fmlookup (wb_pubRwBuilderMap b) ns \<noteq> None \<and> x \<in> set (ns_ops Ser zeroHash (nsPub_build (getOrCreateNsPubRwBuilder ns b)))"
  proof -
    have "x \<in> set (tx_ops Ser zeroHash (GetTxReadWriteSet b)) \<longleftrightarrow> (\<exists>n \<in> set (GetTxReadWriteSet b). x \<in> set (ns_ops Ser zeroHash n))"
      by (simp add: tx_ops_def)
    moreover have "n = nsPub_build (getOrCreateNsPubRwBuilder ns b) \<and> fmlookup (wb_pubRwBuilderMap b) ns \<noteq> None"
      if "n \<in> set (GetTxReadWriteSet b)" "x \<in> set (ns_ops Ser zeroHash n)" for n
      using that(1) ns [OF that(2)] ns_builder_simps(1) [OF assms(1)] unfolding set_GetTxReadWriteSet by auto
    moreover have "nsPub_build (getOrCreateNsPubRwBuilder ns b) \<in> set (GetTxReadWriteSet b)" if "fmlookup (wb_pubRwBuilderMap b) ns \<noteq> None"
      using that unfolding set_GetTxReadWriteSet by blast
    ultimately show ?thesis by blast
  qed
  have 2: "(\<exists>c \<in> set (nsr_CollHashedRwSets (nsPub_build (getOrCreateNsPubRwBuilder ns b))). P (chr_CollectionName c) c) \<longleftrightarrow>
      fmlookup (npb_collHashRwBuilder (getOrCreateNsPubRwBuilder ns b)) coll \<noteq> None \<and>
      P coll (collHash_build (getOrCreateCollHashedRwBuilder ns coll b))"
  proof -
    have "c = collHash_build (getOrCreateCollHashedRwBuilder ns coll b) \<and>
        fmlookup (npb_collHashRwBuilder (getOrCreateNsPubRwBuilder ns b)) coll \<noteq> None \<and> chr_CollectionName c = coll"
      if "c \<in> set (nsr_CollHashedRwSets (nsPub_build (getOrCreateNsPubRwBuilder ns b)))" "P (chr_CollectionName c) c" for c
      using that(1) coll [OF that(2)] ns_builder_simps(2) [OF assms(1), of ns] unfolding set_colls by auto
    moreover have "collHash_build (getOrCreateCollHashedRwBuilder ns coll b) \<in> set (nsr_CollHashedRwSets (nsPub_build (getOrCreateNsPubRwBuilder ns b)))"
      if "fmlookup (npb_collHashRwBuilder (getOrCreateNsPubRwBuilder ns b)) coll \<noteq> None"
      using that unfolding set_colls by blast
    ultimately show ?thesis using ns_builder_simps(2) [OF assms(1), of ns coll] by metis
  qed
  show ?thesis by (simp only: 1 set_ns_ops ns_builder_simps(1) [OF assms(1)] Let_def 2 [unfolded P_def])
qed

lemma KvOp_tx_ops:
  assumes "builder_inv CH b"
  shows "KvOp ck v \<in> set (tx_ops Ser zeroHash (GetTxReadWriteSet b)) \<longleftrightarrow> holds_kv CH zeroHash b ck v"
proof -
  obtain ns coll k where ck: "ck = (ns, coll, k)" by (cases ck)
  let ?n = "nsPub_build (getOrCreateNsPubRwBuilder ns b)"
  have inv: "ns_inv CH ns (getOrCreateNsPubRwBuilder ns b)" "coll_inv CH coll (getOrCreateCollHashedRwBuilder ns coll b)"
    using getOrCreate_inv assms by auto
  have pub: "KvOp ck v \<in> kv_op ns '''' ` set (rw_Writes (nsr_KvRwSet ?n)) \<longleftrightarrow>
      coll = '''' \<and> (\<exists>w. o_write b ns k = Some w \<and> v = written w)"
    using inv(1) unfolding ck nsPub_build_def NsRwSet.simps KVRWSet.simps image_GetValuesBySortedKeys o_write_def ns_inv_def kept_def kv_op_written
    by (auto, metis)
  have hashed: "KvOp ck v \<in> kv_op ns coll ` hashed_write zeroHash ` set (hrw_HashedWrites (chr_HashedRwSet
      (collHash_build (getOrCreateCollHashedRwBuilder ns coll b)))) \<longleftrightarrow>
      (\<exists>key w. o_hwrite b ns coll key = Some w \<and> k = CH key \<and> v = written (hashed_write zeroHash w))"
    using inv(2) unfolding ck collHash_build_def CollHashedRwSet.simps HashedRWSet.simps image_image image_GetValuesBySortedKeys o_hwrite_def
      coll_inv_def kept_def kv_op_written hashed_write_def KVWrite.simps by (auto; metis)
  show ?thesis unfolding in_tx_ops [OF assms, of "KvOp ck v", unfolded op_key.simps, OF ck] Let_def pub hashed holds_kv_def
    using not_in_pub [of b ns k coll] not_in_coll [of ns b coll] not_in_pub [of b ns _ coll] op_names(3)
    by (cases "fmlookup (wb_pubRwBuilderMap b) ns"; cases "fmlookup (npb_collHashRwBuilder (getOrCreateNsPubRwBuilder ns b)) coll")
      (auto simp: ck)
qed

lemma MdOp_tx_ops:
  assumes "builder_inv CH b"
  shows "MdOp ck v \<in> set (tx_ops Ser zeroHash (GetTxReadWriteSet b)) \<longleftrightarrow> holds_md CH Ser b ck v"
proof -
  obtain ns coll k where ck: "ck = (ns, coll, k)" by (cases ck)
  let ?n = "nsPub_build (getOrCreateNsPubRwBuilder ns b)"
  have inv: "ns_inv CH ns (getOrCreateNsPubRwBuilder ns b)" "coll_inv CH coll (getOrCreateCollHashedRwBuilder ns coll b)"
    using getOrCreate_inv assms by auto
  have pub: "MdOp ck v \<in> md_op Ser ns '''' ` set (rw_MetadataWrites (nsr_KvRwSet ?n)) \<longleftrightarrow>
      coll = '''' \<and> (\<exists>w. o_md b ns k = Some w \<and> v = map_option Ser (mw_Entries w))"
    using inv(1) unfolding ck nsPub_build_def NsRwSet.simps KVRWSet.simps image_GetValuesBySortedKeys o_md_def ns_inv_def kept_def md_op_def
    by (auto, metis)
  have hashed: "MdOp ck v \<in> md_op Ser ns coll ` hashed_metadata ` set (hrw_MetadataWrites (chr_HashedRwSet
      (collHash_build (getOrCreateCollHashedRwBuilder ns coll b)))) \<longleftrightarrow>
      (\<exists>key w. o_hmd b ns coll key = Some w \<and> k = CH key \<and> v = map_option Ser (mwh_Entries w))"
    using inv(2) unfolding ck collHash_build_def CollHashedRwSet.simps HashedRWSet.simps image_image image_GetValuesBySortedKeys o_hmd_def
      coll_inv_def kept_def md_op_def hashed_metadata_def KVMetadataWrite.simps by (auto; metis)
  show ?thesis unfolding in_tx_ops [OF assms, of "MdOp ck v", unfolded op_key.simps, OF ck] Let_def pub hashed holds_md_def
    using not_in_pub [of b ns k coll] not_in_coll [of ns b coll] not_in_pub [of b ns _ coll] op_names(4)
    by (cases "fmlookup (wb_pubRwBuilderMap b) ns"; cases "fmlookup (npb_collHashRwBuilder (getOrCreateNsPubRwBuilder ns b)) coll")
      (auto simp: ck)
qed

lemma distinct_concat_labelled:
  "distinct (map l xs) \<Longrightarrow> (\<And>x. x \<in> set xs \<Longrightarrow> distinct (f x)) \<Longrightarrow> (\<And>x y. x \<in> set xs \<Longrightarrow> y \<in> set (f x) \<Longrightarrow> lab y = l x) \<Longrightarrow>
     distinct (concat (map f xs))"
proof (induction xs)
  case (Cons x xs)
  have "set (f x) \<inter> set (concat (map f xs)) = {}"
  proof (rule ccontr)
    assume "set (f x) \<inter> set (concat (map f xs)) \<noteq> {}"
    then obtain y x' where "y \<in> set (f x)" "x' \<in> set xs" "y \<in> set (f x')" by auto
    then have "l x' = l x" using Cons.prems(3) [of x y] Cons.prems(3) [of x' y] by simp
    then show False using Cons.prems(1) \<open>x' \<in> set xs\<close> by (metis distinct.simps(2) image_eqI list.set_map list.simps(9))
  qed
  then show ?case using Cons by simp
qed simp

lemma writes_append: "kv_writes (xs @ ys) = kv_writes xs @ kv_writes ys" "md_writes (xs @ ys) = md_writes xs @ md_writes ys"
proof -
  have "kv_writes (xs @ ys) = kv_writes xs @ kv_writes ys \<and> md_writes (xs @ ys) = md_writes xs @ md_writes ys"
  proof (induction xs)
    case (Cons x xs)
    then show ?case by (cases x) simp_all
  qed simp
  then show "kv_writes (xs @ ys) = kv_writes xs @ kv_writes ys" "md_writes (xs @ ys) = md_writes xs @ md_writes ys" by blast+
qed

lemma writes_concat: "kv_writes (concat xs) = concat (map kv_writes xs)" "md_writes (concat xs) = concat (map md_writes xs)"
  by (induction xs) (simp_all add: writes_append)

lemma kv_op_writes:
  "map fst (kv_writes (map (kv_op ns coll) ws)) = map (\<lambda>w. (ns, coll, kw_Key w)) ws" "md_writes (map (kv_op ns coll) ws) = []"
  by (induction ws) (simp_all add: kv_op_def)

lemma md_op_writes:
  "kv_writes (map (md_op Ser ns coll) ms) = []" "map fst (md_writes (map (md_op Ser ns coll) ms)) = map (\<lambda>w. (ns, coll, mw_Key w)) ms"
  by (induction ms) (simp_all add: md_op_def)

text \<open>The keys a read-write set writes: those of the public state, then those of each collection.\<close>

definition rw_keys_of :: "(NsRwSet \<Rightarrow> string list) \<Rightarrow> (CollHashedRwSet \<Rightarrow> string list) \<Rightarrow> TxRwSet \<Rightarrow> compositeKey list" where
  "rw_keys_of p h rwset =
     concat (map (\<lambda>n. map (\<lambda>k. (nsr_NameSpace n, '''', k)) (p n) @
       concat (map (\<lambda>c. map (\<lambda>k. (nsr_NameSpace n, chr_CollectionName c, k)) (h c)) (nsr_CollHashedRwSets n))) rwset)"

lemma tx_ops_keys:
  "map fst (kv_writes (tx_ops Ser zeroHash rwset)) =
     rw_keys_of (\<lambda>n. map kw_Key (rw_Writes (nsr_KvRwSet n))) (\<lambda>c. map kwh_KeyHash (hrw_HashedWrites (chr_HashedRwSet c))) rwset"
  "map fst (md_writes (tx_ops Ser zeroHash rwset)) =
     rw_keys_of (\<lambda>n. map mw_Key (rw_MetadataWrites (nsr_KvRwSet n))) (\<lambda>c. map mwh_KeyHash (hrw_MetadataWrites (chr_HashedRwSet c))) rwset"
proof -
  have coll: "map fst (kv_writes (coll_ops Ser zeroHash ns c)) =
      map (\<lambda>k. (ns, chr_CollectionName c, k)) (map kwh_KeyHash (hrw_HashedWrites (chr_HashedRwSet c)))"
    "map fst (md_writes (coll_ops Ser zeroHash ns c)) =
      map (\<lambda>k. (ns, chr_CollectionName c, k)) (map mwh_KeyHash (hrw_MetadataWrites (chr_HashedRwSet c)))" for ns c
    unfolding coll_ops_def writes_append map_append kv_op_writes md_op_writes by (simp_all add: hashed_write_def hashed_metadata_def comp_def)
  show "map fst (kv_writes (tx_ops Ser zeroHash rwset)) =
     rw_keys_of (\<lambda>n. map kw_Key (rw_Writes (nsr_KvRwSet n))) (\<lambda>c. map kwh_KeyHash (hrw_HashedWrites (chr_HashedRwSet c))) rwset"
    "map fst (md_writes (tx_ops Ser zeroHash rwset)) =
     rw_keys_of (\<lambda>n. map mw_Key (rw_MetadataWrites (nsr_KvRwSet n))) (\<lambda>c. map mwh_KeyHash (hrw_MetadataWrites (chr_HashedRwSet c))) rwset"
    unfolding tx_ops_def ns_ops_def writes_concat rw_keys_of_def map_concat map_map comp_def writes_append map_append kv_op_writes md_op_writes coll
    by (simp_all add: comp_def)
qed

lemma distinct_rw_keys:
  assumes "distinct (map nsr_NameSpace rwset)"
    and ns: "\<And>n. n \<in> set rwset \<Longrightarrow> distinct (p n) \<and> distinct (map chr_CollectionName (nsr_CollHashedRwSets n)) \<and>
      (\<forall>c \<in> set (nsr_CollHashedRwSets n). chr_CollectionName c \<noteq> '''' \<and> distinct (h c))"
  shows "distinct (rw_keys_of p h rwset)"
  unfolding rw_keys_of_def
proof (rule distinct_concat_labelled [where l = nsr_NameSpace and lab = fst, OF assms(1)])
  fix n assume n: "n \<in> set rwset"
  have inj: "distinct ks \<Longrightarrow> distinct (map (\<lambda>k. (ns, coll, k)) ks)" for ks :: "string list" and ns coll :: string
    by (simp add: distinct_map inj_on_def)
  have "distinct (concat (map (\<lambda>c. map (\<lambda>k. (nsr_NameSpace n, chr_CollectionName c, k)) (h c)) (nsr_CollHashedRwSets n)))"
    by (rule distinct_concat_labelled [where l = chr_CollectionName and lab = "\<lambda>ck. fst (snd ck)"])
      (use ns [OF n] inj in auto)
  moreover have "set (map (\<lambda>k. (nsr_NameSpace n, '''', k)) (p n)) \<inter>
      set (concat (map (\<lambda>c. map (\<lambda>k. (nsr_NameSpace n, chr_CollectionName c, k)) (h c)) (nsr_CollHashedRwSets n))) = {}"
    using ns [OF n] by auto
  ultimately show "distinct (map (\<lambda>k. (nsr_NameSpace n, '''', k)) (p n) @
      concat (map (\<lambda>c. map (\<lambda>k. (nsr_NameSpace n, chr_CollectionName c, k)) (h c)) (nsr_CollHashedRwSets n)))"
    using ns [OF n] inj unfolding distinct_append by blast
qed auto

text \<open>No collection without a name.\<close>

definition named_colls :: "RWSetBuilder \<Rightarrow> bool" where
  "named_colls b \<longleftrightarrow> (\<forall>ns. fmlookup (npb_collHashRwBuilder (getOrCreateNsPubRwBuilder ns b)) '''' = None \<and>
     fmlookup (nvb_collPvtRwBuilders (getOrCreateNsPvtRwBuilder ns b)) '''' = None)"

lemma named_colls_new: "named_colls NewRWSetBuilder"
  by (simp add: named_colls_def NewRWSetBuilder_def getOrCreateNsPubRwBuilder_def getOrCreateNsPvtRwBuilder_def
      newNsPubRwBuilder_def newNsPvtRwBuilder_def)

lemma pvt_after [builder_simps]:
  "getOrCreateNsPvtRwBuilder ns' (on_ns ns f b) = getOrCreateNsPvtRwBuilder ns' b"
  "getOrCreateNsPvtRwBuilder ns' (on_coll ns coll g b) = getOrCreateNsPvtRwBuilder ns' b"
  by (simp_all add: getOrCreateNsPvtRwBuilder_def on_ns_def on_coll_def)

lemma pvt_on_pvt [builder_simps]:
  "getOrCreateNsPvtRwBuilder ns' (on_pvt ns coll h b) =
     (if ns' = ns then (getOrCreateNsPvtRwBuilder ns b)\<lparr>nvb_collPvtRwBuilders :=
        fmupd coll (h (getOrCreateCollPvtRwBuilder ns coll b)) (nvb_collPvtRwBuilders (getOrCreateNsPvtRwBuilder ns b))\<rparr>
      else getOrCreateNsPvtRwBuilder ns' b)"
  by (simp add: getOrCreateNsPvtRwBuilder_def on_pvt_def Let_def)

lemma Add_named:
  assumes "named_colls b"
  shows "named_colls (AddToReadSet ns key ver b)"
    "named_colls (AddToWriteSet ns key val b)"
    "named_colls (AddToMetadataWriteSet ns key md b)"
    "named_colls (AddToRangeQuerySet ns q b)"
    "coll \<noteq> '''' \<Longrightarrow> named_colls (AddToHashedReadSet CH ns coll key ver b)"
    "coll \<noteq> '''' \<Longrightarrow> named_colls (AddToPvtAndHashedWriteSet CH ns coll key val b)"
    "coll \<noteq> '''' \<Longrightarrow> named_colls (AddToPvtAndHashedWriteSetForPurge CH ns coll key b)"
    "coll \<noteq> '''' \<Longrightarrow> named_colls (AddToHashedMetadataWriteSet CH ns coll key md b)"
    "coll \<noteq> '''' \<Longrightarrow> named_colls (setPvtCollectionHash CH ns coll bs b)"
  using assms
  by (simp_all add: named_colls_def AddToReadSet_def AddToWriteSet_def AddToMetadataWriteSet_def AddToRangeQuerySet_def
      AddToHashedReadSet_def AddToPvtAndHashedWriteSet_def AddToPvtAndHashedWriteSetForPurge_def AddToHashedMetadataWriteSet_def
      setPvtCollectionHash_def Let_def newPvtKVWriteAndHash_def builder_simps split: option.split)

text \<open>
  The hash must tell apart the private keys \<open>K\<close> that the transaction writes.
\<close>

definition hashed_in :: "string set \<Rightarrow> RWSetBuilder \<Rightarrow> bool" where
  "hashed_in K b \<longleftrightarrow> (\<forall>ns coll key. o_hwrite b ns coll key \<noteq> None \<or> o_hmd b ns coll key \<noteq> None \<longrightarrow> key \<in> K)"

lemma hashed_in_inj:
  assumes "hashed_in K b" "inj_on CH K"
  shows "inj_on CH (fmdom' (chb_writeMap (getOrCreateCollHashedRwBuilder ns coll b)))"
    "inj_on CH (fmdom' (chb_metadataWriteMap (getOrCreateCollHashedRwBuilder ns coll b)))"
  by (rule inj_on_subset [OF assms(2)]; use assms(1) in \<open>auto simp: hashed_in_def o_hwrite_def o_hmd_def fmlookup_dom'_iff\<close>)+

lemma wf_tx_ops:
  assumes "builder_inv CH b" "inj_on CH K" "named_colls b" "hashed_in K b"
  shows "wf_ops (tx_ops Ser zeroHash (GetTxReadWriteSet b))"
proof -
  have keep: "kept npb_namespace (\<lambda>ns. ns) (wb_pubRwBuilderMap b)"
    using assms(1) by (simp add: builder_inv_def ns_inv_def kept_def)
  have "map nsr_NameSpace (GetTxReadWriteSet b) = map npb_namespace (GetValuesBySortedKeys (wb_pubRwBuilderMap b))"
    by (simp add: GetTxReadWriteSet_def nsPub_build_def)
  then have names: "distinct (map nsr_NameSpace (GetTxReadWriteSet b))"
    using distinct_GetValuesBySortedKeys [OF keep] by (simp add: inj_on_def)
  have part: "distinct (map kw_Key (rw_Writes (nsr_KvRwSet n))) \<and> distinct (map mw_Key (rw_MetadataWrites (nsr_KvRwSet n))) \<and>
      distinct (map chr_CollectionName (nsr_CollHashedRwSets n)) \<and> (\<forall>c \<in> set (nsr_CollHashedRwSets n). chr_CollectionName c \<noteq> '''' \<and>
      distinct (map kwh_KeyHash (hrw_HashedWrites (chr_HashedRwSet c))) \<and> distinct (map mwh_KeyHash (hrw_MetadataWrites (chr_HashedRwSet c))))"
    if n: "n \<in> set (GetTxReadWriteSet b)" for n
  proof -
    from n obtain ns where ns: "n = nsPub_build (getOrCreateNsPubRwBuilder ns b)" unfolding set_GetTxReadWriteSet by blast
    have inv: "ns_inv CH ns (getOrCreateNsPubRwBuilder ns b)" using getOrCreate_inv assms(1) by blast
    have "kept chb_collName (\<lambda>coll. coll) (npb_collHashRwBuilder (getOrCreateNsPubRwBuilder ns b))"
      using inv by (simp add: ns_inv_def coll_inv_def kept_def)
    from distinct_GetValuesBySortedKeys [OF this] have "distinct (map chr_CollectionName (nsr_CollHashedRwSets n))"
      by (simp add: ns nsPub_build_def collHash_build_def [abs_def] comp_def inj_on_def)
    moreover have "chr_CollectionName c \<noteq> '''' \<and> distinct (map kwh_KeyHash (hrw_HashedWrites (chr_HashedRwSet c))) \<and>
        distinct (map mwh_KeyHash (hrw_MetadataWrites (chr_HashedRwSet c)))" if "c \<in> set (nsr_CollHashedRwSets n)" for c
    proof -
      from that obtain coll where coll: "c = collHash_build (getOrCreateCollHashedRwBuilder ns coll b)"
        "fmlookup (npb_collHashRwBuilder (getOrCreateNsPubRwBuilder ns b)) coll \<noteq> None" unfolding ns set_colls by blast
      then have "coll \<noteq> ''''" using assms(3) unfolding named_colls_def by auto
      then show ?thesis
        using coll(1) getOrCreate_inv(2) [OF assms(1), of coll ns]
          distinct_GetValuesBySortedKeys [of "kwh_KeyHash :: KVWriteHash \<Rightarrow> bytes", OF _ hashed_in_inj(1) [OF assms(4,2)]]
          distinct_GetValuesBySortedKeys [of "mwh_KeyHash :: KVMetadataWriteHash \<Rightarrow> bytes", OF _ hashed_in_inj(2) [OF assms(4,2)]]
        by (simp add: collHash_build_def coll_inv_def)
    qed
    ultimately show ?thesis using inv distinct_GetValuesBySortedKeys [of "kw_Key :: KVWrite \<Rightarrow> string" "\<lambda>k. k"] distinct_GetValuesBySortedKeys [of "mw_Key :: KVMetadataWrite \<Rightarrow> string" "\<lambda>k. k"]
      by (simp add: ns nsPub_build_def ns_inv_def inj_on_def)
  qed
  have "distinct (rw_keys_of (\<lambda>n. map kw_Key (rw_Writes (nsr_KvRwSet n))) (\<lambda>c. map kwh_KeyHash (hrw_HashedWrites (chr_HashedRwSet c))) (GetTxReadWriteSet b))"
    "distinct (rw_keys_of (\<lambda>n. map mw_Key (rw_MetadataWrites (nsr_KvRwSet n))) (\<lambda>c. map mwh_KeyHash (hrw_MetadataWrites (chr_HashedRwSet c))) (GetTxReadWriteSet b))"
    by (rule distinct_rw_keys [OF names]; use part in blast)+
  then show ?thesis unfolding wf_ops_def tx_ops_keys by blast
qed

text \<open>The write and the metadata write the transaction has for a key are those of the builder.\<close>

lemma no_nameless:
  assumes "named_colls b"
  shows "o_hread b ns '''' k = None" "o_hwrite b ns '''' k = None" "o_hmd b ns '''' k = None"
  using not_in_coll [of ns b "''''" k] assms by (simp_all add: named_colls_def)

lemma option_eqI: "(\<And>v. m = Some v \<longleftrightarrow> m' = Some v) \<Longrightarrow> m = m'"
  by (cases m; cases m') auto

lemma map_of_tx_ops:
  fixes Ser zeroHash
  assumes b: "builder_inv CH b" "inj_on CH K" "named_colls b" "hashed_in K b"
  defines "ops \<equiv> tx_ops Ser zeroHash (GetTxReadWriteSet b)"
  shows "map_of (kv_writes ops) (ns, '''', k) = map_option written (o_write b ns k)"
    "map_of (md_writes ops) (ns, '''', k) = map_option (\<lambda>w. map_option Ser (mw_Entries w)) (o_md b ns k)"
    "coll \<noteq> '''' \<Longrightarrow> key \<in> K \<Longrightarrow> map_of (kv_writes ops) (ns, coll, CH key) = map_option (\<lambda>w. written (hashed_write zeroHash w)) (o_hwrite b ns coll key)"
    "coll \<noteq> '''' \<Longrightarrow> key \<in> K \<Longrightarrow> map_of (md_writes ops) (ns, coll, CH key) = map_option (\<lambda>w. map_option Ser (mwh_Entries w)) (o_hmd b ns coll key)"
proof -
  have wf: "distinct (map fst (kv_writes ops))" "distinct (map fst (md_writes ops))"
    using wf_tx_ops [OF b, of Ser zeroHash] unfolding wf_ops_def ops_def by blast+
  have kv: "map_of (kv_writes ops) ck = Some v \<longleftrightarrow> holds_kv CH zeroHash b ck v" for ck v
    using map_of_eq_Some_iff [OF wf(1), of ck v] KvOp_tx_ops [OF b(1), of ck v Ser zeroHash] by (simp add: set_writes ops_def)
  have md: "map_of (md_writes ops) ck = Some v \<longleftrightarrow> holds_md CH Ser b ck v" for ck v
    using map_of_eq_Some_iff [OF wf(2), of ck v] MdOp_tx_ops [OF b(1), of ck v Ser zeroHash] by (simp add: set_writes ops_def)
  have same: "k = key" if "CH key = CH k" "key \<in> K" "o_hwrite b ns coll k = Some w \<or> o_hmd b ns coll k = Some m" for k key ns coll w m
  proof -
    have "k \<in> K" using b(4) that(3) unfolding hashed_in_def by blast
    from inj_onD [OF b(2) that(1,2) this] show ?thesis by simp
  qed
  show "map_of (kv_writes ops) (ns, '''', k) = map_option written (o_write b ns k)"
    by (rule option_eqI) (auto simp: kv holds_kv_def no_nameless [OF b(3)])
  show "map_of (md_writes ops) (ns, '''', k) = map_option (\<lambda>w. map_option Ser (mw_Entries w)) (o_md b ns k)"
    by (rule option_eqI) (auto simp: md holds_md_def no_nameless [OF b(3)])
  show "map_of (kv_writes ops) (ns, coll, CH key) = map_option (\<lambda>w. written (hashed_write zeroHash w)) (o_hwrite b ns coll key)"
    if "coll \<noteq> ''''" "key \<in> K"
    by (rule option_eqI) (use that in \<open>auto simp: kv holds_kv_def dest: same\<close>)
  show "map_of (md_writes ops) (ns, coll, CH key) = map_option (\<lambda>w. map_option Ser (mwh_Entries w)) (o_hmd b ns coll key)"
    if "coll \<noteq> ''''" "key \<in> K"
    by (rule option_eqI) (use that in \<open>auto simp: md holds_md_def dest: same\<close>)
qed

text \<open>
  What each operation adds.  The reads are untouched by the writes and the writes by the reads.
\<close>

lemma o_reads:
  "o_read (AddToReadSet ns key ver b) ns' k = (if ns' = ns \<and> k = key then Some (NewKVRead key ver) else o_read b ns' k)"
  "o_hread (AddToReadSet ns key ver b) = o_hread b" "o_query (AddToReadSet ns key ver b) = o_query b"
  "o_hread (AddToHashedReadSet CH ns coll key ver b) ns' coll' k =
     (if ns' = ns \<and> coll' = coll \<and> k = key then Some (newPvtKVReadHash CH key ver) else o_hread b ns' coll' k)"
  "o_read (AddToHashedReadSet CH ns coll key ver b) = o_read b" "o_query (AddToHashedReadSet CH ns coll key ver b) = o_query b"
  "o_query (AddToRangeQuerySet ns q b) ns' qk =
     (if ns' = ns \<and> qk = (rq_StartKey q, rq_EndKey q, rq_ItrExhausted q) \<and> o_query b ns qk = None then Some q else o_query b ns' qk)"
  "o_read (AddToRangeQuerySet ns q b) = o_read b" "o_hread (AddToRangeQuerySet ns q b) = o_hread b"
  by (auto simp: fun_eq_iff o_defs AddToReadSet_def AddToHashedReadSet_def AddToRangeQuerySet_def builder_simps
      getOrCreateCollHashedRwBuilder_def Let_def split: option.splits)

lemmas write_defs = AddToWriteSet_def AddToMetadataWriteSet_def AddToPvtAndHashedWriteSet_def AddToPvtAndHashedWriteSetForPurge_def
  AddToHashedMetadataWriteSet_def newPvtKVWriteAndHash_def Let_def prod.case

lemma o_reads_write:
  "o_read (AddToWriteSet ns key val b) = o_read b" "o_hread (AddToWriteSet ns key val b) = o_hread b"
  "o_query (AddToWriteSet ns key val b) = o_query b"
  "o_read (AddToMetadataWriteSet ns key md b) = o_read b" "o_hread (AddToMetadataWriteSet ns key md b) = o_hread b"
  "o_query (AddToMetadataWriteSet ns key md b) = o_query b"
  "o_read (AddToPvtAndHashedWriteSet CH ns coll key val b) = o_read b" "o_hread (AddToPvtAndHashedWriteSet CH ns coll key val b) = o_hread b"
  "o_query (AddToPvtAndHashedWriteSet CH ns coll key val b) = o_query b"
  "o_read (AddToPvtAndHashedWriteSetForPurge CH ns coll key b) = o_read b"
  "o_hread (AddToPvtAndHashedWriteSetForPurge CH ns coll key b) = o_hread b"
  "o_query (AddToPvtAndHashedWriteSetForPurge CH ns coll key b) = o_query b"
  "o_read (AddToHashedMetadataWriteSet CH ns coll key md b) = o_read b" "o_hread (AddToHashedMetadataWriteSet CH ns coll key md b) = o_hread b"
  "o_query (AddToHashedMetadataWriteSet CH ns coll key md b) = o_query b"
  by (auto simp: fun_eq_iff o_defs write_defs builder_simps getOrCreateCollHashedRwBuilder_def)

lemma hashed_in_Add:
  assumes "hashed_in K b"
  shows "hashed_in K (AddToReadSet ns key ver b)" "hashed_in K (AddToHashedReadSet CH ns coll key ver b)"
    "hashed_in K (AddToRangeQuerySet ns q b)" "hashed_in K (AddToWriteSet ns key val b)" "hashed_in K (AddToMetadataWriteSet ns key md b)"
    "key \<in> K \<Longrightarrow> hashed_in K (AddToPvtAndHashedWriteSet CH ns coll key val b)"
    "key \<in> K \<Longrightarrow> hashed_in K (AddToPvtAndHashedWriteSetForPurge CH ns coll key b)"
    "key \<in> K \<Longrightarrow> hashed_in K (AddToHashedMetadataWriteSet CH ns coll key md b)"
  using assms
  by (auto simp: hashed_in_def o_defs write_defs AddToReadSet_def AddToHashedReadSet_def AddToRangeQuerySet_def builder_simps
      getOrCreateCollHashedRwBuilder_def split: if_splits option.splits)

section \<open>The results of a simulation\<close>

lemma o_hashes:
  "o_read (setPvtCollectionHash CH ns coll bs b) = o_read b" "o_hread (setPvtCollectionHash CH ns coll bs b) = o_hread b"
  "o_query (setPvtCollectionHash CH ns coll bs b) = o_query b" "o_write (setPvtCollectionHash CH ns coll bs b) = o_write b"
  "o_md (setPvtCollectionHash CH ns coll bs b) = o_md b" "o_hwrite (setPvtCollectionHash CH ns coll bs b) = o_hwrite b"
  "o_hmd (setPvtCollectionHash CH ns coll bs b) = o_hmd b"
  by (auto simp: fun_eq_iff o_defs setPvtCollectionHash_def builder_simps)

text \<open>What holds of a builder as far as its entries go.\<close>

definition same_entries :: "RWSetBuilder \<Rightarrow> RWSetBuilder \<Rightarrow> bool" where
  "same_entries b b' \<longleftrightarrow> o_read b' = o_read b \<and> o_hread b' = o_hread b \<and> o_query b' = o_query b \<and> o_write b' = o_write b \<and>
     o_md b' = o_md b \<and> o_hwrite b' = o_hwrite b \<and> o_hmd b' = o_hmd b"

lemma set_hashes_same:
  assumes "\<forall>n \<in> set msgs. \<forall>c \<in> set (np_CollectionPvtRwset n). cp_CollectionName c \<noteq> ''''"
  shows "same_entries b (set_hashes CH msgs b) \<and> (named_colls b \<longrightarrow> named_colls (set_hashes CH msgs b))"
proof -
  have coll: "\<forall>c \<in> set cs. cp_CollectionName c \<noteq> '''' \<Longrightarrow>
      let b' = fold (\<lambda>c. setPvtCollectionHash CH ns (cp_CollectionName c) (cp_Rwset c)) cs b
      in same_entries b b' \<and> (named_colls b \<longrightarrow> named_colls b')" for ns cs b
    by (induction cs arbitrary: b) (auto simp: same_entries_def o_hashes Add_named Let_def)
  show ?thesis using assms unfolding set_hashes_def
  proof (induction msgs arbitrary: b)
    case (Cons n msgs)
    from coll [of "np_CollectionPvtRwset n" "np_Namespace n" b] Cons.prems Cons.IH
    show ?case by (auto simp: same_entries_def Let_def)
  qed (simp add: same_entries_def)
qed

lemma builder_normal:
  assumes "builder_inv CH b"
  shows "\<forall>n \<in> set (GetTxReadWriteSet b). ns_normal n"
proof
  fix n assume "n \<in> set (GetTxReadWriteSet b)"
  then obtain ns where ns: "n = nsPub_build (getOrCreateNsPubRwBuilder ns b)" unfolding set_GetTxReadWriteSet by blast
  have "hashed_normal (chr_HashedRwSet c) \<and> chr_PvtRwSetHash c \<noteq> Some []" if "c \<in> set (nsr_CollHashedRwSets n)" for c
  proof -
    from that obtain coll where "c = collHash_build (getOrCreateCollHashedRwBuilder ns coll b)" unfolding ns set_colls by blast
    then show ?thesis using getOrCreate_inv(2) [OF assms, of coll ns]
      by (auto simp: coll_inv_def collHash_build_def hashed_normal_def set_GetValuesBySortedKeys kept_def)
  qed
  moreover have "kv_normal (nsr_KvRwSet n)"
    using getOrCreate_inv(1) [OF assms, of ns] by (auto simp: ns ns_inv_def nsPub_build_def kv_normal_def set_GetValuesBySortedKeys kept_def)
  ultimately show "ns_normal n" by (simp add: ns_normal_def)
qed

lemma builder_pvt_normal:
  assumes "builder_inv CH b" "named_colls b" "getTxPvtReadWriteSet b = Some rwset" "n \<in> set rwset" "c \<in> set (npr_CollPvtRwSets n)"
  shows "kv_normal (cpr_KvRwSet c) \<and> cpr_CollectionName c \<noteq> ''''"
proof -
  obtain ns nb coll cb where nb: "fmlookup (wb_pvtRwBuilderMap b) ns = Some nb" "fmlookup (nvb_collPvtRwBuilders nb) coll = Some cb"
    "c = collPvt_build cb"
    using assms(3-5) by (auto simp: getTxPvtReadWriteSet_def Let_def set_GetValuesBySortedKeys nsPvt_build_def split: if_splits)
  have "pvt_inv coll cb" using assms(1) nb unfolding builder_inv_def by blast
  moreover have "coll \<noteq> ''''" using assms(2) nb unfolding named_colls_def getOrCreateNsPvtRwBuilder_def
    by (metis option.distinct(1) option.simps(5))
  ultimately show ?thesis using nb(3) by (auto simp: pvt_inv_def collPvt_build_def kv_normal_def set_GetValuesBySortedKeys kept_def)
qed

lemma coll_names_kept:
  "map_err f xs = Inr ys \<Longrightarrow> (\<And>x y. x \<in> set xs \<Longrightarrow> f x = Inr y \<Longrightarrow> P y) \<Longrightarrow> \<forall>y \<in> set ys. P y"
proof (induction xs arbitrary: ys)
  case (Cons x xs)
  then obtain y zs where "f x = Inr y" "map_err f xs = Inr zs" "ys = y # zs" by (auto split: sum.splits)
  then show ?case using Cons.IH [of zs] Cons.prems(2) by (metis list.set_intros(1,2) set_ConsD)
qed simp

text \<open>
  The results can always be had; they decode to the read-write set of a builder with the same entries.
\<close>

lemma builder_results:
  assumes cd: "rwset_faithful cd" and b: "builder_inv CH b" "named_colls b" and CH: "\<forall>x. CH x \<noteq> []"
  shows "\<exists>res b'. builder_GetTxSimulationResults cd CH b = Inr (res, b') \<and> builder_inv CH b' \<and> named_colls b' \<and> same_entries b b' \<and>
    TxRwSetFromProtoMsg cd (sr_Pub res) = Inr (GetTxReadWriteSet b') \<and>
    (case getTxPvtReadWriteSet b of None \<Rightarrow> sr_Pvt res = None
     | Some rwset \<Rightarrow> \<exists>m. sr_Pvt res = Some m \<and> TxPvtRwSetFromProtoMsg cd m = Inr rwset)"
proof (cases "getTxPvtReadWriteSet b")
  case None
  obtain ms where "toProtoMsg cd (GetTxReadWriteSet b) = Inr ms" "TxRwSetFromProtoMsg cd ms = Inr (GetTxReadWriteSet b)"
    using toProtoMsg_back [OF cd builder_normal [OF b(1)]] by blast
  then show ?thesis using None b by (simp add: builder_GetTxSimulationResults_def same_entries_def)
next
  case (Some rwset)
  have norm: "\<forall>n \<in> set rwset. \<forall>c \<in> set (npr_CollPvtRwSets n). kv_normal (cpr_KvRwSet c)"
    using builder_pvt_normal [OF b Some] by blast
  from ToPvtProtoMsg_back [OF cd norm] obtain m where m: "ToPvtProtoMsg cd rwset = Inr m" "TxPvtRwSetFromProtoMsg cd m = Inr rwset" by blast
  have "cp_CollectionName c' \<noteq> ''''" if "n \<in> set rwset" "c \<in> set (npr_CollPvtRwSets n)" "coll_ToPvtProtoMsg cd c = Inr c'" for n c c'
    using builder_pvt_normal [OF b Some that(1,2)] that(3)
    by (auto simp: coll_ToPvtProtoMsg_def bind_err_def split: sum.splits)
  then have "\<forall>c' \<in> set (np_CollectionPvtRwset n'). cp_CollectionName c' \<noteq> ''''" if "n \<in> set rwset" "ns_toPvtProtoMsg cd n = Inr n'" for n n'
    using that coll_names_kept [of "coll_ToPvtProtoMsg cd" "npr_CollPvtRwSets n" _ "\<lambda>c'. cp_CollectionName c' \<noteq> ''''"]
    by (auto simp: ns_toPvtProtoMsg_def bind_err_def split: sum.splits)
  then have "\<forall>n' \<in> set m. \<forall>c' \<in> set (np_CollectionPvtRwset n'). cp_CollectionName c' \<noteq> ''''"
    using coll_names_kept [OF m(1) [unfolded ToPvtProtoMsg_def], of "\<lambda>n'. \<forall>c' \<in> set (np_CollectionPvtRwset n'). cp_CollectionName c' \<noteq> ''''"]
    by blast
  note same = set_hashes_same [OF this, of b CH]
  have inv: "builder_inv CH (set_hashes CH m b)" by (rule set_hashes_inv [OF CH b(1)])
  obtain ms where "toProtoMsg cd (GetTxReadWriteSet (set_hashes CH m b)) = Inr ms"
    "TxRwSetFromProtoMsg cd ms = Inr (GetTxReadWriteSet (set_hashes CH m b))"
    using toProtoMsg_back [OF cd builder_normal [OF inv]] by blast
  then show ?thesis using Some m inv same b(2) by (simp add: builder_GetTxSimulationResults_def)
qed

end
