(* ===== verification/Rwset_Wire.thy ===== *)
theory Rwset_Wire
  imports Rwset_Proto Level_State
begin

text \<open>
  A concrete marshalling of the messages of read-write sets, which shows that what \<open>rwset_faithful\<close> asks of
  protobuf can be had, and the round trip of read-write sets.  A format is an encoder and a decoder that
  returns what is left of the bytes.
\<close>

section \<open>Formats\<close>

type_synonym 'a fmt = "('a \<Rightarrow> bytes) \<times> (bytes \<Rightarrow> ('a \<times> bytes) option)"

definition fmt :: "'a fmt \<Rightarrow> bool" where
  "fmt F \<longleftrightarrow> (\<forall>x r. snd F (fst F x @ r) = Some (x, r))"

named_theorems fmt_intros \<open>formats built from formats\<close>

definition f_bytes :: "bytes fmt" where
  "f_bytes = (put_bytes, get_bytes)"

lemma f_bytes [fmt_intros]: "fmt f_bytes"
  by (simp add: fmt_def f_bytes_def get_put_bytes)

definition f_map :: "('a \<Rightarrow> 'b) \<Rightarrow> ('b \<Rightarrow> 'a) \<Rightarrow> 'b fmt \<Rightarrow> 'a fmt" where
  "f_map to from F = (\<lambda>x. fst F (to x), \<lambda>b. map_option (\<lambda>(y, r). (from y, r)) (snd F b))"

lemma f_map [fmt_intros]: "fmt F \<Longrightarrow> (\<And>x. from (to x) = x) \<Longrightarrow> fmt (f_map to from F)"
  by (simp add: fmt_def f_map_def)

definition f_pair :: "'a fmt \<Rightarrow> 'b fmt \<Rightarrow> ('a \<times> 'b) fmt" where
  "f_pair F G =
     (\<lambda>(x, y). fst F x @ fst G y,
      \<lambda>b. Option.bind (snd F b) (\<lambda>(x, b). Option.bind (snd G b) (\<lambda>(y, b). Some ((x, y), b))))"

lemma f_pair [fmt_intros]: "fmt F \<Longrightarrow> fmt G \<Longrightarrow> fmt (f_pair F G)"
  by (simp add: fmt_def f_pair_def)

fun get_n :: "(bytes \<Rightarrow> ('a \<times> bytes) option) \<Rightarrow> nat \<Rightarrow> bytes \<Rightarrow> ('a list \<times> bytes) option" where
  "get_n d 0 b = Some ([], b)"
| "get_n d (Suc n) b = Option.bind (d b) (\<lambda>(x, b). Option.bind (get_n d n b) (\<lambda>(xs, b). Some (x # xs, b)))"

text \<open>A list is announced by a string as long as the list.\<close>

definition f_list :: "'a fmt \<Rightarrow> 'a list fmt" where
  "f_list F =
     (\<lambda>xs. put_bytes (replicate (length xs) SOH) @ concat (map (fst F) xs),
      \<lambda>b. Option.bind (get_bytes b) (\<lambda>(n, b). get_n (snd F) (length n) b))"

lemma f_list [fmt_intros]:
  assumes "fmt F"
  shows "fmt (f_list F)"
proof -
  have "get_n (snd F) (length xs) (concat (map (fst F) xs) @ r) = Some (xs, r)" for xs r
    by (induction xs) (use assms in \<open>simp_all add: fmt_def\<close>)
  then show ?thesis by (simp add: fmt_def f_list_def get_put_bytes)
qed

definition f_bool :: "bool fmt" where
  "f_bool = f_map (\<lambda>b. if b then [SOH] else []) (\<lambda>s. s \<noteq> []) f_bytes"

definition f_u64 :: "u64 fmt" where
  "f_u64 = f_map (\<lambda>w. be_bytes 8 (unat w)) (\<lambda>b. of_nat (be_val b)) f_bytes"

definition f_u32 :: "u32 fmt" where
  "f_u32 = f_map (\<lambda>w. be_bytes 8 (unat w)) (\<lambda>b. of_nat (be_val b)) f_bytes"

definition f_option :: "'a fmt \<Rightarrow> 'a option fmt" where
  "f_option F = f_map (\<lambda>x. case x of None \<Rightarrow> [] | Some y \<Rightarrow> [y]) (\<lambda>l. case l of [] \<Rightarrow> None | y # _ \<Rightarrow> Some y) (f_list F)"

lemma f_bool [fmt_intros]: "fmt f_bool"
  unfolding f_bool_def by (intro fmt_intros) simp

lemma f_words [fmt_intros]: "fmt f_u64" "fmt f_u32"
proof -
  have "unat (w :: u64) < 256 ^ 8" "unat (v :: u32) < 256 ^ 8" for w v
    using unsigned_less [of w, where ?'a = nat] unsigned_less [of v, where ?'a = nat] by simp_all
  then show "fmt f_u64" "fmt f_u32"
    unfolding f_u64_def f_u32_def by (intro fmt_intros; simp add: be_val_be_bytes)+
qed

lemma f_option [fmt_intros]: "fmt F \<Longrightarrow> fmt (f_option F)"
  unfolding f_option_def by (intro fmt_intros) (simp_all split: option.split)

section \<open>Messages\<close>

definition f_version :: "ProtoVersion fmt" where
  "f_version = f_map (\<lambda>v. (pv_BlockNum v, pv_TxNum v)) (\<lambda>(b, t). \<lparr>pv_BlockNum = b, pv_TxNum = t\<rparr>) (f_pair f_u64 f_u64)"

definition f_read :: "KVRead fmt" where
  "f_read = f_map (\<lambda>r. (kr_Key r, kr_Version r)) (\<lambda>(k, v). \<lparr>kr_Key = k, kr_Version = v\<rparr>) (f_pair f_bytes (f_option f_version))"

definition f_write :: "KVWrite fmt" where
  "f_write = f_map (\<lambda>w. (kw_Key w, kw_IsDelete w, kw_Value w)) (\<lambda>(k, d, v). \<lparr>kw_Key = k, kw_IsDelete = d, kw_Value = v\<rparr>)
     (f_pair f_bytes (f_pair f_bool f_bytes))"

definition f_entries :: "KVMetadataEntry list option fmt" where
  "f_entries = f_option (f_list (f_map (\<lambda>e. (me_Name e, me_Value e)) (\<lambda>(n, v). \<lparr>me_Name = n, me_Value = v\<rparr>) (f_pair f_bytes f_bytes)))"

definition f_mdwrite :: "KVMetadataWrite fmt" where
  "f_mdwrite = f_map (\<lambda>w. (mw_Key w, mw_Entries w)) (\<lambda>(k, e). \<lparr>mw_Key = k, mw_Entries = e\<rparr>) (f_pair f_bytes f_entries)"

definition f_summary :: "QueryReadsMerkleSummary fmt" where
  "f_summary = f_map (\<lambda>s. (ms_MaxDegree s, ms_MaxLevel s, ms_MaxLevelHashes s))
     (\<lambda>(d, l, h). \<lparr>ms_MaxDegree = d, ms_MaxLevel = l, ms_MaxLevelHashes = h\<rparr>) (f_pair f_u32 (f_pair f_u32 (f_list f_bytes)))"

definition f_info :: "reads_info fmt" where
  "f_info = f_map (\<lambda>i. case i of NoReadsInfo \<Rightarrow> (None, None) | RawReads rs \<Rightarrow> (Some rs, None) | MerkleHashes s \<Rightarrow> (None, Some s))
     (\<lambda>(rs, s). case rs of Some rs \<Rightarrow> RawReads rs | None \<Rightarrow> (case s of Some s \<Rightarrow> MerkleHashes s | None \<Rightarrow> NoReadsInfo))
     (f_pair (f_option (f_list f_read)) (f_option f_summary))"

definition f_query :: "RangeQueryInfo fmt" where
  "f_query = f_map (\<lambda>q. (rq_StartKey q, rq_EndKey q, rq_ItrExhausted q, rq_ReadsInfo q))
     (\<lambda>(s, e, x, i). \<lparr>rq_StartKey = s, rq_EndKey = e, rq_ItrExhausted = x, rq_ReadsInfo = i\<rparr>)
     (f_pair f_bytes (f_pair f_bytes (f_pair f_bool f_info)))"

definition f_kvrwset :: "KVRWSet fmt" where
  "f_kvrwset = f_map (\<lambda>s. (rw_Reads s, rw_RangeQueriesInfo s, rw_Writes s, rw_MetadataWrites s))
     (\<lambda>(r, q, w, m). \<lparr>rw_Reads = r, rw_RangeQueriesInfo = q, rw_Writes = w, rw_MetadataWrites = m\<rparr>)
     (f_pair (f_list f_read) (f_pair (f_list f_query) (f_pair (f_list f_write) (f_list f_mdwrite))))"

definition f_hashed :: "HashedRWSet fmt" where
  "f_hashed = f_map (\<lambda>s. (hrw_HashedReads s, hrw_HashedWrites s, hrw_MetadataWrites s))
     (\<lambda>(r, w, m). \<lparr>hrw_HashedReads = r, hrw_HashedWrites = w, hrw_MetadataWrites = m\<rparr>)
     (f_pair (f_list (f_map (\<lambda>r. (krh_KeyHash r, krh_Version r)) (\<lambda>(k, v). \<lparr>krh_KeyHash = k, krh_Version = v\<rparr>)
                (f_pair f_bytes (f_option f_version))))
     (f_pair (f_list (f_map (\<lambda>w. (kwh_KeyHash w, kwh_IsDelete w, kwh_ValueHash w, kwh_IsPurge w))
                (\<lambda>(k, d, v, p). \<lparr>kwh_KeyHash = k, kwh_IsDelete = d, kwh_ValueHash = v, kwh_IsPurge = p\<rparr>)
                (f_pair f_bytes (f_pair f_bool (f_pair f_bytes f_bool)))))
             (f_list (f_map (\<lambda>w. (mwh_KeyHash w, mwh_Entries w)) (\<lambda>(k, e). \<lparr>mwh_KeyHash = k, mwh_Entries = e\<rparr>)
                (f_pair f_bytes f_entries)))))"

definition f_tx :: "NsReadWriteSet list fmt" where
  "f_tx = f_list (f_map (\<lambda>n. (ns_Namespace n, ns_Rwset n, ns_CollectionHashedRwset n))
     (\<lambda>(n, r, c). \<lparr>ns_Namespace = n, ns_Rwset = r, ns_CollectionHashedRwset = c\<rparr>)
     (f_pair f_bytes (f_pair f_bytes (f_list (f_map (\<lambda>c. (ch_CollectionName c, ch_HashedRwset c, ch_PvtRwsetHash c))
        (\<lambda>(n, r, h). \<lparr>ch_CollectionName = n, ch_HashedRwset = r, ch_PvtRwsetHash = h\<rparr>)
        (f_pair f_bytes (f_pair f_bytes (f_option f_bytes))))))))"

definition f_pvt :: "NsPvtReadWriteSet list fmt" where
  "f_pvt = f_list (f_map (\<lambda>n. (np_Namespace n, np_CollectionPvtRwset n))
     (\<lambda>(n, c). \<lparr>np_Namespace = n, np_CollectionPvtRwset = c\<rparr>)
     (f_pair f_bytes (f_list (f_map (\<lambda>c. (cp_CollectionName c, cp_Rwset c))
        (\<lambda>(n, r). \<lparr>cp_CollectionName = n, cp_Rwset = r\<rparr>) (f_pair f_bytes f_bytes)))))"

lemma f_parts [fmt_intros]: "fmt f_version" "fmt f_entries" "fmt f_summary" "fmt f_write"
  unfolding f_version_def f_entries_def f_summary_def f_write_def by (intro fmt_intros; simp)+

lemma f_messages [fmt_intros]: "fmt f_read" "fmt f_mdwrite"
  unfolding f_read_def f_mdwrite_def by (intro fmt_intros; simp)+

lemma f_info [fmt_intros]: "fmt f_info"
  unfolding f_info_def by (intro fmt_intros) (simp split: reads_info.split)

lemma f_query [fmt_intros]: "fmt f_query"
  unfolding f_query_def by (intro fmt_intros) simp

lemma f_sets: "fmt f_kvrwset" "fmt f_hashed" "fmt f_tx" "fmt f_pvt"
  unfolding f_kvrwset_def f_hashed_def f_tx_def f_pvt_def by (intro fmt_intros; simp)+

definition wire_out :: "'a fmt \<Rightarrow> 'a \<Rightarrow> string + bytes" where
  "wire_out F x = Inr (fst F x)"

definition wire_in :: "'a fmt \<Rightarrow> bytes \<Rightarrow> string + 'a" where
  "wire_in F b = (case snd F b of None \<Rightarrow> Inl ''eof'' | Some (x, _) \<Rightarrow> Inr x)"

lemma wire_carries: "fmt F \<Longrightarrow> carries (wire_out F) (wire_in F) x"
  unfolding fmt_def carries_def wire_out_def wire_in_def by (metis append_Nil2 case_prod_conv option.simps(5))

definition wire :: rwset_codec where
  "wire = \<lparr>m_KVRWSet = wire_out f_kvrwset, u_KVRWSet = wire_in f_kvrwset,
           m_HashedRWSet = wire_out f_hashed, u_HashedRWSet = wire_in f_hashed,
           m_TxReadWriteSet = wire_out f_tx, u_TxReadWriteSet = wire_in f_tx,
           m_TxPvtReadWriteSet = wire_out f_pvt, u_TxPvtReadWriteSet = wire_in f_pvt\<rparr>"

lemma wire_faithful: "rwset_faithful wire"
  by (simp add: rwset_faithful_def wire_def wire_carries f_sets)

lemma ToProtoBytes_back:
  assumes "rwset_faithful cd" "\<forall>n \<in> set rwset. ns_normal n"
  shows "\<exists>b. ToProtoBytes cd rwset = Inr b \<and> FromProtoBytes cd b = Inr rwset"
proof -
  obtain ms where ms: "toProtoMsg cd rwset = Inr ms" "TxRwSetFromProtoMsg cd ms = Inr rwset" "\<forall>m \<in> set ms. msg_normal m"
    using toProtoMsg_back [OF assms] by blast
  then obtain b where "m_TxReadWriteSet cd ms = Inr b" "u_TxReadWriteSet cd b = Inr ms"
    using assms(1) unfolding rwset_faithful_def carries_def by blast
  then show ?thesis using ms(1,2) by (simp add: ToProtoBytes_def FromProtoBytes_def)
qed


definition sample_kv :: KVRWSet where
  "sample_kv =
     \<lparr>rw_Reads = [\<lparr>kr_Key = ''a'', kr_Version = Some \<lparr>pv_BlockNum = 7, pv_TxNum = 1\<rparr>\<rparr>], rw_RangeQueriesInfo = [],
      rw_Writes = [\<lparr>kw_Key = ''a'', kw_IsDelete = False, kw_Value = ''1''\<rparr>],
      rw_MetadataWrites = [\<lparr>mw_Key = ''a'', mw_Entries = None\<rparr>]\<rparr>"


end
