(* ===== verification/Tx_Simulator.thy ===== *)
theory Tx_Simulator
  imports Rwset_Builder Rwset_Wire
begin

text \<open>
  The query executor and the transaction simulator of the lock-based transaction manager
  (\<^verbatim>\<open>core/ledger/kvledger/txmgmt/txmgr/query_executor.go\<close>, \<^verbatim>\<open>tx_simulator.go\<close>, \<^verbatim>\<open>collection_val.go\<close>): what a
  chaincode reads goes through them and is recorded with the version it had, what it writes is recorded and
  not applied.  The transaction manager holds a read lock for the life of a simulator, so the database does
  not change under it.  The lemmas show that what a simulation records is what the validator finds when the
  state has not changed.
\<close>

section \<open>State\<close>

text \<open>
  An iterator over a range keeps, when the reads are collected, the range it has seen and the results.
\<close>

record resultsItr =
  ri_ns :: string
  ri_endKey :: string
  ri_dbItr :: scan
  ri_capture :: "(RangeQueryInfo \<times> RangeQueryResultsHelper) option"

record queryExecutor =
  qe_txid :: string
  qe_rwsetBuilder :: "RWSetBuilder option"
  qe_itrs :: "resultsItr list"
  qe_err :: "string option"
  qe_doneInvoked :: bool
  qe_privateReads :: "(string \<times> string) set"
  qe_noop :: bool
  qe_cache :: "(string \<times> string) set"

record tx_simulator = queryExecutor +
  ts_writePerformed :: bool
  ts_pvtdataQueriesPerformed :: bool
  ts_simulationResultsComputed :: bool
  ts_paginatedQueriesPerformed :: bool
  ts_writesetMetadata :: "string \<times> string \<times> string \<rightharpoonup> (string, bytes) fmap"

text \<open>
  What the transaction manager provides: the database, the hash functions, and the provider of the
  collections of a chaincode, seen through the state it asks the query executor for and its answer (the
  names of the collections, where a collection that is not static has none).
\<close>

record txmgr =
  tm_db :: DB
  tm_ccInfo :: "string \<Rightarrow> (string \<times> string) list \<times> (string + string option list option)"
  tm_hashFunc :: HashFunc
  tm_serializeKVReads :: "KVRead list \<Rightarrow> string + bytes"
  tm_ComputeHash :: "bytes \<Rightarrow> bytes"
  tm_Deserialize :: "bytes option \<Rightarrow> string + (string, bytes) fmap"
  tm_codec :: rwset_codec

text \<open>A call that changes the state \<open>'q\<close> and returns a value or an error.\<close>

type_synonym ('a, 'q) call = "'q \<Rightarrow> (string + 'a) \<times> 'q"

definition then_do :: "(string + 'a) \<times> 'q \<Rightarrow> ('a \<Rightarrow> ('b, 'q) call) \<Rightarrow> (string + 'b) \<times> 'q" where
  "then_do r f = (case r of (Inl e, q) \<Rightarrow> (Inl e, q) | (Inr x, q) \<Rightarrow> f x q)"

definition give :: "string + 'a \<Rightarrow> ('a, 'q) call" where
  "give r q = (r, q)"

definition newQueryExecutor :: "string \<Rightarrow> RWSetBuilder option \<Rightarrow> bool \<Rightarrow> queryExecutor" where
  "newQueryExecutor txid rwsetBuilder performCollCheck =
     \<lparr>qe_txid = txid, qe_rwsetBuilder = rwsetBuilder, qe_itrs = [], qe_err = None, qe_doneInvoked = False,
      qe_privateReads = {}, qe_noop = \<not> performCollCheck, qe_cache = {}\<rparr>"

definition newTxSimulator :: "string \<Rightarrow> tx_simulator" where
  "newTxSimulator txid =
     queryExecutor.extend (newQueryExecutor txid (Some NewRWSetBuilder) True)
       \<lparr>ts_writePerformed = False, ts_pvtdataQueriesPerformed = False, ts_simulationResultsComputed = False,
        ts_paginatedQueriesPerformed = False, ts_writesetMetadata = Map.empty\<rparr>"

definition collectReadset :: "'a queryExecutor_scheme \<Rightarrow> bool" where
  "collectReadset q \<longleftrightarrow> qe_rwsetBuilder q \<noteq> None"

definition record_in :: "(RWSetBuilder \<Rightarrow> RWSetBuilder) \<Rightarrow> 'a queryExecutor_scheme \<Rightarrow> 'a queryExecutor_scheme" where
  "record_in f q = q\<lparr>qe_rwsetBuilder := map_option f (qe_rwsetBuilder q)\<rparr>"

definition checkDone :: "(unit, 'a queryExecutor_scheme) call" where
  "checkDone q =
     (if qe_doneInvoked q then (Inl ''this instance should not be used after calling Done()'', q) else (Inr (), q))"

definition qe_Done :: "'a queryExecutor_scheme \<Rightarrow> 'a queryExecutor_scheme" where
  "qe_Done q = (if qe_doneInvoked q then q else q\<lparr>qe_doneInvoked := True\<rparr>)"

definition decomposeVersionedValue :: "VersionedValue option \<Rightarrow> bytes option \<times> bytes option \<times> Height option" where
  "decomposeVersionedValue vv =
     (case vv of None \<Rightarrow> (None, None, None) | Some v \<Rightarrow> (vv_Value v, vv_Metadata v, vv_Version v))"

section \<open>Public state\<close>

definition getState :: "txmgr \<Rightarrow> string \<Rightarrow> string \<Rightarrow> (bytes option \<times> bytes option, 'a queryExecutor_scheme) call" where
  "getState mg ns key q =
     then_do (checkDone q) (\<lambda>_ q.
       case vd_GetState (pd_db (tm_db mg)) ns key of
         Inl e \<Rightarrow> (Inl e, q)
       | Inr versionedValue \<Rightarrow>
           let (val, metadata, ver) = decomposeVersionedValue versionedValue
           in (Inr (val, metadata), record_in (AddToReadSet ns key ver) q))"

definition qe_GetState :: "txmgr \<Rightarrow> string \<Rightarrow> string \<Rightarrow> (bytes option, 'a queryExecutor_scheme) call" where
  "qe_GetState mg ns key q = then_do (getState mg ns key q) (\<lambda>(val, _). give (Inr val))"

definition qe_GetStateMetadata :: "txmgr \<Rightarrow> string \<Rightarrow> string \<Rightarrow> ((string, bytes) fmap, 'a queryExecutor_scheme) call" where
  "qe_GetStateMetadata mg ns key q =
     then_do (checkDone q) (\<lambda>_ q.
     then_do (if \<not> collectReadset q then give (Privacy_DB.GetStateMetadata (tm_db mg) ns key) q
              else then_do (getState mg ns key q) (\<lambda>(_, metadata). give (Inr metadata))) (\<lambda>metadata.
       give (tm_Deserialize mg metadata)))"

text \<open>An error of the database is not passed on: the caller gets no values and no error.\<close>

definition qe_GetStateMultipleKeys :: "txmgr \<Rightarrow> string \<Rightarrow> string list \<Rightarrow> (bytes option list, 'a queryExecutor_scheme) call" where
  "qe_GetStateMultipleKeys mg ns keys q =
     then_do (checkDone q) (\<lambda>_ q.
       case vd_GetStateMultipleKeys (pd_db (tm_db mg)) ns keys of
         Inl e \<Rightarrow> (Inr [], q)
       | Inr versionedValues \<Rightarrow>
           (Inr (map (\<lambda>vv. fst (decomposeVersionedValue vv)) versionedValues),
            fold (\<lambda>(key, vv). record_in (AddToReadSet ns key (snd (snd (decomposeVersionedValue vv)))))
              (zip keys versionedValues) q))"

section \<open>Range scans\<close>

definition maxDegreeQueryReadsHashing :: u32 where "maxDegreeQueryReadsHashing = 50"

definition newResultsItr ::
  "txmgr \<Rightarrow> string \<Rightarrow> string \<Rightarrow> string \<Rightarrow> int \<Rightarrow> bool \<Rightarrow> bool \<Rightarrow> u32 \<Rightarrow> string + resultsItr" where
  "newResultsItr mg ns startKey endKey pageSize collecting enableHashing maxDegree =
     bind_err (if pageSize = 0 then vd_Scan (pd_db (tm_db mg)) ns startKey endKey
               else vd_ScanPage (pd_db (tm_db mg)) ns startKey endKey pageSize) (\<lambda>dbItr.
       if \<not> collecting then Inr \<lparr>ri_ns = ns, ri_endKey = '''', ri_dbItr = dbItr, ri_capture = None\<rparr>
       else bind_err (NewRangeQueryResultsHelper enableHashing maxDegree) (\<lambda>resultsHelper.
         Inr \<lparr>ri_ns = ns, ri_endKey = endKey, ri_dbItr = dbItr,
              ri_capture = Some (\<lparr>rq_StartKey = startKey, rq_EndKey = '''', rq_ItrExhausted = False, rq_ReadsInfo = NoReadsInfo\<rparr>,
                                 resultsHelper)\<rparr>))"

text \<open>The caller holds the iterator by its position among the iterators of the executor.\<close>

definition qe_GetStateRangeScanIteratorWithPagination ::
  "txmgr \<Rightarrow> string \<Rightarrow> string \<Rightarrow> string \<Rightarrow> int \<Rightarrow> (nat, 'a queryExecutor_scheme) call" where
  "qe_GetStateRangeScanIteratorWithPagination mg ns startKey endKey pageSize q =
     then_do (checkDone q) (\<lambda>_ q.
       case newResultsItr mg ns startKey endKey pageSize (collectReadset q) True maxDegreeQueryReadsHashing of
         Inl e \<Rightarrow> (Inl e, q)
       | Inr itr \<Rightarrow> (Inr (length (qe_itrs q)), q\<lparr>qe_itrs := qe_itrs q @ [itr]\<rparr>))"

definition qe_GetStateRangeScanIterator :: "txmgr \<Rightarrow> string \<Rightarrow> string \<Rightarrow> string \<Rightarrow> (nat, 'a queryExecutor_scheme) call" where
  "qe_GetStateRangeScanIterator mg ns startKey endKey q = qe_GetStateRangeScanIteratorWithPagination mg ns startKey endKey 0 q"

definition updateRangeQueryInfo :: "txmgr \<Rightarrow> VersionedKV option \<Rightarrow> resultsItr \<Rightarrow> resultsItr res" where
  "updateRangeQueryInfo mg queryResult itr =
     (case ri_capture itr of
        None \<Rightarrow> ret itr
      | Some (info, helper) \<Rightarrow>
          (case queryResult of
             None \<Rightarrow> ret (itr\<lparr>ri_capture := Some (info\<lparr>rq_ItrExhausted := True, rq_EndKey := ri_endKey itr\<rparr>, helper)\<rparr>)
           | Some kv \<Rightarrow>
               res_bind (AddResult (tm_hashFunc mg) (tm_serializeKVReads mg) (NewKVRead (vk_Key kv) (vv_Version (vk_Val kv))) helper)
                 (\<lambda>helper. ret (itr\<lparr>ri_capture := Some (info\<lparr>rq_EndKey := vk_Key kv\<rparr>, helper)\<rparr>))))"

text \<open>
  A result is a namespace, a key and a value.  When the results cannot be hashed the iterator has moved on
  all the same.
\<close>

type_synonym kv_answer = "(string \<times> string \<times> bytes option) option"

definition kv_result :: "VersionedKV option \<Rightarrow> kv_answer" where
  "kv_result r = map_option (\<lambda>kv. (vk_Namespace kv, vk_Key kv, vv_Value (vk_Val kv))) r"

definition resultsItr_Next :: "txmgr \<Rightarrow> resultsItr \<Rightarrow> ((string + kv_answer) \<times> resultsItr) go" where
  "resultsItr_Next mg itr =
     (case scan_Next (ri_dbItr itr) of
        Inl e \<Rightarrow> Return (Inl e, itr)
      | Inr (queryResult, dbItr) \<Rightarrow>
          let itr = itr\<lparr>ri_dbItr := dbItr\<rparr>
          in (case updateRangeQueryInfo mg queryResult itr of
                Panic \<Rightarrow> Panic
              | Return (Inl e) \<Rightarrow> Return (Inl e, itr)
              | Return (Inr itr) \<Rightarrow> Return (Inr (kv_result queryResult), itr)))"

definition qe_Next :: "txmgr \<Rightarrow> nat \<Rightarrow> 'a queryExecutor_scheme \<Rightarrow> ((string + kv_answer) \<times> 'a queryExecutor_scheme) go" where
  "qe_Next mg i q =
     go_bind (go_index (qe_itrs q) i) (\<lambda>itr. go_bind (resultsItr_Next mg itr) (\<lambda>(r, itr).
       Return (r, q\<lparr>qe_itrs := (qe_itrs q)[i := itr]\<rparr>)))"

fun add_infos :: "txmgr \<Rightarrow> resultsItr list \<Rightarrow> 'a queryExecutor_scheme \<Rightarrow> 'a queryExecutor_scheme go" where
  "add_infos mg [] q = Return q"
| "add_infos mg (itr # itrs) q =
     (case ri_capture itr of
        None \<Rightarrow> Panic
      | Some (info, helper) \<Rightarrow>
          (case Done (tm_hashFunc mg) (tm_serializeKVReads mg) helper of
             Panic \<Rightarrow> Panic
           | Return (Inl e) \<Rightarrow> Return (q\<lparr>qe_err := Some e\<rparr>)
           | Return (Inr (results, hash)) \<Rightarrow>
               let info = (if results \<noteq> [] then info\<lparr>rq_ReadsInfo := RawReads results\<rparr> else info);
                   info = (case hash of None \<Rightarrow> info | Some h \<Rightarrow> info\<lparr>rq_ReadsInfo := MerkleHashes h\<rparr>)
               in add_infos mg itrs (record_in (AddToRangeQuerySet (ri_ns itr) info) q)))"

definition addRangeQueryInfo :: "txmgr \<Rightarrow> 'a queryExecutor_scheme \<Rightarrow> 'a queryExecutor_scheme go" where
  "addRangeQueryInfo mg q = (if \<not> collectReadset q then Return q else add_infos mg (qe_itrs q) q)"

section \<open>Rich queries\<close>

text \<open>The iterators of rich queries and of private data are held by the caller alone.\<close>

definition qe_ExecuteQuery :: "txmgr \<Rightarrow> string \<Rightarrow> string \<Rightarrow> (string \<times> int) option \<Rightarrow> (scan, 'a queryExecutor_scheme) call" where
  "qe_ExecuteQuery mg ns query page q = then_do (checkDone q) (\<lambda>_. give (vd_ExecuteQuery (pd_db (tm_db mg)) ns query page))"

definition queryResultsItr_Next :: "scan \<Rightarrow> (kv_answer \<times> scan, 'a queryExecutor_scheme) call" where
  "queryResultsItr_Next itr q =
     (case scan_Next itr of
        Inl e \<Rightarrow> (Inl e, q)
      | Inr (None, itr) \<Rightarrow> (Inr (None, itr), q)
      | Inr (Some kv, itr) \<Rightarrow>
          (Inr (kv_result (Some kv), itr), record_in (AddToReadSet (vk_Namespace kv) (vk_Key kv) (vv_Version (vk_Val kv))) q))"

definition pvtdataResultsItr_Next :: "string \<Rightarrow> scan \<Rightarrow> string + kv_answer \<times> scan" where
  "pvtdataResultsItr_Next ns itr =
     (case scan_Next itr of
        Inl e \<Rightarrow> Inl e
      | Inr (None, itr) \<Rightarrow> Inr (None, itr)
      | Inr (Some kv, itr) \<Rightarrow> Inr (Some (ns, vk_Key kv, vv_Value (vk_Val kv)), itr))"

section \<open>Names of collections\<close>

fun provider_reads :: "txmgr \<Rightarrow> (string \<times> string) list \<Rightarrow> (unit, 'a queryExecutor_scheme) call" where
  "provider_reads mg [] q = (Inr (), q)"
| "provider_reads mg ((ns, key) # keys) q = then_do (getState mg ns key q) (\<lambda>_. provider_reads mg keys)"

definition retrieveCollConfigFromStateDB :: "txmgr \<Rightarrow> string \<Rightarrow> (string option list, 'a queryExecutor_scheme) call" where
  "retrieveCollConfigFromStateDB mg ns q =
     then_do (provider_reads mg (fst (tm_ccInfo mg ns)) q) (\<lambda>_.
       give (case snd (tm_ccInfo mg ns) of
               Inl e \<Rightarrow> Inl e
             | Inr None \<Rightarrow> Inl ''collection config not defined''
             | Inr (Some confPkg) \<Rightarrow> Inr confPkg))"

text \<open>The entry with the empty collection name says that the cache has been filled for the namespace.\<close>

definition populate :: "string \<Rightarrow> string option list \<Rightarrow> (string \<times> string) set \<Rightarrow> (string \<times> string) set" where
  "populate ns pkg c = insert (ns, '''') c \<union> set (map (Pair ns) (List.map_filter (\<lambda>name. name) pkg))"

definition isPopulatedFor :: "(string \<times> string) set \<Rightarrow> string \<Rightarrow> bool" where
  "isPopulatedFor c ns \<longleftrightarrow> (ns, '''') \<in> c"

definition containsCollName :: "(string \<times> string) set \<Rightarrow> string \<Rightarrow> string \<Rightarrow> bool" where
  "containsCollName c ns coll \<longleftrightarrow> (ns, coll) \<in> c"

definition validateCollName :: "txmgr \<Rightarrow> string \<Rightarrow> string \<Rightarrow> (unit, 'a queryExecutor_scheme) call" where
  "validateCollName mg ns coll q =
     (if qe_noop q then (Inr (), q)
      else then_do
        (if \<not> isPopulatedFor (qe_cache q) ns
         then then_do (retrieveCollConfigFromStateDB mg ns q) (\<lambda>conf q. (Inr (), q\<lparr>qe_cache := populate ns conf (qe_cache q)\<rparr>))
         else (Inr (), q))
        (\<lambda>_ q. if \<not> containsCollName (qe_cache q) ns coll then (Inl ''invalid collection name'', q) else (Inr (), q)))"

section \<open>Private data\<close>

definition check_coll :: "txmgr \<Rightarrow> string \<Rightarrow> string \<Rightarrow> (unit, 'a queryExecutor_scheme) call" where
  "check_coll mg ns coll q = then_do (validateCollName mg ns coll q) (\<lambda>_. checkDone)"

definition qe_GetPrivateData :: "txmgr \<Rightarrow> string \<Rightarrow> string \<Rightarrow> string \<Rightarrow> (bytes option, 'a queryExecutor_scheme) call" where
  "qe_GetPrivateData mg ns coll key q =
     then_do (check_coll mg ns coll q) (\<lambda>_ q.
     then_do (give (GetPrivateData (tm_db mg) ns coll key) q) (\<lambda>versionedValue q.
       let (val, _, ver) = decomposeVersionedValue versionedValue
       in then_do (give (GetKeyHashVersion (tm_db mg) ns coll (tm_ComputeHash mg key)) q) (\<lambda>hashVersion q.
            if \<not> AreSame hashVersion ver then (Inl ''private data matching public hash version is not available'', q)
            else if collectReadset q
            then (Inr val, (record_in (AddToHashedReadSet (tm_ComputeHash mg) ns coll key ver) q)
                     \<lparr>qe_privateReads := insert (ns, coll) (qe_privateReads q)\<rparr>)
            else (Inr val, q))))"

definition getPrivateDataValueHash ::
  "txmgr \<Rightarrow> string \<Rightarrow> string \<Rightarrow> string \<Rightarrow> (bytes option \<times> bytes option, 'a queryExecutor_scheme) call" where
  "getPrivateDataValueHash mg ns coll key q =
     then_do (check_coll mg ns coll q) (\<lambda>_ q.
     then_do (give (GetPrivateDataHash (tm_ComputeHash mg) (tm_db mg) ns coll key) q) (\<lambda>versionedValue q.
       let (valHash, metadata, ver) = decomposeVersionedValue versionedValue
       in (Inr (valHash, metadata), record_in (AddToHashedReadSet (tm_ComputeHash mg) ns coll key ver) q)))"

definition qe_GetPrivateDataHash :: "txmgr \<Rightarrow> string \<Rightarrow> string \<Rightarrow> string \<Rightarrow> (bytes option, 'a queryExecutor_scheme) call" where
  "qe_GetPrivateDataHash mg ns coll key q =
     then_do (check_coll mg ns coll q) (\<lambda>_ q.
     then_do (give (GetPrivateDataHash (tm_ComputeHash mg) (tm_db mg) ns coll key) q) (\<lambda>versionedValue q.
       let (valHash, _, ver) = decomposeVersionedValue versionedValue
       in (Inr valHash, record_in (AddToHashedReadSet (tm_ComputeHash mg) ns coll key ver) q)))"

definition getPrivateDataMetadataByHash ::
  "txmgr \<Rightarrow> string \<Rightarrow> string \<Rightarrow> bytes \<Rightarrow> ((string, bytes) fmap, 'a queryExecutor_scheme) call" where
  "getPrivateDataMetadataByHash mg ns coll keyhash q =
     then_do (check_coll mg ns coll q) (\<lambda>_ q.
       if collectReadset q then (Inl ''retrieving private data metadata by keyhash is not supported in simulation'', q)
       else then_do (give (GetPrivateDataMetadataByHash (tm_db mg) ns coll keyhash) q) (\<lambda>metadataBytes.
              give (tm_Deserialize mg metadataBytes)))"

definition qe_GetPrivateDataMetadata ::
  "txmgr \<Rightarrow> string \<Rightarrow> string \<Rightarrow> string \<Rightarrow> ((string, bytes) fmap, 'a queryExecutor_scheme) call" where
  "qe_GetPrivateDataMetadata mg ns coll key q =
     (if \<not> collectReadset q then getPrivateDataMetadataByHash mg ns coll (tm_ComputeHash mg key) q
      else then_do (check_coll mg ns coll q) (\<lambda>_ q.
           then_do (getPrivateDataValueHash mg ns coll key q) (\<lambda>(_, metadataBytes).
             give (tm_Deserialize mg metadataBytes))))"

text \<open>Several keys at once: the versions of the hashes are not compared, and an error of the database is dropped.\<close>

definition qe_GetPrivateDataMultipleKeys ::
  "txmgr \<Rightarrow> string \<Rightarrow> string \<Rightarrow> string list \<Rightarrow> (bytes option list, 'a queryExecutor_scheme) call" where
  "qe_GetPrivateDataMultipleKeys mg ns coll keys q =
     then_do (check_coll mg ns coll q) (\<lambda>_ q.
       case vd_GetStateMultipleKeys (pd_db (tm_db mg)) (derivePvtDataNs ns coll) keys of
         Inl e \<Rightarrow> (Inr [], q)
       | Inr versionedValues \<Rightarrow>
           (Inr (map (\<lambda>vv. fst (decomposeVersionedValue vv)) versionedValues),
            fold (\<lambda>(key, vv) q.
                if collectReadset q
                then (record_in (AddToHashedReadSet (tm_ComputeHash mg) ns coll key (snd (snd (decomposeVersionedValue vv)))) q)
                       \<lparr>qe_privateReads := insert (ns, coll) (qe_privateReads q)\<rparr>
                else q)
              (zip keys versionedValues) q))"

definition qe_GetPrivateDataRangeScanIterator ::
  "txmgr \<Rightarrow> string \<Rightarrow> string \<Rightarrow> string \<Rightarrow> string \<Rightarrow> (scan, 'a queryExecutor_scheme) call" where
  "qe_GetPrivateDataRangeScanIterator mg ns coll startKey endKey q =
     then_do (check_coll mg ns coll q) (\<lambda>_. give (vd_Scan (pd_db (tm_db mg)) (derivePvtDataNs ns coll) startKey endKey))"

definition qe_ExecuteQueryOnPrivateData :: "txmgr \<Rightarrow> string \<Rightarrow> string \<Rightarrow> string \<Rightarrow> (scan, 'a queryExecutor_scheme) call" where
  "qe_ExecuteQueryOnPrivateData mg ns coll query q =
     then_do (check_coll mg ns coll q) (\<lambda>_. give (vd_ExecuteQuery (pd_db (tm_db mg)) (derivePvtDataNs ns coll) query None))"

section \<open>The simulator: writes\<close>

definition checkPvtdataQueryPerformed :: "(unit, tx_simulator) call" where
  "checkPvtdataQueryPerformed s =
     (if ts_pvtdataQueriesPerformed s then Inl ''Transaction has already performed queries on pvt data. Writes are not allowed'' else Inr (), s)"

definition checkPaginatedQueryPerformed :: "(unit, tx_simulator) call" where
  "checkPaginatedQueryPerformed s =
     (if ts_paginatedQueriesPerformed s then Inl ''Transaction has already performed a paginated query. Writes are not allowed'' else Inr (), s)"

definition checkBeforePvtdataQueries :: "(unit, tx_simulator) call" where
  "checkBeforePvtdataQueries s =
     (if ts_writePerformed s then (Inl ''Queries on pvt data is supported only in a read-only transaction'', s)
      else (Inr (), s\<lparr>ts_pvtdataQueriesPerformed := True\<rparr>))"

definition checkBeforePaginatedQueries :: "(unit, tx_simulator) call" where
  "checkBeforePaginatedQueries s =
     (if ts_writePerformed s then (Inl ''Paginated queries are supported only in a read-only transaction'', s)
      else (Inr (), s\<lparr>ts_paginatedQueriesPerformed := True\<rparr>))"

definition checkWritePrecondition :: "txmgr \<Rightarrow> string \<Rightarrow> bytes \<Rightarrow> (unit, tx_simulator) call" where
  "checkWritePrecondition mg key val s =
     then_do (checkDone s) (\<lambda>_ s.
     then_do (checkPvtdataQueryPerformed s) (\<lambda>_ s.
     then_do (checkPaginatedQueryPerformed s) (\<lambda>_ s.
       (case vd_ValidateKeyValue (pd_db (tm_db mg)) key val of None \<Rightarrow> Inr () | Some e \<Rightarrow> Inl e,
        s\<lparr>ts_writePerformed := True\<rparr>))))"

definition checkStateMetadata :: "txmgr \<Rightarrow> string \<Rightarrow> string \<Rightarrow> (unit, tx_simulator) call" where
  "checkStateMetadata mg ns key s =
     then_do (give (Privacy_DB.GetStateMetadata (tm_db mg) ns key) s) (\<lambda>metabytes s.
     then_do (give (tm_Deserialize mg metabytes) s) (\<lambda>metadata s.
       (Inr (), s\<lparr>ts_writesetMetadata := (ts_writesetMetadata s)((ns, '''', key) \<mapsto> metadata)\<rparr>)))"

definition checkPrivateStateMetadata :: "txmgr \<Rightarrow> string \<Rightarrow> string \<Rightarrow> string \<Rightarrow> (unit, tx_simulator) call" where
  "checkPrivateStateMetadata mg ns coll key s =
     then_do (give (GetPrivateDataMetadataByHash (tm_db mg) ns coll (tm_ComputeHash mg key)) s) (\<lambda>metabytes s.
     then_do (give (tm_Deserialize mg metabytes) s) (\<lambda>metadata s.
       (Inr (), s\<lparr>ts_writesetMetadata := (ts_writesetMetadata s)((ns, coll, key) \<mapsto> metadata)\<rparr>)))"

text \<open>A nil value is an empty one: both delete the key.\<close>

definition SetState :: "txmgr \<Rightarrow> string \<Rightarrow> string \<Rightarrow> bytes \<Rightarrow> (unit, tx_simulator) call" where
  "SetState mg ns key val s =
     then_do (checkWritePrecondition mg key val s) (\<lambda>_ s. checkStateMetadata mg ns key (record_in (AddToWriteSet ns key val) s))"

definition DeleteState :: "txmgr \<Rightarrow> string \<Rightarrow> string \<Rightarrow> (unit, tx_simulator) call" where
  "DeleteState mg ns key s = SetState mg ns key [] s"

text \<open>The keys of the map are visited in the order \<open>ord\<close>.\<close>

fun SetStateMultipleKeys :: "txmgr \<Rightarrow> string list \<Rightarrow> string \<Rightarrow> (string \<Rightarrow> bytes) \<Rightarrow> (unit, tx_simulator) call" where
  "SetStateMultipleKeys mg [] ns kvs s = (Inr (), s)"
| "SetStateMultipleKeys mg (k # ord) ns kvs s = then_do (SetState mg ns k (kvs k) s) (\<lambda>_. SetStateMultipleKeys mg ord ns kvs)"

definition SetStateMetadata :: "txmgr \<Rightarrow> string \<Rightarrow> string \<Rightarrow> (string, bytes) fmap \<Rightarrow> (unit, tx_simulator) call" where
  "SetStateMetadata mg ns key metadata s =
     then_do (checkWritePrecondition mg key [] s) (\<lambda>_ s. checkStateMetadata mg ns key (record_in (AddToMetadataWriteSet ns key metadata) s))"

definition DeleteStateMetadata :: "txmgr \<Rightarrow> string \<Rightarrow> string \<Rightarrow> (unit, tx_simulator) call" where
  "DeleteStateMetadata mg ns key s = SetStateMetadata mg ns key fmempty s"

definition SetPrivateData :: "txmgr \<Rightarrow> string \<Rightarrow> string \<Rightarrow> string \<Rightarrow> bytes \<Rightarrow> (unit, tx_simulator) call" where
  "SetPrivateData mg ns coll key val s =
     then_do (validateCollName mg ns coll s) (\<lambda>_ s.
     then_do (checkWritePrecondition mg key val s) (\<lambda>_ s.
       checkPrivateStateMetadata mg ns coll key
         (record_in (AddToPvtAndHashedWriteSet (tm_ComputeHash mg) ns coll key val) (s\<lparr>ts_writePerformed := True\<rparr>))))"

definition DeletePrivateData :: "txmgr \<Rightarrow> string \<Rightarrow> string \<Rightarrow> string \<Rightarrow> (unit, tx_simulator) call" where
  "DeletePrivateData mg ns coll key s = SetPrivateData mg ns coll key [] s"

definition PurgePrivateData :: "txmgr \<Rightarrow> string \<Rightarrow> string \<Rightarrow> string \<Rightarrow> (unit, tx_simulator) call" where
  "PurgePrivateData mg ns coll key s =
     then_do (validateCollName mg ns coll s) (\<lambda>_ s.
     then_do (checkWritePrecondition mg key [] s) (\<lambda>_ s.
       checkPrivateStateMetadata mg ns coll key
         (record_in (AddToPvtAndHashedWriteSetForPurge (tm_ComputeHash mg) ns coll key) (s\<lparr>ts_writePerformed := True\<rparr>))))"

fun SetPrivateDataMultipleKeys ::
  "txmgr \<Rightarrow> string list \<Rightarrow> string \<Rightarrow> string \<Rightarrow> (string \<Rightarrow> bytes) \<Rightarrow> (unit, tx_simulator) call" where
  "SetPrivateDataMultipleKeys mg [] ns coll kvs s = (Inr (), s)"
| "SetPrivateDataMultipleKeys mg (k # ord) ns coll kvs s =
     then_do (SetPrivateData mg ns coll k (kvs k) s) (\<lambda>_. SetPrivateDataMultipleKeys mg ord ns coll kvs)"

definition SetPrivateDataMetadata ::
  "txmgr \<Rightarrow> string \<Rightarrow> string \<Rightarrow> string \<Rightarrow> (string, bytes) fmap \<Rightarrow> (unit, tx_simulator) call" where
  "SetPrivateDataMetadata mg ns coll key metadata s =
     then_do (validateCollName mg ns coll s) (\<lambda>_ s.
     then_do (checkWritePrecondition mg key [] s) (\<lambda>_ s.
       checkPrivateStateMetadata mg ns coll key
         (record_in (AddToHashedMetadataWriteSet (tm_ComputeHash mg) ns coll key metadata) s)))"

definition DeletePrivateDataMetadata :: "txmgr \<Rightarrow> string \<Rightarrow> string \<Rightarrow> string \<Rightarrow> (unit, tx_simulator) call" where
  "DeletePrivateDataMetadata mg ns coll key s = SetPrivateDataMetadata mg ns coll key fmempty s"

section \<open>The simulator: queries and results\<close>

definition ts_GetPrivateDataRangeScanIterator :: "txmgr \<Rightarrow> string \<Rightarrow> string \<Rightarrow> string \<Rightarrow> string \<Rightarrow> (scan, tx_simulator) call" where
  "ts_GetPrivateDataRangeScanIterator mg ns coll startKey endKey s =
     then_do (checkBeforePvtdataQueries s) (\<lambda>_. qe_GetPrivateDataRangeScanIterator mg ns coll startKey endKey)"

definition ts_ExecuteQueryOnPrivateData :: "txmgr \<Rightarrow> string \<Rightarrow> string \<Rightarrow> string \<Rightarrow> (scan, tx_simulator) call" where
  "ts_ExecuteQueryOnPrivateData mg ns coll query s =
     then_do (checkBeforePvtdataQueries s) (\<lambda>_. qe_ExecuteQueryOnPrivateData mg ns coll query)"

definition ts_GetStateRangeScanIteratorWithPagination :: "txmgr \<Rightarrow> string \<Rightarrow> string \<Rightarrow> string \<Rightarrow> int \<Rightarrow> (nat, tx_simulator) call" where
  "ts_GetStateRangeScanIteratorWithPagination mg ns startKey endKey pageSize s =
     then_do (checkBeforePaginatedQueries s) (\<lambda>_. qe_GetStateRangeScanIteratorWithPagination mg ns startKey endKey pageSize)"

definition ts_ExecuteQueryWithPagination :: "txmgr \<Rightarrow> string \<Rightarrow> string \<Rightarrow> string \<Rightarrow> int \<Rightarrow> (scan, tx_simulator) call" where
  "ts_ExecuteQueryWithPagination mg ns query bookmark pageSize s =
     then_do (checkBeforePaginatedQueries s) (\<lambda>_. qe_ExecuteQuery mg ns query (Some (bookmark, pageSize)))"

definition ts_GetTxSimulationResults :: "txmgr \<Rightarrow> tx_simulator \<Rightarrow> ((string + SimulationResults) \<times> tx_simulator) go" where
  "ts_GetTxSimulationResults mg s =
     (if ts_simulationResultsComputed s
      then Return (Inl ''this function should only be called once on a transaction simulator instance'', s)
      else let s = s\<lparr>ts_simulationResultsComputed := True\<rparr>
           in case qe_err s of
                Some e \<Rightarrow> Return (Inl e, s)
              | None \<Rightarrow>
                  go_bind (addRangeQueryInfo mg s) (\<lambda>s.
                    case qe_rwsetBuilder s of
                      None \<Rightarrow> Panic
                    | Some b \<Rightarrow>
                        (case builder_GetTxSimulationResults (tm_codec mg) (tm_ComputeHash mg) b of
                           Inl e \<Rightarrow> Return (Inl e, s)
                         | Inr (res, b) \<Rightarrow>
                             Return (Inr (res\<lparr>sr_PrivateReads := qe_privateReads s, sr_WritesetMetadata := ts_writesetMetadata s\<rparr>),
                                     s\<lparr>qe_rwsetBuilder := Some b\<rparr>))))"

section \<open>What the reads of a builder must be\<close>

definition builder_current :: "(compositeKey \<Rightarrow> Height option) \<Rightarrow> (bytes \<Rightarrow> bytes) \<Rightarrow> RWSetBuilder \<Rightarrow> bool" where
  "builder_current ver CH b \<longleftrightarrow>
     (\<forall>ns k r. o_read b ns k = Some r \<longrightarrow> NewVersion (kr_Version r) = ver (ns, '''', k)) \<and>
     (\<forall>ns coll k r. o_hread b ns coll k = Some r \<longrightarrow> NewVersion (krh_Version r) = ver (ns, coll, CH k))"

lemma NewVersion_newProtoVersion [simp]: "NewVersion (newProtoVersion h) = h"
  by (cases h) (simp_all add: NewVersion_def newProtoVersion_def)

lemma builder_current_reads:
  assumes "builder_current ver CH b"
  shows "h = ver (ns, '''', key) \<Longrightarrow> builder_current ver CH (AddToReadSet ns key h b)"
    "h = ver (ns, coll, CH key) \<Longrightarrow> builder_current ver CH (AddToHashedReadSet CH ns coll key h b)"
    "builder_current ver CH (AddToRangeQuerySet ns q b)"
  using assms by (auto simp: builder_current_def o_reads NewKVRead_def newPvtKVReadHash_def split: if_splits)

lemma builder_current_writes:
  assumes "builder_current ver CH b"
  shows "builder_current ver CH (AddToWriteSet ns key val b)"
    "builder_current ver CH (AddToMetadataWriteSet ns key md b)"
    "builder_current ver CH (AddToPvtAndHashedWriteSet CH ns coll key val b)"
    "builder_current ver CH (AddToPvtAndHashedWriteSetForPurge CH ns coll key b)"
    "builder_current ver CH (AddToHashedMetadataWriteSet CH ns coll key md b)"
  using assms by (simp_all add: builder_current_def o_reads_write)

lemma tx_current_builder:
  assumes b: "builder_inv CH b" "builder_current (\<lambda>ck. version_of (st ck)) CH b"
    and q: "\<And>ns qk q. o_query b ns qk = Some q \<Longrightarrow> query_matches H S st ns q"
  shows "tx_current H S {} st (GetTxReadWriteSet b)"
  unfolding tx_current_def
proof
  fix n assume "n \<in> set (GetTxReadWriteSet b)"
  then obtain ns where ns: "n = nsPub_build (getOrCreateNsPubRwBuilder ns b)" unfolding set_GetTxReadWriteSet by blast
  have inv: "ns_inv CH ns (getOrCreateNsPubRwBuilder ns b)" using getOrCreate_inv b(1) by blast
  have name: "nsr_NameSpace n = ns" using ns_builder_simps(1) [OF b(1)] ns by simp
  have reads: "version_of (st (ns, '''', kr_Key r)) = NewVersion (kr_Version r)" if r: "r \<in> set (rw_Reads (nsr_KvRwSet n))" for r
  proof -
    obtain k where "o_read b ns k = Some r" using r unfolding ns by (auto simp: nsPub_build_def set_GetValuesBySortedKeys o_read_def)
    moreover from this have "kr_Key r = k" using inv by (auto simp: ns_inv_def kept_def o_read_def)
    ultimately show ?thesis using b(2) unfolding builder_current_def by metis
  qed
  have queries: "query_matches H S st ns q" if q': "q \<in> set (rw_RangeQueriesInfo (nsr_KvRwSet n))" for q
  proof -
    obtain qk where "qk \<in> fmdom' (npb_rangeQueriesMap (getOrCreateNsPubRwBuilder ns b))" "q = the (o_query b ns qk)"
      using q' inv unfolding ns by (auto simp: nsPub_build_def ns_inv_def o_query_def)
    then have "o_query b ns qk = Some q" by (auto simp: o_query_def fmlookup_dom'_iff)
    then show ?thesis by (rule q)
  qed
  have hashed: "version_of (st (ns, chr_CollectionName c, krh_KeyHash r)) = NewVersion (krh_Version r)"
    if c: "c \<in> set (nsr_CollHashedRwSets n)" and r: "r \<in> set (hrw_HashedReads (chr_HashedRwSet c))" for c r
  proof -
    obtain coll where coll: "c = collHash_build (getOrCreateCollHashedRwBuilder ns coll b)" using c unfolding ns set_colls by blast
    have cinv: "coll_inv CH coll (getOrCreateCollHashedRwBuilder ns coll b)" using getOrCreate_inv b(1) by blast
    obtain k where k: "o_hread b ns coll k = Some r"
      using r unfolding coll by (auto simp: collHash_build_def set_GetValuesBySortedKeys o_hread_def)
    then have "krh_KeyHash r = CH k" using cinv by (auto simp: coll_inv_def kept_def o_hread_def)
    moreover have "chr_CollectionName c = coll" using ns_builder_simps(2) [OF b(1)] coll by simp
    ultimately show ?thesis using b(2) k unfolding builder_current_def by metis
  qed
  show "ns_current H S {} st n" unfolding ns_current_def Let_def name using reads queries hashed by simp
qed

section \<open>Calls keep the invariant of a simulation\<close>

definition keeps :: "('q \<Rightarrow> bool) \<Rightarrow> ('a, 'q) call \<Rightarrow> bool" where
  "keeps P c \<longleftrightarrow> (\<forall>q. P q \<longrightarrow> P (snd (c q)))"

named_theorems keeps_intros \<open>calls that keep an invariant\<close>

lemma keeps_then [keeps_intros]: "keeps P c \<Longrightarrow> (\<And>x. keeps P (f x)) \<Longrightarrow> keeps P (\<lambda>q. then_do (c q) f)"
  unfolding keeps_def then_do_def by (fastforce split: prod.splits sum.splits)

lemma keeps_give [keeps_intros]: "keeps P (\<lambda>q. (r, q))" "keeps P (give r)" "keeps P (\<lambda>q. give r q)"
  by (simp_all add: keeps_def give_def)

lemma keeps_checkDone [keeps_intros]: "keeps P checkDone"
  by (simp add: keeps_def checkDone_def)

lemma keeps_if: "keeps P c \<Longrightarrow> keeps P d \<Longrightarrow> keeps P (\<lambda>q. if C q then c q else d q)"
  by (simp add: keeps_def)

lemma keeps_sum [keeps_intros]: "(\<And>e. keeps P (c e)) \<Longrightarrow> (\<And>x. keeps P (d x)) \<Longrightarrow> keeps P (\<lambda>q. case r of Inl e \<Rightarrow> c e q | Inr x \<Rightarrow> d x q)"
  by (cases r) (simp_all add: keeps_def)

lemma keeps_prod [keeps_intros]: "(\<And>x y. keeps P (c x y)) \<Longrightarrow> keeps P (case p of (x, y) \<Rightarrow> c x y)"
  by (cases p) simp

text \<open>
  An iterator has returned the first \<open>n\<close> results of its range, and its helper has been given them.
\<close>

definition itr_inv ::
  "(string \<Rightarrow> nsUpdates) \<Rightarrow> (bytes \<Rightarrow> bytes) \<Rightarrow> (KVRead list \<Rightarrow> bytes) \<Rightarrow> resultsItr \<Rightarrow> bool" where
  "itr_inv content H S itr \<longleftrightarrow>
     (\<exists>info helper n. ri_capture itr = Some (info, helper) \<and>
       (let R = ns_range (ri_ns itr) (content (ri_ns itr)) (rq_StartKey info) (ri_endKey itr)
        in n \<le> length R \<and> ri_dbItr itr = \<lparr>sc_items = drop n R, sc_error = None\<rparr> \<and>
           helper_at maxDegreeQueryReadsHashing H S (map to_read (take n R)) helper \<and> rq_ReadsInfo info = NoReadsInfo \<and>
           (if rq_ItrExhausted info then n = length R \<and> rq_EndKey info = ri_endKey itr
            else rq_EndKey info = (if n = 0 then '''' else vk_Key (R ! (n - 1))))))"

definition good_builder :: "string set \<Rightarrow> (compositeKey \<Rightarrow> Height option) \<Rightarrow> (bytes \<Rightarrow> bytes) \<Rightarrow> RWSetBuilder \<Rightarrow> bool" where
  "good_builder K ver CH b \<longleftrightarrow> builder_inv CH b \<and> named_colls b \<and> hashed_in K b \<and> builder_current ver CH b \<and> (\<forall>ns qk. o_query b ns qk = None)"

definition sim_inv ::
  "string set \<Rightarrow> (compositeKey \<Rightarrow> Height option) \<Rightarrow> (string \<Rightarrow> nsUpdates) \<Rightarrow> (bytes \<Rightarrow> bytes) \<Rightarrow> (bytes \<Rightarrow> bytes) \<Rightarrow> (KVRead list \<Rightarrow> bytes) \<Rightarrow>
     'a queryExecutor_scheme \<Rightarrow> bool" where
  "sim_inv K ver content CH H S q \<longleftrightarrow> (\<exists>b. qe_rwsetBuilder q = Some b \<and> good_builder K ver CH b) \<and>
     (\<forall>itr \<in> set (qe_itrs q). itr_inv content H S itr) \<and> qe_err q = None"

lemma good_builder_new: "good_builder K ver CH NewRWSetBuilder"
  using builder_inv_new [of CH] named_colls_new
  by (auto simp: good_builder_def builder_current_def hashed_in_def o_defs NewRWSetBuilder_def
      getOrCreateNsPubRwBuilder_def getOrCreateCollHashedRwBuilder_def newNsPubRwBuilder_def newCollHashRwBuilder_def)

lemma good_builder_reads:
  assumes "good_builder K ver CH b"
  shows "h = ver (ns, '''', key) \<Longrightarrow> good_builder K ver CH (AddToReadSet ns key h b)"
    "coll \<noteq> '''' \<Longrightarrow> h = ver (ns, coll, CH key) \<Longrightarrow> good_builder K ver CH (AddToHashedReadSet CH ns coll key h b)"
  using assms by (simp_all add: good_builder_def Add_inv Add_named hashed_in_Add builder_current_reads o_reads)

lemma good_builder_writes:
  assumes "good_builder K ver CH b"
  shows "good_builder K ver CH (AddToWriteSet ns key val b)"
    "good_builder K ver CH (AddToMetadataWriteSet ns key md b)"
    "coll \<noteq> '''' \<Longrightarrow> key \<in> K \<Longrightarrow> good_builder K ver CH (AddToPvtAndHashedWriteSet CH ns coll key val b)"
    "coll \<noteq> '''' \<Longrightarrow> key \<in> K \<Longrightarrow> good_builder K ver CH (AddToPvtAndHashedWriteSetForPurge CH ns coll key b)"
    "coll \<noteq> '''' \<Longrightarrow> key \<in> K \<Longrightarrow> good_builder K ver CH (AddToHashedMetadataWriteSet CH ns coll key md b)"
  using assms by (simp_all add: good_builder_def Add_inv Add_named hashed_in_Add builder_current_writes o_reads_write)

lemma sim_inv_record:
  "sim_inv K ver content CH H S q \<Longrightarrow> (\<And>b. good_builder K ver CH b \<Longrightarrow> good_builder K ver CH (f b)) \<Longrightarrow>
     sim_inv K ver content CH H S (record_in f q)"
  by (auto simp: sim_inv_def record_in_def)

lemma sim_inv_fields [simp]:
  "sim_inv K ver content CH H S (q\<lparr>qe_privateReads := pr\<rparr>) = sim_inv K ver content CH H S q"
  "sim_inv K ver content CH H S (q\<lparr>qe_cache := c\<rparr>) = sim_inv K ver content CH H S q"
  "sim_inv K ver content CH H S (q\<lparr>qe_doneInvoked := d\<rparr>) = sim_inv K ver content CH H S q"
  by (simp_all add: sim_inv_def)

lemma sim_inv_sim_fields [simp]:
  fixes s :: tx_simulator
  shows "sim_inv K ver content CH H S (s\<lparr>ts_writePerformed := w\<rparr>) = sim_inv K ver content CH H S s"
    "sim_inv K ver content CH H S (s\<lparr>ts_pvtdataQueriesPerformed := w\<rparr>) = sim_inv K ver content CH H S s"
    "sim_inv K ver content CH H S (s\<lparr>ts_simulationResultsComputed := w\<rparr>) = sim_inv K ver content CH H S s"
    "sim_inv K ver content CH H S (s\<lparr>ts_paginatedQueriesPerformed := w\<rparr>) = sim_inv K ver content CH H S s"
    "sim_inv K ver content CH H S (s\<lparr>ts_writesetMetadata := m\<rparr>) = sim_inv K ver content CH H S s"
  by (simp_all add: sim_inv_def)

lemma keeps_record:
  "(\<And>b. good_builder K ver CH b \<Longrightarrow> good_builder K ver CH (f b)) \<Longrightarrow>
     keeps (sim_inv K ver content CH H S) (\<lambda>q. (r, record_in f q))"
  by (simp add: keeps_def sim_inv_record)

text \<open>The versions a state database gives.\<close>

definition db_versions :: "txmgr \<Rightarrow> (string \<Rightarrow> bool) \<Rightarrow> (compositeKey \<Rightarrow> Height option) \<Rightarrow> bool" where
  "db_versions mg valid_ns ver \<longleftrightarrow>
     (\<forall>ns key vv. valid_ns ns \<longrightarrow> vd_GetState (pd_db (tm_db mg)) ns key = Inr vv \<longrightarrow> snd (snd (decomposeVersionedValue vv)) = ver (ns, '''', key)) \<and>
     (\<forall>ns keys vvs. valid_ns ns \<longrightarrow> vd_GetStateMultipleKeys (pd_db (tm_db mg)) ns keys = Inr vvs \<longrightarrow>
        (\<forall>(key, vv) \<in> set (zip keys vvs). snd (snd (decomposeVersionedValue vv)) = ver (ns, '''', key))) \<and>
     (\<forall>ns coll key vv. coll \<noteq> '''' \<longrightarrow> valid_ns (deriveHashedDataNs ns coll) \<longrightarrow>
        GetPrivateDataHash (tm_ComputeHash mg) (tm_db mg) ns coll key = Inr vv \<longrightarrow>
        snd (snd (decomposeVersionedValue vv)) = ver (ns, coll, tm_ComputeHash mg key)) \<and>
     (\<forall>ns coll key h. coll \<noteq> '''' \<longrightarrow> valid_ns (deriveHashedDataNs ns coll) \<longrightarrow>
        GetKeyHashVersion (tm_db mg) ns coll (tm_ComputeHash mg key) = Inr h \<longrightarrow> h = ver (ns, coll, tm_ComputeHash mg key)) \<and>
     (\<forall>ns. \<forall>(n, k) \<in> set (fst (tm_ccInfo mg ns)). valid_ns n)"

definition db_scans :: "txmgr \<Rightarrow> (string \<Rightarrow> bool) \<Rightarrow> (string \<Rightarrow> nsUpdates) \<Rightarrow> bool" where
  "db_scans mg valid_ns content \<longleftrightarrow>
     (\<forall>ns a b. valid_ns ns \<longrightarrow> vd_Scan (pd_db (tm_db mg)) ns a b = Inr \<lparr>sc_items = ns_range ns (content ns) a b, sc_error = None\<rparr>)"

context privacy_db
begin

lemma scans:
  assumes "tm_db mg = db"
  shows "db_scans mg valid_ns content"
  using assms Scan by (simp add: db_scans_def)

lemma versions:
  assumes "tm_db mg = db" "\<forall>ns. \<forall>(n, k) \<in> set (fst (tm_ccInfo mg ns)). valid_ns n"
  shows "db_versions mg valid_ns (\<lambda>ck. version_of (committed content db ck))"
  using assms
  by (auto simp: db_versions_def GetState GetStateMultipleKeys GetVersion GetPrivateDataHash_def GetValueHash_def GetKeyHashVersion_def
      committed_def decomposeVersionedValue_def version_of_def set_zip split: option.splits)

end

section \<open>Reads\<close>

lemma db_versionsD:
  assumes "db_versions mg valid_ns ver"
  shows "valid_ns ns \<Longrightarrow> vd_GetState (pd_db (tm_db mg)) ns key = Inr vv \<Longrightarrow> snd (snd (decomposeVersionedValue vv)) = ver (ns, '''', key)"
    "valid_ns ns \<Longrightarrow> vd_GetStateMultipleKeys (pd_db (tm_db mg)) ns keys = Inr vvs \<Longrightarrow> x \<in> set (zip keys vvs) \<Longrightarrow>
       snd (snd (decomposeVersionedValue (snd x))) = ver (ns, '''', fst x)"
    "coll \<noteq> '''' \<Longrightarrow> valid_ns (deriveHashedDataNs ns coll) \<Longrightarrow> GetPrivateDataHash (tm_ComputeHash mg) (tm_db mg) ns coll key = Inr vv \<Longrightarrow>
       snd (snd (decomposeVersionedValue vv)) = ver (ns, coll, tm_ComputeHash mg key)"
    "coll \<noteq> '''' \<Longrightarrow> valid_ns (deriveHashedDataNs ns coll) \<Longrightarrow>
       GetKeyHashVersion (tm_db mg) ns coll (tm_ComputeHash mg key) = Inr h \<Longrightarrow> h = ver (ns, coll, tm_ComputeHash mg key)"
    "\<forall>(n, k) \<in> set (fst (tm_ccInfo mg ns)). valid_ns n"
  using assms unfolding db_versions_def by (auto simp: case_prod_unfold)

lemma keeps_getState:
  assumes v: "db_versions mg valid_ns ver" and ns: "valid_ns ns"
  shows "keeps (sim_inv K ver content CH H S) (getState mg ns key)"
proof -
  have "good_builder K ver CH (AddToReadSet ns key h b)"
    if "vd_GetState (pd_db (tm_db mg)) ns key = Inr vv" "decomposeVersionedValue vv = (val, md, h)" "good_builder K ver CH b" for vv val md h b
  proof -
    have "h = ver (ns, '''', key)" using db_versionsD(1) [OF v ns that(1)] that(2) by simp
    then show ?thesis by (rule good_builder_reads(1) [OF that(3)])
  qed
  then show ?thesis unfolding getState_def [abs_def] Let_def
    by (intro keeps_then keeps_checkDone; cases "vd_GetState (pd_db (tm_db mg)) ns key")
      (simp_all add: keeps_give case_prod_unfold keeps_record prod_eq_iff)
qed

lemma keeps_provider:
  assumes v: "db_versions mg valid_ns ver"
  shows "\<forall>(n, k) \<in> set keys. valid_ns n \<Longrightarrow>
    keeps (sim_inv K ver content CH H S :: 'a queryExecutor_scheme \<Rightarrow> bool) (provider_reads mg keys)"
proof (induction keys)
  case Nil
  then show ?case by (simp add: keeps_def)
next
  case (Cons x keys)
  obtain n k where x: "x = (n, k)" by fastforce
  then have "valid_ns n" using Cons.prems by simp
  moreover have "keeps (sim_inv K ver content CH H S :: 'a queryExecutor_scheme \<Rightarrow> bool) (provider_reads mg keys)"
    using Cons by simp
  ultimately have "keeps (sim_inv K ver content CH H S :: 'a queryExecutor_scheme \<Rightarrow> bool)
      (\<lambda>q. then_do (getState mg n k q) (\<lambda>_. provider_reads mg keys))"
    by (intro keeps_then keeps_getState [OF v])
  then show ?case by (simp add: x keeps_def)
qed

lemma keeps_validateCollName:
  assumes v: "db_versions mg valid_ns ver"
  shows "keeps (sim_inv K ver content CH H S) (validateCollName mg ns coll)"
proof -
  have "keeps (sim_inv K ver content CH H S) (retrieveCollConfigFromStateDB mg ns)"
    unfolding retrieveCollConfigFromStateDB_def [abs_def] by (intro keeps_then keeps_give keeps_provider [OF v] db_versionsD(5) [OF v])
  moreover have "keeps (sim_inv K ver content CH H S) (\<lambda>q. (Inr (), q\<lparr>qe_cache := populate ns conf (qe_cache q)\<rparr>))" for conf
    by (simp add: keeps_def)
  ultimately show ?thesis unfolding validateCollName_def [abs_def] by (intro keeps_if keeps_then keeps_give)
qed

lemma keeps_check_coll:
  "db_versions mg valid_ns ver \<Longrightarrow> keeps (sim_inv K ver content CH H S) (check_coll mg ns coll)"
  unfolding check_coll_def [abs_def] by (intro keeps_then keeps_checkDone keeps_validateCollName)

lemma keeps_GetState:
  "db_versions mg valid_ns ver \<Longrightarrow> valid_ns ns \<Longrightarrow> keeps (sim_inv K ver content CH H S) (qe_GetState mg ns key)"
  unfolding qe_GetState_def [abs_def] by (intro keeps_then keeps_prod keeps_give keeps_getState)

lemma keeps_GetStateMetadata:
  "db_versions mg valid_ns ver \<Longrightarrow> valid_ns ns \<Longrightarrow> keeps (sim_inv K ver content CH H S) (qe_GetStateMetadata mg ns key)"
  unfolding qe_GetStateMetadata_def [abs_def] by (intro keeps_then keeps_if keeps_prod keeps_give keeps_checkDone keeps_getState)

lemma sim_inv_fold:
  "(\<And>x b. x \<in> set xs \<Longrightarrow> good_builder K ver CH b \<Longrightarrow> good_builder K ver CH (f x b)) \<Longrightarrow> sim_inv K ver content CH H S q \<Longrightarrow>
     sim_inv K ver content CH H S (fold (\<lambda>x. record_in (f x)) xs q)"
  by (induction xs arbitrary: q) (simp_all add: sim_inv_record)

lemma keeps_GetStateMultipleKeys:
  assumes v: "db_versions mg valid_ns ver" and ns: "valid_ns ns"
  shows "keeps (sim_inv K ver content CH H S) (qe_GetStateMultipleKeys mg ns keys)"
proof -
  have "sim_inv K ver content CH H S (fold (\<lambda>(key, vv). record_in (AddToReadSet ns key (snd (snd (decomposeVersionedValue vv))))) (zip keys vvs) q)"
    if "vd_GetStateMultipleKeys (pd_db (tm_db mg)) ns keys = Inr vvs" "sim_inv K ver content CH H S q"
    for vvs and q :: "'a queryExecutor_scheme"
  proof -
    have "sim_inv K ver content CH H S
        (fold (\<lambda>x. record_in (AddToReadSet ns (fst x) (snd (snd (decomposeVersionedValue (snd x)))))) (zip keys vvs) q)"
      by (rule sim_inv_fold [OF _ that(2)], rule good_builder_reads(1), assumption, rule db_versionsD(2) [OF v ns that(1)])
    then show ?thesis by (simp add: case_prod_unfold)
  qed
  then have "keeps (sim_inv K ver content CH H S) (\<lambda>q :: 'a queryExecutor_scheme. case vd_GetStateMultipleKeys (pd_db (tm_db mg)) ns keys of
         Inl e \<Rightarrow> (Inr [], q)
       | Inr versionedValues \<Rightarrow>
           (Inr (map (\<lambda>vv. fst (decomposeVersionedValue vv)) versionedValues),
            fold (\<lambda>(key, vv). record_in (AddToReadSet ns key (snd (snd (decomposeVersionedValue vv)))))
              (zip keys versionedValues) q))"
    by (simp add: keeps_def split: sum.split)
  then show ?thesis unfolding qe_GetStateMultipleKeys_def [abs_def] by (intro keeps_then keeps_checkDone)
qed

lemma keeps_GetPrivateData:
  assumes v: "db_versions mg valid_ns ver" and c: "coll \<noteq> ''''" "valid_ns (deriveHashedDataNs ns coll)"
  shows "keeps (sim_inv K ver content (tm_ComputeHash mg) H S) (qe_GetPrivateData mg ns coll key)"
proof -
  let ?I = "sim_inv K ver content (tm_ComputeHash mg) H S :: 'a queryExecutor_scheme \<Rightarrow> bool"
  have "keeps ?I (\<lambda>q. if \<not> AreSame hv h then (Inl e, q)
            else if collectReadset q
            then (Inr val, (record_in (AddToHashedReadSet (tm_ComputeHash mg) ns coll key h) q)
                     \<lparr>qe_privateReads := insert (ns, coll) (qe_privateReads q)\<rparr>)
            else (Inr val, q))"
    if "GetKeyHashVersion (tm_db mg) ns coll (tm_ComputeHash mg key) = Inr hv" for hv h e and val :: "bytes option"
  proof -
    have "h = ver (ns, coll, tm_ComputeHash mg key)" if "AreSame hv h"
      using db_versionsD(4) [OF v c] \<open>GetKeyHashVersion _ _ _ _ = Inr hv\<close> that by (simp add: AreSame_iff)
    then have "?I (record_in (AddToHashedReadSet (tm_ComputeHash mg) ns coll key h) q)" if "AreSame hv h" "?I q" for q
      using that by (intro sim_inv_record good_builder_reads(2) [OF _ c(1)])
    then show ?thesis unfolding keeps_def by simp
  qed
  then have inner: "keeps ?I (\<lambda>q. then_do (give (GetKeyHashVersion (tm_db mg) ns coll (tm_ComputeHash mg key)) q) (\<lambda>hashVersion q.
            if \<not> AreSame hashVersion h then (Inl e, q)
            else if collectReadset q
            then (Inr val, (record_in (AddToHashedReadSet (tm_ComputeHash mg) ns coll key h) q)
                     \<lparr>qe_privateReads := insert (ns, coll) (qe_privateReads q)\<rparr>)
            else (Inr val, q)))" for h e and val :: "bytes option"
    by (cases "GetKeyHashVersion (tm_db mg) ns coll (tm_ComputeHash mg key)") (simp_all add: give_def then_do_def keeps_give)
  show ?thesis unfolding qe_GetPrivateData_def [abs_def] Let_def case_prod_unfold
    by (rule keeps_then [OF keeps_check_coll [OF v]], rule keeps_then [OF keeps_give(3) inner])
qed

lemma keeps_hash_read:
  assumes v: "db_versions mg valid_ns ver" and c: "coll \<noteq> ''''" "valid_ns (deriveHashedDataNs ns coll)"
  shows "keeps (sim_inv K ver content (tm_ComputeHash mg) H S)
    (\<lambda>q. then_do (give (GetPrivateDataHash (tm_ComputeHash mg) (tm_db mg) ns coll key) q) (\<lambda>vv q.
       (f vv, record_in (AddToHashedReadSet (tm_ComputeHash mg) ns coll key (snd (snd (decomposeVersionedValue vv)))) q)))"
proof (cases "GetPrivateDataHash (tm_ComputeHash mg) (tm_db mg) ns coll key")
  case (Inr vv)
  then show ?thesis using db_versionsD(3) [OF v c Inr] good_builder_reads(2) [OF _ c(1)]
    by (simp add: give_def then_do_def keeps_record)
qed (simp add: give_def then_do_def keeps_give)

lemma keeps_GetPrivateDataHash:
  assumes v: "db_versions mg valid_ns ver" and c: "coll \<noteq> ''''" "valid_ns (deriveHashedDataNs ns coll)"
  shows "keeps (sim_inv K ver content (tm_ComputeHash mg) H S) (qe_GetPrivateDataHash mg ns coll key)"
    "keeps (sim_inv K ver content (tm_ComputeHash mg) H S) (getPrivateDataValueHash mg ns coll key)"
  unfolding qe_GetPrivateDataHash_def [abs_def] getPrivateDataValueHash_def [abs_def] Let_def case_prod_unfold
  by (rule keeps_then [OF keeps_check_coll [OF v] keeps_hash_read [OF v c]])+

lemma keeps_GetPrivateDataMetadata:
  assumes v: "db_versions mg valid_ns ver" and c: "coll \<noteq> ''''" "valid_ns (deriveHashedDataNs ns coll)"
  shows "keeps (sim_inv K ver content (tm_ComputeHash mg) H S) (qe_GetPrivateDataMetadata mg ns coll key)"
  unfolding qe_GetPrivateDataMetadata_def [abs_def] getPrivateDataMetadataByHash_def case_prod_unfold
  by (intro keeps_if keeps_then keeps_give keeps_check_coll [OF v] keeps_GetPrivateDataHash(2) [OF v c])

section \<open>Writes\<close>

lemma keeps_fields [keeps_intros]:
  "keeps (sim_inv K ver content CH H S) checkBeforePvtdataQueries"
  "keeps (sim_inv K ver content CH H S) (checkWritePrecondition mg key val)"
  "keeps (sim_inv K ver content CH H S) (checkStateMetadata mg ns key)"
  "keeps (sim_inv K ver content CH H S) (checkPrivateStateMetadata mg ns coll key)"
  unfolding checkWritePrecondition_def [abs_def] checkStateMetadata_def [abs_def] checkPrivateStateMetadata_def [abs_def]
  by (simp add: keeps_def checkBeforePvtdataQueries_def,
      (intro keeps_then keeps_checkDone keeps_give;
       simp add: keeps_def checkPvtdataQueryPerformed_def checkPaginatedQueryPerformed_def)+)

lemma keeps_record_then:
  "keeps (sim_inv K ver content CH H S) c \<Longrightarrow> (\<And>b. good_builder K ver CH b \<Longrightarrow> good_builder K ver CH (f b)) \<Longrightarrow>
     (\<And>s. sim_inv K ver content CH H S (g s) = sim_inv K ver content CH H S s) \<Longrightarrow>
     keeps (sim_inv K ver content CH H S) (\<lambda>s. c (record_in f (g s)))"
  by (simp add: keeps_def sim_inv_record)

lemma keeps_writes:
  assumes v: "db_versions mg valid_ns ver"
  shows "keeps (sim_inv K ver content (tm_ComputeHash mg) H S) (SetState mg ns key val)"
    "keeps (sim_inv K ver content (tm_ComputeHash mg) H S) (SetStateMetadata mg ns key md)"
    "coll \<noteq> '''' \<Longrightarrow> key \<in> K \<Longrightarrow> keeps (sim_inv K ver content (tm_ComputeHash mg) H S) (SetPrivateData mg ns coll key val)"
    "coll \<noteq> '''' \<Longrightarrow> key \<in> K \<Longrightarrow> keeps (sim_inv K ver content (tm_ComputeHash mg) H S) (PurgePrivateData mg ns coll key)"
    "coll \<noteq> '''' \<Longrightarrow> key \<in> K \<Longrightarrow> keeps (sim_inv K ver content (tm_ComputeHash mg) H S) (SetPrivateDataMetadata mg ns coll key md)"
  unfolding SetState_def [abs_def] SetStateMetadata_def [abs_def] SetPrivateData_def [abs_def] PurgePrivateData_def [abs_def]
    SetPrivateDataMetadata_def [abs_def]
  by (intro keeps_then keeps_fields keeps_validateCollName [OF v] keeps_record_then good_builder_writes; simp)+

section \<open>Iterators\<close>

lemma keeps_scan:
  assumes "db_scans mg valid_ns content" "valid_ns ns"
  shows "keeps (sim_inv K ver content CH H S) (qe_GetStateRangeScanIterator mg ns startKey endKey)"
proof -
  let ?R = "ns_range ns (content ns) startKey endKey"
  obtain helper where helper: "NewRangeQueryResultsHelper True maxDegreeQueryReadsHashing = Inr helper"
    "helper_at maxDegreeQueryReadsHashing H S [] helper"
    using NewHelper_at [of maxDegreeQueryReadsHashing H S] by (auto simp: maxDegreeQueryReadsHashing_def)
  let ?itr = "\<lparr>ri_ns = ns, ri_endKey = endKey, ri_dbItr = \<lparr>sc_items = ?R, sc_error = None\<rparr>,
     ri_capture = Some (\<lparr>rq_StartKey = startKey, rq_EndKey = '''', rq_ItrExhausted = False, rq_ReadsInfo = NoReadsInfo\<rparr>, helper)\<rparr>"
  have itr: "newResultsItr mg ns startKey endKey 0 True True maxDegreeQueryReadsHashing = Inr ?itr"
    using assms helper(1) by (simp add: newResultsItr_def db_scans_def)
  have inv: "itr_inv content H S ?itr"
    unfolding itr_inv_def
    by (rule exI [of _ "\<lparr>rq_StartKey = startKey, rq_EndKey = '''', rq_ItrExhausted = False, rq_ReadsInfo = NoReadsInfo\<rparr>"],
        rule exI [of _ helper], rule exI [of _ 0]) (simp add: helper(2))
  have "keeps (sim_inv K ver content CH H S) (\<lambda>q. case newResultsItr mg ns startKey endKey 0 (collectReadset q) True maxDegreeQueryReadsHashing of
         Inl e \<Rightarrow> (Inl e, q)
       | Inr itr \<Rightarrow> (Inr (length (qe_itrs q)), q\<lparr>qe_itrs := qe_itrs q @ [itr]\<rparr>))"
    unfolding keeps_def using inv by (auto simp: sim_inv_def collectReadset_def itr)
  then show ?thesis
    unfolding qe_GetStateRangeScanIterator_def [abs_def] qe_GetStateRangeScanIteratorWithPagination_def by (intro keeps_then keeps_checkDone)
qed

lemma itr_inv_Next:
  assumes hs: "total_hash (tm_hashFunc mg) H" "total_ser (tm_serializeKVReads mg) S" and inv: "itr_inv content H S itr"
  shows "\<exists>r itr'. resultsItr_Next mg itr = Return (Inr r, itr') \<and> itr_inv content H S itr'"
proof -
  obtain info helper n where i: "ri_capture itr = Some (info, helper)" "rq_ReadsInfo info = NoReadsInfo"
    and R: "let R = ns_range (ri_ns itr) (content (ri_ns itr)) (rq_StartKey info) (ri_endKey itr)
        in n \<le> length R \<and> ri_dbItr itr = \<lparr>sc_items = drop n R, sc_error = None\<rparr> \<and>
           helper_at maxDegreeQueryReadsHashing H S (map to_read (take n R)) helper \<and>
           (if rq_ItrExhausted info then n = length R \<and> rq_EndKey info = ri_endKey itr
            else rq_EndKey info = (if n = 0 then '''' else vk_Key (R ! (n - 1))))"
    using inv unfolding itr_inv_def Let_def by blast
  define R where "R = ns_range (ri_ns itr) (content (ri_ns itr)) (rq_StartKey info) (ri_endKey itr)"
  have n: "n \<le> length R" "ri_dbItr itr = \<lparr>sc_items = drop n R, sc_error = None\<rparr>"
    "helper_at maxDegreeQueryReadsHashing H S (map to_read (take n R)) helper" "rq_ItrExhausted info \<longrightarrow> n = length R"
    using R unfolding R_def Let_def by (auto split: if_splits)
  show ?thesis
  proof (cases "n = length R")
    case True
    let ?itr = "itr\<lparr>ri_capture := Some (info\<lparr>rq_ItrExhausted := True, rq_EndKey := ri_endKey itr\<rparr>, helper)\<rparr>"
    have "resultsItr_Next mg itr = Return (Inr None, ?itr)"
      using True n(2) i(1) by (simp add: resultsItr_Next_def updateRangeQueryInfo_def kv_result_def ret_def)
    moreover have "itr_inv content H S ?itr"
      unfolding itr_inv_def
      by (rule exI [of _ "info\<lparr>rq_ItrExhausted := True, rq_EndKey := ri_endKey itr\<rparr>"], rule exI [of _ helper], rule exI [of _ n])
        (use True n i in \<open>simp add: R_def [symmetric]\<close>)
    ultimately show ?thesis by blast
  next
    case False
    then have lt: "n < length R" using n(1) by simp
    let ?x = "R ! n"
    obtain helper' where h: "AddResult (tm_hashFunc mg) (tm_serializeKVReads mg) (to_read ?x) helper = ret helper'"
      "helper_at maxDegreeQueryReadsHashing H S (map to_read (take n R) @ [to_read ?x]) helper'"
      using AddResult_at [OF hs n(3)] by blast
    let ?itr = "itr\<lparr>ri_dbItr := \<lparr>sc_items = drop (Suc n) R, sc_error = None\<rparr>, ri_capture := Some (info\<lparr>rq_EndKey := vk_Key ?x\<rparr>, helper')\<rparr>"
    have drop: "drop n R = ?x # drop (Suc n) R" using lt by (simp add: Cons_nth_drop_Suc)
    have "resultsItr_Next mg itr = Return (Inr (kv_result (Some ?x)), ?itr)"
      using n(2) i(1) h(1) drop by (simp add: resultsItr_Next_def updateRangeQueryInfo_def to_read_def ret_def)
    moreover have "itr_inv content H S ?itr"
      unfolding itr_inv_def
      by (rule exI [of _ "info\<lparr>rq_EndKey := vk_Key ?x\<rparr>"], rule exI [of _ helper'], rule exI [of _ "Suc n"])
        (use lt n(4) i h(2) in \<open>auto simp: R_def [symmetric] take_Suc_conv_app_nth\<close>)
    ultimately show ?thesis by blast
  qed
qed

lemma sim_inv_Next:
  assumes hs: "total_hash (tm_hashFunc mg) H" "total_ser (tm_serializeKVReads mg) S" and q: "sim_inv K ver content CH H S q"
    and i: "i < length (qe_itrs q)"
  shows "\<exists>r q'. qe_Next mg i q = Return (r, q') \<and> sim_inv K ver content CH H S q'"
proof -
  have "itr_inv content H S (qe_itrs q ! i)" using q i by (simp add: sim_inv_def)
  from itr_inv_Next [OF hs this] obtain r itr' where itr': "resultsItr_Next mg (qe_itrs q ! i) = Return (Inr r, itr')" "itr_inv content H S itr'"
    by blast
  then have "qe_Next mg i q = Return (Inr r, q\<lparr>qe_itrs := (qe_itrs q)[i := itr']\<rparr>)" using i by (simp add: qe_Next_def)
  moreover have "sim_inv K ver content CH H S (q\<lparr>qe_itrs := (qe_itrs q)[i := itr']\<rparr>)"
    using q itr'(2) by (auto simp: sim_inv_def dest!: set_update_subset_insert [THEN subsetD])
  ultimately show ?thesis by blast
qed

text \<open>
  The range that is recorded: from the start key to the last key that was returned, that key included, or
  to the end key of the query once the iterator is exhausted.
\<close>

lemma filter_take:
  "sorted_wrt (\<lambda>x y. vk_Key x < vk_Key y) xs \<Longrightarrow> j < length xs \<Longrightarrow>
     filter (\<lambda>x. vk_Key x < vk_Key (xs ! j)) (xs :: VersionedKV list) = take j xs"
proof (induction xs arbitrary: j)
  case (Cons x xs)
  show ?case
  proof (cases j)
    case 0
    have "\<not> vk_Key y < vk_Key x" if "y \<in> set xs" for y using Cons.prems(1) that by (simp add: order_less_not_sym)
    then show ?thesis using 0 by (simp add: filter_empty_conv)
  next
    case (Suc j')
    then have "xs ! j' \<in> set xs" using Cons.prems(2) by simp
    then have "vk_Key x < vk_Key (xs ! j')" using Cons.prems(1) by simp
    then show ?thesis using Cons Suc by simp
  qed
qed simp

lemma range_upto:
  assumes "in_range a b e" "e \<noteq> ''''"
  shows "ns_range ns m a e = filter (\<lambda>x. vk_Key x < e) (ns_range ns m a b)"
proof -
  have "in_range a e = (\<lambda>k. in_range a b k \<and> k < e)"
    using assms unfolding in_range_def by (intro ext) auto
  then have "filter (in_range a e) ks = filter (\<lambda>k. k < e) (filter (in_range a b) ks)" for ks
    by (simp add: filter_filter)
  then show ?thesis by (simp add: ns_range_def filter_map comp_def kv_item_def)
qed

lemma range_last:
  assumes "fmlookup m e = Some vv" "e \<noteq> ''''" "in_range a b e"
  shows "map result_entry (range_results ns m a e True) =
      map result_entry (filter (\<lambda>x. vk_Key x < e) (ns_range ns m a b)) @ [(e, vv_Version vv)]"
    "map to_read (range_results ns m a e True) =
      map to_read (filter (\<lambda>x. vk_Key x < e) (ns_range ns m a b)) @ [NewKVRead e (vv_Version vv)]"
  by (simp_all add: range_results_def assms(1) range_upto [OF assms(3,2)] to_read_def result_entry_def)

lemma range_prefix:
  assumes n: "n < length (ns_range ns m a b)" and e: "e = vk_Key (ns_range ns m a b ! n)" "e \<noteq> ''''"
  shows "map to_read (range_results ns m a e True) = map to_read (take (Suc n) (ns_range ns m a b))"
    "map result_entry (range_results ns m a e True) = map result_entry (take (Suc n) (ns_range ns m a b))"
proof -
  obtain vv where vv: "in_range a b e" "fmlookup m e = Some vv" "ns_range ns m a b ! n = kv_item ns m e"
    using iffD1 [OF set_ns_range, OF nth_mem [OF n]] unfolding e(1) by blast
  have val: "vk_Val (ns_range ns m a b ! n) = vv" by (simp only: vv(3) kv_item_def VersionedKV.simps vv(2) option.sel)
  have take: "take (Suc n) (ns_range ns m a b) = filter (\<lambda>x. vk_Key x < e) (ns_range ns m a b) @ [ns_range ns m a b ! n]"
    unfolding e(1) filter_take [OF ns_range_sorted n] by (rule take_Suc_conv_app_nth [OF n])
  show "map to_read (range_results ns m a e True) = map to_read (take (Suc n) (ns_range ns m a b))"
    "map result_entry (range_results ns m a e True) = map result_entry (take (Suc n) (ns_range ns m a b))"
    unfolding range_last [OF vv(2) e(2) vv(1)] take by (simp_all add: to_read_def result_entry_def val e(1) [symmetric])
qed

definition itr_read :: "resultsItr \<Rightarrow> bool" where
  "itr_read itr \<longleftrightarrow> (\<exists>info helper. ri_capture itr = Some (info, helper) \<and> (rq_ItrExhausted info \<or> rq_EndKey info \<noteq> ''''))"

lemma read_entry_to_read: "read_entry (to_read x) = result_entry x"
  by (cases "vv_Version (vk_Val x)") (simp_all add: read_entry_def to_read_def result_entry_def NewKVRead_def newProtoVersion_def)

lemma itr_query_matches:
  assumes hs: "total_hash (tm_hashFunc mg) H" "total_ser (tm_serializeKVReads mg) S"
    and inv: "itr_inv content H S itr" and read: "itr_read itr"
    and st: "\<And>ns k. st (ns, '''', k) = fmlookup (content ns) k"
  shows "\<exists>info helper results hash. ri_capture itr = Some (info, helper) \<and>
    Done (tm_hashFunc mg) (tm_serializeKVReads mg) helper = ret (results, hash) \<and>
    query_matches H S st (ri_ns itr) (let info = (if results \<noteq> [] then info\<lparr>rq_ReadsInfo := RawReads results\<rparr> else info)
      in case hash of None \<Rightarrow> info | Some h \<Rightarrow> info\<lparr>rq_ReadsInfo := MerkleHashes h\<rparr>)"
proof -
  let ?d = maxDegreeQueryReadsHashing
  obtain info helper n where i: "ri_capture itr = Some (info, helper)" "rq_ReadsInfo info = NoReadsInfo"
    and R: "let R = ns_range (ri_ns itr) (content (ri_ns itr)) (rq_StartKey info) (ri_endKey itr)
        in n \<le> length R \<and> helper_at maxDegreeQueryReadsHashing H S (map to_read (take n R)) helper \<and>
           (if rq_ItrExhausted info then n = length R \<and> rq_EndKey info = ri_endKey itr
            else rq_EndKey info = (if n = 0 then '''' else vk_Key (R ! (n - 1))))"
    using inv unfolding itr_inv_def Let_def by blast
  define R where "R = ns_range (ri_ns itr) (content (ri_ns itr)) (rq_StartKey info) (ri_endKey itr)"
  define rs where "rs = map to_read (take n R)"
  let ?res = "range_results (ri_ns itr) (content (ri_ns itr)) (rq_StartKey info) (rq_EndKey info) (\<not> rq_ItrExhausted info)"
  have n: "n \<le> length R" "helper_at ?d H S rs helper" using R unfolding R_def rs_def Let_def by auto
  have res: "map to_read ?res = rs" "map result_entry ?res = map read_entry rs"
  proof -
    have "map to_read ?res = map to_read (take n R) \<and> map result_entry ?res = map result_entry (take n R)"
    proof (cases "rq_ItrExhausted info")
      case True
      then show ?thesis using R by (simp add: Let_def R_def range_results_def)
    next
      case False
      then have e: "rq_EndKey info = (if n = 0 then '''' else vk_Key (R ! (n - 1)))" "rq_EndKey info \<noteq> ''''"
        using R read i(1) by (auto simp: Let_def R_def itr_read_def)
      then obtain n' where n': "n = Suc n'" "rq_EndKey info = vk_Key (R ! n')" by (cases n) auto
      then have "n' < length R" using n(1) by simp
      from range_prefix [OF this [unfolded R_def] n'(2) [unfolded R_def] e(2)] show ?thesis
        using False n'(1) unfolding R_def by simp
    qed
    then show "map to_read ?res = rs" "map result_entry ?res = map read_entry rs" by (simp_all add: rs_def read_entry_to_read)
  qed
  have match: "query_matches H S st (ri_ns itr) (info\<lparr>rq_ReadsInfo := ri\<rparr>)"
    if "case ri of MerkleHashes s \<Rightarrow> merkleSummariesEqual s (final_summary (ms_MaxDegree s) H S rs) | ri \<Rightarrow> map read_entry (GetKvReads ri) = map read_entry rs" for ri
    unfolding query_matches_def Let_def
    by (rule exI [of _ "content (ri_ns itr)"]) (use that res st in \<open>simp split: reads_info.splits\<close>)
  have dn: "Done (tm_hashFunc mg) (tm_serializeKVReads mg) helper =
      ret (if length rs \<le> unat ?d then (rs, None) else ([], Some (summary_of ?d H S rs)))"
    by (rule Done_at [OF hs n(2)])
  have deg: "ms_MaxDegree (summary_of ?d H S rs) = ?d" by (simp add: summary_of_def split: prod.split)
  have self: "merkleSummariesEqual s (Some s)" for s by (simp add: merkleSummariesEqual_def list_all2_refl)
  have info: "info = info\<lparr>rq_ReadsInfo := NoReadsInfo\<rparr>" using i(2) by simp
  show ?thesis
  proof (cases "length rs \<le> unat ?d")
    case True
    have "query_matches H S st (ri_ns itr) (if rs \<noteq> [] then info\<lparr>rq_ReadsInfo := RawReads rs\<rparr> else info)"
      using match [of "RawReads rs"] match [of NoReadsInfo] info by (simp add: GetKvReads_def)
    then show ?thesis using i(1) dn True by (simp add: Let_def)
  next
    case False
    then show ?thesis using i(1) dn match [of "MerkleHashes (summary_of ?d H S rs)"] deg self by (simp add: final_summary_def)
  qed
qed

section \<open>Simulations\<close>

definition matching_builder ::
  "string set \<Rightarrow> (bytes \<Rightarrow> bytes) \<Rightarrow> (KVRead list \<Rightarrow> bytes) \<Rightarrow> state \<Rightarrow> (bytes \<Rightarrow> bytes) \<Rightarrow> RWSetBuilder \<Rightarrow> bool" where
  "matching_builder K H S st CH b \<longleftrightarrow> builder_inv CH b \<and> named_colls b \<and> hashed_in K b \<and> builder_current (\<lambda>ck. version_of (st ck)) CH b \<and>
     (\<forall>ns qk q. o_query b ns qk = Some q \<longrightarrow> query_matches H S st ns q)"

definition same_writes :: "RWSetBuilder \<Rightarrow> RWSetBuilder \<Rightarrow> bool" where
  "same_writes b b' \<longleftrightarrow> o_write b' = o_write b \<and> o_md b' = o_md b \<and> o_hwrite b' = o_hwrite b \<and> o_hmd b' = o_hmd b"

lemma same_writes_query: "same_writes b (AddToRangeQuerySet ns q b)"
  by (auto simp: same_writes_def fun_eq_iff o_defs AddToRangeQuerySet_def builder_simps getOrCreateCollHashedRwBuilder_def Let_def
      split: option.splits)

lemma matching_builder_query:
  "matching_builder K H S st CH b \<Longrightarrow> query_matches H S st ns q \<Longrightarrow> matching_builder K H S st CH (AddToRangeQuerySet ns q b)"
  by (auto simp: matching_builder_def Add_inv Add_named hashed_in_Add builder_current_reads o_reads split: if_splits)

lemma add_infos_matching:
  assumes hs: "total_hash (tm_hashFunc mg) H" "total_ser (tm_serializeKVReads mg) S"
    and st: "\<And>ns k. st (ns, '''', k) = fmlookup (content ns) k"
  shows "\<forall>itr \<in> set itrs. itr_inv content H S itr \<and> itr_read itr \<Longrightarrow> qe_rwsetBuilder q = Some b \<Longrightarrow> matching_builder K H S st CH b \<Longrightarrow>
    \<exists>b'. add_infos mg itrs q = Return (q\<lparr>qe_rwsetBuilder := Some b'\<rparr>) \<and> matching_builder K H S st CH b' \<and> same_writes b b'"
proof (induction itrs arbitrary: q b)
  case Nil
  then show ?case by (intro exI [of _ b]) (simp add: same_writes_def)
next
  case (Cons itr itrs)
  from itr_query_matches [OF hs, of content itr st] Cons.prems(1) st
  obtain info helper results hash where i: "ri_capture itr = Some (info, helper)"
    "Done (tm_hashFunc mg) (tm_serializeKVReads mg) helper = ret (results, hash)"
    "query_matches H S st (ri_ns itr) (let info = (if results \<noteq> [] then info\<lparr>rq_ReadsInfo := RawReads results\<rparr> else info)
      in case hash of None \<Rightarrow> info | Some h \<Rightarrow> info\<lparr>rq_ReadsInfo := MerkleHashes h\<rparr>)" by auto
  define q1 where "q1 = (let info = (if results \<noteq> [] then info\<lparr>rq_ReadsInfo := RawReads results\<rparr> else info)
      in case hash of None \<Rightarrow> info | Some h \<Rightarrow> info\<lparr>rq_ReadsInfo := MerkleHashes h\<rparr>)"
  let ?b = "AddToRangeQuerySet (ri_ns itr) q1 b"
  have step: "add_infos mg (itr # itrs) q = add_infos mg itrs (q\<lparr>qe_rwsetBuilder := Some ?b\<rparr>)"
    using i(1,2) Cons.prems(2) by (simp add: q1_def Let_def ret_def record_in_def)
  have "matching_builder K H S st CH ?b" using matching_builder_query [OF Cons.prems(3)] i(3) by (simp add: q1_def)
  then have "\<exists>b'. add_infos mg itrs (q\<lparr>qe_rwsetBuilder := Some ?b\<rparr>) = Return (q\<lparr>qe_rwsetBuilder := Some ?b\<rparr>\<lparr>qe_rwsetBuilder := Some b'\<rparr>) \<and>
      matching_builder K H S st CH b' \<and> same_writes ?b b'"
    by (intro Cons.IH) (use Cons.prems(1) in simp_all)
  then obtain b' where "add_infos mg itrs (q\<lparr>qe_rwsetBuilder := Some ?b\<rparr>) = Return (q\<lparr>qe_rwsetBuilder := Some b'\<rparr>)"
    "matching_builder K H S st CH b'" "same_writes ?b b'" by auto
  then show ?case using step same_writes_query [of b "ri_ns itr" q1] by (auto simp: same_writes_def)
qed

text \<open>
  The calls a chaincode can make whose results a validator checks; a deletion is a write of the empty value,
  a write of several keys is several writes.  A chaincode sees the results and errors of the calls; here any
  sequence of calls is allowed, whatever their results are.
\<close>

datatype sim_op =
    DoGet string string | DoGetMetadata string string | DoGetMultiple string "string list"
  | DoScan string string string | DoNext nat
  | DoGetPvt string string string | DoGetPvtHash string string string | DoGetPvtMetadata string string string
  | DoScanPvt string string string string
  | DoSet string string bytes | DoSetMetadata string string "(string, bytes) fmap"
  | DoSetPvt string string string bytes | DoPurgePvt string string string
  | DoSetPvtMetadata string string string "(string, bytes) fmap" | DoDone

fun sim_step :: "txmgr \<Rightarrow> sim_op \<Rightarrow> tx_simulator \<Rightarrow> tx_simulator go" where
  "sim_step mg (DoGet ns key) s = Return (snd (qe_GetState mg ns key s))"
| "sim_step mg (DoGetMetadata ns key) s = Return (snd (qe_GetStateMetadata mg ns key s))"
| "sim_step mg (DoGetMultiple ns keys) s = Return (snd (qe_GetStateMultipleKeys mg ns keys s))"
| "sim_step mg (DoScan ns a b) s = Return (snd (qe_GetStateRangeScanIterator mg ns a b s))"
| "sim_step mg (DoNext i) s = go_bind (qe_Next mg i s) (\<lambda>(_, s). Return s)"
| "sim_step mg (DoGetPvt ns coll key) s = Return (snd (qe_GetPrivateData mg ns coll key s))"
| "sim_step mg (DoGetPvtHash ns coll key) s = Return (snd (qe_GetPrivateDataHash mg ns coll key s))"
| "sim_step mg (DoGetPvtMetadata ns coll key) s = Return (snd (qe_GetPrivateDataMetadata mg ns coll key s))"
| "sim_step mg (DoScanPvt ns coll a b) s = Return (snd (ts_GetPrivateDataRangeScanIterator mg ns coll a b s))"
| "sim_step mg (DoSet ns key val) s = Return (snd (SetState mg ns key val s))"
| "sim_step mg (DoSetMetadata ns key md) s = Return (snd (SetStateMetadata mg ns key md s))"
| "sim_step mg (DoSetPvt ns coll key val) s = Return (snd (SetPrivateData mg ns coll key val s))"
| "sim_step mg (DoPurgePvt ns coll key) s = Return (snd (PurgePrivateData mg ns coll key s))"
| "sim_step mg (DoSetPvtMetadata ns coll key md) s = Return (snd (SetPrivateDataMetadata mg ns coll key md s))"
| "sim_step mg DoDone s = Return (qe_Done s)"

fun sim_run :: "txmgr \<Rightarrow> sim_op list \<Rightarrow> tx_simulator \<Rightarrow> tx_simulator go" where
  "sim_run mg [] s = Return s"
| "sim_run mg (op # ops) s = go_bind (sim_step mg op s) (sim_run mg ops)"

text \<open>Namespaces have valid names and collections have names; the private keys that are written are among \<open>K\<close>.\<close>

fun op_ok :: "string set \<Rightarrow> (string \<Rightarrow> bool) \<Rightarrow> sim_op \<Rightarrow> bool" where
  "op_ok K valid_ns (DoGet ns key) \<longleftrightarrow> valid_ns ns"
| "op_ok K valid_ns (DoGetMetadata ns key) \<longleftrightarrow> valid_ns ns"
| "op_ok K valid_ns (DoGetMultiple ns keys) \<longleftrightarrow> valid_ns ns"
| "op_ok K valid_ns (DoScan ns a b) \<longleftrightarrow> valid_ns ns"
| "op_ok K valid_ns (DoGetPvt ns coll key) \<longleftrightarrow> coll \<noteq> '''' \<and> valid_ns (deriveHashedDataNs ns coll)"
| "op_ok K valid_ns (DoGetPvtHash ns coll key) \<longleftrightarrow> coll \<noteq> '''' \<and> valid_ns (deriveHashedDataNs ns coll)"
| "op_ok K valid_ns (DoGetPvtMetadata ns coll key) \<longleftrightarrow> coll \<noteq> '''' \<and> valid_ns (deriveHashedDataNs ns coll)"
| "op_ok K valid_ns (DoSetPvt ns coll key val) \<longleftrightarrow> coll \<noteq> '''' \<and> key \<in> K"
| "op_ok K valid_ns (DoPurgePvt ns coll key) \<longleftrightarrow> coll \<noteq> '''' \<and> key \<in> K"
| "op_ok K valid_ns (DoSetPvtMetadata ns coll key md) \<longleftrightarrow> coll \<noteq> '''' \<and> key \<in> K"
| "op_ok K valid_ns _ \<longleftrightarrow> True"

lemma keepsD: "keeps P c \<Longrightarrow> P q \<Longrightarrow> P (snd (c q))"
  by (simp add: keeps_def)

lemma sim_step_inv:
  assumes v: "db_versions mg valid_ns ver" "db_scans mg valid_ns content"
    and hs: "total_hash (tm_hashFunc mg) H" "total_ser (tm_serializeKVReads mg) S"
    and op: "op_ok K valid_ns op" and s: "sim_inv K ver content (tm_ComputeHash mg) H S s" and step: "sim_step mg op s = Return s'"
  shows "sim_inv K ver content (tm_ComputeHash mg) H S s'"
proof -
  let ?I = "sim_inv K ver content (tm_ComputeHash mg) H S :: tx_simulator \<Rightarrow> bool"

  show ?thesis
  proof (cases op)
    case (DoNext i)
    then have "i < length (qe_itrs s)" using step by (auto simp: qe_Next_def go_index_def split: if_splits)
    from sim_inv_Next [OF hs s this] show ?thesis using DoNext step by auto
  next
    case (DoScanPvt ns coll a b)
    have "keeps ?I (ts_GetPrivateDataRangeScanIterator mg ns coll a b)"
      unfolding ts_GetPrivateDataRangeScanIterator_def [abs_def] qe_GetPrivateDataRangeScanIterator_def [abs_def]
      by (intro keeps_then keeps_fields keeps_give keeps_check_coll [OF v(1)])
    from keepsD [OF this s] show ?thesis using step DoScanPvt by simp
  next
    case DoDone
    then show ?thesis using step s by (auto simp: qe_Done_def split: if_splits)
  qed (use op step s in \<open>auto intro!: keepsD [OF keeps_GetState [OF v(1)]] keepsD [OF keeps_GetStateMetadata [OF v(1)]]
      keepsD [OF keeps_GetStateMultipleKeys [OF v(1)]] keepsD [OF keeps_scan [OF v(2)]] keepsD [OF keeps_GetPrivateData [OF v(1)]]
      keepsD [OF keeps_GetPrivateDataHash(1) [OF v(1)]] keepsD [OF keeps_GetPrivateDataMetadata [OF v(1)]]
      keeps_writes [OF v(1), THEN keepsD]\<close>)
qed

text \<open>No call but the last one takes the results.\<close>

definition awaits_results :: "tx_simulator \<Rightarrow> bool" where
  "awaits_results s \<longleftrightarrow> \<not> ts_simulationResultsComputed s"

lemma awaits_fields [simp]:
  "awaits_results (record_in f s) = awaits_results s"
  "awaits_results (s\<lparr>qe_itrs := itrs\<rparr>) = awaits_results s"
  "awaits_results (s\<lparr>qe_cache := c\<rparr>) = awaits_results s"
  "awaits_results (s\<lparr>qe_privateReads := pr\<rparr>) = awaits_results s"
  "awaits_results (s\<lparr>qe_doneInvoked := d\<rparr>) = awaits_results s"
  "awaits_results (s\<lparr>ts_writePerformed := w\<rparr>) = awaits_results s"
  "awaits_results (s\<lparr>ts_pvtdataQueriesPerformed := w\<rparr>) = awaits_results s"
  "awaits_results (s\<lparr>ts_writesetMetadata := m\<rparr>) = awaits_results s"
  by (simp_all add: awaits_results_def record_in_def)

lemma awaits_fold [simp]: "awaits_results (fold (\<lambda>(key, vv). record_in (f key vv)) xs s) = awaits_results s"
proof (induction xs arbitrary: s)
  case (Cons x xs)
  then show ?case by (cases x) simp
qed simp

lemma awaits_then:
  "awaits_results (snd c) \<Longrightarrow> (\<And>x s. awaits_results s \<Longrightarrow> awaits_results (snd (f x s))) \<Longrightarrow> awaits_results (snd (then_do c f))"
  by (auto simp: then_do_def split: prod.splits sum.splits)

lemma awaits_checks [simp]:
  "snd (give r q) = q" "snd (checkDone q) = q" "snd (checkPvtdataQueryPerformed s) = s" "snd (checkPaginatedQueryPerformed s) = s"
  "awaits_results (snd (checkBeforePvtdataQueries s)) = awaits_results s"
  by (simp_all add: give_def checkDone_def checkPvtdataQueryPerformed_def checkPaginatedQueryPerformed_def checkBeforePvtdataQueries_def)

named_theorems awaits \<open>calls that do not take the results\<close>

lemma awaits_getState [awaits]: "awaits_results s \<Longrightarrow> awaits_results (snd (getState mg ns key s))"
  unfolding getState_def by (rule awaits_then) (simp_all split: sum.split prod.split)

lemma awaits_provider_reads [awaits]: "awaits_results s \<Longrightarrow> awaits_results (snd (provider_reads mg keys s))"
  by (induction mg keys s rule: provider_reads.induct) (auto intro!: awaits_then awaits_getState)

lemma awaits_validateCollName [awaits]: "awaits_results s \<Longrightarrow> awaits_results (snd (validateCollName mg ns coll s))"
  unfolding validateCollName_def retrieveCollConfigFromStateDB_def
  by (cases "qe_noop s"; simp) (intro conjI impI; rule awaits_then; simp add: awaits_then awaits)+

lemma awaits_check_coll [awaits]: "awaits_results s \<Longrightarrow> awaits_results (snd (check_coll mg ns coll s))"
  unfolding check_coll_def by (rule awaits_then) (simp_all add: awaits)

lemma awaits_reads [awaits]:
  assumes "awaits_results s"
  shows "awaits_results (snd (qe_GetState mg ns key s))" "awaits_results (snd (qe_GetStateMultipleKeys mg ns keys s))"
    "awaits_results (snd (qe_GetStateRangeScanIterator mg ns key key' s))"
    "awaits_results (snd (ts_GetPrivateDataRangeScanIterator mg ns coll key key' s))"
  unfolding qe_GetState_def qe_GetStateMultipleKeys_def qe_GetStateRangeScanIterator_def
    qe_GetStateRangeScanIteratorWithPagination_def ts_GetPrivateDataRangeScanIterator_def qe_GetPrivateDataRangeScanIterator_def
  by (rule awaits_then; simp add: assms awaits awaits_then split: sum.split prod.split)+

lemma awaits_GetStateMetadata [awaits]: "awaits_results s \<Longrightarrow> awaits_results (snd (qe_GetStateMetadata mg ns key s))"
  unfolding qe_GetStateMetadata_def
  by (intro awaits_then) (simp_all add: awaits awaits_then split: prod.split)

lemma awaits_pvt_reads [awaits]:
  assumes "awaits_results s"
  shows "awaits_results (snd (qe_GetPrivateData mg ns coll key s))" "awaits_results (snd (qe_GetPrivateDataHash mg ns coll key s))"
    "awaits_results (snd (getPrivateDataValueHash mg ns coll key s))"
  unfolding qe_GetPrivateData_def qe_GetPrivateDataHash_def getPrivateDataValueHash_def
  by ((rule awaits_then, simp add: assms awaits)+, simp add: assms awaits awaits_then split: prod.split)+

lemma awaits_GetPrivateDataMetadata [awaits]:
  "awaits_results s \<Longrightarrow> awaits_results (snd (qe_GetPrivateDataMetadata mg ns coll key s))"
  unfolding qe_GetPrivateDataMetadata_def getPrivateDataMetadataByHash_def
  by (cases "collectReadset s"; simp; rule awaits_then; simp add: awaits awaits_then split: prod.split)

lemma awaits_write_checks [awaits]:
  assumes "awaits_results s"
  shows "awaits_results (snd (checkWritePrecondition mg key val s))" "awaits_results (snd (checkStateMetadata mg ns key s))"
    "awaits_results (snd (checkPrivateStateMetadata mg ns coll key s))"
  unfolding checkWritePrecondition_def checkStateMetadata_def checkPrivateStateMetadata_def
  by (intro awaits_then; simp add: assms)+

lemma awaits_writes [awaits]:
  assumes "awaits_results s"
  shows "awaits_results (snd (SetState mg ns key val s))" "awaits_results (snd (SetStateMetadata mg ns key md s))"
    "awaits_results (snd (SetPrivateData mg ns coll key val s))" "awaits_results (snd (PurgePrivateData mg ns coll key s))"
    "awaits_results (snd (SetPrivateDataMetadata mg ns coll key md s))"
  unfolding SetState_def SetStateMetadata_def SetPrivateData_def PurgePrivateData_def SetPrivateDataMetadata_def
  by (intro awaits_then; simp add: assms awaits)+

lemma sim_step_awaits: "sim_step mg op s = Return s' \<Longrightarrow> awaits_results s \<Longrightarrow> awaits_results s'"
  by (cases op) (auto simp: awaits qe_Next_def qe_Done_def go_bind_Return_iff split: if_splits)

lemma sim_inv_new: "sim_inv K ver content CH H S (newTxSimulator txid)" "awaits_results (newTxSimulator txid)"
  using good_builder_new by (simp_all add: sim_inv_def newTxSimulator_def newQueryExecutor_def queryExecutor.defs awaits_results_def)

lemma sim_run_inv:
  assumes v: "db_versions mg valid_ns ver" "db_scans mg valid_ns content"
    and hs: "total_hash (tm_hashFunc mg) H" "total_ser (tm_serializeKVReads mg) S"
  shows "\<forall>op \<in> set ops. op_ok K valid_ns op \<Longrightarrow> sim_inv K ver content (tm_ComputeHash mg) H S s \<Longrightarrow> awaits_results s \<Longrightarrow>
    sim_run mg ops s = Return s' \<Longrightarrow> sim_inv K ver content (tm_ComputeHash mg) H S s' \<and> awaits_results s'"
proof (induction ops arbitrary: s)
  case (Cons op ops)
  then obtain s1 where s1: "sim_step mg op s = Return s1" "sim_run mg ops s1 = Return s'" by (auto simp: go_bind_Return_iff)
  from sim_step_inv [OF v hs _ Cons.prems(2) s1(1)] sim_step_awaits [OF s1(1) Cons.prems(3)] Cons.IH [OF _ _ _ s1(2)] Cons.prems(1)
  show ?case by simp
qed simp

text \<open>The results of a simulation that satisfies the invariant and has read its iterators.\<close>

lemma results_matching:
  assumes hs: "total_hash (tm_hashFunc mg) H" "total_ser (tm_serializeKVReads mg) S"
    and cd: "rwset_faithful (tm_codec mg)" and CH: "\<forall>x. tm_ComputeHash mg x \<noteq> []"
    and st: "\<And>ns k. st (ns, '''', k) = fmlookup (content ns) k"
    and s: "sim_inv K (\<lambda>ck. version_of (st ck)) content (tm_ComputeHash mg) H S s" "awaits_results s"
    and read: "\<forall>itr \<in> set (qe_itrs s). itr_read itr"
  shows "\<exists>res s' b'. ts_GetTxSimulationResults mg s = Return (Inr res, s') \<and>
    TxRwSetFromProtoMsg (tm_codec mg) (sr_Pub res) = Inr (GetTxReadWriteSet b') \<and> matching_builder K H S st (tm_ComputeHash mg) b'"
proof -
  let ?CH = "tm_ComputeHash mg" and ?s = "s\<lparr>ts_simulationResultsComputed := True\<rparr>"
  obtain b where b: "qe_rwsetBuilder s = Some b" "good_builder K (\<lambda>ck. version_of (st ck)) ?CH b" using s(1) by (auto simp: sim_inv_def)
  have "matching_builder K H S st ?CH b" using b(2) by (auto simp: matching_builder_def good_builder_def)
  from add_infos_matching [OF hs st, of "qe_itrs s" ?s b K ?CH] this read s(1) b(1)
  obtain b1 where b1: "add_infos mg (qe_itrs s) ?s = Return (?s\<lparr>qe_rwsetBuilder := Some b1\<rparr>)" "matching_builder K H S st ?CH b1"
    by (auto simp: sim_inv_def)
  from builder_results [OF cd _ _ CH, of b1] b1(2) obtain res b2 where
    b2: "builder_GetTxSimulationResults (tm_codec mg) ?CH b1 = Inr (res, b2)" "builder_inv ?CH b2" "named_colls b2" "same_entries b1 b2"
      "TxRwSetFromProtoMsg (tm_codec mg) (sr_Pub res) = Inr (GetTxReadWriteSet b2)"
    unfolding matching_builder_def by blast
  have "matching_builder K H S st ?CH b2"
    using b1(2) b2(2-4) unfolding matching_builder_def same_entries_def builder_current_def hashed_in_def by simp
  moreover have "ts_GetTxSimulationResults mg s =
      Return (Inr (res\<lparr>sr_PrivateReads := qe_privateReads s, sr_WritesetMetadata := ts_writesetMetadata s\<rparr>), ?s\<lparr>qe_rwsetBuilder := Some b2\<rparr>)"
    using s b(1) b1(1) b2(1)
    by (simp add: ts_GetTxSimulationResults_def awaits_results_def addRangeQueryInfo_def collectReadset_def sim_inv_def)
  ultimately show ?thesis using b2(5) by force
qed


text \<open>A database over given maps, without metadata.\<close>

definition table_db :: "(string \<Rightarrow> nsUpdates) \<Rightarrow> DB" where
  "table_db m =
     \<lparr>pd_db = \<lparr>vd_GetState = (\<lambda>ns key. Inr (fmlookup (m ns) key)), vd_GetVersion = (\<lambda>ns key. Inr (version_of (fmlookup (m ns) key))),
        vd_GetStateMultipleKeys = (\<lambda>ns keys. Inr (map (fmlookup (m ns)) keys)),
        vd_Scan = (\<lambda>ns a b. Inr \<lparr>sc_items = ns_range ns (m ns) a b, sc_error = None\<rparr>),
        vd_ScanPage = (\<lambda>ns a b n. Inl ''unsupported''), vd_ExecuteQuery = (\<lambda>ns query page. Inl ''unsupported''),
        vd_ValidateKeyValue = (\<lambda>key val. None), vd_BytesKeySupported = True, vd_LoadCommittedVersions = None\<rparr>,
      pd_metadataHint = \<lparr>mh_cache = \<lambda>_. False\<rparr>\<rparr>"

lemma table_privacy_db:
  assumes "\<And>ns key vv. fmlookup (m ns) key = Some vv \<Longrightarrow> vv_Value vv \<noteq> None \<and> vv_Metadata vv = None"
  shows "privacy_db (table_db m) m (\<lambda>_. True)"
  using assms by unfold_locales (auto simp: table_db_def)

definition small_content :: "string \<Rightarrow> nsUpdates" where
  "small_content ns =
     (if ns = ''cc'' then fmap_of_list [(''a'', \<lparr>vv_Value = Some ''1'', vv_Metadata = None, vv_Version = Some (Height 1 0)\<rparr>),
                                        (''b'', \<lparr>vv_Value = Some ''2'', vv_Metadata = None, vv_Version = Some (Height 2 3)\<rparr>)]
      else fmempty)"

definition small_mgr :: txmgr where
  "small_mgr = \<lparr>tm_db = table_db small_content, tm_ccInfo = (\<lambda>ns. ([(''lscc'', ns)], Inr (Some [Some ''coll'']))),
     tm_hashFunc = Inr, tm_serializeKVReads = (\<lambda>rs. Inr (concat (map kr_Key rs))), tm_ComputeHash = (\<lambda>x. ''h'' @ x),
     tm_Deserialize = (\<lambda>_. Inr fmempty), tm_codec = wire\<rparr>"

definition small_ops :: "sim_op list" where
  "small_ops = [DoGet ''cc'' ''a'', DoScan ''cc'' ''a'' '''', DoNext 0, DoNext 0, DoNext 0, DoGetPvtHash ''cc'' ''coll'' ''k'',
     DoSet ''cc'' ''a'' ''3'', DoSetPvt ''cc'' ''coll'' ''k'' ''v'', DoSet ''cc'' ''a'' ''4'']"

lemma small_range: "ns_range ''cc'' (small_content ''cc'') ''a'' '''' =
   [\<lparr>vk_Namespace = ''cc'', vk_Key = ''a'', vk_Val = \<lparr>vv_Value = Some ''1'', vv_Metadata = None, vv_Version = Some (Height 1 0)\<rparr>\<rparr>,
    \<lparr>vk_Namespace = ''cc'', vk_Key = ''b'', vk_Val = \<lparr>vv_Value = Some ''2'', vv_Metadata = None, vv_Version = Some (Height 2 3)\<rparr>\<rparr>]"
  by code_simp

lemma small_calls:
  "vd_GetState (pd_db (tm_db small_mgr)) ns key = Inr (fmlookup (small_content ns) key)"
  "vd_Scan (pd_db (tm_db small_mgr)) ns a b = Inr \<lparr>sc_items = ns_range ns (small_content ns) a b, sc_error = None\<rparr>"
  "vd_ValidateKeyValue (pd_db (tm_db small_mgr)) key val = None"
  "Privacy_DB.GetStateMetadata (tm_db small_mgr) ns key = Inr None"
  "GetPrivateDataMetadataByHash (tm_db small_mgr) ns coll kh = Inr None"
  "GetPrivateDataHash CH (tm_db small_mgr) ns coll key = Inr (fmlookup (small_content (deriveHashedDataNs ns coll)) (CH key))"
  "tm_Deserialize small_mgr md = Inr fmempty" "tm_ccInfo small_mgr ns = ([(''lscc'', ns)], Inr (Some [Some ''coll'']))"
  by (simp_all add: small_mgr_def table_db_def Privacy_DB.GetStateMetadata_def GetPrivateDataMetadataByHash_def metadataEverUsedFor_def
      GetPrivateDataHash_def GetValueHash_def key_str_def)

lemma small_run: "case sim_run small_mgr small_ops (newTxSimulator ''t'') of
     Panic \<Rightarrow> False
   | Return s \<Rightarrow> list_all (\<lambda>itr. case ri_capture itr of None \<Rightarrow> False | Some (info, helper) \<Rightarrow> rq_ItrExhausted info) (qe_itrs s)"
  by (simp add: small_ops_def newTxSimulator_def newQueryExecutor_def queryExecutor.defs qe_GetState_def getState_def then_do_def checkDone_def give_def
    record_in_def split_beta small_calls collectReadset_def qe_GetStateRangeScanIterator_def qe_GetStateRangeScanIteratorWithPagination_def
    newResultsItr_def bind_err_def small_range NewRangeQueryResultsHelper_def newMerkleTree_def maxDegreeQueryReadsHashing_def
    qe_Next_def go_index_def resultsItr_Next_def updateRangeQueryInfo_def AddResult_def res_bind_def ret_def
    qe_GetPrivateDataHash_def check_coll_def validateCollName_def isPopulatedFor_def retrieveCollConfigFromStateDB_def populate_def
    containsCollName_def map_filter_simps
    SetState_def checkWritePrecondition_def checkPvtdataQueryPerformed_def checkPaginatedQueryPerformed_def checkStateMetadata_def
    SetPrivateData_def checkPrivateStateMetadata_def)


end
