(* ===== verification/Block_Commit.thy ===== *)
theory Block_Commit
  imports Mvcc Level_State
begin

text \<open>
  The commit of a block to the state database: the updates of the validation and the private data are put
  into one batch (\<open>ApplyPrivacyAwareUpdates\<close> of \<^verbatim>\<open>db.go\<close>) and applied to LevelDB.  The lemmas show that the three
  kinds of updates do not interfere in the batch, and that the database after the commit holds the state of
  the serial execution of the block and satisfies the assumptions under which the next block is validated.
\<close>

section \<open>The three kinds of updates in one batch\<close>

text \<open>Deletions need no version, all other entries have one.\<close>

definition versioned :: "VersionedValue \<Rightarrow> bool" where
  "versioned vv \<longleftrightarrow> IsDelete vv \<or> vv_Version vv \<noteq> None"

definition map_wf :: "(string \<Rightarrow> string \<Rightarrow> string) \<Rightarrow> UpdateMap \<Rightarrow> bool" where
  "map_wf derive b \<longleftrightarrow>
     (\<forall>ns coll key vv. um_Get b ns coll key = Some vv \<longrightarrow> plain_ns ns \<and> NUL \<notin> set (derive ns coll) \<and> versioned vv)"

definition batch_wf :: "PrivacyUpdateBatch \<Rightarrow> bool" where
  "batch_wf updates \<longleftrightarrow>
     (\<forall>ns key vv. ub_Get (pub_updates updates) ns key = Some vv \<longrightarrow> plain_ns ns \<and> NUL \<notin> set ns \<and> versioned vv) \<and>
     map_wf deriveHashedDataNs (hash_updates updates) \<and> map_wf derivePvtDataNs (pvt_updates updates)"

definition combined :: "um_visit \<Rightarrow> um_visit \<Rightarrow> PrivacyUpdateBatch \<Rightarrow> UpdateBatch" where
  "combined hord pord updates =
     addHashedUpdates hord False (hash_updates updates) (addPvtUpdates pord (pvt_updates updates) (pub_updates updates))"

abbreviation derived :: "(string \<Rightarrow> string \<Rightarrow> string) \<Rightarrow> string \<times> string \<times> string \<Rightarrow> string \<times> string" where
  "derived derive \<equiv> \<lambda>(ns, coll, key). (derive ns coll, key)"

lemma add_updates_eq:
  "addPvtUpdates ord p b = pub.write_mapped (derived derivePvtDataNs) (\<lambda>(ns, coll, key). um_Get p ns coll key) ord b"
  "addHashedUpdates ord False p b = pub.write_mapped (derived deriveHashedDataNs) (\<lambda>(ns, coll, key). um_Get p ns coll key) ord b"
  unfolding addPvtUpdates_def addHashedUpdates_def pub.write_mapped_def
  by (rule arg_cong [where f = "\<lambda>g. fold g ord b"]; auto simp: fun_eq_iff split: option.split)+

lemma ub_Get_mapped_other:
  assumes "um_visits ord p" "\<And>ns' coll' vv. um_Get p ns' coll' key = Some vv \<Longrightarrow> derive ns' coll' \<noteq> ns"
  shows "ub_Get (pub.write_mapped (derived derive) (\<lambda>(ns, coll, key). um_Get p ns coll key) ord b) ns key = ub_Get b ns key"
  using pub.get_write_mapped_other [of ord "\<lambda>(ns, coll, key). um_Get p ns coll key" "derived derive" "(ns, key)" b] assms
  by (fastforce simp: um_visits_def)

lemma ub_Get_mapped:
  assumes ord: "um_visits ord p" and wf: "map_wf derive p"
    and inj: "\<And>ns coll ns' coll'. plain_ns ns \<Longrightarrow> plain_ns ns' \<Longrightarrow> derive ns coll = derive ns' coll' \<Longrightarrow> ns = ns' \<and> coll = coll'"
    and ns: "plain_ns ns"
  shows "ub_Get (pub.write_mapped (derived derive) (\<lambda>(ns, coll, key). um_Get p ns coll key) ord b) (derive ns coll) key =
    (case um_Get p ns coll key of None \<Rightarrow> ub_Get b (derive ns coll) key | Some vv \<Rightarrow> Some vv)"
proof (cases "um_Get p ns coll key")
  case None
  have "derive ns' coll' \<noteq> derive ns coll" if "um_Get p ns' coll' key = Some vv" for ns' coll' vv
    using that inj [of ns' ns coll' coll] wf ns None by (auto simp: map_wf_def)
  from ub_Get_mapped_other [OF ord this] show ?thesis using None by simp
next
  case (Some vv)
  have "inj_on (derived derive) (set ord)"
    using ord wf inj unfolding inj_on_def um_visits_def map_wf_def by auto blast+
  moreover have "(ns, coll, key) \<in> set ord" using ord Some by (simp add: um_visits_def)
  ultimately show ?thesis using pub.get_write_mapped [of "derived derive" ord "(ns, coll, key)" _ vv b] Some by simp
qed

lemma ub_Get_combined:
  assumes wf: "batch_wf updates" and ord: "um_visits hord (hash_updates updates)" "um_visits pord (pvt_updates updates)"
    and ns: "plain_ns ns"
  shows "ub_Get (combined hord pord updates) ns key = ub_Get (pub_updates updates) ns key"
    "ub_Get (combined hord pord updates) (deriveHashedDataNs ns coll) key = um_Get (hash_updates updates) ns coll key"
    "ub_Get (combined hord pord updates) (derivePvtDataNs ns coll) key = um_Get (pvt_updates updates) ns coll key"
proof -
  note d = derived_ns_disjoint
  have pub: "ub_Get (pub_updates updates) (deriveHashedDataNs ns coll) key = None"
    "ub_Get (pub_updates updates) (derivePvtDataNs ns coll) key = None"
    using wf d(2,3) unfolding batch_wf_def by (metis option.exhaust)+
  have plain: "plain_ns ns'" if "um_Get (hash_updates updates) ns' coll' k = Some vv \<or> um_Get (pvt_updates updates) ns' coll' k = Some vv" for ns' coll' k vv
    using wf that by (auto simp: batch_wf_def map_wf_def)
  have wfs: "map_wf deriveHashedDataNs (hash_updates updates)" "map_wf derivePvtDataNs (pvt_updates updates)" using wf by (simp_all add: batch_wf_def)
  let ?p = "addPvtUpdates pord (pvt_updates updates) (pub_updates updates)"
  have p1: "ub_Get ?p ns key = ub_Get (pub_updates updates) ns key"
    unfolding add_updates_eq by (rule ub_Get_mapped_other [OF ord(2)]) (use d(3) [OF ns] in metis)
  have p2: "ub_Get ?p (deriveHashedDataNs ns coll) key = None"
    unfolding add_updates_eq pub(1) [symmetric] by (rule ub_Get_mapped_other [OF ord(2)]) (use d(1) ns plain in blast)
  have p3: "ub_Get ?p (derivePvtDataNs ns coll) key = um_Get (pvt_updates updates) ns coll key"
    using ub_Get_mapped [OF ord(2) wfs(2) iffD1 [OF derivePvtDataNs_inj] ns, of "pub_updates updates" coll key] pub(2)
    unfolding add_updates_eq by (cases "um_Get (pvt_updates updates) ns coll key") (simp_all only: option.case)
  show "ub_Get (combined hord pord updates) ns key = ub_Get (pub_updates updates) ns key"
    unfolding combined_def add_updates_eq(2) p1 [symmetric] by (rule ub_Get_mapped_other [OF ord(1)]) (use d(2) [OF ns] in metis)
  show "ub_Get (combined hord pord updates) (deriveHashedDataNs ns coll) key = um_Get (hash_updates updates) ns coll key"
    using ub_Get_mapped [OF ord(1) wfs(1) iffD1 [OF deriveHashedDataNs_inj] ns, of ?p coll key] p2
    unfolding combined_def add_updates_eq(2) by (cases "um_Get (hash_updates updates) ns coll key") (simp_all only: option.case)
  show "ub_Get (combined hord pord updates) (derivePvtDataNs ns coll) key = um_Get (pvt_updates updates) ns coll key"
    unfolding combined_def add_updates_eq(2) p3 [symmetric] by (rule ub_Get_mapped_other [OF ord(1)]) (use d(1) ns plain in metis)
qed

lemma combined_cases:
  assumes wf: "batch_wf updates" and ord: "um_visits hord (hash_updates updates)" "um_visits pord (pvt_updates updates)"
    and get: "ub_Get (combined hord pord updates) n key = Some vv"
  obtains "plain_ns n" "ub_Get (pub_updates updates) n key = Some vv"
  | ns coll where "plain_ns ns" "n = deriveHashedDataNs ns coll" "um_Get (hash_updates updates) ns coll key = Some vv"
  | ns coll where "plain_ns ns" "n = derivePvtDataNs ns coll" "um_Get (pvt_updates updates) ns coll key = Some vv"
proof (cases "\<exists>ns coll v. n = deriveHashedDataNs ns coll \<and> um_Get (hash_updates updates) ns coll key = Some v")
  case True
  then obtain ns coll v where n: "n = deriveHashedDataNs ns coll" "um_Get (hash_updates updates) ns coll key = Some v" by blast
  have "plain_ns ns" using wf n(2) by (auto simp: batch_wf_def map_wf_def)
  then show ?thesis using that(2) [of ns coll] n ub_Get_combined(2) [OF wf ord] get by simp
next
  case False
  let ?p = "addPvtUpdates pord (pvt_updates updates) (pub_updates updates)"
  have "ub_Get (combined hord pord updates) n key = ub_Get ?p n key"
    unfolding combined_def add_updates_eq(2) by (rule ub_Get_mapped_other [OF ord(1)]) (use False in blast)
  then have p: "ub_Get ?p n key = Some vv" using get by simp
  show ?thesis
  proof (cases "\<exists>ns coll v. n = derivePvtDataNs ns coll \<and> um_Get (pvt_updates updates) ns coll key = Some v")
    case True
    then obtain ns coll v where n: "n = derivePvtDataNs ns coll" "um_Get (pvt_updates updates) ns coll key = Some v" by blast
    have "plain_ns ns" using wf n(2) by (auto simp: batch_wf_def map_wf_def)
    then show ?thesis using that(3) [of ns coll] n ub_Get_combined(3) [OF wf ord] get by simp
  next
    case False
    have "ub_Get ?p n key = ub_Get (pub_updates updates) n key"
      unfolding add_updates_eq(1) by (rule ub_Get_mapped_other [OF ord(2)]) (use False in blast)
    then have "ub_Get (pub_updates updates) n key = Some vv" using p by simp
    then show ?thesis using that(1) wf unfolding batch_wf_def by blast
  qed
qed

lemma combined_ok:
  assumes "batch_wf updates" "um_visits hord (hash_updates updates)" "um_visits pord (pvt_updates updates)"
  shows "batch_ok (combined hord pord updates)"
  unfolding batch_ok_def
proof (intro allI impI)
  fix n key vv assume "ub_Get (combined hord pord updates) n key = Some vv"
  from combined_cases [OF assms this] show "NUL \<notin> set n \<and> (IsDelete vv \<or> vv_Version vv \<noteq> None)"
    by cases (use assms(1) in \<open>auto simp: batch_wf_def map_wf_def versioned_def\<close>)
qed

section \<open>Applying the batch\<close>

text \<open>What a batch makes of an entry of the database.\<close>

definition overwrite :: "VersionedValue option \<Rightarrow> VersionedValue option \<Rightarrow> VersionedValue option" where
  "overwrite new old = (case new of None \<Rightarrow> old | Some vv \<Rightarrow> if IsDelete vv then None else Some (stored vv))"

context level_privacy
begin

lemma ApplyPrivacyAwareUpdates_refined:
  assumes ld: "writes_succeed ld" and wb: "\<forall>f. WriteBatch f = None" and wf: "batch_wf updates"
    and ord: "visits ord (combined hord pord updates)" "um_visits hord (hash_updates updates)" "um_visits pord (pvt_updates updates)"
  shows "\<exists>hint' s'. ApplyPrivacyAwareUpdates WriteBatch (ls_ApplyUpdates vdb ord) True ord hord pord updates height (hint, s) = ret (hint', s') \<and>
    level_privacy ld items view pb M dbName s' hint' \<and>
    (\<forall>ns key. plain_ns ns \<longrightarrow> NUL \<notin> set ns \<longrightarrow>
       fmlookup (holds s' ns) key = overwrite (ub_Get (pub_updates updates) ns key) (fmlookup (holds s ns) key)) \<and>
    (\<forall>ns coll key. plain_ns ns \<longrightarrow> NUL \<notin> set (deriveHashedDataNs ns coll) \<longrightarrow> fmlookup (holds s' (deriveHashedDataNs ns coll)) key =
       overwrite (um_Get (hash_updates updates) ns coll key) (fmlookup (holds s (deriveHashedDataNs ns coll)) key)) \<and>
    (\<forall>ns coll key. plain_ns ns \<longrightarrow> NUL \<notin> set (derivePvtDataNs ns coll) \<longrightarrow> fmlookup (holds s' (derivePvtDataNs ns coll)) key =
       overwrite (um_Get (pvt_updates updates) ns coll key) (fmlookup (holds s (derivePvtDataNs ns coll)) key)) \<and>
    GetLatestSavePoint vdb s' = (case height of None \<Rightarrow> GetLatestSavePoint vdb s | Some h \<Rightarrow> Inr (Some h))"
proof -
  let ?C = "combined hord pord updates"
  let ?found = "filterNamespacesThatHasMetadata ord hord (updates\<lparr>pub_updates := ?C\<rparr>)"
  let ?hint = "hint\<lparr>mh_cache := \<lambda>ns. mh_cache hint ns \<or> ?found ns\<rparr>"
  obtain s' where s': "ls_ApplyUpdates vdb ord ?C height s = ret s'" "store_ok pb dbName (items s')"
    "\<And>ns k. NUL \<notin> set ns \<Longrightarrow> fmlookup (holds s' ns) k = overwrite (ub_Get ?C ns k) (fmlookup (holds s ns) k)"
    "GetLatestSavePoint vdb s' = (case height of None \<Rightarrow> GetLatestSavePoint vdb s | Some h \<Rightarrow> Inr (Some h))"
    using ApplyUpdates_refined [OF ld store_ok ord(1) combined_ok [OF wf ord(2,3)], of height] unfolding overwrite_def by blast
  have hint': "hint_sound ?hint (holds s')"
  proof -
    have new: "?found n" if "ub_Get ?C n key = Some vv" "vv_Metadata vv \<noteq> None" for n key vv
      using that ord(1) unfolding filterNamespacesThatHasMetadata_def visits_def by (auto intro!: bexI [of _ "(n, key)"])
    have hashed: "?found ns" if "um_Get (hash_updates updates) ns coll key = Some vv" "vv_Metadata vv \<noteq> None" for ns coll key vv
      unfolding filterNamespacesThatHasMetadata_def
      by (intro disjI2 bexI [of _ "(ns, coll, key)"]) (use that ord(2) in \<open>simp_all add: um_visits_def\<close>)
    have entry: "fmlookup (holds s n) key = Some vv \<or> (\<exists>v. ub_Get ?C n key = Some v \<and> vv = stored v)"
      if "NUL \<notin> set n" "fmlookup (holds s' n) key = Some vv" for n key vv
      using that s'(3) [of n key] by (auto simp: overwrite_def split: option.splits if_splits)
    have md: "vv_Metadata v \<noteq> None" if "vv_Metadata (stored v) \<noteq> None" for v
      using that by (auto simp: stored_def unset_empty_def split: if_splits)
    show ?thesis
      unfolding hint_sound_def metadataEverUsedFor_def
    proof (intro conjI allI impI)
      fix ns key vv assume "NUL \<notin> set ns" "\<not> mh_cache ?hint ns" "fmlookup (holds s' ns) key = Some vv"
      then show "vv_Metadata vv = None"
        using entry [of ns key vv] hint new [of ns key] md unfolding hint_sound_def metadataEverUsedFor_def by fastforce
    next
      fix ns coll key vv
      assume a: "plain_ns ns" "NUL \<notin> set (deriveHashedDataNs ns coll)" "\<not> mh_cache ?hint ns"
        "fmlookup (holds s' (deriveHashedDataNs ns coll)) key = Some vv"
      then show "vv_Metadata vv = None"
        using entry [OF a(2,4)] hint hashed [of ns coll key] md ub_Get_combined(2) [OF wf ord(2,3) a(1)]
        unfolding hint_sound_def metadataEverUsedFor_def by fastforce
    qed
  qed
  have "level_privacy ld items view pb M dbName s' ?hint"
    by unfold_locales (rule s'(2), rule hint')
  moreover have "ApplyPrivacyAwareUpdates WriteBatch (ls_ApplyUpdates vdb ord) True ord hord pord updates height (hint, s) = ret (?hint, s')"
    using s'(1) by (simp add: ApplyPrivacyAwareUpdates_def setMetadataUsedFlag_def wb combined_def Let_def)
  ultimately show ?thesis using s'(3,4) ub_Get_combined [OF wf ord(2,3)] by auto
qed

end

section \<open>Validating and committing a block\<close>

definition all_versioned :: "state \<Rightarrow> bool" where
  "all_versioned st \<longleftrightarrow> (\<forall>ck vv. st ck = Some vv \<longrightarrow> vv_Version vv \<noteq> None)"

lemma tx_write_versioned: "all_versioned st \<Longrightarrow> all_versioned (tx_write h ops st)"
  by (auto simp: all_versioned_def tx_write_def effect_def split: option.splits)

lemma serial_versioned: "serial H S ops num W st txs st' \<Longrightarrow> all_versioned st \<Longrightarrow> all_versioned st'"
  by (induction rule: serial.induct) (simp_all add: tx_write_versioned)

lemma stored_idem [simp]: "stored (stored vv) = stored vv"
  by (simp add: stored_def unset_empty_def)

text \<open>Two states that the database cannot tell apart: it stores empty metadata as none.\<close>

definition same_state :: "(compositeKey \<Rightarrow> bool) \<Rightarrow> state \<Rightarrow> state \<Rightarrow> bool" where
  "same_state P st st' \<longleftrightarrow> (\<forall>ck. P ck \<longrightarrow> map_option stored (st ck) = map_option stored (st' ck))"

definition valid_block_updates :: "publicAndHashUpdates \<Rightarrow> bool" where
  "valid_block_updates u \<longleftrightarrow>
     (\<forall>ck vv. pending u ck = Some vv \<longrightarrow> valid_key (\<lambda>ns. NUL \<notin> set ns) ck \<and> versioned vv)"

lemma valid_block_updatesD:
  "valid_block_updates u \<Longrightarrow> pending u ck = Some vv \<Longrightarrow> valid_key (\<lambda>ns. NUL \<notin> set ns) ck \<and> versioned vv"
  unfolding valid_block_updates_def by blast

lemma pending_split:
  "ub_Get (ph_public u) ns key = pending u (ns, '''', key)"
  "coll \<noteq> '''' \<Longrightarrow> um_Get (ph_hash u) ns coll key = pending u (ns, coll, key)"
  by (simp_all add: pending_def)

text \<open>No update is made in a collection without a name.\<close>

definition named_updates :: "publicAndHashUpdates \<Rightarrow> bool" where
  "named_updates u \<longleftrightarrow> (\<forall>ns key. um_Get (ph_hash u) ns '''' key = None)"

lemma apply_key_named: "apply_key h t ck u = Return u' \<Longrightarrow> named_updates u \<Longrightarrow> named_updates u'"
  unfolding apply_key_eq
  by (cases ck rule: ns_of.cases) (auto simp: named_updates_def um_Get_Update split: if_splits option.splits)

lemma fold_res_keeps:
  "(\<And>x s s'. f x s = ret s' \<Longrightarrow> P s \<Longrightarrow> P s') \<Longrightarrow> fold_res f xs s = ret s' \<Longrightarrow> P s \<Longrightarrow> P s'"
  by (induction xs arbitrary: s) (auto simp: res_bind_ret_iff)

lemma applyWriteSet_named:
  assumes "applyWriteSet Serialize zeroHash ord ord' txRWSet h db post u = ret u'" "named_updates u"
  shows "named_updates u'"
proof -
  obtain t where "fold_res (\<lambda>ck u. lift_go (apply_key h t ck u)) ord'
      (u\<lparr>ph_public := (ph_public u)\<lparr>ub_ContainsPostOrderWrites := ub_ContainsPostOrderWrites (ph_public u) \<or> post\<rparr>\<rparr>) = ret u'"
    using assms(1) by (auto simp: applyWriteSet_def Let_def res_bind_ret_iff)
  then show ?thesis
    by (rule fold_res_keeps [rotated]) (use assms(2) in \<open>auto simp: named_updates_def lift_go_def ret_def go_bind_Return_iff dest: apply_key_named\<close>)
qed

lemma validate_txs_named:
  "validate_txs lb v ords num mvcc txs u p = ret (txs', u', p') \<Longrightarrow> named_updates u \<Longrightarrow> named_updates u'"
proof (induction txs arbitrary: u p txs')
  case (Cons tx txs)
  then obtain tx' u1 p1 txs1 where one: "validate_one lb v ords num mvcc tx u p = ret (tx', u1, p1)"
    and rest: "validate_txs lb v ords num mvcc txs u1 p1 = ret (txs1, u', p')"
    by (auto simp: res_bind_ret_iff)
  have "named_updates u1"
    using one Cons.prems(2) by (auto simp: validate_one_def Let_def res_bind_ret_iff split: if_splits prod.splits dest: applyWriteSet_named)
  then show ?case using Cons.IH rest by blast
qed simp

lemma validateAndPrepareBatch_named:
  assumes "validateAndPrepareBatch lb v ords pord blk mvcc = ret (blk', u, purges)"
  shows "named_updates u"
proof -
  obtain txs p where "validate_txs lb v ords (b_num blk) mvcc (b_txs blk) newPubAndHashUpdates Map.empty = ret (txs, u, p)"
    using assms by (auto simp: validateAndPrepareBatch_def res_bind_ret_iff split: option.splits)
  then show ?thesis by (rule validate_txs_named) (simp add: named_updates_def newPubAndHashUpdates_def um_Get_def)
qed

abbreviation channel_db :: "('s, 'c) versionedDB \<Rightarrow> 's \<Rightarrow> metadataHint \<Rightarrow> DB" where
  "channel_db vdb s hint \<equiv> \<lparr>pd_db = as_VersionedDB vdb s, pd_metadataHint = hint\<rparr>"

definition block_batch :: "publicAndHashUpdates \<Rightarrow> UpdateMap \<Rightarrow> PrivacyUpdateBatch" where
  "block_batch u pvt = \<lparr>pub_updates = ph_public u, hash_updates = ph_hash u, pvt_updates = pvt\<rparr>"

lemma block_batch_wf:
  assumes "valid_block_updates u" "named_updates u" "map_wf derivePvtDataNs pvt"
  shows "batch_wf (block_batch u pvt)"
proof -
  have "plain_ns ns \<and> NUL \<notin> set ns \<and> versioned vv" if "ub_Get (ph_public u) ns key = Some vv" for ns key vv
    using valid_block_updatesD [OF assms(1), of "(ns, '''', key)" vv] that by (simp add: pending_split(1) valid_key_def)
  moreover have "plain_ns ns \<and> NUL \<notin> set (deriveHashedDataNs ns coll) \<and> versioned vv" if get: "um_Get (ph_hash u) ns coll key = Some vv" for ns coll key vv
  proof -
    have coll: "coll \<noteq> ''''" using assms(2) get unfolding named_updates_def by force
    with get have "pending u (ns, coll, key) = Some vv" by (simp add: pending_split)
    from valid_block_updatesD [OF assms(1) this] show ?thesis using coll by (simp add: valid_key_def)
  qed
  ultimately show ?thesis using assms(3) by (simp add: batch_wf_def block_batch_def map_wf_def)
qed

context level_privacy
begin

lemma committed_versioned: "all_versioned (committed (holds s) (channel_db vdb s hint))"
  using holds_live by (auto simp: all_versioned_def committed_def split: if_splits)

lemma overwrite_latest:
  assumes "pending u ck = new" "committed (holds s') db' ck = overwrite new (committed (holds s) db ck)"
  shows "map_option stored (committed (holds s') db' ck) = map_option stored (latest (holds s) db u ck)"
  using assms by (auto simp: overwrite_def latest_def split: option.split)

lemma block_valid:
  fixes Ser lb
  defines "ops \<equiv> tx_ops Ser (lb_zeroHash lb)"
  assumes hs: "total_hash hf H" "total_ser (lb_serializeKVReads lb) S" "total_md (lb_Serialize lb) Ser"
    and ok: "block_ok (holds s) (\<lambda>ns. NUL \<notin> set ns) ops ords (block_ops ops (b_txs blk)) (b_txs blk)"
  shows "\<exists>txs u purges.
    validateAndPrepareBatch lb \<lparr>vr_db = channel_db vdb s hint, vr_hashFunc = hf\<rparr> ords kord blk True = ret (blk\<lparr>b_txs := txs\<rparr>, u, purges) \<and>
    marked (b_txs blk) txs \<and> valid_block_updates u \<and> named_updates u \<and>
    serial H S ops (b_num blk) {} (committed (holds s) (channel_db vdb s hint)) txs (latest (holds s) (channel_db vdb s hint) u)"
proof -
  let ?db = "channel_db vdb s hint"
  have "\<not> IsBulkOptimizable ?db" by (simp add: IsBulkOptimizable_def as_VersionedDB_def)
  then have "IsBulkOptimizable ?db \<longrightarrow> preLoadCommittedVersionOfRSet \<lparr>vr_db = ?db, vr_hashFunc = hf\<rparr> blk = None" by blast
  from ch.validateAndPrepareBatch_serial [OF hs this ok [unfolded ops_def], of kord]
  obtain txs u purges where v: "validateAndPrepareBatch lb \<lparr>vr_db = ?db, vr_hashFunc = hf\<rparr> ords kord blk True = ret (blk\<lparr>b_txs := txs\<rparr>, u, purges)"
    "upd_inv (block_ops ops (b_txs blk)) u" "marked (b_txs blk) txs"
    "serial H S ops (b_num blk) {} (committed (holds s) ?db) txs (latest (holds s) ?db u)"
    unfolding ops_def by blast
  have "versioned vv" if "pending u ck = Some vv" for ck vv
  proof (cases "IsDelete vv")
    case False
    then have "latest (holds s) ?db u ck = Some vv" using that by (simp add: latest_def)
    with serial_versioned [OF v(4) committed_versioned] show ?thesis unfolding all_versioned_def versioned_def by blast
  qed (simp add: versioned_def)
  moreover have "valid_key (\<lambda>ns. NUL \<notin> set ns) ck" if p: "pending u ck = Some vv" for ck vv
  proof -
    have "ck \<in> op_keys (block_ops ops (b_txs blk))" using v(2) p unfolding upd_inv_def by blast
    then obtain tx where "tx \<in> set (b_txs blk)" "ck \<in> op_keys (ops (t_rwset tx))"
      unfolding op_keys_eq block_ops_def by auto
    then show ?thesis using ok op_keys_valid [of "t_rwset tx" "\<lambda>ns. NUL \<notin> set ns"] unfolding block_ok_def tx_ok_def ops_def by blast
  qed
  ultimately have "valid_block_updates u" unfolding valid_block_updates_def by blast
  with v validateAndPrepareBatch_named [OF v(1)] show ?thesis by blast
qed

lemma block_applied:
  assumes u: "valid_block_updates u" "named_updates u" and pvt: "map_wf derivePvtDataNs pvt"
    and ld: "writes_succeed ld" and wb: "\<forall>f. WriteBatch f = None"
    and ord: "visits ord (combined hord pord (block_batch u pvt))" "um_visits hord (ph_hash u)" "um_visits pord pvt"
  shows "\<exists>hint' s'. ApplyPrivacyAwareUpdates WriteBatch (ls_ApplyUpdates vdb ord) True ord hord pord (block_batch u pvt) (Some height) (hint, s) =
        ret (hint', s') \<and>
      level_privacy ld items view pb M dbName s' hint' \<and> GetLatestSavePoint vdb s' = Inr (Some height) \<and>
      same_state (valid_key (\<lambda>ns. NUL \<notin> set ns)) (committed (holds s') (channel_db vdb s' hint')) (latest (holds s) (channel_db vdb s hint) u) \<and>
      (\<forall>ns coll key. plain_ns ns \<longrightarrow> NUL \<notin> set (derivePvtDataNs ns coll) \<longrightarrow> fmlookup (holds s' (derivePvtDataNs ns coll)) key =
         overwrite (um_Get pvt ns coll key) (fmlookup (holds s (derivePvtDataNs ns coll)) key))"
proof -
  have b: "pub_updates (block_batch u pvt) = ph_public u" "hash_updates (block_batch u pvt) = ph_hash u" "pvt_updates (block_batch u pvt) = pvt"
    by (simp_all add: block_batch_def)
  obtain hint' s' where s': "ApplyPrivacyAwareUpdates WriteBatch (ls_ApplyUpdates vdb ord) True ord hord pord (block_batch u pvt) (Some height) (hint, s) = ret (hint', s')"
    "level_privacy ld items view pb M dbName s' hint'"
    "\<forall>ns key. plain_ns ns \<longrightarrow> NUL \<notin> set ns \<longrightarrow> fmlookup (holds s' ns) key = overwrite (ub_Get (ph_public u) ns key) (fmlookup (holds s ns) key)"
    "\<forall>ns coll key. plain_ns ns \<longrightarrow> NUL \<notin> set (deriveHashedDataNs ns coll) \<longrightarrow> fmlookup (holds s' (deriveHashedDataNs ns coll)) key =
       overwrite (um_Get (ph_hash u) ns coll key) (fmlookup (holds s (deriveHashedDataNs ns coll)) key)"
    "\<forall>ns coll key. plain_ns ns \<longrightarrow> NUL \<notin> set (derivePvtDataNs ns coll) \<longrightarrow> fmlookup (holds s' (derivePvtDataNs ns coll)) key =
       overwrite (um_Get pvt ns coll key) (fmlookup (holds s (derivePvtDataNs ns coll)) key)"
    "GetLatestSavePoint vdb s' = Inr (Some height)"
    using ApplyPrivacyAwareUpdates_refined [OF ld wb block_batch_wf [OF u pvt] ord(1), where height = "Some height", unfolded b option.case, OF ord(2,3)] by blast
  have "same_state (valid_key (\<lambda>ns. NUL \<notin> set ns)) (committed (holds s') (channel_db vdb s' hint')) (latest (holds s) (channel_db vdb s hint) u)"
    unfolding same_state_def
  proof (intro allI impI overwrite_latest [OF refl])
    fix ck assume "valid_key (\<lambda>ns. NUL \<notin> set ns) ck"
    then show "committed (holds s') (channel_db vdb s' hint') ck = overwrite (pending u ck) (committed (holds s) (channel_db vdb s hint) ck)"
      using s'(3,4) by (cases ck rule: ns_of.cases)
        (simp add: valid_key_def committed_def pending_def key_str_def as_VersionedDB_def split: if_splits)
  qed
  with s' show ?thesis by blast
qed

end

end
