(* ===== verification/Batch_Preparer.thy ===== *)
theory Batch_Preparer
  imports Block_Commit Tx_Simulator Committer
begin

text \<open>
  Preparing the batch of a block (\<^verbatim>\<open>core/ledger/kvledger/txmgmt/validation/batch_preparer.go\<close>): the block is parsed
  into transactions, the transactions are validated, the private data that has come with the block is compared
  with the hashes in the transactions and put into a batch, and the codes are written into the block
  (\<^verbatim>\<open>internal/pkg/txflags\<close>).  Protobuf, the hash function and the processors of other types of transactions are
  arguments.
\<close>

section \<open>Flags\<close>

type_synonym ValidationFlags = bytes

definition NIL_TXACTION :: char where "NIL_TXACTION = CHR 0x10"
definition INVALID_WRITESET :: char where "INVALID_WRITESET = CHR 0x18"
definition NOT_VALIDATED :: char where "NOT_VALIDATED = CHR 0xFE"
definition INVALID_OTHER_REASON :: char where "INVALID_OTHER_REASON = CHR 0xFF"

fun code_byte :: "TxValidationCode \<Rightarrow> char" where
  "code_byte VALID = TxValidationCode_VALID"
| "code_byte MVCC_READ_CONFLICT = TxValidationCode_MVCC_READ_CONFLICT"
| "code_byte PHANTOM_READ_CONFLICT = CHR 0x0C"

definition newWithValues :: "nat \<Rightarrow> char \<Rightarrow> ValidationFlags" where
  "newWithValues n val = replicate n val"

definition flags_New :: "nat \<Rightarrow> ValidationFlags" where
  "flags_New n = newWithValues n NOT_VALIDATED"

definition SetFlag :: "ValidationFlags \<Rightarrow> nat \<Rightarrow> char \<Rightarrow> ValidationFlags go" where
  "SetFlag obj txIndex flag = go_set obj txIndex flag"

definition Flag :: "ValidationFlags \<Rightarrow> nat \<Rightarrow> char go" where
  "Flag obj txIndex = go_index obj txIndex"

definition IsSetTo :: "ValidationFlags \<Rightarrow> nat \<Rightarrow> char \<Rightarrow> bool go" where
  "IsSetTo obj txIndex flag = go_bind (Flag obj txIndex) (\<lambda>f. Return (f = flag))"

definition flags_IsValid :: "ValidationFlags \<Rightarrow> nat \<Rightarrow> bool go" where
  "flags_IsValid obj txIndex = IsSetTo obj txIndex TxValidationCode_VALID"

definition flags_IsInvalid :: "ValidationFlags \<Rightarrow> nat \<Rightarrow> bool go" where
  "flags_IsInvalid obj txIndex = go_bind (flags_IsValid obj txIndex) (\<lambda>v. Return (\<not> v))"

section \<open>The action of an envelope\<close>

text \<open>
  The messages inside the payload of a transaction; a message that decodes may lack the field that is asked
  for.  When a channel header does not decode, what has been read of it up to there is kept.
\<close>

record action_codec = codec +
  un_ChaincodeActionPayload :: "bytes \<Rightarrow> bytes option option"
  un_ProposalResponsePayload :: "bytes \<Rightarrow> bytes option option"
  un_partial_TxId :: "bytes \<Rightarrow> string"

definition as_err :: "unmarshal_error + 'a \<Rightarrow> string + 'a" where
  "as_err r = (case r of Inl (ErrUnmarshal what) \<Rightarrow> Inl (''error unmarshalling '' @ what) | Inr x \<Rightarrow> Inr x)"

definition GetPayloads :: "action_codec \<Rightarrow> TransactionAction \<Rightarrow> string + ChaincodeAction" where
  "GetPayloads cd txActions =
     (case un_ChaincodeActionPayload cd (ta_Payload txActions) of
        None \<Rightarrow> Inl ''error unmarshalling ChaincodeActionPayload''
      | Some None \<Rightarrow> Inl ''no payload in ChaincodeActionPayload''
      | Some (Some p) \<Rightarrow>
          (case un_ProposalResponsePayload cd p of
             None \<Rightarrow> Inl ''error unmarshalling ProposalResponsePayload''
           | Some None \<Rightarrow> Inl ''response payload is missing extension''
           | Some (Some ext) \<Rightarrow>
               (case un_ChaincodeAction (codec.truncate cd) ext of
                  None \<Rightarrow> Inl ''error unmarshalling ChaincodeAction'' | Some a \<Rightarrow> Inr a)))"

definition GetActionFromEnvelopeMsg :: "action_codec \<Rightarrow> Envelope \<Rightarrow> string + ChaincodeAction" where
  "GetActionFromEnvelopeMsg cd env =
     bind_err (as_err (UnmarshalPayload (codec.truncate cd) (env_Payload env))) (\<lambda>payl.
     bind_err (as_err (UnmarshalTransaction (codec.truncate cd) (pl_Data payl))) (\<lambda>tx.
       case tx_Actions tx of
         [] \<Rightarrow> Inl ''at least one TransactionAction required''
       | a # _ \<Rightarrow> GetPayloads cd a))"

definition GetActionFromEnvelope :: "action_codec \<Rightarrow> bytes \<Rightarrow> string + ChaincodeAction" where
  "GetActionFromEnvelope cd envBytes =
     bind_err (as_err (GetEnvelopeFromBlock (codec.truncate cd) envBytes)) (GetActionFromEnvelopeMsg cd)"

section \<open>Transactions of other types\<close>

datatype tx_error = InvalidTxError string | OtherError string

text \<open>The processors by type of transaction, and the provider of their simulators.\<close>

record processors =
  po_processor :: "int \<Rightarrow> (Envelope \<Rightarrow> bool \<Rightarrow> tx_simulator \<Rightarrow> (tx_error option \<times> tx_simulator) go) option"
  po_NewTxSimulator :: "string \<Rightarrow> string + tx_simulator"

definition processNonEndorserTx ::
  "txmgr \<Rightarrow> processors \<Rightarrow> Envelope \<Rightarrow> string \<Rightarrow> int \<Rightarrow> bool \<Rightarrow> (tx_error + NsReadWriteSet list option) go" where
  "processNonEndorserTx mg po txEnv txid txType synchingState =
     (case po_processor po txType of
        None \<Rightarrow> Return (Inr None)
      | Some generate \<Rightarrow>
          (case po_NewTxSimulator po txid of
             Inl e \<Rightarrow> Return (Inl (OtherError e))
           | Inr sim \<Rightarrow>
               go_bind (generate txEnv synchingState sim) (\<lambda>(e, sim).
                 case e of
                   Some e \<Rightarrow> Return (Inl e)
                 | None \<Rightarrow>
                     go_bind (ts_GetTxSimulationResults mg sim) (\<lambda>(r, _).
                       Return (case r of Inl e \<Rightarrow> Inl (OtherError e) | Inr simRes \<Rightarrow> Inr (Some (sr_Pub simRes)))))))"

fun validate_kvs :: "(string \<Rightarrow> bytes \<Rightarrow> string option) \<Rightarrow> KVWrite list \<Rightarrow> string option" where
  "validate_kvs validateKVFunc [] = None"
| "validate_kvs validateKVFunc (w # ws) =
     (case validateKVFunc (kw_Key w) (kw_Value w) of Some e \<Rightarrow> Some e | None \<Rightarrow> validate_kvs validateKVFunc ws)"

definition validateWriteset :: "TxRwSet \<Rightarrow> (string \<Rightarrow> bytes \<Rightarrow> string option) \<Rightarrow> string option" where
  "validateWriteset txRWSet validateKVFunc =
     validate_kvs validateKVFunc (concat (map (\<lambda>n. rw_Writes (nsr_KvRwSet n)) txRWSet))"

section \<open>Parsing the block\<close>

text \<open>The identifier and the event data of the chaincode are those of the action.\<close>

record TxStatInfo =
  si_TxIDFromChannelHeader :: string
  si_ValidationCode :: char
  si_TxType :: int
  si_Action :: "ChaincodeAction option"
  si_NumCollections :: nat

definition new_info :: "string \<Rightarrow> TxStatInfo" where
  "new_info txid =
     \<lparr>si_TxIDFromChannelHeader = txid, si_ValidationCode = CHR 0x00, si_TxType = -1, si_Action = None, si_NumCollections = 0\<rparr>"

text \<open>
  The envelope and the channel header of an entry of the block, and the identifier of the transaction.  A
  payload without a header is dereferenced.
\<close>

definition parse_header :: "action_codec \<Rightarrow> bytes \<Rightarrow> ((string + Envelope \<times> ChannelHeader) \<times> string) go" where
  "parse_header cd envBytes =
     (case as_err (GetEnvelopeFromBlock (codec.truncate cd) envBytes) of
        Inl e \<Rightarrow> Return (Inl e, '''')
      | Inr env \<Rightarrow>
          (case as_err (UnmarshalPayload (codec.truncate cd) (env_Payload env)) of
             Inl e \<Rightarrow> Return (Inl e, '''')
           | Inr payload \<Rightarrow>
               (case pl_Header payload of
                  None \<Rightarrow> Panic
                | Some h \<Rightarrow>
                    (case as_err (UnmarshalChannelHeader (codec.truncate cd) (hd_ChannelHeader h)) of
                       Inl e \<Rightarrow> Return (Inl e, un_partial_TxId cd (hd_ChannelHeader h))
                     | Inr chdr \<Rightarrow> Return (Inr (env, chdr), chdr_TxId chdr)))))"

record block_env =
  be_codec :: action_codec
  be_txmgr :: txmgr
  be_processors :: processors
  be_ValidateKeyValue :: "string \<Rightarrow> bytes \<Rightarrow> string option"

definition set_invalid ::
  "ValidationFlags \<Rightarrow> nat \<Rightarrow> char \<Rightarrow> TxStatInfo \<Rightarrow> (ValidationFlags \<times> TxStatInfo \<times> transaction option) res" where
  "set_invalid flags txIndex code info = go_bind (SetFlag flags txIndex code) (\<lambda>flags. ret (flags, info, None))"

definition accept_tx ::
  "block_env \<Rightarrow> ValidationFlags \<Rightarrow> nat \<Rightarrow> string \<Rightarrow> bool \<Rightarrow> TxStatInfo \<Rightarrow> TxRwSet \<Rightarrow>
     (ValidationFlags \<times> TxStatInfo \<times> transaction option) res" where
  "accept_tx be flags txIndex txid containsPostOrderWrites info txRWSet =
     (let info = info\<lparr>si_NumCollections := NumCollections (Some txRWSet)\<rparr>
      in case validateWriteset txRWSet (be_ValidateKeyValue be) of
           Some e \<Rightarrow> set_invalid flags txIndex INVALID_WRITESET info
         | None \<Rightarrow>
             ret (flags, info,
               Some \<lparr>t_indexInBlock = txIndex, t_id = txid, t_rwset = txRWSet, t_validationCode = VALID,
                     t_containsPostOrderWrites = containsPostOrderWrites\<rparr>))"

definition preprocess_tx ::
  "block_env \<Rightarrow> bool \<Rightarrow> nat \<Rightarrow> bytes \<Rightarrow> ValidationFlags \<Rightarrow> (ValidationFlags \<times> TxStatInfo \<times> transaction option) res" where
  "preprocess_tx be doMVCCValidation txIndex envBytes flags =
     go_bind (parse_header (be_codec be) envBytes) (\<lambda>(parsed, txid).
     go_bind (flags_IsInvalid flags txIndex) (\<lambda>invalid.
       let info = new_info txid; rcd = tm_codec (be_txmgr be)
       in if invalid then ret (flags, info, None)
          else case parsed of
            Inl e \<Rightarrow> err e
          | Inr (env, chdr) \<Rightarrow>
              let info = info\<lparr>si_TxType := chdr_Type chdr\<rparr>
              in if chdr_Type chdr = HeaderType_ENDORSER_TRANSACTION then
                   (case GetActionFromEnvelope (be_codec be) envBytes of
                      Inl e \<Rightarrow> set_invalid flags txIndex NIL_TXACTION info
                    | Inr respPayload \<Rightarrow>
                        let info = info\<lparr>si_Action := Some respPayload\<rparr>
                        in (case FromProtoBytes rcd (case ca_Results respPayload of None \<Rightarrow> [] | Some b \<Rightarrow> b) of
                              Inl e \<Rightarrow> set_invalid flags txIndex INVALID_OTHER_REASON info
                            | Inr txRWSet \<Rightarrow> accept_tx be flags txIndex (chdr_TxId chdr) False info txRWSet))
                 else
                   go_bind (processNonEndorserTx (be_txmgr be) (be_processors be) env (chdr_TxId chdr) (chdr_Type chdr) (\<not> doMVCCValidation)) (\<lambda>r.
                     case r of
                       Inl (InvalidTxError e) \<Rightarrow> set_invalid flags txIndex INVALID_OTHER_REASON info
                     | Inl (OtherError e) \<Rightarrow> err e
                     | Inr None \<Rightarrow> ret (flags, info, None)
                     | Inr (Some rwsetProto) \<Rightarrow>
                         (case TxRwSetFromProtoMsg rcd rwsetProto of
                            Inl e \<Rightarrow> err e
                          | Inr txRWSet \<Rightarrow> accept_tx be flags txIndex (chdr_TxId chdr) True info txRWSet))))"

fun preprocess_txs ::
  "block_env \<Rightarrow> bool \<Rightarrow> nat \<Rightarrow> bytes list \<Rightarrow> ValidationFlags \<Rightarrow> (ValidationFlags \<times> TxStatInfo list \<times> transaction list) res" where
  "preprocess_txs be doMVCCValidation i [] flags = ret (flags, [], [])"
| "preprocess_txs be doMVCCValidation i (envBytes # envs) flags =
     res_bind (preprocess_tx be doMVCCValidation i envBytes flags) (\<lambda>(flags, info, tx).
     res_bind (preprocess_txs be doMVCCValidation (i + 1) envs flags) (\<lambda>(flags, infos, txs).
       ret (flags, info # infos, (case tx of None \<Rightarrow> txs | Some tx \<Rightarrow> tx # txs))))"

text \<open>The flags are a slice of the metadata of the block: they are changed in place.\<close>

definition txs_filter :: "Block \<Rightarrow> ValidationFlags go" where
  "txs_filter blk =
     (case blk_Metadata blk of None \<Rightarrow> Panic | Some md \<Rightarrow> go_index md BlockMetadataIndex_TRANSACTIONS_FILTER)"

definition with_filter :: "Block \<Rightarrow> ValidationFlags \<Rightarrow> Block" where
  "with_filter blk flags =
     blk\<lparr>blk_Metadata := map_option (\<lambda>md. md[BlockMetadataIndex_TRANSACTIONS_FILTER := flags]) (blk_Metadata blk)\<rparr>"

definition preprocessProtoBlock :: "block_env \<Rightarrow> Block \<Rightarrow> bool \<Rightarrow> (Block \<times> block \<times> TxStatInfo list) res" where
  "preprocessProtoBlock be blk doMVCCValidation =
     res_bind (lift_go (txs_filter blk)) (\<lambda>flags.
     res_bind (preprocess_txs be doMVCCValidation 0 (blk_Data blk) flags) (\<lambda>(flags, infos, txs).
       ret (with_filter blk flags, \<lparr>b_num = blk_Number blk, b_txs = txs\<rparr>, infos)))"

definition postprocessProtoBlock :: "Block \<Rightarrow> block \<Rightarrow> Block go" where
  "postprocessProtoBlock blk validatedBlock =
     go_bind (txs_filter blk) (\<lambda>flags.
     go_bind (fold (\<lambda>tx r. go_bind r (\<lambda>flags. SetFlag flags (t_indexInBlock tx) (code_byte (t_validationCode tx)))) (b_txs validatedBlock) (Return flags))
       (\<lambda>flags. Return (with_filter blk flags)))"

section \<open>Private data\<close>

definition containsPvtWrites :: "transaction \<Rightarrow> bool" where
  "containsPvtWrites t \<longleftrightarrow> (\<exists>n \<in> set (t_rwset t). \<exists>c \<in> set (nsr_CollHashedRwSets n). chr_PvtRwSetHash c \<noteq> None)"

text \<open>A namespace that does not have the collection does not end the search.\<close>

fun retrieve_hash :: "TxRwSet \<Rightarrow> string \<Rightarrow> string \<Rightarrow> bytes option" where
  "retrieve_hash [] ns coll = None"
| "retrieve_hash (n # rwset) ns coll =
     (if nsr_NameSpace n \<noteq> ns then retrieve_hash rwset ns coll
      else case find (\<lambda>c. chr_CollectionName c = coll) (nsr_CollHashedRwSets n) of
             Some c \<Rightarrow> chr_PvtRwSetHash c
           | None \<Rightarrow> retrieve_hash rwset ns coll)"

record TxPvtData =
  tp_SeqInBlock :: u64
  tp_WriteSet :: "NsPvtReadWriteSet list option"

definition requiresPvtdataValidation :: "TxPvtData \<Rightarrow> bool" where
  "requiresPvtdataValidation tx = True"

definition coll_matches :: "(bytes \<Rightarrow> bytes) \<Rightarrow> transaction \<Rightarrow> string \<Rightarrow> CollectionPvtReadWriteSet \<Rightarrow> bool" where
  "coll_matches CH tx ns c \<longleftrightarrow> CH (cp_Rwset c) = (case retrieve_hash (t_rwset tx) ns (cp_CollectionName c) of None \<Rightarrow> [] | Some h \<Rightarrow> h)"

definition validatePvtdata :: "(bytes \<Rightarrow> bytes) \<Rightarrow> transaction \<Rightarrow> TxPvtData \<Rightarrow> string option" where
  "validatePvtdata CH tx pvtdata =
     (case tp_WriteSet pvtdata of
        None \<Rightarrow> None
      | Some msg \<Rightarrow>
          if \<forall>n \<in> set msg. \<forall>c \<in> set (np_CollectionPvtRwset n). coll_matches CH tx (np_Namespace n) c then None
          else Some ''hash of pvt data for collection does not match with the corresponding hash in the public data'')"

definition add_pvt_write :: "Height \<Rightarrow> string \<Rightarrow> string \<Rightarrow> KVWrite \<Rightarrow> UpdateMap \<Rightarrow> UpdateMap res" where
  "add_pvt_write ver ns coll w b =
     (if \<not> IsKVWriteDelete w then lift_go (um_Put ns coll (kw_Key w) (Some (kw_Value w)) (Some ver) b)
      else ret (um_Delete ns coll (kw_Key w) (Some ver) b))"

definition addPvtRWSetToPvtUpdateBatch :: "TxPvtRwSet \<Rightarrow> Height \<Rightarrow> UpdateMap \<Rightarrow> UpdateMap res" where
  "addPvtRWSetToPvtUpdateBatch pvtRWSet ver pvtUpdateBatch =
     fold_res (\<lambda>n. fold_res (\<lambda>c. fold_res (add_pvt_write ver (npr_NameSpace n) (cpr_CollectionName c)) (rw_Writes (cpr_KvRwSet c)))
       (npr_CollPvtRwSets n)) pvtRWSet pvtUpdateBatch"

definition addEntriesToMetadataUpdates :: "TxPvtRwSet \<Rightarrow> (string \<times> string \<times> string) set \<Rightarrow> (string \<times> string \<times> string) set" where
  "addEntriesToMetadataUpdates pvtRWSet m =
     m \<union> set (concat (map (\<lambda>n. concat (map (\<lambda>c. map (\<lambda>w. (npr_NameSpace n, cpr_CollectionName c, mw_Key w)) (rw_MetadataWrites (cpr_KvRwSet c)))
       (npr_CollPvtRwSets n))) pvtRWSet))"

definition retrieveLatestVal :: "string \<Rightarrow> string \<Rightarrow> string \<Rightarrow> UpdateMap \<Rightarrow> DB \<Rightarrow> string + VersionedValue option" where
  "retrieveLatestVal ns coll key pvtUpdateBatch db =
     (case um_Get pvtUpdateBatch ns coll key of Some v \<Rightarrow> Inr (Some v) | None \<Rightarrow> GetPrivateData db ns coll key)"

definition val_bytes :: "VersionedValue \<Rightarrow> bytes" where
  "val_bytes vv = (case vv_Value vv of None \<Rightarrow> [] | Some b \<Rightarrow> b)"

definition increment_one ::
  "(bytes \<Rightarrow> bytes) \<Rightarrow> publicAndHashUpdates \<Rightarrow> DB \<Rightarrow> string \<times> string \<times> string \<Rightarrow> UpdateMap \<Rightarrow> UpdateMap res" where
  "increment_one CH u db = (\<lambda>(ns, coll, key) pvt.
     case um_Get (ph_hash u) ns coll (CH key) of
       None \<Rightarrow> ret pvt
     | Some hashedVal \<Rightarrow>
         res_bind (lift_err (retrieveLatestVal ns coll key pvt db)) (\<lambda>latestVal.
           case latestVal of
             None \<Rightarrow> ret pvt
           | Some latestVal \<Rightarrow>
               if AreSame (vv_Version latestVal) (vv_Version hashedVal) then ret pvt
               else if CH (val_bytes latestVal) = val_bytes hashedVal
               then lift_go (um_Put ns coll key (vv_Value latestVal) (vv_Version hashedVal) pvt)
               else ret pvt))"

text \<open>The keys with metadata updates are visited in the order \<open>mord\<close>.\<close>

definition incrementPvtdataVersionIfNeeded ::
  "(bytes \<Rightarrow> bytes) \<Rightarrow> (string \<times> string \<times> string) list \<Rightarrow> (string \<times> string \<times> string) set \<Rightarrow> publicAndHashUpdates \<Rightarrow> DB \<Rightarrow> UpdateMap \<Rightarrow> UpdateMap res" where
  "incrementPvtdataVersionIfNeeded CH mord metadataUpdates u db pvt =
     fold_res (increment_one CH u db) (filter (\<lambda>k. k \<in> metadataUpdates) mord) pvt"

text \<open>A private write set that is nil passes the comparison of the hashes and is dereferenced.\<close>

definition pvt_tx ::
  "(bytes \<Rightarrow> bytes) \<Rightarrow> rwset_codec \<Rightarrow> u64 \<Rightarrow> (u64 \<Rightarrow> TxPvtData option) \<Rightarrow> transaction \<Rightarrow>
     UpdateMap \<times> (string \<times> string \<times> string) set \<Rightarrow> (UpdateMap \<times> (string \<times> string \<times> string) set) res" where
  "pvt_tx CH cd num pvtdata tx = (\<lambda>(pvt, m).
     if t_validationCode tx \<noteq> VALID \<or> \<not> containsPvtWrites tx then ret (pvt, m)
     else case pvtdata (of_nat (t_indexInBlock tx)) of
       None \<Rightarrow> ret (pvt, m)
     | Some txPvtdata \<Rightarrow>
         (case (if requiresPvtdataValidation txPvtdata then validatePvtdata CH tx txPvtdata else None) of
            Some e \<Rightarrow> err e
          | None \<Rightarrow>
              (case tp_WriteSet txPvtdata of
                 None \<Rightarrow> Panic
               | Some msg \<Rightarrow>
                   res_bind (lift_err (TxPvtRwSetFromProtoMsg cd msg)) (\<lambda>pvtRWSet.
                   res_bind (addPvtRWSetToPvtUpdateBatch pvtRWSet (Height num (of_nat (t_indexInBlock tx))) pvt) (\<lambda>pvt.
                     ret (pvt, addEntriesToMetadataUpdates pvtRWSet m))))))"

definition validateAndPreparePvtBatch ::
  "(bytes \<Rightarrow> bytes) \<Rightarrow> rwset_codec \<Rightarrow> (string \<times> string \<times> string) list \<Rightarrow> block \<Rightarrow> DB \<Rightarrow> publicAndHashUpdates \<Rightarrow> (u64 \<Rightarrow> TxPvtData option) \<Rightarrow>
     UpdateMap res" where
  "validateAndPreparePvtBatch CH cd mord blk db u pvtdata =
     res_bind (fold_res (pvt_tx CH cd (b_num blk) pvtdata) (b_txs blk) (fmempty, {})) (\<lambda>(pvt, m).
       incrementPvtdataVersionIfNeeded CH mord m u db pvt)"

section \<open>The whole batch\<close>

fun set_codes :: "ValidationFlags \<Rightarrow> TxStatInfo list \<Rightarrow> TxStatInfo list go" where
  "set_codes [] infos = Return infos"
| "set_codes (f # flags) [] = Panic"
| "set_codes (f # flags) (i # infos) = go_bind (set_codes flags infos) (\<lambda>is. Return (i\<lparr>si_ValidationCode := f\<rparr> # is))"

definition ValidateAndPrepareBatch ::
  "libs \<Rightarrow> block_env \<Rightarrow> ords \<Rightarrow> HashedCompositeKey list \<Rightarrow> (string \<times> string \<times> string) list \<Rightarrow> Block \<Rightarrow> (u64 \<Rightarrow> TxPvtData option) \<Rightarrow> bool \<Rightarrow>
     (Block \<times> PrivacyUpdateBatch \<times> AppInitiatedPurgeUpdate list \<times> TxStatInfo list) res" where
  "ValidateAndPrepareBatch lb be ords kord mord blk pvtdata doMVCCValidation =
     (let mg = be_txmgr be; v = \<lparr>vr_db = tm_db mg, vr_hashFunc = tm_hashFunc mg\<rparr>
      in res_bind (preprocessProtoBlock be blk doMVCCValidation) (\<lambda>(blk, internalBlock, txsStatInfo).
         res_bind (validateAndPrepareBatch lb v ords kord internalBlock doMVCCValidation) (\<lambda>(internalBlock, u, purgeUpdates).
         res_bind (validateAndPreparePvtBatch (tm_ComputeHash mg) (tm_codec mg) mord internalBlock (tm_db mg) u pvtdata) (\<lambda>pvtUpdates.
         res_bind (lift_go (postprocessProtoBlock blk internalBlock)) (\<lambda>blk.
         res_bind (lift_go (txs_filter blk)) (\<lambda>flags.
         res_bind (lift_go (set_codes flags txsStatInfo)) (\<lambda>txsStatInfo.
           ret (blk, block_batch u pvtUpdates, purgeUpdates, txsStatInfo))))))))"

section \<open>Private data enters the batch only with its hash\<close>

definition pvt_entry :: "Height \<Rightarrow> KVWrite \<Rightarrow> VersionedValue" where
  "pvt_entry ver w =
     \<lparr>vv_Value = (if IsKVWriteDelete w then None else Some (kw_Value w)), vv_Metadata = None, vv_Version = Some ver\<rparr>"

lemma add_pvt_write_eq: "add_pvt_write ver ns coll w b = ret (um_Update ns coll (kw_Key w) (pvt_entry ver w) b)"
  by (simp add: add_pvt_write_def pvt_entry_def um_Put_def um_Put_Some um_Delete_eq)

definition pvt_writes :: "TxPvtRwSet \<Rightarrow> (string \<times> string \<times> KVWrite) list" where
  "pvt_writes rw = concat (map (\<lambda>n. concat (map (\<lambda>c. map (\<lambda>w. (npr_NameSpace n, cpr_CollectionName c, w)) (rw_Writes (cpr_KvRwSet c)))
     (npr_CollPvtRwSets n))) rw)"

lemma fold_concat_map: "fold (\<lambda>x. fold f (g x)) xs = fold f (concat (map g xs))"
  by (induction xs) (simp_all add: fun_eq_iff)

lemma addPvt_eq:
  "addPvtRWSetToPvtUpdateBatch rw ver b =
     ret (fold (\<lambda>(ns, coll, w). um_Update ns coll (kw_Key w) (pvt_entry ver w)) (pvt_writes rw) b)"
proof -
  let ?u = "\<lambda>(ns, coll, w). um_Update ns coll (kw_Key w) (pvt_entry ver w)"
  have w: "fold_res (add_pvt_write ver ns coll) ws b = ret (fold ?u (map (\<lambda>w. (ns, coll, w)) ws) b)" for ns coll ws b
    by (simp add: fold_res_ret [OF add_pvt_write_eq] fold_map comp_def)
  have c: "fold_res (\<lambda>c. fold_res (add_pvt_write ver ns (cpr_CollectionName c)) (rw_Writes (cpr_KvRwSet c))) cs b =
      ret (fold ?u (concat (map (\<lambda>c. map (\<lambda>w. (ns, cpr_CollectionName c, w)) (rw_Writes (cpr_KvRwSet c))) cs)) b)" for ns cs b
    by (simp add: fold_res_ret [OF w] fold_concat_map)
  show ?thesis unfolding addPvtRWSetToPvtUpdateBatch_def pvt_writes_def by (simp add: fold_res_ret [OF c] fold_concat_map)
qed

lemma fold_updates:
  "um_Get (fold (\<lambda>(ns, coll, w). um_Update ns coll (kw_Key w) (pvt_entry ver w)) ws b) ns coll key = Some vv \<Longrightarrow>
     um_Get b ns coll key = Some vv \<or> (\<exists>w. (ns, coll, w) \<in> set ws \<and> kw_Key w = key \<and> vv = pvt_entry ver w)"
proof (induction ws arbitrary: b)
  case (Cons x ws)
  obtain ns' coll' w where x: "x = (ns', coll', w)" by (cases x)
  from Cons.IH [of "um_Update ns' coll' (kw_Key w) (pvt_entry ver w) b"] Cons.prems show ?case
    by (auto simp: x um_Get_Update split: if_splits)
qed simp

text \<open>
  A private write that belongs to a valid transaction of the block: it is in a write set that has come with
  the block and whose hash is the one in the transaction.
\<close>

definition released ::
  "(bytes \<Rightarrow> bytes) \<Rightarrow> rwset_codec \<Rightarrow> u64 \<Rightarrow> (u64 \<Rightarrow> TxPvtData option) \<Rightarrow> transaction list \<Rightarrow> string \<Rightarrow> string \<Rightarrow> string \<Rightarrow> VersionedValue \<Rightarrow> bool" where
  "released CH cd num pvtdata txs ns coll key vv \<longleftrightarrow>
     (\<exists>tx \<in> set txs. t_validationCode tx = VALID \<and>
        (\<exists>d msg n c rw w. pvtdata (of_nat (t_indexInBlock tx)) = Some d \<and> tp_WriteSet d = Some msg \<and> n \<in> set msg \<and> np_Namespace n = ns \<and>
           c \<in> set (np_CollectionPvtRwset n) \<and> cp_CollectionName c = coll \<and> coll_matches CH tx ns c \<and>
           u_KVRWSet cd (cp_Rwset c) = Inr rw \<and> w \<in> set (rw_Writes rw) \<and> kw_Key w = key \<and>
           vv = pvt_entry (Height num (of_nat (t_indexInBlock tx))) w))"

lemma map_err_set: "map_err f xs = Inr ys \<Longrightarrow> y \<in> set ys \<Longrightarrow> \<exists>x \<in> set xs. f x = Inr y"
  by (induction xs arbitrary: ys) (auto simp: bind_err_def split: sum.splits)

lemma pvt_writes_msg:
  assumes "TxPvtRwSetFromProtoMsg cd msg = Inr rw" "(ns, coll, w) \<in> set (pvt_writes rw)"
  shows "\<exists>n \<in> set msg. np_Namespace n = ns \<and> (\<exists>c \<in> set (np_CollectionPvtRwset n). cp_CollectionName c = coll \<and>
    (\<exists>kv. u_KVRWSet cd (cp_Rwset c) = Inr kv \<and> w \<in> set (rw_Writes kv)))"
proof -
  from assms(2) obtain n' c' where n': "n' \<in> set rw" "npr_NameSpace n' = ns" "c' \<in> set (npr_CollPvtRwSets n')" "cpr_CollectionName c' = coll"
    "w \<in> set (rw_Writes (cpr_KvRwSet c'))" by (auto simp: pvt_writes_def)
  from map_err_set [OF assms(1) [unfolded TxPvtRwSetFromProtoMsg_def] n'(1)] obtain n where
    n: "n \<in> set msg" "nsPvtRwSetFromProtoMsg cd n = Inr n'" by blast
  then obtain cs where cs: "map_err (CollPvtRwSetFromProtoMsg cd) (np_CollectionPvtRwset n) = Inr cs" "npr_CollPvtRwSets n' = cs" "np_Namespace n = ns"
    using n'(2) by (auto simp: nsPvtRwSetFromProtoMsg_def bind_err_def split: sum.splits)
  from map_err_set [OF cs(1)] n'(3) cs(2) obtain c where "c \<in> set (np_CollectionPvtRwset n)" "CollPvtRwSetFromProtoMsg cd c = Inr c'" by blast
  then show ?thesis using n(1) cs(3) n'(4,5)
    by (intro bexI [of _ n] conjI bexI [of _ c]) (auto simp: CollPvtRwSetFromProtoMsg_def bind_err_def split: sum.splits)
qed

lemma pvt_tx_released:
  assumes "pvt_tx CH cd num pvtdata tx (pvt, m) = ret (pvt', m')" "um_Get pvt' ns coll key = Some vv"
  shows "um_Get pvt ns coll key = Some vv \<or> released CH cd num pvtdata [tx] ns coll key vv"
proof (cases "t_validationCode tx \<noteq> VALID \<or> \<not> containsPvtWrites tx \<or> pvtdata (of_nat (t_indexInBlock tx)) = None")
  case True
  then show ?thesis using assms by (auto simp: pvt_tx_def split: option.splits if_splits)
next
  case False
  let ?h = "Height num (of_nat (t_indexInBlock tx))"
  obtain d where d: "pvtdata (of_nat (t_indexInBlock tx)) = Some d" "t_validationCode tx = VALID" using False by auto
  obtain msg rw where r: "validatePvtdata CH tx d = None" "tp_WriteSet d = Some msg" "TxPvtRwSetFromProtoMsg cd msg = Inr rw"
    "addPvtRWSetToPvtUpdateBatch rw ?h pvt = ret pvt'"
    using assms(1) False d(1)
    by (auto simp: pvt_tx_def requiresPvtdataValidation_def lift_err_def ret_def [symmetric] res_bind_ret_iff split: option.splits)
      (auto simp: ret_def)
  have "um_Get pvt ns coll key = Some vv \<or> (\<exists>w. (ns, coll, w) \<in> set (pvt_writes rw) \<and> kw_Key w = key \<and> vv = pvt_entry ?h w)"
    by (rule fold_updates) (use r(4) assms(2) in \<open>simp add: addPvt_eq\<close>)
  then show ?thesis
  proof
    assume "\<exists>w. (ns, coll, w) \<in> set (pvt_writes rw) \<and> kw_Key w = key \<and> vv = pvt_entry ?h w"
    then obtain w where w: "(ns, coll, w) \<in> set (pvt_writes rw)" "kw_Key w = key" "vv = pvt_entry ?h w" by blast
    from pvt_writes_msg [OF r(3) w(1)] obtain n c kv where n: "n \<in> set msg" "np_Namespace n = ns" "c \<in> set (np_CollectionPvtRwset n)"
      "cp_CollectionName c = coll" "u_KVRWSet cd (cp_Rwset c) = Inr kv" "w \<in> set (rw_Writes kv)" by blast
    have "coll_matches CH tx ns c" using r(1,2) n(1-3) by (auto simp: validatePvtdata_def split: if_splits)
    then have "released CH cd num pvtdata [tx] ns coll key vv" unfolding released_def using d n w(2,3) r(2) by auto
    then show ?thesis ..
  qed simp
qed

lemma released_mono: "released CH cd num pvtdata txs ns coll key vv \<Longrightarrow> set txs \<subseteq> set txs' \<Longrightarrow> released CH cd num pvtdata txs' ns coll key vv"
  unfolding released_def by blast

lemma pvt_txs_released:
  "fold_res (pvt_tx CH cd num pvtdata) txs (pvt, m) = ret (pvt', m') \<Longrightarrow> um_Get pvt' ns coll key = Some vv \<Longrightarrow>
     um_Get pvt ns coll key = Some vv \<or> released CH cd num pvtdata txs ns coll key vv"
proof (induction txs arbitrary: pvt m)
  case (Cons tx txs)
  then obtain pvt1 m1 where one: "pvt_tx CH cd num pvtdata tx (pvt, m) = ret (pvt1, m1)"
    and rest: "fold_res (pvt_tx CH cd num pvtdata) txs (pvt1, m1) = ret (pvt', m')" by (auto simp: res_bind_ret_iff)
  from Cons.IH [OF rest Cons.prems(2)] pvt_tx_released [OF one] show ?case
    using released_mono [of CH cd num pvtdata txs ns coll key vv "tx # txs"] released_mono [of CH cd num pvtdata "[tx]" ns coll key vv "tx # txs"]
    by auto
qed simp

text \<open>A value whose hash and version are those of the updates of the hashes.\<close>

definition hash_current :: "(bytes \<Rightarrow> bytes) \<Rightarrow> publicAndHashUpdates \<Rightarrow> string \<Rightarrow> string \<Rightarrow> string \<Rightarrow> VersionedValue \<Rightarrow> bool" where
  "hash_current CH u ns coll key vv \<longleftrightarrow>
     (\<exists>hv. um_Get (ph_hash u) ns coll (CH key) = Some hv \<and> CH (val_bytes vv) = val_bytes hv \<and> vv_Version vv = vv_Version hv)"

lemma increment_one_entry:
  assumes "increment_one CH u db (ns', coll', key') pvt = ret pvt'" "um_Get pvt' ns coll key = Some vv"
  shows "um_Get pvt ns coll key = Some vv \<or> hash_current CH u ns coll key vv"
proof (cases "pvt' = pvt")
  case False
  obtain hv lv where v: "um_Get (ph_hash u) ns' coll' (CH key') = Some hv" "CH (val_bytes lv) = val_bytes hv"
    "lift_go (um_Put ns' coll' key' (vv_Value lv) (vv_Version hv) pvt) = ret pvt'"
    using assms(1) False unfolding increment_one_def prod.case
    by (force simp: res_bind_ret_iff split: option.splits if_splits)
  then obtain b where b: "vv_Value lv = Some b"
    by (cases "vv_Value lv") (simp_all add: um_Put_def um_PutValAndMetadata_def ub_PutValAndMetadata_def)
  then have "pvt' = um_Update ns' coll' key' \<lparr>vv_Value = Some b, vv_Metadata = None, vv_Version = vv_Version hv\<rparr> pvt"
    using v(3) by (simp add: um_Put_def um_Put_Some)
  then show ?thesis using assms(2) v(1,2) b by (auto simp: um_Get_Update hash_current_def val_bytes_def split: if_splits)
qed (use assms(2) in simp)

lemma increment_entry:
  "fold_res (increment_one CH u db) ks pvt = ret pvt' \<Longrightarrow> um_Get pvt' ns coll key = Some vv \<Longrightarrow>
     um_Get pvt ns coll key = Some vv \<or> hash_current CH u ns coll key vv"
proof (induction ks arbitrary: pvt)
  case (Cons k ks)
  obtain ns' coll' key' where k: "k = (ns', coll', key')" by (cases k)
  from Cons.prems obtain pvt1 where "increment_one CH u db (ns', coll', key') pvt = ret pvt1"
    "fold_res (increment_one CH u db) ks pvt1 = ret pvt'" by (auto simp: k res_bind_ret_iff)
  with Cons.IH Cons.prems(2) increment_one_entry show ?case by blast
qed simp

lemma pvt_batch_entry:
  assumes "validateAndPreparePvtBatch CH cd mord blk db u pvtdata = ret pvt" "um_Get pvt ns coll key = Some vv"
  shows "released CH cd (b_num blk) pvtdata (b_txs blk) ns coll key vv \<or> hash_current CH u ns coll key vv"
proof -
  obtain pvt1 m where "fold_res (pvt_tx CH cd (b_num blk) pvtdata) (b_txs blk) (fmempty, {}) = ret (pvt1, m)"
    "fold_res (increment_one CH u db) (filter (\<lambda>k. k \<in> m) mord) pvt1 = ret pvt"
    using assms(1) by (auto simp: validateAndPreparePvtBatch_def incrementPvtdataVersionIfNeeded_def res_bind_ret_iff)
  then show ?thesis using pvt_txs_released increment_entry assms(2) by (fastforce simp: um_Get_def)
qed

section \<open>The codes in the block\<close>

lemma set_invalid_ret:
  "set_invalid flags i code info = ret (flags', info', tx) \<longleftrightarrow> i < length flags \<and> flags' = flags[i := code] \<and> info' = info \<and> tx = None"
  by (auto simp: set_invalid_def SetFlag_def go_set_def)

lemma accept_tx_ret:
  assumes "accept_tx be flags i txid post info rw = ret (flags', info', tx)"
  shows "(flags' = flags \<and> (\<exists>t. tx = Some t \<and> t_indexInBlock t = i \<and> t_validationCode t = VALID)) \<or>
    (i < length flags \<and> flags' = flags[i := INVALID_WRITESET] \<and> tx = None)"
  using assms by (auto simp: accept_tx_def Let_def set_invalid_ret split: option.splits)

lemma preprocess_tx_ret:
  assumes "preprocess_tx be mvcc i env flags = ret (flags', info, tx)"
  shows "i < length flags \<and>
    (flags' = flags \<and> (case tx of None \<Rightarrow> True | Some t \<Rightarrow> t_indexInBlock t = i \<and> t_validationCode t = VALID \<and> flags ! i = TxValidationCode_VALID) \<or>
     (\<exists>c. c \<noteq> TxValidationCode_VALID \<and> flags ! i = TxValidationCode_VALID \<and> flags' = flags[i := c] \<and> tx = None))"
proof -
  have codes: "NIL_TXACTION \<noteq> TxValidationCode_VALID" "INVALID_OTHER_REASON \<noteq> TxValidationCode_VALID" "INVALID_WRITESET \<noteq> TxValidationCode_VALID"
    by (simp_all add: NIL_TXACTION_def INVALID_OTHER_REASON_def INVALID_WRITESET_def TxValidationCode_VALID_def)
  obtain parsed txid where p: "parse_header (be_codec be) env = Return (parsed, txid)"
    using assms by (cases "parse_header (be_codec be) env") (auto simp: preprocess_tx_def)
  have i: "i < length flags"
    using assms p by (cases "i < length flags") (auto simp: preprocess_tx_def flags_IsInvalid_def flags_IsValid_def IsSetTo_def Flag_def go_index_def)
  show ?thesis
  proof (cases "flags ! i = TxValidationCode_VALID")
    case False
    then show ?thesis using assms p i
      by (auto simp: preprocess_tx_def flags_IsInvalid_def flags_IsValid_def IsSetTo_def Flag_def Let_def)
  next
    case True
    have "(flags' = flags \<and> (case tx of None \<Rightarrow> True | Some t \<Rightarrow> t_indexInBlock t = i \<and> t_validationCode t = VALID)) \<or>
        (\<exists>c. c \<noteq> TxValidationCode_VALID \<and> flags' = flags[i := c] \<and> tx = None)"
      using assms p i True codes
      by (auto simp: preprocess_tx_def flags_IsInvalid_def flags_IsValid_def IsSetTo_def Flag_def Let_def set_invalid_ret go_bind_def
          split: sum.splits if_splits go.splits option.splits tx_error.splits dest!: accept_tx_ret)
    then show ?thesis using i True by (auto split: option.splits)
  qed
qed

lemma preprocess_txs_ret:
  "preprocess_txs be mvcc i envs flags = ret (flags', infos, txs) \<Longrightarrow>
     length flags' = length flags \<and> length infos = length envs \<and> (envs = [] \<or> i + length envs \<le> length flags) \<and>
     distinct (map t_indexInBlock txs) \<and>
     (\<forall>t \<in> set txs. i \<le> t_indexInBlock t \<and> t_indexInBlock t < i + length envs \<and> t_validationCode t = VALID \<and>
        flags' ! t_indexInBlock t = TxValidationCode_VALID) \<and>
     (\<forall>j. (j < i \<or> i + length envs \<le> j \<longrightarrow> flags' ! j = flags ! j) \<and>
          (j < length flags \<longrightarrow> flags' ! j = TxValidationCode_VALID \<longrightarrow> flags ! j = TxValidationCode_VALID))"
proof (induction envs arbitrary: i flags infos txs)
  case (Cons env envs)
  then obtain flags1 info tx infos1 txs1 where one: "preprocess_tx be mvcc i env flags = ret (flags1, info, tx)"
    and rest: "preprocess_txs be mvcc (i + 1) envs flags1 = ret (flags', infos1, txs1)"
    and r: "infos = info # infos1" "txs = (case tx of None \<Rightarrow> txs1 | Some t \<Rightarrow> t # txs1)"
    by (auto simp: res_bind_ret_iff)
  have IH: "length flags' = length flags1" "length infos1 = length envs" "envs = [] \<or> i + 1 + length envs \<le> length flags1"
    "distinct (map t_indexInBlock txs1)"
    "\<And>t. t \<in> set txs1 \<Longrightarrow> i + 1 \<le> t_indexInBlock t \<and> t_indexInBlock t < i + 1 + length envs \<and> t_validationCode t = VALID \<and>
        flags' ! t_indexInBlock t = TxValidationCode_VALID"
    "\<And>j. j < i + 1 \<or> i + 1 + length envs \<le> j \<Longrightarrow> flags' ! j = flags1 ! j"
    "\<And>j. j < length flags1 \<Longrightarrow> flags' ! j = TxValidationCode_VALID \<Longrightarrow> flags1 ! j = TxValidationCode_VALID"
    using Cons.IH [OF rest] by blast+
  have step: "i < length flags" "length flags1 = length flags" "\<And>j. j \<noteq> i \<Longrightarrow> flags1 ! j = flags ! j"
    "flags1 ! i = TxValidationCode_VALID \<Longrightarrow> flags ! i = TxValidationCode_VALID"
    "\<And>t. tx = Some t \<Longrightarrow> t_indexInBlock t = i \<and> t_validationCode t = VALID \<and> flags1 ! i = TxValidationCode_VALID"
    using preprocess_tx_ret [OF one] by auto
  have "i \<notin> t_indexInBlock ` set txs1" using IH(5) by fastforce
  then have dist: "distinct (map t_indexInBlock txs)" using IH(4) step(5) r(2) by (cases tx) auto
  have txs: "i \<le> t_indexInBlock t \<and> t_indexInBlock t < i + length (env # envs) \<and> t_validationCode t = VALID \<and>
      flags' ! t_indexInBlock t = TxValidationCode_VALID" if t: "t \<in> set txs" for t
  proof (cases "t \<in> set txs1")
    case True
    from IH(5) [OF this] show ?thesis by simp
  next
    case False
    then have "tx = Some t" using t r(2) by (cases tx) auto
    from step(5) [OF this] IH(6) [of i] show ?thesis by simp
  qed
  have other: "flags' ! j = flags ! j" if "j < i \<or> i + length (env # envs) \<le> j" for j
    using IH(6) [of j] step(3) [of j] that by auto
  have valid: "flags ! j = TxValidationCode_VALID" if "j < length flags" "flags' ! j = TxValidationCode_VALID" for j
    using IH(7) [of j] step(2-4) that by (cases "j = i") auto
  have "length flags' = length flags \<and> length infos = length (env # envs) \<and> i + length (env # envs) \<le> length flags"
    using IH(1-3) step(1,2) r(1) by auto
  with dist txs other valid show ?case by blast
qed simp

abbreviation write_codes :: "transaction list \<Rightarrow> ValidationFlags go \<Rightarrow> ValidationFlags go" where
  "write_codes \<equiv> fold (\<lambda>tx r. go_bind r (\<lambda>flags. SetFlag flags (t_indexInBlock tx) (code_byte (t_validationCode tx))))"

lemma write_codes_ret:
  "distinct (map t_indexInBlock txs) \<Longrightarrow> \<forall>t \<in> set txs. t_indexInBlock t < length flags \<Longrightarrow>
     \<exists>flags'. write_codes txs (Return flags) = Return flags' \<and> length flags' = length flags \<and>
       (\<forall>t \<in> set txs. flags' ! t_indexInBlock t = code_byte (t_validationCode t)) \<and>
       (\<forall>j. j \<notin> t_indexInBlock ` set txs \<longrightarrow> flags' ! j = flags ! j)"
proof (induction txs arbitrary: flags)
  case (Cons t txs)
  let ?f = "flags[t_indexInBlock t := code_byte (t_validationCode t)]"
  obtain flags' where f: "write_codes txs (Return ?f) = Return flags'" "length flags' = length ?f"
    "\<forall>t \<in> set txs. flags' ! t_indexInBlock t = code_byte (t_validationCode t)"
    "\<forall>j. j \<notin> t_indexInBlock ` set txs \<longrightarrow> flags' ! j = ?f ! j"
    using Cons.IH [of ?f] Cons.prems by auto
  have "t_indexInBlock t \<notin> t_indexInBlock ` set txs" using Cons.prems(1) by simp
  then have "flags' ! t_indexInBlock t = code_byte (t_validationCode t)" using f(4) Cons.prems(2) by simp
  then show ?case using f Cons.prems(2) by (intro exI [of _ flags']) (auto simp: SetFlag_def)
qed simp

lemma set_codes_ret: "length flags \<le> length infos \<Longrightarrow> \<exists>is. set_codes flags infos = Return is"
  by (induction flags infos rule: set_codes.induct) auto

lemma txs_filter_with: "txs_filter blk = Return flags \<Longrightarrow> txs_filter (with_filter blk flags') = Return flags'"
  by (auto simp: txs_filter_def with_filter_def go_index_def split: option.splits if_splits)

section \<open>From a block to the next state\<close>

lemma ValidateAndPrepareBatch_ret:
  assumes "ValidateAndPrepareBatch lb be ords kord mord blk pvtdata mvcc = ret (blk', batch, purges, infos)"
    and "preprocessProtoBlock be blk mvcc = ret (blk1, ib, infos1)"
  obtains ib' u pvt where
    "validateAndPrepareBatch lb \<lparr>vr_db = tm_db (be_txmgr be), vr_hashFunc = tm_hashFunc (be_txmgr be)\<rparr> ords kord ib mvcc = ret (ib', u, purges)"
    "validateAndPreparePvtBatch (tm_ComputeHash (be_txmgr be)) (tm_codec (be_txmgr be)) mord ib' (tm_db (be_txmgr be)) u pvtdata = ret pvt"
    "batch = block_batch u pvt" "postprocessProtoBlock blk1 ib' = Return blk'"
  using assms by (auto simp: ValidateAndPrepareBatch_def Let_def res_bind_ret_iff)
    (auto simp: lift_go_def ret_def go_bind_Return_iff)

lemma preprocessProtoBlock_ret:
  assumes "preprocessProtoBlock be blk mvcc = ret (blk1, ib, infos)"
  obtains flags flags1 where "txs_filter blk = Return flags" "txs_filter blk1 = Return flags1" "b_num ib = blk_Number blk"
    "preprocess_txs be mvcc 0 (blk_Data blk) flags = ret (flags1, infos, b_txs ib)"
proof -
  obtain flags flags1 where f: "lift_go (txs_filter blk) = ret flags" "blk1 = with_filter blk flags1" "b_num ib = blk_Number blk"
    "preprocess_txs be mvcc 0 (blk_Data blk) flags = ret (flags1, infos, b_txs ib)"
    using assms by (auto simp: preprocessProtoBlock_def res_bind_ret_iff)
  have "txs_filter blk = Return flags" using f(1) by (auto simp: lift_go_def ret_def go_bind_Return_iff)
  then show ?thesis using that f txs_filter_with by blast
qed

text \<open>The codes of the validated transactions are in the block; the other flags are as before.\<close>

lemma postprocess_flags:
  assumes pre: "preprocessProtoBlock be blk mvcc = ret (blk1, ib, infos)" and post: "postprocessProtoBlock blk1 ib' = Return blk'"
    and marked: "marked (b_txs ib) (b_txs ib')"
  obtains flags flags' where "txs_filter blk = Return flags" "txs_filter blk' = Return flags'" "length flags' = length flags"
    "\<forall>t \<in> set (b_txs ib'). flags' ! t_indexInBlock t = code_byte (t_validationCode t)"
    "\<forall>j < length flags. flags' ! j = TxValidationCode_VALID \<longrightarrow> flags ! j = TxValidationCode_VALID"
proof -
  obtain flags flags1 where f: "txs_filter blk = Return flags" "txs_filter blk1 = Return flags1"
    "preprocess_txs be mvcc 0 (blk_Data blk) flags = ret (flags1, infos, b_txs ib)" using preprocessProtoBlock_ret [OF pre] by metis
  note r = preprocess_txs_ret [OF f(3)]
  have idx: "map t_indexInBlock (b_txs ib') = map t_indexInBlock (b_txs ib)"
    using marked unfolding marked_def by (induction rule: list_all2_induct) auto
  have "t_indexInBlock t \<in> t_indexInBlock ` set (b_txs ib)" if "t \<in> set (b_txs ib')" for t
    using arg_cong [OF idx, of set] that by auto
  then have bound: "\<forall>t \<in> set (b_txs ib'). t_indexInBlock t < length flags1 \<and> flags1 ! t_indexInBlock t = TxValidationCode_VALID"
    using r by fastforce
  obtain flags' where f': "write_codes (b_txs ib') (Return flags1) = Return flags'" "length flags' = length flags1"
    "\<forall>t \<in> set (b_txs ib'). flags' ! t_indexInBlock t = code_byte (t_validationCode t)"
    "\<forall>j. j \<notin> t_indexInBlock ` set (b_txs ib') \<longrightarrow> flags' ! j = flags1 ! j"
    using write_codes_ret [of "b_txs ib'" flags1] r idx bound by auto
  have blk': "txs_filter blk' = Return flags'"
    using post f(2) f'(1) txs_filter_with [OF f(2)] by (auto simp: postprocessProtoBlock_def)
  have "flags ! j = TxValidationCode_VALID" if "j < length flags" "flags' ! j = TxValidationCode_VALID" for j
  proof -
    have "flags1 ! j = TxValidationCode_VALID"
      using bound f'(4) that(2) by (cases "j \<in> t_indexInBlock ` set (b_txs ib')") auto
    then show ?thesis using r that(1) by auto
  qed
  with that [OF f(1) blk'] f'(2,3) r show ?thesis by auto
qed

lemma retrieve_hash_coll:
  "retrieve_hash rwset ns coll = Some h \<Longrightarrow>
     \<exists>n \<in> set rwset. nsr_NameSpace n = ns \<and> (\<exists>c \<in> set (nsr_CollHashedRwSets n). chr_CollectionName c = coll)"
proof (induction rwset ns coll rule: retrieve_hash.induct)
  case (2 n rwset ns coll)
  then show ?case by (auto split: if_splits option.splits simp: find_Some_iff)
qed simp

lemma pvt_batch_wf:
  assumes pvt: "validateAndPreparePvtBatch CH cd mord ib' db u pvtdata = ret pvt" and CH: "\<forall>x. CH x \<noteq> []"
    and u: "valid_block_updates u" "named_updates u"
    and txs: "\<forall>t \<in> set (b_txs ib'). \<forall>n \<in> set (t_rwset t). ns_ok (\<lambda>ns. NUL \<notin> set ns) n"
  shows "map_wf derivePvtDataNs pvt"
  unfolding map_wf_def
proof (intro allI impI)
  fix ns coll key vv assume "um_Get pvt ns coll key = Some vv"
  from pvt_batch_entry [OF pvt this] show "plain_ns ns \<and> NUL \<notin> set (derivePvtDataNs ns coll) \<and> versioned vv"
  proof
    assume "released CH cd (b_num ib') pvtdata (b_txs ib') ns coll key vv"
    then obtain tx c w where tx: "tx \<in> set (b_txs ib')" "coll_matches CH tx ns c" "cp_CollectionName c = coll"
      "vv = pvt_entry (Height (b_num ib') (of_nat (t_indexInBlock tx))) w" unfolding released_def by blast
    obtain h where "retrieve_hash (t_rwset tx) ns coll = Some h"
      using tx(2,3) CH by (auto simp: coll_matches_def split: option.splits)
    from retrieve_hash_coll [OF this] txs tx(1) have "plain_ns ns" "NUL \<notin> set (deriveHashedDataNs ns coll)"
      unfolding ns_ok_def by blast+
    then show ?thesis using tx(4) by (auto simp: derivePvtDataNs_def deriveHashedDataNs_def versioned_def pvt_entry_def)
  next
    assume "hash_current CH u ns coll key vv"
    then obtain hv where hv: "um_Get (ph_hash u) ns coll (CH key) = Some hv" "CH (val_bytes vv) = val_bytes hv" "vv_Version vv = vv_Version hv"
      unfolding hash_current_def by blast
    have coll: "coll \<noteq> ''''" using u(2) hv(1) unfolding named_updates_def by force
    then have "pending u (ns, coll, CH key) = Some hv" using hv(1) by (simp add: pending_split)
    from valid_block_updatesD [OF u(1) this] have v: "plain_ns ns" "NUL \<notin> set (deriveHashedDataNs ns coll)" "versioned hv"
      using coll by (simp_all add: valid_key_def)
    have "vv_Value hv \<noteq> None" using hv(2) CH by (auto simp: val_bytes_def split: option.splits)
    then show ?thesis using v hv(3) by (auto simp: derivePvtDataNs_def deriveHashedDataNs_def versioned_def IsDelete_def)
  qed
qed

lemma block_ok_marked:
  assumes "block_ok content valid_ns ops ords B txs" "marked txs txs'"
  shows "\<forall>t \<in> set txs'. \<forall>n \<in> set (t_rwset t). ns_ok valid_ns n"
proof
  fix t assume "t \<in> set txs'"
  then obtain t0 where "t0 \<in> set txs" "t_rwset t = t_rwset t0"
    using assms(2) unfolding marked_def list_all2_conv_all_nth in_set_conv_nth by fastforce
  then show "\<forall>n \<in> set (t_rwset t). ns_ok valid_ns n" using assms(1) unfolding block_ok_def Mvcc.tx_ok_def by metis
qed

text \<open>C1: A block that has been prepared is committed as if its transactions were executed one after the
  other: the codes written into the block are those of the serial execution from the committed state, the
  database then holds the final state of that execution, with the block as its save point, and meets
  the conditions under which the next block is processed; every private value it stores
  has come with the block under the hash of a valid transaction, or its hash and version are those of the
  hashed value.\<close>

theorem block_commit_serial:
  fixes Ser lb be and ld :: "('s, 'c) leveldb"
  defines "mg \<equiv> be_txmgr be" and "ops \<equiv> tx_ops Ser (lb_zeroHash lb)" and "valid \<equiv> \<lambda>ns. NUL \<notin> set ns"
  assumes db: "level_privacy ld items view pb M dbName s hint" "tm_db mg = channel_db \<lparr>ls_ld = ld, ls_pb = pb, ls_dbName = dbName\<rparr> s hint"
    and hs: "total_hash (tm_hashFunc mg) H" "total_ser (lb_serializeKVReads lb) S" "total_md (lb_Serialize lb) Ser" "\<forall>x. tm_ComputeHash mg x \<noteq> []"
    and pre: "preprocessProtoBlock be blk True = ret (blk1, ib, infos1)"
    and ok: "block_ok (ns_content pb dbName (items s)) valid ops ords (block_ops ops (b_txs ib)) (b_txs ib)"
    and run: "ValidateAndPrepareBatch lb be ords kord mord blk pvtdata True = ret (blk', batch, purges, infos)"
    and ld: "writes_succeed ld" "\<forall>f. WriteBatch f = None"
    and ord: "visits ord (combined hord pord batch)" "um_visits hord (hash_updates batch)" "um_visits pord (pvt_updates batch)"
  shows "\<exists>txs st' flags' hint' s'.
    marked (b_txs ib) txs \<and> serial H S ops (blk_Number blk) {} (committed (ns_content pb dbName (items s)) (tm_db mg)) txs st' \<and>
    txs_filter blk' = Return flags' \<and> (\<forall>t \<in> set txs. flags' ! t_indexInBlock t = code_byte (t_validationCode t)) \<and>
    ApplyPrivacyAwareUpdates WriteBatch (ls_ApplyUpdates \<lparr>ls_ld = ld, ls_pb = pb, ls_dbName = dbName\<rparr> ord) True ord hord pord batch (Some height) (hint, s) =
      ret (hint', s') \<and>
    level_privacy ld items view pb M dbName s' hint' \<and> GetLatestSavePoint \<lparr>ls_ld = ld, ls_pb = pb, ls_dbName = dbName\<rparr> s' = Inr (Some height) \<and>
    same_state (valid_key valid)
      (committed (ns_content pb dbName (items s')) (channel_db \<lparr>ls_ld = ld, ls_pb = pb, ls_dbName = dbName\<rparr> s' hint')) st' \<and>
    (\<forall>ns coll key vv. um_Get (pvt_updates batch) ns coll key = Some vv \<longrightarrow>
       released (tm_ComputeHash mg) (tm_codec mg) (blk_Number blk) pvtdata txs ns coll key vv \<or>
       (\<exists>u. ph_hash u = hash_updates batch \<and> hash_current (tm_ComputeHash mg) u ns coll key vv))"
proof -
  let ?vdb = "\<lparr>ls_ld = ld, ls_pb = pb, ls_dbName = dbName\<rparr>"
  obtain ib' u pvt where r: "validateAndPrepareBatch lb \<lparr>vr_db = tm_db mg, vr_hashFunc = tm_hashFunc mg\<rparr> ords kord ib True = ret (ib', u, purges)"
    "validateAndPreparePvtBatch (tm_ComputeHash mg) (tm_codec mg) mord ib' (tm_db mg) u pvtdata = ret pvt"
    "batch = block_batch u pvt" "postprocessProtoBlock blk1 ib' = Return blk'"
    using ValidateAndPrepareBatch_ret [OF run pre] unfolding mg_def by blast
  have num: "b_num ib = blk_Number blk" using preprocessProtoBlock_ret [OF pre] by metis
  from level_privacy.block_valid [OF db(1) hs(1-3) ok [unfolded ops_def valid_def], folded ops_def db(2), of kord] r(1)
  obtain txs where v: "ib' = ib\<lparr>b_txs := txs\<rparr>" "marked (b_txs ib) txs" "valid_block_updates u" "named_updates u"
    "serial H S ops (b_num ib) {} (committed (ns_content pb dbName (items s)) (tm_db mg)) txs (latest (ns_content pb dbName (items s)) (tm_db mg) u)"
    by auto
  obtain flags' where f: "txs_filter blk' = Return flags'" "\<forall>t \<in> set txs. flags' ! t_indexInBlock t = code_byte (t_validationCode t)"
    using postprocess_flags [OF pre r(4)] v(1,2) by (metis block.select_convs(2) block.surjective block.update_convs(2))
  have wf: "map_wf derivePvtDataNs pvt"
    using pvt_batch_wf [OF r(2) hs(4) v(3,4)] block_ok_marked [OF ok v(2)] v(1) unfolding valid_def by simp
  from level_privacy.block_applied [OF db(1) v(3,4) wf ld, of ord hord pord height] ord r(3)
  obtain hint' s' where s': "ApplyPrivacyAwareUpdates WriteBatch (ls_ApplyUpdates ?vdb ord) True ord hord pord batch (Some height) (hint, s) = ret (hint', s')"
    "level_privacy ld items view pb M dbName s' hint'" "GetLatestSavePoint ?vdb s' = Inr (Some height)"
    "same_state (valid_key valid) (committed (ns_content pb dbName (items s')) (channel_db ?vdb s' hint'))
      (latest (ns_content pb dbName (items s)) (tm_db mg) u)"
    unfolding db(2) valid_def by (auto simp: block_batch_def)
  have "released (tm_ComputeHash mg) (tm_codec mg) (blk_Number blk) pvtdata txs ns coll key vv \<or>
      (\<exists>u. ph_hash u = hash_updates batch \<and> hash_current (tm_ComputeHash mg) u ns coll key vv)"
    if "um_Get (pvt_updates batch) ns coll key = Some vv" for ns coll key vv
    using pvt_batch_entry [OF r(2), of ns coll key vv] that v(1) num r(3) by (auto simp: block_batch_def)
  with v(2,5) [unfolded num] f s' show ?thesis by blast
qed

text \<open>A block without private data is prepared whenever it can be parsed and its transactions can be validated.\<close>

lemma no_private_data:
  "fold_res (pvt_tx CH cd num (\<lambda>_. None)) txs st = ret st"
  by (induction txs) (auto simp: pvt_tx_def split: prod.splits)

lemma ValidateAndPrepareBatch_returns:
  assumes pre: "preprocessProtoBlock be blk mvcc = ret (blk1, ib, infos)"
    and v: "validateAndPrepareBatch lb \<lparr>vr_db = tm_db (be_txmgr be), vr_hashFunc = tm_hashFunc (be_txmgr be)\<rparr> ords kord ib mvcc = ret (ib', u, purges)"
    and marked: "marked (b_txs ib) (b_txs ib')" and len: "\<And>flags. txs_filter blk = Return flags \<Longrightarrow> length flags = length (blk_Data blk)"
  shows "\<exists>blk' infos'. ValidateAndPrepareBatch lb be ords kord mord blk (\<lambda>_. None) mvcc = ret (blk', block_batch u fmempty, purges, infos')"
proof -
  obtain flags flags1 where f: "txs_filter blk = Return flags" "txs_filter blk1 = Return flags1"
    "preprocess_txs be mvcc 0 (blk_Data blk) flags = ret (flags1, infos, b_txs ib)" using preprocessProtoBlock_ret [OF pre] by metis
  note r = preprocess_txs_ret [OF f(3)]
  have idx: "map t_indexInBlock (b_txs ib') = map t_indexInBlock (b_txs ib)"
    using marked unfolding marked_def by (induction rule: list_all2_induct) auto
  have "t_indexInBlock t \<in> t_indexInBlock ` set (b_txs ib)" if "t \<in> set (b_txs ib')" for t
    using arg_cong [OF idx, of set] that by auto
  then have "\<forall>t \<in> set (b_txs ib'). t_indexInBlock t < length flags1" using r by fastforce
  then obtain flags' where f': "write_codes (b_txs ib') (Return flags1) = Return flags'" "length flags' = length flags1"
    using write_codes_ret [of "b_txs ib'" flags1] r idx by auto
  then have post: "postprocessProtoBlock blk1 ib' = Return (with_filter blk1 flags')" using f(2) by (simp add: postprocessProtoBlock_def)
  have "length flags' \<le> length infos" using f'(2) r len [OF f(1)] by simp
  from set_codes_ret [OF this] obtain "is" where "set_codes flags' infos = Return is" by blast
  then show ?thesis using pre v post txs_filter_with [OF f(2), of flags']
    by (simp add: ValidateAndPrepareBatch_def Let_def validateAndPreparePvtBatch_def no_private_data incrementPvtdataVersionIfNeeded_def)
qed

definition sample_rwset :: TxRwSet where
  "sample_rwset =
     [\<lparr>nsr_NameSpace = ''cc'',
       nsr_KvRwSet = \<lparr>rw_Reads = [\<lparr>kr_Key = ''b'', kr_Version = None\<rparr>], rw_RangeQueriesInfo = [],
                      rw_Writes = [\<lparr>kw_Key = ''a'', kw_IsDelete = False, kw_Value = ''1''\<rparr>], rw_MetadataWrites = []\<rparr>,
       nsr_CollHashedRwSets = []\<rparr>]"

definition sample_results :: bytes where
  "sample_results = (case ToProtoBytes wire sample_rwset of Inl _ \<Rightarrow> [] | Inr b \<Rightarrow> b)"

lemma sample_results_back: "FromProtoBytes wire sample_results = Inr sample_rwset"
proof -
  have "\<forall>n \<in> set sample_rwset. ns_normal n" by (simp add: sample_rwset_def ns_normal_def kv_normal_def)
  from ToProtoBytes_back [OF wire_faithful this] show ?thesis by (auto simp: sample_results_def)
qed

definition sample_action_codec :: action_codec where
  "sample_action_codec =
     \<lparr>un_Envelope = (\<lambda>b. Some \<lparr>env_Payload = b, env_Signature = []\<rparr>),
      un_Payload = (\<lambda>b. Some \<lparr>pl_Header = Some \<lparr>hd_ChannelHeader = b, hd_SignatureHeader = []\<rparr>, pl_Data = b\<rparr>),
      un_ChannelHeader = (\<lambda>b. Some \<lparr>chdr_Type = 3, chdr_ChannelId = ''ch'', chdr_TxId = b, chdr_Epoch = 0, chdr_Extension = []\<rparr>),
      un_Transaction = (\<lambda>b. Some \<lparr>tx_Actions = [\<lparr>ta_Payload = b\<rparr>]\<rparr>),
      un_ChaincodeAction = (\<lambda>b. Some \<lparr>ca_Results = Some sample_results, ca_Events = [], ca_Response = None\<rparr>),
      un_TxReadWriteSet = (\<lambda>_. None), un_KVRWSet = (\<lambda>_. None), un_HashedRWSet = (\<lambda>_. None),
      un_ChaincodeActionPayload = (\<lambda>b. Some (Some b)), un_ProposalResponsePayload = (\<lambda>b. Some (Some b)), un_partial_TxId = (\<lambda>b. [])\<rparr>"

definition sample_block_env :: block_env where
  "sample_block_env =
     \<lparr>be_codec = sample_action_codec,
      be_txmgr = \<lparr>tm_db = channel_db \<lparr>ls_ld = mem_leveldb, ls_pb = plain_proto, ls_dbName = ''ch''\<rparr> fmempty \<lparr>mh_cache = \<lambda>_. False\<rparr>,
        tm_ccInfo = (\<lambda>_. ([], Inr None)), tm_hashFunc = Inr, tm_serializeKVReads = (\<lambda>rs. Inr (concat (map kr_Key rs))),
        tm_ComputeHash = (\<lambda>x. ''h'' @ x), tm_Deserialize = (\<lambda>_. Inr fmempty), tm_codec = wire\<rparr>,
      be_processors = \<lparr>po_processor = (\<lambda>_. None), po_NewTxSimulator = (\<lambda>_. Inl ''none'')\<rparr>,
      be_ValidateKeyValue = (\<lambda>key val. None)\<rparr>"

definition sample_libs :: libs where
  "sample_libs = \<lparr>lb_serializeKVReads = (\<lambda>rs. Inr (concat (map kr_Key rs))), lb_Serialize = (\<lambda>_. Inr []), lb_zeroHash = ''h''\<rparr>"

definition sample_block :: Block where
  "sample_block = \<lparr>blk_Number = 5, blk_Data = [''t1''], blk_Metadata = Some [[], [], [CHR 0x00]]\<rparr>"

lemma sample_preprocess:
  "\<exists>blk1 infos. preprocessProtoBlock sample_block_env sample_block True =
     ret (blk1, \<lparr>b_num = 5, b_txs = [\<lparr>t_indexInBlock = 0, t_id = ''t1'', t_rwset = sample_rwset, t_validationCode = VALID,
       t_containsPostOrderWrites = False\<rparr>]\<rparr>, infos)"
  by (simp add: preprocessProtoBlock_def txs_filter_def sample_block_def BlockMetadataIndex_TRANSACTIONS_FILTER_def go_index_def
      preprocess_tx_def parse_header_def sample_block_env_def sample_action_codec_def codec.defs as_err_def unmarshal_defs wrap_unmarshal_def
      flags_IsInvalid_def flags_IsValid_def IsSetTo_def Flag_def TxValidationCode_VALID_def HeaderType_ENDORSER_TRANSACTION_def Let_def
      GetActionFromEnvelope_def GetActionFromEnvelopeMsg_def GetPayloads_def bind_err_def sample_results_back accept_tx_def
      validateWriteset_def) (simp add: sample_rwset_def)

abbreviation sample_tx :: transaction where
  "sample_tx \<equiv> \<lparr>t_indexInBlock = 0, t_id = ''t1'', t_rwset = sample_rwset, t_validationCode = VALID, t_containsPostOrderWrites = False\<rparr>"

abbreviation sample_ops :: "TxRwSet \<Rightarrow> op list" where
  "sample_ops \<equiv> tx_ops (\<lambda>_. []) (lb_zeroHash sample_libs)"

abbreviation sample_ords :: ords where
  "sample_ords \<equiv> \<lambda>_. ([(''cc'', '''', ''a'')], [(''cc'', '''', ''a'')])"

lemma sample_tx_ops: "sample_ops sample_rwset = [KvOp (''cc'', '''', ''a'') (Some ''1'')]"
  by (simp add: sample_rwset_def tx_ops_def ns_ops_def coll_ops_def kv_op_def IsKVWriteDelete_def)

lemma sample_block_ok:
  "block_ok (ns_content plain_proto ''ch'' fmempty) (\<lambda>ns. NUL \<notin> set ns) sample_ops sample_ords (block_ops sample_ops [sample_tx]) [sample_tx]"
proof -
  have "fmdom' (ns_content plain_proto ''ch'' fmempty ns) = {}" for ns
    by (auto simp: fmlookup_dom'_iff ns_content_lookup)
  moreover have "\<forall>n \<in> set sample_rwset. ns_ok (\<lambda>ns. NUL \<notin> set ns) n" by (simp add: sample_rwset_def ns_ok_def plain_ns_def)
  ultimately show ?thesis
    by (simp add: block_ok_def Mvcc.tx_ok_def block_ops_def sample_tx_ops wf_ops_def keeps_metadata_def orders_keys_def op_keys_def)
qed

lemma block_commit_serial_witness:
  "\<exists>blk' batch purges infos.
     ValidateAndPrepareBatch sample_libs sample_block_env sample_ords [] [] sample_block (\<lambda>_. None) True = ret (blk', batch, purges, infos) \<and>
     (\<forall>ord hord pord. visits ord (combined hord pord batch) \<and> um_visits hord (hash_updates batch) \<and> um_visits pord (pvt_updates batch) \<longrightarrow>
       (\<exists>txs st' hint' s'. serial id (\<lambda>rs. concat (map kr_Key rs)) sample_ops 5 {}
            (committed (ns_content plain_proto ''ch'' fmempty) (tm_db (be_txmgr sample_block_env))) txs st' \<and>
          ApplyPrivacyAwareUpdates (\<lambda>_. None) (ls_ApplyUpdates \<lparr>ls_ld = mem_leveldb, ls_pb = plain_proto, ls_dbName = ''ch''\<rparr> ord) True ord hord pord
            batch (Some (Height 5 0)) (\<lparr>mh_cache = \<lambda>_. False\<rparr>, fmempty) = ret (hint', s') \<and>
          same_state (valid_key (\<lambda>ns. NUL \<notin> set ns)) (committed (ns_content plain_proto ''ch'' s')
            (channel_db \<lparr>ls_ld = mem_leveldb, ls_pb = plain_proto, ls_dbName = ''ch''\<rparr> s' hint')) st'))"
proof -
  let ?mg = "be_txmgr sample_block_env" and ?S = "\<lambda>rs. concat (map kr_Key rs)"
  let ?ib = "\<lparr>b_num = 5, b_txs = [sample_tx]\<rparr>"
  note fresh = fresh.level_privacy_axioms
  have db: "tm_db ?mg = channel_db \<lparr>ls_ld = mem_leveldb, ls_pb = plain_proto, ls_dbName = ''ch''\<rparr> fmempty \<lparr>mh_cache = \<lambda>_. False\<rparr>"
    by (simp add: sample_block_env_def)
  have hs: "total_hash (tm_hashFunc ?mg) id" "total_ser (lb_serializeKVReads sample_libs) ?S" "total_md (lb_Serialize sample_libs) (\<lambda>_. [])"
    "\<forall>x. tm_ComputeHash ?mg x \<noteq> []"
    by (simp_all add: sample_block_env_def sample_libs_def total_hash_def total_ser_def total_md_def)
  obtain blk1 infos1 where pre: "preprocessProtoBlock sample_block_env sample_block True = ret (blk1, ?ib, infos1)" using sample_preprocess by blast
  have ok: "block_ok (ns_content plain_proto ''ch'' fmempty) (\<lambda>ns. NUL \<notin> set ns) sample_ops sample_ords (block_ops sample_ops (b_txs ?ib)) (b_txs ?ib)"
    using sample_block_ok by simp
  obtain txs u purges where v: "validateAndPrepareBatch sample_libs \<lparr>vr_db = tm_db ?mg, vr_hashFunc = tm_hashFunc ?mg\<rparr> sample_ords [] ?ib True =
      ret (?ib\<lparr>b_txs := txs\<rparr>, u, purges)" "marked (b_txs ?ib) txs"
    using level_privacy.block_valid [OF fresh hs(1-3) ok, of "[]"] unfolding db by blast
  have "\<exists>blk' infos'. ValidateAndPrepareBatch sample_libs sample_block_env sample_ords [] [] sample_block (\<lambda>_. None) True = ret (blk', block_batch u fmempty, purges, infos')"
    by (rule ValidateAndPrepareBatch_returns [OF pre v(1)])
      (use v(2) in \<open>simp_all add: txs_filter_def sample_block_def BlockMetadataIndex_TRANSACTIONS_FILTER_def go_index_def\<close>)
  then obtain blk' infos' where run: "ValidateAndPrepareBatch sample_libs sample_block_env sample_ords [] [] sample_block (\<lambda>_. None) True =
    ret (blk', block_batch u fmempty, purges, infos')" by blast
  have num: "blk_Number sample_block = 5" by (simp add: sample_block_def)
  have ld: "writes_succeed mem_leveldb" by (simp add: writes_succeed_def mem_leveldb_def)
  note main = block_commit_serial [OF fresh db hs pre ok run ld, of "\<lambda>_. None", unfolded num]
  show ?thesis using run main [where height = "Height 5 0"] by (intro exI conjI) (assumption, blast)
qed

end
