(* ===== verification/Expiry_Keeper.thy ===== *)
theory Expiry_Keeper
  imports Block_Commit Rwset_Wire
begin

text \<open>
  Private data lives for a number of blocks that its collection configures
  (\<^verbatim>\<open>core/ledger/pvtdatapolicy/btlpolicy.go\<close>).  The keeper (\<^verbatim>\<open>expiry_keeper.go\<close>, \<^verbatim>\<open>expiry_schedule_builder.go\<close> and
  \<^verbatim>\<open>pvtdata_key_helper.go\<close> of \<^verbatim>\<open>core/ledger/kvledger/txmgmt/pvtstatepurgemgmt\<close>) stores which keys a block has
  committed and when they expire.  The lemmas show that it is a map from pairs of a committing and an
  expiring block to keys, that the keys expiring with a block are found by one scan, and which keys the
  updates of a block put into it.
\<close>

section \<open>Blocks to live\<close>

definition max_u64 :: u64 where
  "max_u64 = -1"

definition defaultBTL :: u64 where
  "defaultBTL = max_u64"

type_synonym btl_cache = "string \<times> string \<rightharpoonup> u64"

text \<open>The configuration of a collection is looked up by \<open>CollectionInfo\<close>; it may be missing.\<close>

definition GetBTL ::
  "(string \<Rightarrow> string \<Rightarrow> string + u64 option) \<Rightarrow> string \<Rightarrow> string \<Rightarrow> btl_cache \<Rightarrow> (string + u64) \<times> btl_cache" where
  "GetBTL CollectionInfo namespace collection cache =
     (case cache (namespace, collection) of
        Some btl \<Rightarrow> (Inr btl, cache)
      | None \<Rightarrow>
          (case CollectionInfo namespace collection of
             Inl e \<Rightarrow> (Inl e, cache)
           | Inr None \<Rightarrow> (Inl (''collection /'' @ namespace @ ''/'' @ collection @ '' could not be found''), cache)
           | Inr (Some btlConfigured) \<Rightarrow>
               let btl = (if btlConfigured > 0 then btlConfigured else defaultBTL)
               in (Inr btl, cache((namespace, collection) \<mapsto> btl))))"

definition ComputeExpiringBlock :: "string \<Rightarrow> string \<Rightarrow> u64 \<Rightarrow> u64 \<Rightarrow> u64" where
  "ComputeExpiringBlock namespace collection committingBlock btl =
     (let expiryBlk = committingBlock + btl + 1
      in if expiryBlk \<le> committingBlock then max_u64 else expiryBlk)"

definition GetExpiringBlock ::
  "(string \<Rightarrow> string \<Rightarrow> string + u64 option) \<Rightarrow> string \<Rightarrow> string \<Rightarrow> u64 \<Rightarrow> btl_cache \<Rightarrow> (string + u64) \<times> btl_cache" where
  "GetExpiringBlock CollectionInfo namespace collection committingBlock cache =
     (case GetBTL CollectionInfo namespace collection cache of
        (Inl e, cache) \<Rightarrow> (Inl e, cache)
      | (Inr btl, cache) \<Rightarrow> (Inr (ComputeExpiringBlock namespace collection committingBlock btl), cache))"

section \<open>Keys of private data\<close>

text \<open>The maps of a message that has been decoded without entries are nil.\<close>

record KeyAndHash =
  kh_Key :: string
  kh_Hash :: bytes

type_synonym Collections = "(string, KeyAndHash list) fmap option"
type_synonym PvtdataKeys = "(string, Collections) fmap option"

definition newCollections :: Collections where
  "newCollections = Some fmempty"

definition newPvtdataKeys :: PvtdataKeys where
  "newPvtdataKeys = Some fmempty"

definition getOrCreateCollections :: "string \<Rightarrow> PvtdataKeys \<Rightarrow> Collections go" where
  "getOrCreateCollections ns pvtdataKeys =
     (case pvtdataKeys of
        None \<Rightarrow> Panic
      | Some m \<Rightarrow> Return (case fmlookup m ns of Some colls \<Rightarrow> colls | None \<Rightarrow> newCollections))"

definition getOrCreateKeysAndHashes :: "string \<Rightarrow> Collections \<Rightarrow> KeyAndHash list go" where
  "getOrCreateKeysAndHashes coll colls =
     (case colls of
        None \<Rightarrow> Panic
      | Some m \<Rightarrow> Return (case fmlookup m coll of Some l \<Rightarrow> l | None \<Rightarrow> []))"

definition pk_add :: "string \<Rightarrow> string \<Rightarrow> string \<Rightarrow> bytes \<Rightarrow> PvtdataKeys \<Rightarrow> PvtdataKeys go" where
  "pk_add ns coll key keyhash pvtdataKeys =
     go_bind (getOrCreateCollections ns pvtdataKeys) (\<lambda>colls.
     go_bind (getOrCreateKeysAndHashes coll colls) (\<lambda>l.
       Return (map_option (fmupd ns (map_option (fmupd coll (l @ [\<lparr>kh_Key = key, kh_Hash = keyhash\<rparr>])) colls)) pvtdataKeys)))"

definition pk_list :: "PvtdataKeys \<Rightarrow> string \<Rightarrow> string \<Rightarrow> KeyAndHash list" where
  "pk_list pvtdataKeys ns coll =
     (case Option.bind (Option.bind pvtdataKeys (\<lambda>m. fmlookup m ns)) (\<lambda>colls. Option.bind colls (\<lambda>m. fmlookup m coll)) of
        None \<Rightarrow> [] | Some l \<Rightarrow> l)"

text \<open>The collections are visited in the order \<open>ord\<close>.\<close>

definition pk_addAll :: "(string \<times> string) list \<Rightarrow> PvtdataKeys \<Rightarrow> PvtdataKeys \<Rightarrow> PvtdataKeys go" where
  "pk_addAll ord toAdd pvtdataKeys =
     fold (\<lambda>(ns, coll) r. fold (\<lambda>k r. go_bind r (pk_add ns coll (kh_Key k) (kh_Hash k))) (pk_list toAdd ns coll) r) ord (Return pvtdataKeys)"

section \<open>The keeper\<close>

record expiryInfoKey =
  ek_committingBlk :: u64
  ek_expiryBlk :: u64

record expiryInfo =
  ei_expiryInfoKey :: expiryInfoKey
  ei_pvtdataKeys :: PvtdataKeys

record keys_codec =
  kc_Marshal :: "PvtdataKeys \<Rightarrow> string + bytes"
  kc_Unmarshal :: "bytes \<Rightarrow> string + PvtdataKeys"

record ('t, 'd) expiryKeeper =
  ek_ld :: "('t, 'd) leveldb"
  ek_dbName :: string
  ek_codec :: keys_codec

definition expiryPrefix :: char where
  "expiryPrefix = CHR ''1''"

definition encodeExpiryInfoKey :: "expiryInfoKey \<Rightarrow> bytes go" where
  "encodeExpiryInfoKey k =
     go_bind (EncodeOrderPreservingVarUint64 (ek_expiryBlk k)) (\<lambda>e.
     go_bind (EncodeOrderPreservingVarUint64 (ek_committingBlk k)) (\<lambda>c. Return (expiryPrefix # e @ c)))"

definition encodeKV :: "keys_codec \<Rightarrow> expiryInfo \<Rightarrow> (bytes \<times> bytes) res" where
  "encodeKV kc expinfo =
     res_bind (lift_go (encodeExpiryInfoKey (ei_expiryInfoKey expinfo))) (\<lambda>key.
     res_bind (lift_err (kc_Marshal kc (ei_pvtdataKeys expinfo))) (\<lambda>val. ret (key, val)))"

definition varint_msg :: "varint_error + 'a \<Rightarrow> string + 'a" where
  "varint_msg r = (case r of Inl e \<Rightarrow> Inl ''decoding of the number failed'' | Inr x \<Rightarrow> Inr x)"

definition decodeExpiryInfo :: "keys_codec \<Rightarrow> bytes \<Rightarrow> bytes \<Rightarrow> expiryInfo res" where
  "decodeExpiryInfo kc key val =
     (if key = [] then Panic
      else res_bind (lift_err (varint_msg (DecodeOrderPreservingVarUint64 (drop 1 key)))) (\<lambda>(expiryBlk, n).
           res_bind (lift_err (varint_msg (DecodeOrderPreservingVarUint64 (drop (n + 1) key)))) (\<lambda>(committingBlk, _).
           res_bind (lift_err (kc_Unmarshal kc val)) (\<lambda>pvtdataKeys.
             ret \<lparr>ei_expiryInfoKey = \<lparr>ek_committingBlk = committingBlk, ek_expiryBlk = expiryBlk\<rparr>, ei_pvtdataKeys = pvtdataKeys\<rparr>))))"

definition track :: "keys_codec \<Rightarrow> expiryInfo \<Rightarrow> lvUpdateBatch \<Rightarrow> lvUpdateBatch res" where
  "track kc expinfo b = res_bind (encodeKV kc expinfo) (\<lambda>(k, v). lift_go (lv_Put k (Some v) b))"

definition clear :: "expiryInfoKey \<Rightarrow> lvUpdateBatch \<Rightarrow> lvUpdateBatch res" where
  "clear k b = res_bind (lift_go (encodeExpiryInfoKey k)) (\<lambda>key. ret (lv_Delete key b))"

definition ek_update :: "('t, 'd) expiryKeeper \<Rightarrow> expiryInfo list \<Rightarrow> expiryInfoKey list \<Rightarrow> 't \<Rightarrow> 't res" where
  "ek_update ek toTrack toClear t =
     res_bind (fold_res (track (ek_codec ek)) toTrack (h_NewUpdateBatch (ek_dbName ek))) (\<lambda>b.
     res_bind (fold_res clear toClear b) (\<lambda>b.
       case h_WriteBatch (ek_ld ek) b t of (Some e, t) \<Rightarrow> err e | (None, t) \<Rightarrow> ret t))"

partial_function (option) retrieve_loop ::
  "('t, 'd) expiryKeeper \<Rightarrow> 'd \<Rightarrow> expiryInfo list \<Rightarrow> expiryInfo list res option" where
  "retrieve_loop ek itr listExpinfo =
     (let (more, itr) = it_Next (ek_ld ek) itr
      in if \<not> more then Some (ret listExpinfo)
         else case res_bind (lift_go (h_itr_Key (ek_ld ek) itr)) (\<lambda>key. decodeExpiryInfo (ek_codec ek) key (it_Value (ek_ld ek) itr)) of
                Panic \<Rightarrow> Some Panic
              | Return (Inl e) \<Rightarrow> Some (err e)
              | Return (Inr expinfo) \<Rightarrow> retrieve_loop ek itr (listExpinfo @ [expinfo]))"

definition ek_retrieve :: "('t, 'd) expiryKeeper \<Rightarrow> u64 \<Rightarrow> 't \<Rightarrow> expiryInfo list res option" where
  "ek_retrieve ek expiringAtBlkNum t =
     (case (encodeExpiryInfoKey \<lparr>ek_committingBlk = 0, ek_expiryBlk = expiringAtBlkNum\<rparr>,
            encodeExpiryInfoKey \<lparr>ek_committingBlk = 0, ek_expiryBlk = expiringAtBlkNum + 1\<rparr>) of
        (Return startKey, Return endKey) \<Rightarrow>
          (case h_GetIterator (ek_ld ek) (ek_dbName ek) t (Some startKey) (Some endKey) of
             Inl e \<Rightarrow> Some (err e)
           | Inr itr \<Rightarrow> retrieve_loop ek itr [])
      | _ \<Rightarrow> Some Panic)"

text \<open>An entry that is missing is decoded from nil, as a message without entries.\<close>

definition retrieveByExpiryKey :: "('t, 'd) expiryKeeper \<Rightarrow> expiryInfoKey \<Rightarrow> 't \<Rightarrow> expiryInfo res" where
  "retrieveByExpiryKey ek expiryKey t =
     res_bind (lift_go (encodeExpiryInfoKey expiryKey)) (\<lambda>key.
     res_bind (lift_err (h_Get (ek_ld ek) (ek_dbName ek) t key)) (\<lambda>val.
       decodeExpiryInfo (ek_codec ek) key (case val of None \<Rightarrow> [] | Some v \<Rightarrow> v)))"

section \<open>The schedule of a block\<close>

type_synonym schedule = "expiryInfoKey \<rightharpoonup> PvtdataKeys"

abbreviation neverExpires :: "u64 \<Rightarrow> bool" where
  "neverExpires expiryBlk \<equiv> expiryBlk = max_u64"

type_synonym btl_policy = "string \<Rightarrow> string \<Rightarrow> u64 \<Rightarrow> string + u64"

definition builder_add ::
  "btl_policy \<Rightarrow> string \<Rightarrow> string \<Rightarrow> string \<Rightarrow> bytes \<Rightarrow> VersionedValue \<Rightarrow> schedule \<Rightarrow> schedule res" where
  "builder_add btl ns coll key keyHash vv entries =
     (case vv_Version vv of
        None \<Rightarrow> Panic
      | Some ver \<Rightarrow>
          res_bind (lift_err (btl ns coll (BlockNum ver))) (\<lambda>expiryBlk.
            if IsDelete vv \<or> neverExpires expiryBlk then ret entries
            else let k = \<lparr>ek_committingBlk = BlockNum ver, ek_expiryBlk = expiryBlk\<rparr>;
                     pvtdataKeys = (case entries k of None \<Rightarrow> newPvtdataKeys | Some p \<Rightarrow> p)
                 in res_bind (lift_go (pk_add ns coll key keyHash pvtdataKeys)) (\<lambda>p. ret (entries(k \<mapsto> p)))))"

text \<open>The entries are visited in the order \<open>eord\<close>.\<close>

definition getExpiryInfo :: "expiryInfoKey list \<Rightarrow> schedule \<Rightarrow> expiryInfo list" where
  "getExpiryInfo eord entries =
     concat (map (\<lambda>k. case entries k of None \<Rightarrow> [] | Some p \<Rightarrow> [\<lparr>ei_expiryInfoKey = k, ei_pvtdataKeys = p\<rparr>]) eord)"

text \<open>The private updates are visited in the order \<open>pord\<close>, the hashed ones that are left in the order \<open>hord\<close>.\<close>

definition schedule_pvt ::
  "btl_policy \<Rightarrow> (string \<Rightarrow> bytes) \<Rightarrow> UpdateMap \<Rightarrow> string \<times> string \<times> string \<Rightarrow>
     schedule \<times> (string \<times> string \<times> string \<rightharpoonup> VersionedValue) \<Rightarrow> (schedule \<times> (string \<times> string \<times> string \<rightharpoonup> VersionedValue)) res" where
  "schedule_pvt btl ComputeStringHash pvtUpdates = (\<lambda>(ns, coll, key) (entries, hashedUpdateKeys).
     case um_Get pvtUpdates ns coll key of
       None \<Rightarrow> ret (entries, hashedUpdateKeys)
     | Some vv \<Rightarrow>
         let keyHash = ComputeStringHash key
         in res_bind (builder_add btl ns coll key keyHash vv entries) (\<lambda>entries.
              ret (entries, hashedUpdateKeys((ns, coll, keyHash) := None))))"

definition schedule_hashed ::
  "btl_policy \<Rightarrow> (string \<times> string \<times> string \<rightharpoonup> VersionedValue) \<Rightarrow> string \<times> string \<times> string \<Rightarrow> schedule \<Rightarrow> schedule res" where
  "schedule_hashed btl hashedUpdateKeys = (\<lambda>(ns, coll, keyHash) entries.
     case hashedUpdateKeys (ns, coll, keyHash) of
       None \<Rightarrow> ret entries
     | Some vv \<Rightarrow> builder_add btl ns coll '''' keyHash vv entries)"

definition buildExpirySchedule ::
  "btl_policy \<Rightarrow> (string \<Rightarrow> bytes) \<Rightarrow> um_visit \<Rightarrow> um_visit \<Rightarrow> expiryInfoKey list \<Rightarrow> UpdateMap \<Rightarrow> UpdateMap \<Rightarrow> expiryInfo list res" where
  "buildExpirySchedule btl ComputeStringHash pord hord eord pvtUpdates hashedUpdates =
     res_bind (fold_res (schedule_pvt btl ComputeStringHash pvtUpdates) pord (Map.empty, ToCompositeKeyMap hord hashedUpdates)) (\<lambda>(entries, hashedUpdateKeys).
     res_bind (fold_res (schedule_hashed btl hashedUpdateKeys) hord entries) (\<lambda>entries.
       ret (getExpiryInfo eord entries)))"

definition UpdateExpiryInfo ::
  "('t, 'd) expiryKeeper \<Rightarrow> btl_policy \<Rightarrow> (string \<Rightarrow> bytes) \<Rightarrow> um_visit \<Rightarrow> um_visit \<Rightarrow> expiryInfoKey list \<Rightarrow> UpdateMap \<Rightarrow> UpdateMap \<Rightarrow> 't \<Rightarrow> 't res" where
  "UpdateExpiryInfo ek btl ComputeStringHash pord hord eord pvtUpdates hashedUpdates t =
     res_bind (buildExpirySchedule btl ComputeStringHash pord hord eord pvtUpdates hashedUpdates) (\<lambda>expiryInfoUpdates.
       ek_update ek expiryInfoUpdates [] t)"

text \<open>The hashes of a snapshot enter the keeper one by one.\<close>

definition ConsumeSnapshotData ::
  "('t, 'd) expiryKeeper \<Rightarrow> btl_policy \<Rightarrow> string \<Rightarrow> string \<Rightarrow> bytes \<Rightarrow> Height \<Rightarrow> 't \<Rightarrow> 't res" where
  "ConsumeSnapshotData ek btl namespace coll keyHash ver t =
     (case btl namespace coll (BlockNum ver) of
        Inl e \<Rightarrow> err (''error from btlpolicy: '' @ e)
      | Inr expiringBlock \<Rightarrow>
          if neverExpires expiringBlock then ret t
          else let key = \<lparr>ek_committingBlk = BlockNum ver, ek_expiryBlk = expiringBlock\<rparr>
               in case retrieveByExpiryKey ek key t of
                    Panic \<Rightarrow> Panic
                  | Return (Inl e) \<Rightarrow> err (''error from bookkeeper: '' @ e)
                  | Return (Inr expInfo) \<Rightarrow>
                      let pvtdataKeys = (case ei_pvtdataKeys expInfo of None \<Rightarrow> newPvtdataKeys | Some m \<Rightarrow> Some m)
                      in res_bind (lift_go (pk_add namespace coll '''' keyHash pvtdataKeys)) (\<lambda>pvtdataKeys.
                           ek_update ek [expInfo\<lparr>ei_pvtdataKeys := pvtdataKeys\<rparr>] [] t))"

section \<open>When private data expires\<close>

lemma ComputeExpiringBlock_eq:
  "ComputeExpiringBlock ns coll c btl = (if unat c + unat btl + 1 < 2 ^ 64 then c + btl + 1 else max_u64)"
proof -
  have b: "unat c < 2 ^ 64" "unat btl < 2 ^ 64"
    using unsigned_less [of c, where ?'a = nat] unsigned_less [of btl, where ?'a = nat] by simp_all
  have u: "unat (c + btl + 1) = (unat c + unat btl + 1) mod 2 ^ 64" by (simp add: unat_word_ariths mod_simps)
  show ?thesis
  proof (cases "unat c + unat btl + 1 < 2 ^ 64")
    case True
    then show ?thesis using u by (simp add: ComputeExpiringBlock_def Let_def word_le_nat_alt)
  next
    case False
    then have "unat (c + btl + 1) = unat c + unat btl + 1 - 2 ^ 64" unfolding u using b by (simp add: mod_if)
    then have "unat (c + btl + 1) \<le> unat c" using b by linarith
    then show ?thesis using False by (simp add: ComputeExpiringBlock_def Let_def word_le_nat_alt)
  qed
qed

text \<open>What the users of a policy rely on: data that expires does so after the block that commits it.\<close>

locale expiring =
  fixes btl :: btl_policy
  assumes later: "btl ns coll c = Inr e \<Longrightarrow> e \<noteq> max_u64 \<Longrightarrow> c < e"

lemma ComputeExpiringBlock_later: "ComputeExpiringBlock ns coll c b \<noteq> max_u64 \<Longrightarrow> c < ComputeExpiringBlock ns coll c b"
  by (auto simp: ComputeExpiringBlock_def Let_def split: if_splits)

interpretation lscc: expiring "\<lambda>ns coll c. fst (GetExpiringBlock CollectionInfo ns coll c cache)" for CollectionInfo cache
  by unfold_locales (auto simp: GetExpiringBlock_def dest: ComputeExpiringBlock_later split: prod.splits sum.splits)

text \<open>A cache that holds what the configuration says.\<close>

definition configured :: "u64 \<Rightarrow> u64" where
  "configured btlConfigured = (if btlConfigured > 0 then btlConfigured else defaultBTL)"

definition cache_ok :: "(string \<Rightarrow> string \<Rightarrow> string + u64 option) \<Rightarrow> btl_cache \<Rightarrow> bool" where
  "cache_ok CollectionInfo cache \<longleftrightarrow>
     (\<forall>ns coll b. cache (ns, coll) = Some b \<longrightarrow> (\<exists>x. CollectionInfo ns coll = Inr (Some x) \<and> b = configured x))"

lemma cache_okD: "cache_ok CollectionInfo cache \<Longrightarrow> cache (ns, coll) = Some b \<Longrightarrow> \<exists>x. CollectionInfo ns coll = Inr (Some x) \<and> b = configured x"
  unfolding cache_ok_def by blast

lemma GetBTL_configured:
  assumes "cache_ok CollectionInfo cache" "CollectionInfo ns coll = Inr (Some x)"
  shows "\<exists>cache'. GetBTL CollectionInfo ns coll cache = (Inr (configured x), cache') \<and> cache_ok CollectionInfo cache'"
proof (cases "cache (ns, coll)")
  case None
  have "cache_ok CollectionInfo (cache((ns, coll) \<mapsto> configured x))" using assms by (auto simp: cache_ok_def)
  then show ?thesis using assms None by (simp add: GetBTL_def configured_def Let_def)
next
  case (Some b)
  then show ?thesis using assms cache_okD [OF assms(1) Some] by (simp add: GetBTL_def)
qed

text \<open>C35: Private data committed with a block expires the configured number of blocks after it, whatever the cache
  of the policy holds: data of a collection that lives for \<open>btl\<close> blocks expires with block \<open>c + btl + 1\<close>; data of a
  collection without a limit, or whose expiring block does not fit into 64 bits, never expires.\<close>

theorem expiring_block:
  assumes "cache_ok CollectionInfo cache" "CollectionInfo ns coll = Inr (Some btl)"
  shows "\<exists>cache'. GetExpiringBlock CollectionInfo ns coll c cache =
      (Inr (if btl > 0 \<and> unat c + unat btl + 1 < 2 ^ 64 then c + btl + 1 else max_u64), cache') \<and> cache_ok CollectionInfo cache'"
proof -
  obtain cache' where c: "GetBTL CollectionInfo ns coll cache = (Inr (configured btl), cache')" "cache_ok CollectionInfo cache'"
    using GetBTL_configured [OF assms] by blast
  have "unat max_u64 = 2 ^ 64 - 1" by (simp add: max_u64_def unsigned_minus_1_eq_mask mask_eq_exp_minus_1)
  then have "ComputeExpiringBlock ns coll c (configured btl) = (if btl > 0 \<and> unat c + unat btl + 1 < 2 ^ 64 then c + btl + 1 else max_u64)"
    by (simp add: ComputeExpiringBlock_eq configured_def defaultBTL_def)
  then show ?thesis using c by (simp add: GetExpiringBlock_def)
qed

theorem expiring_block_witness:
  "\<exists>cache'. GetExpiringBlock (\<lambda>ns coll. Inr (Some 4)) ''cc'' ''coll'' 50 Map.empty = (Inr 55, cache') \<and> cache_ok (\<lambda>ns coll. Inr (Some 4)) cache'"
  using expiring_block [of "\<lambda>ns coll. Inr (Some 4)" Map.empty "''cc''" "''coll''" 4 50] by (simp add: cache_ok_def)

section \<open>Lists of keys\<close>

text \<open>
  Keys that protobuf returns as they were marshalled: no map is empty, and the texts are such as it accepts,
  \<open>T\<close>.
\<close>

definition maps_ok :: "(string \<Rightarrow> bool) \<Rightarrow> PvtdataKeys \<Rightarrow> bool" where
  "maps_ok T pk \<longleftrightarrow>
     (\<exists>m. pk = Some m \<and> (\<forall>ns colls. fmlookup m ns = Some colls \<longrightarrow> T ns \<and>
        (\<exists>cm. colls = Some cm \<and> cm \<noteq> fmempty \<and> (\<forall>coll l. fmlookup cm coll = Some l \<longrightarrow> T coll \<and> (\<forall>k \<in> set l. T (kh_Key k))))))"

definition keys_ok :: "(string \<Rightarrow> bool) \<Rightarrow> PvtdataKeys \<Rightarrow> bool" where
  "keys_ok T pk \<longleftrightarrow> maps_ok T pk \<and> pk \<noteq> Some fmempty"

lemma maps_ok_new [simp]: "maps_ok T newPvtdataKeys"
  by (simp add: maps_ok_def newPvtdataKeys_def)

lemma pk_list_new [simp]: "pk_list newPvtdataKeys ns coll = []" "pk_list None ns coll = []"
  by (simp_all add: pk_list_def newPvtdataKeys_def)

lemma fmupd_nonempty [simp]: "fmupd k v m \<noteq> fmempty"
  by (metis fmempty_lookup fmupd_lookup option.distinct(1))

lemma pk_add_ok:
  assumes pk: "maps_ok T pk" and t: "T ns" "T coll" "T key"
  shows "\<exists>pk'. pk_add ns coll key h pk = Return pk' \<and> keys_ok T pk' \<and>
    (\<forall>ns' coll'. pk_list pk' ns' coll' =
       pk_list pk ns' coll' @ (if ns' = ns \<and> coll' = coll then [\<lparr>kh_Key = key, kh_Hash = h\<rparr>] else []))"
proof -
  obtain m where m: "pk = Some m" "\<And>ns colls. fmlookup m ns = Some colls \<Longrightarrow> T ns \<and>
        (\<exists>cm. colls = Some cm \<and> cm \<noteq> fmempty \<and> (\<forall>coll l. fmlookup cm coll = Some l \<longrightarrow> T coll \<and> (\<forall>k \<in> set l. T (kh_Key k))))"
    using pk unfolding maps_ok_def by blast
  let ?cs = "case fmlookup m ns of Some colls \<Rightarrow> colls | None \<Rightarrow> newCollections"
  obtain cm where cm: "?cs = Some cm" "\<And>coll l. fmlookup cm coll = Some l \<Longrightarrow> T coll \<and> (\<forall>k \<in> set l. T (kh_Key k))"
    using m(2) [of ns] by (cases "fmlookup m ns") (auto simp: newCollections_def)
  define l where "l = (case fmlookup cm coll of Some l \<Rightarrow> l | None \<Rightarrow> [])"
  let ?cm = "fmupd coll (l @ [\<lparr>kh_Key = key, kh_Hash = h\<rparr>]) cm"
  let ?pk = "Some (fmupd ns (Some ?cm) m)"
  have r: "pk_add ns coll key h pk = Return ?pk"
    by (simp add: pk_add_def getOrCreateCollections_def getOrCreateKeysAndHashes_def m(1) cm(1) l_def)
  have l: "\<forall>k \<in> set l. T (kh_Key k)" using cm(2) [of coll] by (cases "fmlookup cm coll") (auto simp: l_def)
  have "T coll' \<and> (\<forall>k \<in> set l'. T (kh_Key k))" if "fmlookup ?cm coll' = Some l'" for coll' l'
    using that l t cm(2) [of coll' l'] by (auto split: if_splits)
  then have "maps_ok T ?pk" unfolding maps_ok_def using m(2) t(1) by auto
  moreover have "pk_list ?pk ns' coll' = pk_list pk ns' coll' @ (if ns' = ns \<and> coll' = coll then [\<lparr>kh_Key = key, kh_Hash = h\<rparr>] else [])" for ns' coll'
    using cm(1) by (cases "fmlookup m ns") (auto simp: pk_list_def m(1) newCollections_def l_def split: option.split)
  ultimately show ?thesis using r by (auto simp: keys_ok_def)
qed

definition pk_visits :: "(string \<times> string) list \<Rightarrow> PvtdataKeys \<Rightarrow> bool" where
  "pk_visits ord pk \<longleftrightarrow> distinct ord \<and> (\<forall>ns coll. pk_list pk ns coll \<noteq> [] \<longrightarrow> (ns, coll) \<in> set ord)"

lemma pk_texts:
  assumes "maps_ok T pk" "k \<in> set (pk_list pk ns coll)"
  shows "T ns \<and> T coll \<and> T (kh_Key k)"
proof -
  obtain m where m: "pk = Some m" "\<And>ns colls. fmlookup m ns = Some colls \<Longrightarrow> T ns \<and>
        (\<exists>cm. colls = Some cm \<and> cm \<noteq> fmempty \<and> (\<forall>coll l. fmlookup cm coll = Some l \<longrightarrow> T coll \<and> (\<forall>k \<in> set l. T (kh_Key k))))"
    using assms(1) unfolding maps_ok_def by blast
  from assms(2) obtain colls l where "fmlookup m ns = Some colls" "Option.bind colls (\<lambda>m. fmlookup m coll) = Some l" "k \<in> set l"
    by (cases "fmlookup m ns"; cases "Option.bind (fmlookup m ns) (\<lambda>colls. Option.bind colls (\<lambda>m. fmlookup m coll))") (simp_all add: pk_list_def m(1))
  then show ?thesis using m(2) [of ns colls] by auto
qed

lemma add_list_ok:
  assumes "T ns" "T coll"
  shows "keys_ok T pk \<Longrightarrow> \<forall>k \<in> set l. T (kh_Key k) \<Longrightarrow>
    \<exists>pk'. fold (\<lambda>k r. go_bind r (pk_add ns coll (kh_Key k) (kh_Hash k))) l (Return pk) = Return pk' \<and> keys_ok T pk' \<and>
      (\<forall>ns' coll'. pk_list pk' ns' coll' = pk_list pk ns' coll' @ (if ns' = ns \<and> coll' = coll then l else []))"
proof (induction l arbitrary: pk)
  case (Cons k l)
  obtain pk1 where 1: "pk_add ns coll (kh_Key k) (kh_Hash k) pk = Return pk1" "keys_ok T pk1"
    "\<forall>ns' coll'. pk_list pk1 ns' coll' = pk_list pk ns' coll' @ (if ns' = ns \<and> coll' = coll then [k] else [])"
    using pk_add_ok [of T pk ns coll "kh_Key k" "kh_Hash k"] Cons.prems assms by (auto simp: keys_ok_def)
  from Cons.IH [OF 1(2)] Cons.prems(2) 1(1,3) show ?case by auto
qed simp

lemma pk_addAll_ok:
  assumes a: "maps_ok T toAdd" and v: "pk_visits ord toAdd" and pk: "keys_ok T pk"
  shows "\<exists>pk'. pk_addAll ord toAdd pk = Return pk' \<and> keys_ok T pk' \<and>
    (\<forall>ns coll. pk_list pk' ns coll = pk_list pk ns coll @ pk_list toAdd ns coll)"
proof -
  have "\<exists>pk'. fold (\<lambda>(ns, coll) r. fold (\<lambda>k r. go_bind r (pk_add ns coll (kh_Key k) (kh_Hash k))) (pk_list toAdd ns coll) r) ord (Return pk) =
      Return pk' \<and> keys_ok T pk' \<and>
      (\<forall>ns coll. pk_list pk' ns coll = pk_list pk ns coll @ (if (ns, coll) \<in> set ord then pk_list toAdd ns coll else []))"
    if "distinct ord" "keys_ok T pk" for ord pk
    using that
  proof (induction ord arbitrary: pk)
    case (Cons x ord)
    obtain ns coll where x: "x = (ns, coll)" by fastforce
    obtain pk1 where 1: "fold (\<lambda>k r. go_bind r (pk_add ns coll (kh_Key k) (kh_Hash k))) (pk_list toAdd ns coll) (Return pk) = Return pk1" "keys_ok T pk1"
      "\<forall>ns' coll'. pk_list pk1 ns' coll' = pk_list pk ns' coll' @ (if ns' = ns \<and> coll' = coll then pk_list toAdd ns coll else [])"
    proof (cases "pk_list toAdd ns coll = []")
      case True
      then show ?thesis using that [of pk] Cons.prems(2) by simp
    next
      case False
      then have "T ns" "T coll" "\<forall>k \<in> set (pk_list toAdd ns coll). T (kh_Key k)"
        using pk_texts [OF a, of "hd (pk_list toAdd ns coll)" ns coll] pk_texts [OF a, of _ ns coll] by auto
      then show ?thesis using that add_list_ok [OF _ _ Cons.prems(2)] by blast
    qed
    from Cons.IH [OF _ 1(2)] Cons.prems(1) 1(1,3) show ?case by (auto simp: x)
  qed simp
  from this [of ord pk] obtain pk' where pk': "pk_addAll ord toAdd pk = Return pk'" "keys_ok T pk'"
    "\<forall>ns coll. pk_list pk' ns coll = pk_list pk ns coll @ (if (ns, coll) \<in> set ord then pk_list toAdd ns coll else [])"
    using v pk unfolding pk_addAll_def pk_visits_def by blast
  have "pk_list toAdd ns coll = []" if "(ns, coll) \<notin> set ord" for ns coll
    using v that unfolding pk_visits_def by blast
  then have "pk_list pk' ns coll = pk_list pk ns coll @ pk_list toAdd ns coll" for ns coll
    using pk'(3) by (cases "(ns, coll) \<in> set ord") simp_all
  with pk'(1,2) show ?thesis by blast
qed

section \<open>The keeper is a map\<close>

definition ekey :: "expiryInfoKey \<Rightarrow> bytes" where
  "ekey k = expiryPrefix # enc (ek_expiryBlk k) @ enc (ek_committingBlk k)"

lemma encodeExpiryInfoKey_eq: "encodeExpiryInfoKey k = Return (ekey k)"
  by (simp add: encodeExpiryInfoKey_def ekey_def Encode_eq)

lemma enc_append_eq: "enc n @ a = enc m @ b \<longleftrightarrow> n = m \<and> a = b"
  using Decode_enc [of n a] Decode_enc [of m b] by auto

lemma enc_eq: "enc n = enc m \<longleftrightarrow> n = m"
  using enc_append_eq [of n "[]" m "[]"] by simp

lemma ekey_inj: "ekey k = ekey k' \<longleftrightarrow> k = k'"
  by (auto simp: ekey_def enc_append_eq enc_eq)

lemma enc_zero: "\<not> enc c < enc 0"
  using enc_append_less [of c "[]" 0 "[]"] by simp

lemma ekey_range:
  assumes "e \<noteq> max_u64"
  shows "ekey \<lparr>ek_committingBlk = 0, ek_expiryBlk = e\<rparr> \<le> ekey k \<and> ekey k < ekey \<lparr>ek_committingBlk = 0, ek_expiryBlk = e + 1\<rparr> \<longleftrightarrow> ek_expiryBlk k = e"
proof -
  have "1 + e \<noteq> 0" using assms by (metis add.commute eq_neg_iff_add_eq_0 max_u64_def)
  then have "unat (e + 1) = Suc (unat e)" using unatSuc [of e] by (simp add: add.commute)
  then have e: "a < e + 1 \<longleftrightarrow> a \<le> e" for a :: u64
    by (simp add: word_less_nat_alt word_le_nat_alt less_Suc_eq_le)
  have l: "ekey k < ekey \<lparr>ek_committingBlk = 0, ek_expiryBlk = b\<rparr> \<longleftrightarrow> ek_expiryBlk k < b" for b
    by (simp add: ekey_def enc_append_less enc_zero)
  have "ekey \<lparr>ek_committingBlk = 0, ek_expiryBlk = e\<rparr> \<le> ekey k \<longleftrightarrow> e \<le> ek_expiryBlk k"
    using l [of e] by (metis not_less)
  then show ?thesis using l [of "e + 1"] e [of "ek_expiryBlk k"] by auto
qed

text \<open>What tracking and clearing entries does to a schedule.\<close>

primrec tracked :: "expiryInfo list \<Rightarrow> schedule \<Rightarrow> schedule" where
  "tracked [] f = f"
| "tracked (i # is) f = tracked is (f(ei_expiryInfoKey i \<mapsto> ei_pvtdataKeys i))"

primrec cleared :: "expiryInfoKey list \<Rightarrow> schedule \<Rightarrow> schedule" where
  "cleared [] f = f"
| "cleared (k # ks) f = cleared ks (f(k := None))"

text \<open>The schedule that a store holds; every key and value it has decodes.\<close>

definition sched_in :: "string \<Rightarrow> keys_codec \<Rightarrow> (bytes, bytes) fmap \<Rightarrow> schedule" where
  "sched_in dbName kc m k =
     Option.bind (fmlookup m (constructLevelKey dbName (ekey k))) (\<lambda>b. case kc_Unmarshal kc b of Inl _ \<Rightarrow> None | Inr pk \<Rightarrow> Some pk)"

definition entries_in_ok :: "string \<Rightarrow> keys_codec \<Rightarrow> (string \<Rightarrow> bool) \<Rightarrow> (bytes, bytes) fmap \<Rightarrow> bool" where
  "entries_in_ok dbName kc T m \<longleftrightarrow>
     (\<forall>x b. fmlookup m (constructLevelKey dbName x) = Some b \<longrightarrow> (\<exists>k pk. x = ekey k \<and> kc_Unmarshal kc b = Inr pk \<and> keys_ok T pk))"

text \<open>
  The keeper on a store that does what goleveldb promises, with a marshalling that returns what it was given.
\<close>

locale keeper = level_store ld items view
  for ld :: "('t, 'd) leveldb" and items :: "'t \<Rightarrow> (bytes, bytes) fmap" and view :: "'d \<Rightarrow> (bytes \<times> bytes) list \<times> nat" +
  fixes dbName :: string and kc :: keys_codec and T :: "string \<Rightarrow> bool"
  assumes dbName: "NUL \<notin> set dbName"
    and Marshal: "keys_ok T pk \<Longrightarrow> \<exists>b. kc_Marshal kc pk = Inr b \<and> kc_Unmarshal kc b = Inr pk"
    and Unmarshal_nil: "kc_Unmarshal kc [] = Inr None"
begin

abbreviation ek :: "('t, 'd) expiryKeeper" where "ek \<equiv> \<lparr>ek_ld = ld, ek_dbName = dbName, ek_codec = kc\<rparr>"

abbreviation sched_of :: "(bytes, bytes) fmap \<Rightarrow> schedule" where "sched_of \<equiv> sched_in dbName kc"
abbreviation entries_ok :: "(bytes, bytes) fmap \<Rightarrow> bool" where "entries_ok \<equiv> entries_in_ok dbName kc T"
abbreviation sched :: "'t \<Rightarrow> schedule" where "sched t \<equiv> sched_of (items t)"
abbreviation keeper_ok :: "'t \<Rightarrow> bool" where "keeper_ok t \<equiv> entries_ok (items t)"

lemma entries_okD:
  "entries_ok m \<Longrightarrow> fmlookup m (constructLevelKey dbName x) = Some b \<Longrightarrow> \<exists>k pk. x = ekey k \<and> kc_Unmarshal kc b = Inr pk \<and> keys_ok T pk \<and> sched_of m k = Some pk"
  unfolding entries_in_ok_def sched_in_def by fastforce

lemma schedD:
  assumes "sched_of m k = Some pk"
  obtains b where "fmlookup m (constructLevelKey dbName (ekey k)) = Some b" "kc_Unmarshal kc b = Inr pk"
  using assms unfolding sched_in_def by (cases "fmlookup m (constructLevelKey dbName (ekey k))") (auto split: sum.splits)

lemma sched_keys_ok: "entries_ok m \<Longrightarrow> sched_of m k = Some pk \<Longrightarrow> keys_ok T pk"
  by (elim schedD) (auto dest: entries_okD)

lemma key_eq: "constructLevelKey dbName x = constructLevelKey dbName y \<longleftrightarrow> x = y"
  using constructLevelKey_inj [OF dbName dbName] by simp

lemma put_step:
  assumes "entries_ok m" "kc_Unmarshal kc b = Inr pk" "keys_ok T pk"
  shows "entries_ok (batch_step (BPut (constructLevelKey dbName (ekey k)) b) m) \<and>
    sched_of (batch_step (BPut (constructLevelKey dbName (ekey k)) b) m) = (sched_of m)(k \<mapsto> pk)"
  using assms by (auto simp: entries_in_ok_def sched_in_def key_eq ekey_inj fun_eq_iff)

lemma delete_step:
  assumes "entries_ok m"
  shows "entries_ok (batch_step (BDelete (constructLevelKey dbName (ekey k))) m) \<and>
    sched_of (batch_step (BDelete (constructLevelKey dbName (ekey k))) m) = (sched_of m)(k := None)"
  using assms by (auto simp: entries_in_ok_def sched_in_def key_eq ekey_inj fun_eq_iff)


lemma track_all:
  assumes "\<forall>i \<in> set toTrack. keys_ok T (ei_pvtdataKeys i)" "lv_dbName b = dbName"
  shows "\<exists>b'. fold_res (track kc) toTrack b = ret b' \<and> lv_dbName b' = dbName \<and>
    (\<forall>m. entries_ok (fold batch_step (lv_leveldbBatch b) m) \<longrightarrow>
       entries_ok (fold batch_step (lv_leveldbBatch b') m) \<and>
       sched_of (fold batch_step (lv_leveldbBatch b') m) = tracked toTrack (sched_of (fold batch_step (lv_leveldbBatch b) m)))"
  using assms
proof (induction toTrack arbitrary: b)
  case (Cons i toTrack)
  obtain v where v: "kc_Marshal kc (ei_pvtdataKeys i) = Inr v" "kc_Unmarshal kc v = Inr (ei_pvtdataKeys i)"
    using Marshal Cons.prems(1) by fastforce
  let ?k = "constructLevelKey dbName (ekey (ei_expiryInfoKey i))"
  obtain b1 where b1: "track kc i b = ret b1" "lv_dbName b1 = dbName" "lv_leveldbBatch b1 = lv_leveldbBatch b @ [BPut ?k v]"
    using v Cons.prems(2) by (simp add: track_def encodeKV_def encodeExpiryInfoKey_eq lv_Put_def Let_def)
  obtain b' where b': "fold_res (track kc) toTrack b1 = ret b'" "lv_dbName b' = dbName"
    "\<forall>m. entries_ok (fold batch_step (lv_leveldbBatch b1) m) \<longrightarrow>
       entries_ok (fold batch_step (lv_leveldbBatch b') m) \<and>
       sched_of (fold batch_step (lv_leveldbBatch b') m) = tracked toTrack (sched_of (fold batch_step (lv_leveldbBatch b1) m))"
    using Cons.IH [OF _ b1(2)] Cons.prems(1) by (metis list.set_intros(2))
  have "entries_ok (fold batch_step (lv_leveldbBatch b') m) \<and>
      sched_of (fold batch_step (lv_leveldbBatch b') m) = tracked (i # toTrack) (sched_of (fold batch_step (lv_leveldbBatch b) m))"
    if "entries_ok (fold batch_step (lv_leveldbBatch b) m)" for m
    using put_step [OF that v(2), of "ei_expiryInfoKey i"] Cons.prems(1) b'(3) [rule_format, of m] unfolding b1(3) by simp
  then show ?case using b1(1) b'(1,2) by simp
qed simp

lemma clear_all:
  assumes "lv_dbName b = dbName"
  shows "\<exists>b'. fold_res clear toClear b = ret b' \<and> lv_dbName b' = dbName \<and>
    (\<forall>m. entries_ok (fold batch_step (lv_leveldbBatch b) m) \<longrightarrow>
       entries_ok (fold batch_step (lv_leveldbBatch b') m) \<and>
       sched_of (fold batch_step (lv_leveldbBatch b') m) = cleared toClear (sched_of (fold batch_step (lv_leveldbBatch b) m)))"
  using assms
proof (induction toClear arbitrary: b)
  case (Cons k toClear)
  let ?b = "lv_Delete (ekey k) b"
  have b1: "clear k b = ret ?b" "lv_dbName ?b = dbName" "lv_leveldbBatch ?b = lv_leveldbBatch b @ [BDelete (constructLevelKey dbName (ekey k))]"
    using Cons.prems by (simp_all add: clear_def encodeExpiryInfoKey_eq lv_Delete_def Let_def)
  obtain b' where b': "fold_res clear toClear ?b = ret b'" "lv_dbName b' = dbName"
    "\<forall>m. entries_ok (fold batch_step (lv_leveldbBatch ?b) m) \<longrightarrow>
       entries_ok (fold batch_step (lv_leveldbBatch b') m) \<and>
       sched_of (fold batch_step (lv_leveldbBatch b') m) = cleared toClear (sched_of (fold batch_step (lv_leveldbBatch ?b) m))"
    using Cons.IH [OF b1(2)] by blast
  have "entries_ok (fold batch_step (lv_leveldbBatch b') m) \<and>
      sched_of (fold batch_step (lv_leveldbBatch b') m) = cleared (k # toClear) (sched_of (fold batch_step (lv_leveldbBatch b) m))"
    if "entries_ok (fold batch_step (lv_leveldbBatch b) m)" for m
    using delete_step [OF that, of k] b'(3) [rule_format, of m] unfolding b1(3) by simp
  then show ?case using b1(1) b'(1,2) by simp
qed simp

lemma ek_update_eq:
  assumes "writes_succeed ld" "keeper_ok t" "\<forall>i \<in> set toTrack. keys_ok T (ei_pvtdataKeys i)"
  shows "\<exists>t'. ek_update ek toTrack toClear t = ret t' \<and> keeper_ok t' \<and> sched t' = cleared toClear (tracked toTrack (sched t))"
proof -
  obtain b where b: "fold_res (track kc) toTrack (h_NewUpdateBatch dbName) = ret b" "lv_dbName b = dbName"
    "\<forall>m. entries_ok m \<longrightarrow> entries_ok (fold batch_step (lv_leveldbBatch b) m) \<and> sched_of (fold batch_step (lv_leveldbBatch b) m) = tracked toTrack (sched_of m)"
    using track_all [OF assms(3), of "h_NewUpdateBatch dbName"] by (auto simp: h_NewUpdateBatch_def)
  obtain b' where b': "fold_res clear toClear b = ret b'"
    "\<forall>m. entries_ok (fold batch_step (lv_leveldbBatch b) m) \<longrightarrow> entries_ok (fold batch_step (lv_leveldbBatch b') m) \<and>
       sched_of (fold batch_step (lv_leveldbBatch b') m) = cleared toClear (sched_of (fold batch_step (lv_leveldbBatch b) m))"
    using clear_all [OF b(2)] by blast
  have "\<exists>t'. h_WriteBatch ld b' t = (None, t') \<and> items t' = fold batch_step (lv_leveldbBatch b') (items t)"
  proof (cases "lv_leveldbBatch b' = []")
    case False
    obtain t' where "ld_Write ld (lv_leveldbBatch b') t = Inr t'" using assms(1) unfolding writes_succeed_def by blast
    then show ?thesis using False Write by (simp add: h_WriteBatch_def DB_WriteBatch_def)
  qed (simp add: h_WriteBatch_def)
  then show ?thesis using b(1,3) b' assms(2) by (auto simp: ek_update_def)
qed

end

lemma expiryInfo_fields: "\<lparr>ei_expiryInfoKey = ei_expiryInfoKey i, ei_pvtdataKeys = ei_pvtdataKeys i\<rparr> = i"
  by (cases i) simp

context keeper
begin

lemma decode_entry: "kc_Unmarshal kc b = Inr pk \<Longrightarrow> decodeExpiryInfo kc (ekey k) b = ret \<lparr>ei_expiryInfoKey = k, ei_pvtdataKeys = pk\<rparr>"
proof -
  assume u: "kc_Unmarshal kc b = Inr pk"
  have 1: "DecodeOrderPreservingVarUint64 (drop 1 (ekey k)) = Inr (ek_expiryBlk k, length (enc (ek_expiryBlk k)))"
    using Decode_enc [of "ek_expiryBlk k" "enc (ek_committingBlk k)"] by (simp add: ekey_def)
  have "drop (length (enc (ek_expiryBlk k)) + 1) (ekey k) = enc (ek_committingBlk k) @ []" by (simp add: ekey_def)
  then have 2: "DecodeOrderPreservingVarUint64 (drop (length (enc (ek_expiryBlk k)) + 1) (ekey k)) =
      Inr (ek_committingBlk k, length (enc (ek_committingBlk k)))" by (simp only: Decode_enc)
  show ?thesis using u 1 2 by (simp add: decodeExpiryInfo_def varint_msg_def) (simp add: ekey_def)
qed

lemma retrieve_loop_eq:
  assumes "\<forall>x \<in> set (rest itr). fst x = constructLevelKey dbName (ekey (ei_expiryInfoKey (f x))) \<and> kc_Unmarshal kc (snd x) = Inr (ei_pvtdataKeys (f x))"
  shows "retrieve_loop ek itr acc = Some (ret (acc @ map f (rest itr)))"
  using assms
proof (induction "rest itr" arbitrary: itr acc)
  case Nil
  then obtain itr' where "it_Next ld itr = (False, itr')" using Next_Nil by metis
  then show ?case using Nil by (subst retrieve_loop.simps) simp
next
  case (Cons x r)
  obtain k b where x: "x = (k, b)" by fastforce
  then obtain itr' where itr': "it_Next ld itr = (True, itr')" "it_Key ld itr' = k" "it_Value ld itr' = b" "rest itr' = r"
    using Next_Cons [of itr k b r] Cons.hyps(2) by auto
  have fx: "k = constructLevelKey dbName (ekey (ei_expiryInfoKey (f x)))" "kc_Unmarshal kc b = Inr (ei_pvtdataKeys (f x))"
    using Cons.prems Cons.hyps(2) x by (metis fst_conv snd_conv list.set_intros(1))+
  have "h_itr_Key ld itr' = Return (ekey (ei_expiryInfoKey (f x)))"
    using retrieveAppKey_construct [OF dbName] fx(1) itr'(2) by (simp add: h_itr_Key_def)
  then have "retrieve_loop ek itr acc = retrieve_loop ek itr' (acc @ [f x])"
    using itr'(1,3) decode_entry [OF fx(2), of "ei_expiryInfoKey (f x)", unfolded expiryInfo_fields] by (subst retrieve_loop.simps) (simp add: ret_def)
  also have "\<dots> = Some (ret ((acc @ [f x]) @ map f (rest itr')))"
    using Cons.hyps(1) [OF itr'(4) [symmetric]] Cons.prems Cons.hyps(2) itr'(4) by (metis list.set_intros(2))
  finally show ?case using Cons.hyps(2) itr'(4) by (metis append.assoc append_Cons append_Nil list.simps(9))
qed

text \<open>The entries that expire with a block are found by one scan.\<close>

lemma ek_retrieve_eq:
  assumes ok: "keeper_ok t" and e: "e \<noteq> max_u64"
  shows "\<exists>xs. ek_retrieve ek e t = Some (ret xs) \<and>
    set xs = {i. ek_expiryBlk (ei_expiryInfoKey i) = e \<and> sched t (ei_expiryInfoKey i) = Some (ei_pvtdataKeys i)}"
proof -
  let ?a = "ekey \<lparr>ek_committingBlk = 0, ek_expiryBlk = e\<rparr>" and ?b = "ekey \<lparr>ek_committingBlk = 0, ek_expiryBlk = e + 1\<rparr>"
  let ?R = "level_range (items t) (Some (constructLevelKey dbName ?a)) (Some (constructLevelKey dbName ?b))"
  obtain itr where itr: "h_GetIterator ld dbName t (Some ?a) (Some ?b) = Inr itr" "rest itr = ?R"
    by (simp add: h_GetIterator_def Let_def Error DB_GetIterator_def rest_NewIterator)
  define good where "good x i \<longleftrightarrow> fst x = constructLevelKey dbName (ekey (ei_expiryInfoKey i)) \<and> kc_Unmarshal kc (snd x) = Inr (ei_pvtdataKeys i)" for x and i :: expiryInfo
  have mem: "(x, b) \<in> set ?R \<longleftrightarrow> (\<exists>r. x = constructLevelKey dbName r \<and> ?a \<le> r \<and> r < ?b \<and> fmlookup (items t) x = Some b)" for x b
    using prefix_range_bounded [of "dbName @ [NUL]" ?a x ?b] by (auto simp: set_level_range key_range_def constructLevelKey_def)
  have ex: "\<exists>i. good x i" if x: "x \<in> set ?R" for x
  proof -
    obtain r b where r: "x = (constructLevelKey dbName r, b)" "fmlookup (items t) (constructLevelKey dbName r) = Some b"
      using x mem [of "fst x" "snd x"] by (metis prod.collapse)
    from entries_okD [OF ok r(2)] obtain k pk where "r = ekey k" "kc_Unmarshal kc b = Inr pk" by blast
    then have "good x \<lparr>ei_expiryInfoKey = k, ei_pvtdataKeys = pk\<rparr>" using r(1) by (simp add: good_def)
    then show ?thesis by blast
  qed
  then obtain f where f: "\<forall>x \<in> set ?R. good x (f x)" by metis
  have uniq: "i = j" if "good x i" "good x j" for x and i j :: expiryInfo using that by (simp add: good_def key_eq ekey_inj)
  have "ek_retrieve ek e t = Some (ret (map f ?R))"
    using retrieve_loop_eq [of itr f "[]"] f itr by (simp add: ek_retrieve_def encodeExpiryInfoKey_eq good_def)
  moreover have "f ` set ?R = {i. ek_expiryBlk (ei_expiryInfoKey i) = e \<and> sched t (ei_expiryInfoKey i) = Some (ei_pvtdataKeys i)}" (is "_ = ?S")
  proof (intro equalityI subsetI)
    fix i assume "i \<in> f ` set ?R"
    then obtain x where x: "x \<in> set ?R" "good x i" using f by blast
    from x(1) obtain r where "fst x = constructLevelKey dbName r" "?a \<le> r" "r < ?b" "fmlookup (items t) (fst x) = Some (snd x)"
      using mem [of "fst x" "snd x"] by (metis prod.collapse)
    then have k: "fmlookup (items t) (constructLevelKey dbName (ekey (ei_expiryInfoKey i))) = Some (snd x)" "?a \<le> ekey (ei_expiryInfoKey i)" "ekey (ei_expiryInfoKey i) < ?b"
      using x(2) by (auto simp: good_def key_eq)
    then show "i \<in> ?S" using x(2) ekey_range [OF e, of "ei_expiryInfoKey i"] by (simp add: sched_in_def good_def)
  next
    fix i assume i: "i \<in> ?S"
    then obtain b where b: "fmlookup (items t) (constructLevelKey dbName (ekey (ei_expiryInfoKey i))) = Some b" "kc_Unmarshal kc b = Inr (ei_pvtdataKeys i)"
      by (auto elim: schedD)
    then have x: "(constructLevelKey dbName (ekey (ei_expiryInfoKey i)), b) \<in> set ?R" (is "?x \<in> _")
      using mem i ekey_range [OF e, of "ei_expiryInfoKey i"] by auto
    have "good ?x i" using b(2) by (simp add: good_def)
    then show "i \<in> f ` set ?R" using uniq f x by blast
  qed
  ultimately show ?thesis by auto
qed

lemma retrieveByExpiryKey_eq:
  assumes "keeper_ok t"
  shows "retrieveByExpiryKey ek k t = ret \<lparr>ei_expiryInfoKey = k, ei_pvtdataKeys = (case sched t k of None \<Rightarrow> None | Some pk \<Rightarrow> pk)\<rparr>"
proof (cases "fmlookup (items t) (constructLevelKey dbName (ekey k))")
  case None
  then show ?thesis using decode_entry [OF Unmarshal_nil]
    by (simp add: retrieveByExpiryKey_def encodeExpiryInfoKey_eq h_Get_def DB_Get_eq sched_in_def)
next
  case (Some b)
  from entries_okD [OF assms Some] obtain pk where "kc_Unmarshal kc b = Inr pk" "sched t k = Some pk" by (auto simp: ekey_inj)
  then show ?thesis using Some decode_entry [of b pk k]
    by (simp add: retrieveByExpiryKey_def encodeExpiryInfoKey_eq h_Get_def DB_Get_eq)
qed

end

section \<open>The schedule of a block\<close>

text \<open>The updates that a schedule has to name: they expire, and the entry is that of their version.\<close>

definition due :: "btl_policy \<Rightarrow> string \<Rightarrow> string \<Rightarrow> VersionedValue \<Rightarrow> expiryInfoKey \<Rightarrow> bool" where
  "due btl ns coll vv k \<longleftrightarrow>
     \<not> IsDelete vv \<and> \<not> neverExpires (ek_expiryBlk k) \<and>
     (\<exists>ver. vv_Version vv = Some ver \<and> ek_committingBlk k = BlockNum ver \<and> btl ns coll (BlockNum ver) = Inr (ek_expiryBlk k))"

definition entry_list :: "schedule \<Rightarrow> expiryInfoKey \<Rightarrow> string \<Rightarrow> string \<Rightarrow> KeyAndHash list" where
  "entry_list entries k ns coll = (case entries k of None \<Rightarrow> [] | Some pk \<Rightarrow> pk_list pk ns coll)"

text \<open>A schedule is always made for a later block.\<close>

lemma due_later: "expiring btl \<Longrightarrow> due btl ns coll vv k \<Longrightarrow> ek_committingBlk k < ek_expiryBlk k"
  unfolding due_def using expiring.later by fastforce

type_synonym item = "string \<times> string \<times> string \<times> bytes \<times> VersionedValue"

definition item_ok :: "(string \<Rightarrow> bool) \<Rightarrow> btl_policy \<Rightarrow> item \<Rightarrow> bool" where
  "item_ok T btl = (\<lambda>(ns, coll, key, h, vv). T ns \<and> T coll \<and> T key \<and>
     (\<exists>ver e. vv_Version vv = Some ver \<and> btl ns coll (BlockNum ver) = Inr e))"

definition sched_wf :: "(string \<Rightarrow> bool) \<Rightarrow> schedule \<Rightarrow> bool" where
  "sched_wf T entries \<longleftrightarrow> (\<forall>k pk. entries k = Some pk \<longrightarrow> keys_ok T pk)"

abbreviation add_item :: "btl_policy \<Rightarrow> item \<Rightarrow> schedule \<Rightarrow> schedule res" where
  "add_item btl \<equiv> \<lambda>(ns, coll, key, h, vv). builder_add btl ns coll key h vv"

definition item_due :: "btl_policy \<Rightarrow> item list \<Rightarrow> expiryInfoKey \<Rightarrow> string \<Rightarrow> string \<Rightarrow> KeyAndHash set" where
  "item_due btl items k ns coll = {\<lparr>kh_Key = key, kh_Hash = h\<rparr> | key h vv. (ns, coll, key, h, vv) \<in> set items \<and> due btl ns coll vv k}"

lemma builder_add_ok:
  assumes wf: "sched_wf T entries" and i: "item_ok T btl (ns, coll, key, h, vv)"
  shows "\<exists>entries'. builder_add btl ns coll key h vv entries = ret entries' \<and> sched_wf T entries' \<and>
    (\<forall>k. entries' k = None \<longleftrightarrow> entries k = None \<and> \<not> due btl ns coll vv k) \<and>
    (\<forall>k ns' coll'. entry_list entries' k ns' coll' =
       entry_list entries k ns' coll' @ (if ns' = ns \<and> coll' = coll \<and> due btl ns coll vv k then [\<lparr>kh_Key = key, kh_Hash = h\<rparr>] else []))"
proof -
  obtain ver e where v: "vv_Version vv = Some ver" "btl ns coll (BlockNum ver) = Inr e" "T ns" "T coll" "T key"
    using i by (auto simp: item_ok_def)
  let ?k = "\<lparr>ek_committingBlk = BlockNum ver, ek_expiryBlk = e\<rparr>"
  have d: "due btl ns coll vv k \<longleftrightarrow> \<not> (IsDelete vv \<or> neverExpires e) \<and> k = ?k" for k
    using v(1,2) by (cases k) (auto simp: due_def)
  show ?thesis
  proof (cases "IsDelete vv \<or> neverExpires e")
    case True
    then show ?thesis using wf v(1,2) by (simp add: builder_add_def d)
  next
    case False
    let ?pk = "case entries ?k of None \<Rightarrow> newPvtdataKeys | Some p \<Rightarrow> p"
    have "maps_ok T ?pk" using wf by (auto simp: sched_wf_def keys_ok_def split: option.split)
    from pk_add_ok [OF this v(3-5), of h] obtain pk' where pk': "pk_add ns coll key h ?pk = Return pk'" "keys_ok T pk'"
      "\<forall>ns' coll'. pk_list pk' ns' coll' = pk_list ?pk ns' coll' @ (if ns' = ns \<and> coll' = coll then [\<lparr>kh_Key = key, kh_Hash = h\<rparr>] else [])" by blast
    have "builder_add btl ns coll key h vv entries = ret (entries(?k \<mapsto> pk'))"
      using v(1,2) False pk'(1) by (simp add: builder_add_def Let_def)
    moreover have "sched_wf T (entries(?k \<mapsto> pk'))" using wf pk'(2) by (simp add: sched_wf_def)
    moreover have "pk_list ?pk ns' coll' = entry_list entries ?k ns' coll'" for ns' coll'
      by (simp add: entry_list_def split: option.split)
    ultimately show ?thesis using pk'(3) False by (intro exI [of _ "entries(?k \<mapsto> pk')"]) (auto simp: d entry_list_def)
  qed
qed

lemma add_items_ok:
  assumes "\<forall>i \<in> set items. item_ok T btl i" "sched_wf T entries"
  shows "\<exists>entries'. fold_res (add_item btl) items entries = ret entries' \<and> sched_wf T entries' \<and>
    (\<forall>k. entries' k = None \<longleftrightarrow> entries k = None \<and> (\<forall>ns coll. item_due btl items k ns coll = {})) \<and>
    (\<forall>k ns coll. set (entry_list entries' k ns coll) = set (entry_list entries k ns coll) \<union> item_due btl items k ns coll)"
  using assms
proof (induction items arbitrary: entries)
  case (Cons x items)
  obtain ns coll key h vv where x: "x = (ns, coll, key, h, vv)" by (cases x)
  obtain e1 where e1: "builder_add btl ns coll key h vv entries = ret e1" "sched_wf T e1"
    "\<And>k. e1 k = None \<longleftrightarrow> entries k = None \<and> \<not> due btl ns coll vv k"
    "\<And>k ns' coll'. entry_list e1 k ns' coll' =
       entry_list entries k ns' coll' @ (if ns' = ns \<and> coll' = coll \<and> due btl ns coll vv k then [\<lparr>kh_Key = key, kh_Hash = h\<rparr>] else [])"
    using builder_add_ok [OF Cons.prems(2), of btl ns coll key h vv] Cons.prems(1) x by auto
  have "\<forall>i \<in> set items. item_ok T btl i" using Cons.prems(1) by simp
  from Cons.IH [OF this e1(2)] obtain e2 where e2: "fold_res (add_item btl) items e1 = ret e2" "sched_wf T e2"
    "\<And>k. e2 k = None \<longleftrightarrow> e1 k = None \<and> (\<forall>ns coll. item_due btl items k ns coll = {})"
    "\<And>k ns coll. set (entry_list e2 k ns coll) = set (entry_list e1 k ns coll) \<union> item_due btl items k ns coll"
    by blast
  have step: "item_due btl (x # items) k ns' coll' =
      (if ns' = ns \<and> coll' = coll \<and> due btl ns coll vv k then {\<lparr>kh_Key = key, kh_Hash = h\<rparr>} else {}) \<union> item_due btl items k ns' coll'" for k ns' coll'
    by (auto simp: x item_due_def)
  have "e2 k = None \<longleftrightarrow> entries k = None \<and> (\<forall>ns' coll'. item_due btl (x # items) k ns' coll' = {})" for k
    unfolding e2(3) e1(3) step by auto
  moreover have "set (entry_list e2 k ns' coll') = set (entry_list entries k ns' coll') \<union> item_due btl (x # items) k ns' coll'" for k ns' coll'
    unfolding e2(4) e1(4) step by auto
  ultimately show ?case using e1(1) e2(1,2) by (simp add: x)
qed (simp add: item_due_def)

definition pvt_items :: "(string \<Rightarrow> bytes) \<Rightarrow> UpdateMap \<Rightarrow> um_visit \<Rightarrow> item list" where
  "pvt_items CH pvt pord =
     concat (map (\<lambda>(ns, coll, key). case um_Get pvt ns coll key of None \<Rightarrow> [] | Some vv \<Rightarrow> [(ns, coll, key, CH key, vv)]) pord)"

definition hashed_items :: "(string \<times> string \<times> string \<rightharpoonup> VersionedValue) \<Rightarrow> um_visit \<Rightarrow> item list" where
  "hashed_items m hord =
     concat (map (\<lambda>(ns, coll, h). case m (ns, coll, h) of None \<Rightarrow> [] | Some vv \<Rightarrow> [(ns, coll, '''', h, vv)]) hord)"

definition without :: "item list \<Rightarrow> (string \<times> string \<times> string \<rightharpoonup> VersionedValue) \<Rightarrow> (string \<times> string \<times> string \<rightharpoonup> VersionedValue)" where
  "without items m = (\<lambda>x. if x \<in> (\<lambda>(ns, coll, key, h, vv). (ns, coll, h)) ` set items then None else m x)"

lemma schedule_pvt_eq:
  "fold_res (schedule_pvt btl CH pvt) pord (entries, m) =
     res_bind (fold_res (add_item btl) (pvt_items CH pvt pord) entries) (\<lambda>entries. ret (entries, without (pvt_items CH pvt pord) m))"
proof (induction pord arbitrary: entries m)
  case Nil
  then show ?case by (simp add: pvt_items_def without_def)
next
  case (Cons x pord)
  obtain ns coll key where x: "x = (ns, coll, key)" by (cases x)
  show ?case
  proof (cases "um_Get pvt ns coll key")
    case None
    then have "pvt_items CH pvt (x # pord) = pvt_items CH pvt pord" by (simp add: pvt_items_def x)
    then show ?thesis using Cons.IH [of entries m] None by (simp add: x schedule_pvt_def)
  next
    case (Some vv)
    then have i: "pvt_items CH pvt (x # pord) = (ns, coll, key, CH key, vv) # pvt_items CH pvt pord" by (simp add: pvt_items_def x)
    define m' where "m' = m((ns, coll, CH key) := None)"
    have w: "without (pvt_items CH pvt pord) m' = without ((ns, coll, key, CH key, vv) # pvt_items CH pvt pord) m"
      by (auto simp: without_def fun_eq_iff m'_def)
    have "schedule_pvt btl CH pvt x (entries, m) = res_bind (builder_add btl ns coll key (CH key) vv entries) (\<lambda>e. ret (e, m'))"
      using Some by (simp add: x schedule_pvt_def Let_def m'_def)
    then show ?thesis by (simp add: i Cons.IH w res_bind_assoc)
  qed
qed

lemma schedule_hashed_eq: "fold_res (schedule_hashed btl m) hord entries = fold_res (add_item btl) (hashed_items m hord) entries"
proof (induction hord arbitrary: entries)
  case (Cons x hord)
  obtain ns coll h where x: "x = (ns, coll, h)" by (cases x)
  show ?case using Cons.IH
    by (cases "m (ns, coll, h)") (simp_all add: x schedule_hashed_def hashed_items_def cong: res_bind_cong)
qed (simp add: hashed_items_def)

text \<open>
  The keys that the schedule of a block names in an entry: private keys with their hashes, and the hashes
  of which no private key is updated.
\<close>

definition due_keys :: "btl_policy \<Rightarrow> (string \<Rightarrow> bytes) \<Rightarrow> UpdateMap \<Rightarrow> UpdateMap \<Rightarrow> expiryInfoKey \<Rightarrow> string \<Rightarrow> string \<Rightarrow> KeyAndHash set" where
  "due_keys btl CH pvt hashed k ns coll =
     {\<lparr>kh_Key = key, kh_Hash = CH key\<rparr> | key vv. um_Get pvt ns coll key = Some vv \<and> due btl ns coll vv k} \<union>
     {\<lparr>kh_Key = '''', kh_Hash = h\<rparr> | h vv. um_Get hashed ns coll h = Some vv \<and> due btl ns coll vv k \<and>
        (\<forall>key. um_Get pvt ns coll key \<noteq> None \<longrightarrow> CH key \<noteq> h)}"

definition updates_ok :: "(string \<Rightarrow> bool) \<Rightarrow> btl_policy \<Rightarrow> UpdateMap \<Rightarrow> (string \<Rightarrow> bool) \<Rightarrow> bool" where
  "updates_ok T btl b K \<longleftrightarrow>
     (\<forall>ns coll key vv. um_Get b ns coll key = Some vv \<longrightarrow> T ns \<and> T coll \<and> K key \<and>
        (\<exists>ver e. vv_Version vv = Some ver \<and> btl ns coll (BlockNum ver) = Inr e))"

lemma set_pvt_items:
  "um_visits pord pvt \<Longrightarrow> (ns, coll, key, h, vv) \<in> set (pvt_items CH pvt pord) \<longleftrightarrow> um_Get pvt ns coll key = Some vv \<and> h = CH key"
  by (fastforce simp: pvt_items_def um_visits_def split: option.splits)

lemma set_hashed_items:
  "(ns, coll, key, h, vv) \<in> set (hashed_items m hord) \<longleftrightarrow> (ns, coll, h) \<in> set hord \<and> m (ns, coll, h) = Some vv \<and> key = ''''"
  by (fastforce simp: hashed_items_def split: option.splits)

lemma schedule_ok:
  assumes ord: "um_visits pord pvt" "um_visits hord hashed"
    and ok: "updates_ok T btl pvt T" "updates_ok T btl hashed (\<lambda>_. True)" "T ''''"
  shows "\<exists>entries. (\<forall>eord. buildExpirySchedule btl CH pord hord eord pvt hashed = ret (getExpiryInfo eord entries)) \<and> sched_wf T entries \<and>
    (\<forall>k. entries k = None \<longleftrightarrow> (\<forall>ns coll. due_keys btl CH pvt hashed k ns coll = {})) \<and>
    (\<forall>k ns coll. set (entry_list entries k ns coll) = due_keys btl CH pvt hashed k ns coll)"
proof -
  let ?p = "pvt_items CH pvt pord"
  let ?m = "without ?p (ToCompositeKeyMap hord hashed)"
  let ?h = "hashed_items ?m hord"
  have m: "?m (ns, coll, h) = (if \<exists>key. um_Get pvt ns coll key \<noteq> None \<and> CH key = h then None else um_Get hashed ns coll h)" for ns coll h
  proof -
    have "(ns, coll, h) \<in> (\<lambda>(ns, coll, key, h, vv). (ns, coll, h)) ` set ?p \<longleftrightarrow> (\<exists>key vv. (ns, coll, key, h, vv) \<in> set ?p)" by force
    also have "\<dots> \<longleftrightarrow> (\<exists>key. um_Get pvt ns coll key \<noteq> None \<and> CH key = h)" unfolding set_pvt_items [OF ord(1)] by auto
    finally show ?thesis unfolding without_def ToCompositeKeyMap_lookup [OF ord(2)] by simp
  qed
  have "\<forall>i \<in> set (?p @ ?h). item_ok T btl i"
  proof
    fix i assume i: "i \<in> set (?p @ ?h)"
    obtain ns coll key h vv where x: "i = (ns, coll, key, h, vv)" by (cases i rule: prod_cases5)
    from i have "um_Get pvt ns coll key = Some vv \<or> um_Get hashed ns coll h = Some vv \<and> key = ''''"
      by (auto simp: x set_pvt_items [OF ord(1)] set_hashed_items m split: if_splits)
    then show "item_ok T btl i" using ok unfolding x item_ok_def updates_ok_def by blast
  qed
  from add_items_ok [OF this, of Map.empty] obtain entries where e: "fold_res (add_item btl) (?p @ ?h) Map.empty = ret entries" "sched_wf T entries"
    "\<And>k. entries k = None \<longleftrightarrow> (\<forall>ns coll. item_due btl (?p @ ?h) k ns coll = {})"
    "\<And>k ns coll. set (entry_list entries k ns coll) = item_due btl (?p @ ?h) k ns coll"
    by (auto simp: sched_wf_def entry_list_def)
  have h: "(ns, coll, key, h, vv) \<in> set ?h \<longleftrightarrow>
      um_Get hashed ns coll h = Some vv \<and> key = '''' \<and> (\<forall>key. um_Get pvt ns coll key \<noteq> None \<longrightarrow> CH key \<noteq> h)" for ns coll key h vv
  proof (cases "\<exists>key. um_Get pvt ns coll key \<noteq> None \<and> CH key = h")
    case True
    then show ?thesis unfolding set_hashed_items m by auto
  next
    case False
    then have "\<forall>key. um_Get pvt ns coll key \<noteq> None \<longrightarrow> CH key \<noteq> h" by blast
    then show ?thesis using ord(2) False unfolding set_hashed_items m um_visits_def by auto
  qed
  have "item_due btl (?p @ ?h) k ns coll = due_keys btl CH pvt hashed k ns coll" for k ns coll
    unfolding item_due_def due_keys_def set_append Un_iff set_pvt_items [OF ord(1)] h by blast
  moreover have "buildExpirySchedule btl CH pord hord eord pvt hashed = ret (getExpiryInfo eord entries)" for eord
    using e(1) by (auto simp: buildExpirySchedule_def schedule_pvt_eq schedule_hashed_eq fold_res_append res_bind_assoc res_bind_ret_iff)
  ultimately show ?thesis using e(2-4) by (intro exI [of _ entries]) simp
qed

lemma tracked_getExpiryInfo:
  "tracked (getExpiryInfo eord entries) f = (\<lambda>k. if k \<in> set eord \<and> entries k \<noteq> None then entries k else f k)"
proof (induction eord arbitrary: f)
  case (Cons k eord)
  then show ?case by (cases "entries k") (auto simp: getExpiryInfo_def fun_eq_iff)
qed (simp add: getExpiryInfo_def)

section \<open>A marshalling of the keys\<close>

definition f_fmap :: "'a :: linorder fmt \<Rightarrow> 'b fmt \<Rightarrow> ('a, 'b) fmap fmt" where
  "f_fmap F G = f_map sorted_list_of_fmap fmap_of_list (f_list (f_pair F G))"

lemma f_fmap [fmt_intros]: "fmt F \<Longrightarrow> fmt G \<Longrightarrow> fmt (f_fmap F G)"
  unfolding f_fmap_def by (intro fmt_intros) (auto intro!: fmap_ext simp: fmlookup_of_list)

definition f_keys :: "PvtdataKeys fmt" where
  "f_keys = f_option (f_fmap f_bytes (f_option (f_fmap f_bytes (f_list
     (f_map (\<lambda>k. (kh_Key k, kh_Hash k)) (\<lambda>(k, h). \<lparr>kh_Key = k, kh_Hash = h\<rparr>) (f_pair f_bytes f_bytes))))))"

lemma f_keys [fmt_intros]: "fmt f_keys"
  unfolding f_keys_def by (intro fmt_intros) simp

definition keys_wire :: keys_codec where
  "keys_wire = \<lparr>kc_Marshal = (\<lambda>pk. Inr (SOH # fst f_keys pk)),
     kc_Unmarshal = (\<lambda>b. case b of [] \<Rightarrow> Inr None | c # b \<Rightarrow> wire_in f_keys b)\<rparr>"

lemma keys_wire_back: "\<exists>b. kc_Marshal keys_wire pk = Inr b \<and> kc_Unmarshal keys_wire b = Inr pk"
  using wire_carries [OF f_keys, of pk] by (simp add: keys_wire_def carries_def wire_out_def)

interpretation ledger_keeper: keeper mem_leveldb "\<lambda>s. s" "\<lambda>c. c" "''ch/0''" keys_wire "\<lambda>_. True"
  by unfold_locales (use keys_wire_back in \<open>auto simp: keys_wire_def\<close>)

section \<open>What the keeper knows after a block\<close>

context keeper
begin

lemma ConsumeSnapshotData_eq:
  assumes ld: "writes_succeed ld" and ok: "keeper_ok t" and T: "T ns" "T coll" "T ''''"
    and e: "btl ns coll (BlockNum ver) = Inr e" "e \<noteq> max_u64"
  shows "\<exists>t' pk. ConsumeSnapshotData ek btl ns coll h ver t = ret t' \<and> keeper_ok t' \<and>
    sched t' = (sched t)(\<lparr>ek_committingBlk = BlockNum ver, ek_expiryBlk = e\<rparr> \<mapsto> pk) \<and>
    (\<forall>ns' coll'. pk_list pk ns' coll' = entry_list (sched t) \<lparr>ek_committingBlk = BlockNum ver, ek_expiryBlk = e\<rparr> ns' coll' @
       (if ns' = ns \<and> coll' = coll then [\<lparr>kh_Key = '''', kh_Hash = h\<rparr>] else []))"
proof -
  let ?k = "\<lparr>ek_committingBlk = BlockNum ver, ek_expiryBlk = e\<rparr>"
  let ?p = "case (case sched t ?k of None \<Rightarrow> None | Some pk \<Rightarrow> pk) of None \<Rightarrow> newPvtdataKeys | Some m \<Rightarrow> Some m"
  have p: "?p = (case sched t ?k of None \<Rightarrow> newPvtdataKeys | Some pk \<Rightarrow> pk)"
    using sched_keys_ok [OF ok, of ?k] by (auto simp: keys_ok_def maps_ok_def split: option.split)
  have "maps_ok T ?p" unfolding p using sched_keys_ok [OF ok, of ?k] by (auto simp: keys_ok_def split: option.split)
  from pk_add_ok [OF this T, of h] obtain pk where pk: "pk_add ns coll '''' h ?p = Return pk" "keys_ok T pk"
    "\<forall>ns' coll'. pk_list pk ns' coll' = pk_list ?p ns' coll' @ (if ns' = ns \<and> coll' = coll then [\<lparr>kh_Key = '''', kh_Hash = h\<rparr>] else [])" by blast
  from ek_update_eq [OF ld ok, of "[\<lparr>ei_expiryInfoKey = ?k, ei_pvtdataKeys = pk\<rparr>]" "[]"] pk(2) obtain t' where
    t': "ek_update ek [\<lparr>ei_expiryInfoKey = ?k, ei_pvtdataKeys = pk\<rparr>] [] t = ret t'" "keeper_ok t'" "sched t' = (sched t)(?k \<mapsto> pk)" by auto
  have "ConsumeSnapshotData ek btl ns coll h ver t = ret t'"
    using e pk(1) t'(1) retrieveByExpiryKey_eq [OF ok, of ?k] by (simp add: ConsumeSnapshotData_def Let_def ret_def)
  moreover have "pk_list ?p ns' coll' = entry_list (sched t) ?k ns' coll'" for ns' coll'
    unfolding p by (simp add: entry_list_def split: option.split)
  ultimately show ?thesis using pk(3) t'(2,3) by (intro exI [of _ t'] exI [of _ pk]) simp
qed

end

text \<open>The keys that a scan has found for a committing block.\<close>

definition found :: "expiryInfo list \<Rightarrow> u64 \<Rightarrow> string \<Rightarrow> string \<Rightarrow> KeyAndHash set" where
  "found xs c ns coll = (\<Union>i \<in> {i \<in> set xs. ek_committingBlk (ei_expiryInfoKey i) = c}. set (pk_list (ei_pvtdataKeys i) ns coll))"

context keeper
begin

lemma found_sched:
  assumes "set xs = {i. ek_expiryBlk (ei_expiryInfoKey i) = e \<and> sched t (ei_expiryInfoKey i) = Some (ei_pvtdataKeys i)}"
  shows "found xs c ns coll = set (entry_list (sched t) \<lparr>ek_committingBlk = c, ek_expiryBlk = e\<rparr> ns coll)"
proof -
  let ?k = "\<lparr>ek_committingBlk = c, ek_expiryBlk = e\<rparr>"
  have "i \<in> set xs \<and> ek_committingBlk (ei_expiryInfoKey i) = c \<longleftrightarrow> (\<exists>pk. sched t ?k = Some pk \<and> i = \<lparr>ei_expiryInfoKey = ?k, ei_pvtdataKeys = pk\<rparr>)" for i
    unfolding assms by (cases i; cases "ei_expiryInfoKey i") auto
  then have eq: "{i \<in> set xs. ek_committingBlk (ei_expiryInfoKey i) = c} = {i. \<exists>pk. sched t ?k = Some pk \<and> i = \<lparr>ei_expiryInfoKey = ?k, ei_pvtdataKeys = pk\<rparr>}" by blast
  show ?thesis unfolding found_def eq by (cases "sched t ?k") (simp_all add: entry_list_def)
qed

lemma UpdateExpiryInfo_found:
  assumes ld: "writes_succeed ld" and ok: "keeper_ok t" and T: "T ''''"
    and ord: "um_visits pord pvt" "um_visits hord hashed" "\<forall>k ns coll. due_keys btl CH pvt hashed k ns coll \<noteq> {} \<longrightarrow> k \<in> set eord"
    and upd: "updates_ok T btl pvt T" "updates_ok T btl hashed (\<lambda>_. True)"
  shows "\<exists>t'. UpdateExpiryInfo ek btl CH pord hord eord pvt hashed t = ret t' \<and> keeper_ok t' \<and>
    (\<forall>e. e \<noteq> max_u64 \<longrightarrow> (\<exists>xs. ek_retrieve ek e t' = Some (ret xs) \<and>
       (\<forall>c ns coll. let k = \<lparr>ek_committingBlk = c, ek_expiryBlk = e\<rparr> in found xs c ns coll =
          (if \<exists>ns coll. due_keys btl CH pvt hashed k ns coll \<noteq> {} then due_keys btl CH pvt hashed k ns coll else set (entry_list (sched t) k ns coll)))))"
proof -
  from schedule_ok [OF ord(1,2) upd T, of CH] obtain entries where en0: "\<forall>eord. buildExpirySchedule btl CH pord hord eord pvt hashed = ret (getExpiryInfo eord entries)"
    "sched_wf T entries" "\<forall>k. entries k = None \<longleftrightarrow> (\<forall>ns coll. due_keys btl CH pvt hashed k ns coll = {})"
    "\<forall>k ns coll. set (entry_list entries k ns coll) = due_keys btl CH pvt hashed k ns coll"
    by (elim exE conjE) (rule that)
  note en = en0(1) [THEN spec] en0(2) en0(3) [THEN spec] en0(4) [THEN spec, THEN spec, THEN spec]
  have "\<forall>i \<in> set (getExpiryInfo eord entries). keys_ok T (ei_pvtdataKeys i)"
    using en(2) by (auto simp: getExpiryInfo_def sched_wf_def split: option.splits)
  from ek_update_eq [OF ld ok this, of "[]"] obtain t' where
    t': "ek_update ek (getExpiryInfo eord entries) [] t = ret t'" "keeper_ok t'" "sched t' = tracked (getExpiryInfo eord entries) (sched t)" by auto
  have s: "sched t' k = (if entries k \<noteq> None then entries k else sched t k)" for k
  proof -
    have "entries k \<noteq> None \<longrightarrow> k \<in> set eord" using ord(3) en(3) [of k] by metis
    then show ?thesis using t'(3) unfolding tracked_getExpiryInfo by simp
  qed
  have "\<exists>xs. ek_retrieve ek e t' = Some (ret xs) \<and> (\<forall>c ns coll. let k = \<lparr>ek_committingBlk = c, ek_expiryBlk = e\<rparr> in found xs c ns coll =
          (if \<exists>ns coll. due_keys btl CH pvt hashed k ns coll \<noteq> {} then due_keys btl CH pvt hashed k ns coll else set (entry_list (sched t) k ns coll)))"
    if e: "e \<noteq> max_u64" for e
  proof -
    obtain xs where xs: "ek_retrieve ek e t' = Some (ret xs)"
      "set xs = {i. ek_expiryBlk (ei_expiryInfoKey i) = e \<and> sched t' (ei_expiryInfoKey i) = Some (ei_pvtdataKeys i)}"
      using ek_retrieve_eq [OF t'(2) e] by blast
    have "set (entry_list (sched t') k ns coll) = (if \<exists>ns coll. due_keys btl CH pvt hashed k ns coll \<noteq> {}
        then due_keys btl CH pvt hashed k ns coll else set (entry_list (sched t) k ns coll))" for k ns coll
    proof (cases "entries k = None")
      case True
      then have "\<not> (\<exists>ns coll. due_keys btl CH pvt hashed k ns coll \<noteq> {})" using en(3) [of k] by simp
      then show ?thesis using s [of k] True by (simp add: entry_list_def)
    next
      case False
      then have "\<exists>ns coll. due_keys btl CH pvt hashed k ns coll \<noteq> {}" using en(3) [of k] by simp
      moreover have "entry_list (sched t') k ns coll = entry_list entries k ns coll" using s [of k] False by (simp add: entry_list_def)
      ultimately show ?thesis using en(4) [of k ns coll] by simp
    qed
    then have "let k = \<lparr>ek_committingBlk = c, ek_expiryBlk = e\<rparr> in found xs c ns coll =
          (if \<exists>ns coll. due_keys btl CH pvt hashed k ns coll \<noteq> {} then due_keys btl CH pvt hashed k ns coll else set (entry_list (sched t) k ns coll))" for c ns coll
      unfolding Let_def found_sched [OF xs(2)] by blast
    then show ?thesis using xs(1) by blast
  qed
  moreover have "UpdateExpiryInfo ek btl CH pord hord eord pvt hashed t = ret t'" using t'(1) en(1) [of eord] by (simp add: UpdateExpiryInfo_def)
  ultimately show ?thesis using t'(2) by blast
qed

end

text \<open>C34: What a block commits is found again when it expires.  After the expiry of the updates of a block has been
  recorded, the scan for any later block returns, and the keys it finds for a committing block are those of
  the updates that this block and its version stand for: the private keys that are written, and the hashes that are
  written without any update of their private key; a deletion of a private key takes the place of its hash.  If the block
  has no such update, the scan finds what the keeper held before.  This holds for every order in which the
  maps are visited, on a store that does what goleveldb documents and does not fail.\<close>

theorem expiry_recorded:
  assumes "keeper ld items view dbName kc T" "writes_succeed ld" "entries_in_ok dbName kc T (items t)" "T ''''"
    and "um_visits pord pvt" "um_visits hord hashed" "\<forall>k ns coll. due_keys btl CH pvt hashed k ns coll \<noteq> {} \<longrightarrow> k \<in> set eord"
    and "updates_ok T btl pvt T" "updates_ok T btl hashed (\<lambda>_. True)"
  shows "let ek = \<lparr>ek_ld = ld, ek_dbName = dbName, ek_codec = kc\<rparr> in
    \<exists>t'. UpdateExpiryInfo ek btl CH pord hord eord pvt hashed t = ret t' \<and> entries_in_ok dbName kc T (items t') \<and>
    (\<forall>e. e \<noteq> max_u64 \<longrightarrow> (\<exists>xs. ek_retrieve ek e t' = Some (ret xs) \<and>
       (\<forall>c ns coll. let k = \<lparr>ek_committingBlk = c, ek_expiryBlk = e\<rparr> in found xs c ns coll =
          (if \<exists>ns coll. due_keys btl CH pvt hashed k ns coll \<noteq> {} then due_keys btl CH pvt hashed k ns coll
           else set (entry_list (sched_in dbName kc (items t)) k ns coll)))))"
  unfolding Let_def [of "\<lparr>ek_ld = ld, ek_dbName = dbName, ek_codec = kc\<rparr>"] by (rule keeper.UpdateExpiryInfo_found [OF assms])

definition sample_vv :: VersionedValue where
  "sample_vv = \<lparr>vv_Value = Some ''v'', vv_Metadata = None, vv_Version = Some (Height 50 1)\<rparr>"

definition sample_pvt :: UpdateMap where
  "sample_pvt = um_Update ''cc'' ''coll'' ''k'' sample_vv fmempty"

definition sample_hashed :: UpdateMap where
  "sample_hashed = um_Update ''cc'' ''coll'' ''hk'' sample_vv (um_Update ''cc'' ''coll'' ''x'' sample_vv fmempty)"

abbreviation sample_btl :: btl_policy where
  "sample_btl \<equiv> \<lambda>ns coll c. Inr (ComputeExpiringBlock ns coll c 4)"

lemma sample_get:
  "um_Get sample_pvt ns coll key = Some vv \<longleftrightarrow> ns = ''cc'' \<and> coll = ''coll'' \<and> key = ''k'' \<and> vv = sample_vv"
  "um_Get sample_hashed ns coll key = Some vv \<longleftrightarrow> ns = ''cc'' \<and> coll = ''coll'' \<and> (key = ''hk'' \<or> key = ''x'') \<and> vv = sample_vv"
  by (auto simp: sample_pvt_def sample_hashed_def um_Get_Update)

lemma sample_due: "due sample_btl ns coll sample_vv k \<longleftrightarrow> k = \<lparr>ek_committingBlk = 50, ek_expiryBlk = 55\<rparr>"
  by (cases k) (auto simp: due_def sample_vv_def IsDelete_def ComputeExpiringBlock_eq max_u64_def)

theorem expiry_recorded_witness:
  "\<exists>t' xs. UpdateExpiryInfo \<lparr>ek_ld = mem_leveldb, ek_dbName = ''ch/0'', ek_codec = keys_wire\<rparr> sample_btl ((#) CHR ''h'') [(''cc'', ''coll'', ''k'')]
       [(''cc'', ''coll'', ''hk''), (''cc'', ''coll'', ''x'')] [\<lparr>ek_committingBlk = 50, ek_expiryBlk = 55\<rparr>] sample_pvt sample_hashed fmempty = ret t' \<and>
     ek_retrieve \<lparr>ek_ld = mem_leveldb, ek_dbName = ''ch/0'', ek_codec = keys_wire\<rparr> 55 t' = Some (ret xs) \<and>
     found xs 50 ''cc'' ''coll'' = {\<lparr>kh_Key = ''k'', kh_Hash = ''hk''\<rparr>, \<lparr>kh_Key = '''', kh_Hash = ''x''\<rparr>}"
proof -
  let ?k = "\<lparr>ek_committingBlk = 50, ek_expiryBlk = 55\<rparr>"
  have due: "due_keys sample_btl ((#) CHR ''h'') sample_pvt sample_hashed k ns coll =
      (if ns = ''cc'' \<and> coll = ''coll'' \<and> k = ?k then {\<lparr>kh_Key = ''k'', kh_Hash = ''hk''\<rparr>, \<lparr>kh_Key = '''', kh_Hash = ''x''\<rparr>} else {})" for k ns coll
    by (auto simp: due_keys_def sample_get sample_due)
  have v: "um_visits [(''cc'', ''coll'', ''k'')] sample_pvt" "um_visits [(''cc'', ''coll'', ''hk''), (''cc'', ''coll'', ''x'')] sample_hashed"
    by (auto simp: um_visits_def sample_get)
  have u: "updates_ok (\<lambda>_. True) sample_btl sample_pvt (\<lambda>_. True)" "updates_ok (\<lambda>_. True) sample_btl sample_hashed (\<lambda>_. True)"
    by (auto simp: updates_ok_def sample_get sample_vv_def)
  have e: "entries_in_ok ''ch/0'' keys_wire (\<lambda>_. True) fmempty" by (simp add: entries_in_ok_def)
  have o: "\<forall>k ns coll. due_keys sample_btl ((#) CHR ''h'') sample_pvt sample_hashed k ns coll \<noteq> {} \<longrightarrow> k \<in> set [?k]" by (simp add: due)
  have "(55 :: u64) \<noteq> max_u64" by (simp add: max_u64_def)
  with expiry_recorded [OF ledger_keeper.keeper_axioms mem_writes e TrueI v o u] obtain t' xs where t': "UpdateExpiryInfo \<lparr>ek_ld = mem_leveldb, ek_dbName = ''ch/0'', ek_codec = keys_wire\<rparr> sample_btl ((#) CHR ''h'')
      [(''cc'', ''coll'', ''k'')] [(''cc'', ''coll'', ''hk''), (''cc'', ''coll'', ''x'')] [?k] sample_pvt sample_hashed fmempty = ret t'"
    "ek_retrieve \<lparr>ek_ld = mem_leveldb, ek_dbName = ''ch/0'', ek_codec = keys_wire\<rparr> 55 t' = Some (ret xs)"
    "\<forall>c ns coll. let k = \<lparr>ek_committingBlk = c, ek_expiryBlk = 55\<rparr> in found xs c ns coll =
       (if \<exists>ns coll. due_keys sample_btl ((#) CHR ''h'') sample_pvt sample_hashed k ns coll \<noteq> {} then due_keys sample_btl ((#) CHR ''h'') sample_pvt sample_hashed k ns coll
        else set (entry_list (sched_in ''ch/0'' keys_wire fmempty) k ns coll))"
    unfolding Let_def [of "\<lparr>ek_ld = mem_leveldb, ek_dbName = ''ch/0'', ek_codec = keys_wire\<rparr>"] by blast
  then show ?thesis using t'(3) [rule_format, of 50 "''cc''" "''coll''"] by (auto simp: due Let_def)
qed

end
