(* ===== verification/Spec2Isabelle.thy ===== *)
theory Spec2Isabelle
  imports Committer Leader_Endorser Endorser Shard_Manager Circuit_Breaker Version_Height Snapshot Tx_Simulator Batch_Preparer Expiry_Keeper
begin

text \<open>
  A peer of Hyperledger Fabric extended by the tracking of dependencies between transactions.  The
  development follows a transaction through the peer: a proposal is validated and simulated, the endorser
  asks the shards of the contracts it touches for its dependencies, the committer arranges the
  transactions of a block by their dependencies and marks the invalid ones, and the ledger validates the
  read-write sets of the block against its state and writes the result to its database.  File names
  below are relative to \<^verbatim>\<open>src\<close>.

  \<^bold>\<open>Conventions.\<close>  A Go function is a HOL function of the same name; where two Go types have a method of
  the same name, a prefix tells them apart.  Structs are records and maps are finite maps or functions to
  \<^typ>\<open>'a option\<close>.  A call that can panic returns \<^typ>\<open>'a go\<close>, one that can also return an error \<^typ>\<open>'a res\<close>; nil
  dereferences, indices out of range and assignments to nil maps are panics.  A loop over a Go map takes the
  order of the iteration as a list, and the theorems hold for every order.  Goroutines are step relations.
  Unsigned numbers of 64 and 32 bits are words, and wrap around.  Protobuf, goleveldb, etcd/raft, the hash
  functions, the chaincodes, the membership service and the clock are arguments of the definitions; what the
  code relies on is a hypothesis or a locale, and every such hypothesis is met by a concrete instance in a
  witness or an interpretation.

  \<^bold>\<open>Shared.\<close>
  \<^item> \<open>Prelude\<close>: Go values and panics; \<open>commuting_steps\<close> (a loop whose steps commute does not depend on the order) and
    \<open>replicated_log\<close> (replicas of a log agree on what the environment does not change).
  \<^item> \<open>Messages\<close>: the protobuf messages and their decoders; \<open>Go_Strings\<close>, \<open>Go_Json\<close>: what the program uses of
    \<^verbatim>\<open>strings\<close>, \<^verbatim>\<open>strconv\<close>, \<^verbatim>\<open>fmt\<close>, \<^verbatim>\<open>encoding/json\<close> and \<^verbatim>\<open>encoding/base64\<close>, with the round trips of the encodings.

  \<^bold>\<open>Committer\<close> (\<^verbatim>\<open>core/committer/committer_impl.go\<close>).
  \<^item> \<open>Dep_Info\<close>: the dependency information printed into the message of a response and read back from it.
  \<^item> \<open>Tx_DAG\<close>: the graph of a block and \<open>CalculateLevels\<close>, whose loop ends and computes a topological numbering
    for every iteration order; \<open>levelled_graph\<close> is what the processing relies on.
  \<^item> \<open>Rw_Conflict\<close>: \<open>checkRWSetConflicts\<close> is the overlap of the locations read and written.
  \<^item> \<open>Committer\<close>: \<open>CommitLegacy\<close>, \<open>processBlockWithDAG\<close> and the goroutines of a level (\<open>level_step\<close>): every interleaving
    gives the sequential result, no level hangs, which flags the ledger gets and when the committer panics.

  \<^bold>\<open>Endorser and shards\<close> (\<^verbatim>\<open>core/endorser\<close>).
  \<^item> \<open>Proposal\<close>: unpacking and validating a proposal (\<^verbatim>\<open>msgvalidation.go\<close>, \<^verbatim>\<open>protoutil\<close>).
  \<^item> \<open>Endorser_Deps\<close>: the dependency keys and the policies of a simulation (\<^verbatim>\<open>utils.go\<close>, \<^verbatim>\<open>metadata.go\<close>).
  \<^item> \<open>Endorser\<close>: \<open>ProcessProposal\<close> with the simulation, the calls of the shards and the endorsement (\<^verbatim>\<open>endorser.go\<close>,
    \<^verbatim>\<open>chaincode.go\<close>); which checks a proposal has passed, and what goes wrong with the simulator and the proofs.
  \<^item> \<open>Leader_Endorser\<close>, \<open>Circuit_Breaker\<close>: the leader's own map of dependencies with its health checks, and the
    breaker under overlapping calls (\<open>cb_step\<close>).
  \<^item> \<open>Shard_Leader\<close>: batching, serialising and applying the requests of a shard (\<^verbatim>\<open>sharding/shard_leader.go\<close>,
    \<^verbatim>\<open>types.go\<close>): the map refines the log, replicas agree, batches lose nothing on the way to Raft (\<open>flow_step\<close>).
  \<^item> \<open>Shard_Manager\<close>: creating shards, also concurrently (\<open>caller_step\<close>), and the transport (\<^verbatim>\<open>shard_manager.go\<close>,
    \<^verbatim>\<open>transport_grpc.go\<close>).

  \<^bold>\<open>Ledger\<close> (\<^verbatim>\<open>core/ledger\<close>, below \<^verbatim>\<open>kvledger/txmgmt\<close> unless noted).
  \<^item> \<open>Version_Height\<close>: heights and their order-preserving encoding (\<^verbatim>\<open>internal/version\<close>, \<^verbatim>\<open>common/ledger/util\<close>).
  \<^item> \<open>Update_Batch\<close>, \<open>Versioned_DB\<close>: batches, and the contract of the state database; \<open>keyed_batch\<close> is shared by all
    maps that are written key by key.
  \<^item> \<open>Level_DB\<close>, \<open>Level_State\<close>, \<open>Snapshot\<close>: named databases in one LevelDB (\<^verbatim>\<open>common/ledger/util/leveldbhelper\<close>), the state
    database on it (\<^verbatim>\<open>statedb/stateleveldb\<close>) and its export and import.  \<open>level_store\<close> is what goleveldb promises;
    \<open>level_state_at\<close> and \<open>level_privacy\<close> show that the state database meets \<open>versioned_db\<close> and \<open>privacy_db\<close>, the contracts its
    clients are verified against.
  \<^item> \<open>Privacy_DB\<close>: public, private and hashed data in one database (\<^verbatim>\<open>privacyenabledstate\<close>).
  \<^item> \<open>Range_Query\<close>, \<open>Merkle\<close>: the iterator over the database and the pending updates, the validators of range queries
    and the Merkle summaries (\<^verbatim>\<open>validation\<close>, \<^verbatim>\<open>rwsetutil\<close>).
  \<^item> \<open>Rwset_Proto\<close>, \<open>Rwset_Wire\<close>, \<open>Rwset_Builder\<close>: read-write sets, their messages and their builder (\<^verbatim>\<open>rwsetutil\<close>).
  \<^item> \<open>Tx_Simulator\<close>: the query executor and the simulator (\<^verbatim>\<open>txmgr\<close>): whatever a chaincode does, its read-write set is
    current in the state it ran on.
  \<^item> \<open>Tx_Ops\<close>, \<open>Mvcc\<close>, \<open>Block_Commit\<close>, \<open>Batch_Preparer\<close>: validating a block and preparing and applying its batch
    (\<^verbatim>\<open>validation\<close>): the codes and the state are those of a serial execution of the block.
  \<^item> \<open>Expiry_Keeper\<close>: when private data expires (\<^verbatim>\<open>core/ledger/pvtdatapolicy/btlpolicy.go\<close>, contract \<open>expiring\<close>) and the
    record of it (\<^verbatim>\<open>pvtstatepurgemgmt\<close>, \<open>keeper\<close>): the schedule of a block, its encoding in LevelDB, and that the scan
    for a block finds exactly what was scheduled for it.

  \<^bold>\<open>Bounds.\<close>  No model uses fuel.  The loops that are not structural have a termination proof (\<open>level_loop\<close>, by the nodes
  without a level), or are partial functions for which it is proved that they return (\<open>deleteAll_loop\<close>,
  \<open>retrieve_loop\<close>, the scanners and the import of a snapshot).

  \<^bold>\<open>Not modelled.\<close>  Within the parts above: logging, metrics, the creation of objects from configuration, gRPC and Raft
  themselves, the read-write lock of the transaction manager (a simulation runs on one state), paging of
  CouchDB queries beyond the interface.  Of the transaction manager, \<^verbatim>\<open>lockbased_txmgr.go\<close> and the
  background job of \<^verbatim>\<open>purge_mgr.go\<close> that turns the expiring keys into deletions are left out.  The rest of the repository is the unchanged code of the peer
  and the orderer around these parts (gossip, ordering, membership, chaincode containers, CouchDB, block files,
  command-line tools), of which only the interfaces appear, as arguments.
\<close>

end
